(* ===== verification/Prelude.thy ===== *)
theory Prelude
  imports Main "HOL-Library.Word" "HOL-Library.Char_ord"
begin

text \<open>
  Shared vocabulary of the development.

  The C sources handle text as arrays of \<open>char\<close> that are read as unsigned bytes
  (\<open>(uint8_t)s[i]\<close>). HOL's \<open>char\<close> is exactly an 8-bit value, so text is a
  \<open>string\<close> (a list of \<open>char\<close>) and \<open>byte c\<close> is its unsigned value. Byte classes the
  components share (digits, JSON white space) are defined here once, together with the
  generic list lemmas and the theorem collections the component proofs use.
\<close>

named_theorems byte_simps \<open>evaluation of byte classes on literal characters\<close>
named_theorems feed_simps \<open>one-byte steps of the incremental validators\<close>

abbreviation byte :: "char \<Rightarrow> nat" where
  "byte c \<equiv> of_char c"

lemma byte_less_256 [simp]: "byte c < 256"
  by (rule nat_of_char_less_256)

lemma byte_le_255 [simp]: "byte c \<le> 255"
  using byte_less_256 [of c] by linarith

lemma byte_inject: "byte c = byte d \<longleftrightarrow> c = d"
  by simp

lemma char_of_byte_eq: "byte c = n \<Longrightarrow> c = char_of n"
  by auto

definition is_digit :: "char \<Rightarrow> bool" where
  "is_digit c \<longleftrightarrow> byte CHR ''0'' \<le> byte c \<and> byte c \<le> byte CHR ''9''"

definition is_ws :: "char \<Rightarrow> bool" where
  "is_ws c \<longleftrightarrow> c = CHR '' '' \<or> c = CHR 0x09 \<or> c = CHR 0x0A \<or> c = CHR 0x0D"

definition digit19 :: "char \<Rightarrow> bool" where
  "digit19 c \<longleftrightarrow> byte CHR ''1'' \<le> byte c \<and> byte c \<le> byte CHR ''9''"

lemma digit19_is_digit: "digit19 c \<Longrightarrow> is_digit c"
  by (simp add: digit19_def is_digit_def)

lemma is_digit_cases: "is_digit c \<longleftrightarrow> c = CHR ''0'' \<or> digit19 c"
proof -
  have "byte c = 48 \<longleftrightarrow> c = CHR ''0''"
    using byte_inject [of c "CHR ''0''"] by simp
  then show ?thesis
    by (auto simp: is_digit_def digit19_def)
qed

lemmas [byte_simps] = is_digit_def digit19_def is_ws_def

subsection \<open>Lists\<close>

lemma nth_list_update_below: "i < j \<Longrightarrow> (xs[j := x]) ! i = xs ! i"
  by simp

lemma take_list_update_above: "i \<le> j \<Longrightarrow> take i (xs[j := x]) = take i xs"
  by simp

lemma drop_shorter: "n > 0 \<Longrightarrow> s \<noteq> [] \<Longrightarrow> length (drop n s) < length s"
  by simp

end
