(* ===== verification/Turnstile.thy ===== *)
theory Turnstile
  imports Prelude
begin

text \<open>
  The device turn of \<open>src/scheduler.c\<close>: a FIFO turnstile of two wrapping 32-bit counters
  (\<open>dev_take\<close>, \<open>dev_give\<close>). A thread's local ticket \<open>mine\<close> is kept in \<open>tickets\<close>, in the order the
  tickets were drawn. The interface \<open>fifo_turn\<close> says what a client of a turn may rely on; it is
  interpreted on the two counters, whose refinement to a queue of threads discharges its laws.
\<close>

subsection \<open>The counters\<close>

record turnstile =
  dev_next :: "32 word"
  dev_serving :: "32 word"
  tickets :: "(nat \<times> 32 word) list"

definition turn_init :: turnstile where
  "turn_init = \<lparr>dev_next = 0, dev_serving = 0, tickets = []\<rparr>"

text \<open>\<open>dev_take\<close>: draw a ticket; return when it is served.\<close>

definition dev_draw :: "nat \<Rightarrow> turnstile \<Rightarrow> turnstile" where
  "dev_draw t s = s\<lparr>dev_next := dev_next s + 1, tickets := tickets s @ [(t, dev_next s)]\<rparr>"

definition dev_served :: "nat \<Rightarrow> turnstile \<Rightarrow> bool" where
  "dev_served t s \<longleftrightarrow> (t, dev_serving s) \<in> set (tickets s)"

text \<open>\<open>dev_give\<close>, by thread \<open>t\<close>, whose \<open>mine\<close> goes out of scope.\<close>

definition dev_give :: "nat \<Rightarrow> turnstile \<Rightarrow> turnstile" where
  "dev_give t s = s\<lparr>dev_serving := dev_serving s + 1, tickets := filter (\<lambda>(u, _). u \<noteq> t) (tickets s)\<rparr>"

subsection \<open>The interface\<close>

text \<open>\<open>queue\<close> is the abstract value: the threads that drew a ticket and have not given the turn
  back, first come first.\<close>

locale fifo_turn =
  fixes ok :: "'s \<Rightarrow> bool" and queue :: "'s \<Rightarrow> nat list" and init :: 's
    and draw :: "nat \<Rightarrow> 's \<Rightarrow> 's" and served :: "nat \<Rightarrow> 's \<Rightarrow> bool" and give :: "nat \<Rightarrow> 's \<Rightarrow> 's"
    and cap :: nat
  assumes init_ok: "ok init" and init_queue: "queue init = []"
    and draw_ok: "ok s \<Longrightarrow> t \<notin> set (queue s) \<Longrightarrow> length (queue s) < cap \<Longrightarrow> ok (draw t s)"
    and draw_queue: "ok s \<Longrightarrow> t \<notin> set (queue s) \<Longrightarrow> length (queue s) < cap \<Longrightarrow> queue (draw t s) = queue s @ [t]"
    and served_head: "ok s \<Longrightarrow> served t s \<longleftrightarrow> queue s \<noteq> [] \<and> hd (queue s) = t"
    and give_ok: "ok s \<Longrightarrow> served t s \<Longrightarrow> ok (give t s)"
    and give_queue: "ok s \<Longrightarrow> served t s \<Longrightarrow> queue (give t s) = tl (queue s)"
    and ok_distinct: "ok s \<Longrightarrow> distinct (queue s)"
begin

text \<open>Mutual exclusion.\<close>

lemma served_unique: "ok s \<Longrightarrow> served t s \<Longrightarrow> served u s \<Longrightarrow> t = u"
  by (simp add: served_head)

lemma served_waiting: "ok s \<Longrightarrow> served t s \<Longrightarrow> t \<in> set (queue s)"
  by (auto simp: served_head)

text \<open>Nobody is overtaken: what happens to the queue leaves the order of those in it alone, and a
  turn that is given goes to the thread that has waited longest.\<close>

lemma give_next: "ok s \<Longrightarrow> served t s \<Longrightarrow> queue s = t # u # q \<Longrightarrow> served u (give t s)"
  by (simp add: served_head give_ok give_queue)

lemma someone_served: "ok s \<Longrightarrow> queue s \<noteq> [] \<Longrightarrow> \<exists>t. served t s"
  by (auto simp: served_head)

text \<open>Giving the turn \<open>n\<close> times, each time by whoever holds it.\<close>

fun gives :: "nat \<Rightarrow> 's \<Rightarrow> 's" where
  "gives 0 s = s"
| "gives (Suc n) s = gives n (give (hd (queue s)) s)"

lemma gives_queue: "ok s \<Longrightarrow> n \<le> length (queue s) \<Longrightarrow> ok (gives n s) \<and> queue (gives n s) = drop n (queue s)"
proof (induction n arbitrary: s)
  case (Suc n)
  then have sv: "served (hd (queue s)) s" by (auto simp: served_head)
  show ?case
    using Suc.IH [of "give (hd (queue s)) s"] Suc.prems sv by (simp add: give_ok give_queue drop_Suc)
qed simp

lemma served_after: "ok s \<Longrightarrow> n < length (queue s) \<Longrightarrow> served (queue s ! n) (gives n s)"
  using gives_queue [of s n] by (simp add: served_head hd_drop_conv_nth)

end

subsection \<open>The counters implement the interface\<close>

definition turn_queue :: "turnstile \<Rightarrow> nat list" where
  "turn_queue s = map fst (tickets s)"

text \<open>The tickets out are consecutive from \<open>dev_serving\<close>, and fewer than 2^32, so that no two of
  them are equal after the counters wrap.\<close>

definition turn_ok :: "turnstile \<Rightarrow> bool" where
  "turn_ok s \<longleftrightarrow>
     map snd (tickets s) = map (\<lambda>k. dev_serving s + word_of_nat k) [0..<length (tickets s)] \<and>
     dev_next s = dev_serving s + word_of_nat (length (tickets s)) \<and>
     distinct (map fst (tickets s)) \<and> length (tickets s) < 2 ^ 32"

definition turn_cap :: nat where
  "turn_cap = 2 ^ 32 - 1"

lemma turn_first:
  assumes "turn_ok s" "(t, dev_serving s) \<in> set (tickets s)"
  shows "\<exists>ts. tickets s = (t, dev_serving s) # ts"
proof -
  obtain k where k: "k < length (tickets s)" "tickets s ! k = (t, dev_serving s)"
    using assms(2) by (meson in_set_conv_nth)
  have "map snd (tickets s) ! k = dev_serving s + word_of_nat k"
    using assms(1) k(1) by (simp add: turn_ok_def)
  then have "(word_of_nat k :: 32 word) = 0" using k by simp
  moreover have "k < 2 ^ 32" using assms(1) k(1) by (simp add: turn_ok_def)
  moreover have "unat (word_of_nat k :: 32 word) = k" using calculation(2) by (simp add: unsigned_of_nat take_bit_nat_eq_self)
  ultimately have "k = 0" by simp
  then show ?thesis using k by (cases "tickets s") auto
qed

lemma turn_served_head:
  assumes "turn_ok s"
  shows "dev_served t s \<longleftrightarrow> turn_queue s \<noteq> [] \<and> hd (turn_queue s) = t"
proof
  assume "dev_served t s"
  then show "turn_queue s \<noteq> [] \<and> hd (turn_queue s) = t"
    using turn_first [OF assms, of t] by (fastforce simp: dev_served_def turn_queue_def)
next
  assume q: "turn_queue s \<noteq> [] \<and> hd (turn_queue s) = t"
  then obtain w ts where ts: "tickets s = (t, w) # ts" by (cases "tickets s") (auto simp: turn_queue_def)
  have m: "map snd (tickets s) = map (\<lambda>k. dev_serving s + word_of_nat k) [0..<length (tickets s)]"
    using assms by (simp only: turn_ok_def)
  have "map (\<lambda>k. dev_serving s + word_of_nat k) [0..<length (tickets s)] ! 0 = dev_serving s"
    using ts by (simp del: upt_Suc)
  then have "map snd (tickets s) ! 0 = dev_serving s" by (simp only: m)
  then show "dev_served t s" using ts by (simp add: dev_served_def)
qed

lemma turn_draw:
  assumes "turn_ok s" "t \<notin> set (turn_queue s)" "length (turn_queue s) < turn_cap"
  shows "turn_ok (dev_draw t s)" "turn_queue (dev_draw t s) = turn_queue s @ [t]"
  using assms by (simp_all add: turn_ok_def dev_draw_def turn_queue_def turn_cap_def add.assoc)

lemma turn_give:
  assumes "turn_ok s" "dev_served t s"
  shows "turn_ok (dev_give t s) \<and> turn_queue (dev_give t s) = tl (turn_queue s)"
proof -
  obtain ts where ts: "tickets s = (t, dev_serving s) # ts"
    using turn_first [OF assms(1)] assms(2) by (auto simp: dev_served_def)
  have d: "t \<notin> fst ` set ts" "distinct (map fst ts)" using assms(1) ts by (simp_all add: turn_ok_def)
  have f: "filter (\<lambda>(u, _). u \<noteq> t) (tickets s) = ts"
    using d ts by (auto intro!: filter_True simp: image_iff)
  have m: "map snd (tickets s) = map (\<lambda>k. dev_serving s + word_of_nat k) [0..<Suc (length ts)]"
    using assms(1) ts by (simp add: turn_ok_def)
  have "map snd ts = map (\<lambda>k. dev_serving s + word_of_nat k) [1..<Suc (length ts)]"
    using arg_cong [OF m, of tl] ts by (simp add: upt_rec [of 0] del: upt_Suc flip: map_tl)
  also have "\<dots> = map (\<lambda>k. (dev_serving s + 1) + word_of_nat k) [0..<length ts]"
    by (simp only: map_Suc_upt [symmetric] map_map One_nat_def) (simp add: comp_def algebra_simps)
  finally show ?thesis
    using assms(1) ts d f by (simp add: turn_ok_def dev_give_def turn_queue_def algebra_simps)
qed

lemma turn_distinct: "turn_ok s \<Longrightarrow> distinct (turn_queue s)"
  by (simp add: turn_ok_def turn_queue_def)

interpretation turn: fifo_turn turn_ok turn_queue turn_init dev_draw dev_served dev_give turn_cap
proof unfold_locales
  show "turn_ok turn_init" "turn_queue turn_init = []"
    by (simp_all add: turn_ok_def turn_init_def turn_queue_def)
qed (use turn_served_head turn_draw turn_give turn_distinct in blast)+

end
