(* ===== verification/Scheduler.thy ===== *)
theory Scheduler
  imports Turnstile
begin

text \<open>
  The continuous-batching scheduler of \<open>src/scheduler.c\<close> as a step relation on the shared state
  \<open>SCH\<close>, the decode thread and the slot threads. A step is what a thread does between two
  points at which another can run: a section under \<open>SCH.mu\<close> up to a condition wait, or a call
  made without the lock. Waits with a timeout may end at any time. \<open>model_batch_decode\<close> is the
  parameter \<open>decodes\<close>: what it may return for a batch, \<open>None\<close> for false, and otherwise the row
  of logits for each position of the batch. \<open>device_turn\<close> is the field of that name. Allocation,
  creation and destruction of threads and locks (\<open>sched_start\<close>, the end of \<open>sched_shutdown\<close>) are
  not modelled. The turnstile's threads are 0 for the decode thread and \<open>i + 1\<close> for slot \<open>i\<close>.
\<close>

subsection \<open>State\<close>

datatype seq_state = SEQ_OFF | SEQ_WAIT | SEQ_INFLIGHT | SEQ_READY

text \<open>\<open>q_logits\<close> is \<open>None\<close> until it is first written.\<close>

record 'l seq_t =
  q_state :: seq_state
  q_tok :: int
  q_pos :: int
  q_logits :: "'l option"
  q_ok :: bool

record 'l sched =
  sch_seq :: "'l seq_t list"
  n_wait :: int
  n_active :: int
  sch_stop :: bool
  sch_steps :: nat
  seqs_batched :: nat

text \<open>The arrays \<open>idx\<close>, \<open>tk\<close> and \<open>ps\<close> of the decode thread.\<close>

type_synonym batch = "(nat \<times> int \<times> int) list"

text \<open>Where the decode thread is: waiting for work, gathering, before \<open>dev_take\<close>, in it, before
  the decode, before \<open>dev_give\<close>, before the last critical section, gone.\<close>

datatype worker = W_idle | W_gather | W_take batch | W_turn batch | W_decode batch
  | W_give batch bool | W_publish batch bool | W_exit

text \<open>Where a slot thread is: not generating, in the loop of \<open>sched_generate\<close>, waiting in
  \<open>sched_forward\<close>, leaving the loop after NULL, in \<open>dev_take\<close>, holding the turn (a prefill or a
  solo generation).\<close>

datatype slot = P_idle | P_gen | P_forward int int | P_fail | P_drawn | P_turn

record 'l sys =
  sch :: "'l sched"
  wrk :: worker
  slots :: "slot list"
  trn :: turnstile

subsection \<open>The operations under the lock\<close>

definition is_wait :: "'l seq_t \<Rightarrow> bool" where
  "is_wait q \<longleftrightarrow> q_state q = SEQ_WAIT"

text \<open>Cutting the microbatch.\<close>

fun cut_from :: "nat \<Rightarrow> 'l seq_t list \<Rightarrow> batch \<times> 'l seq_t list" where
  "cut_from i [] = ([], [])"
| "cut_from i (q # qs) =
     (case cut_from (i + 1) qs of
        (b, qs') \<Rightarrow>
          if \<not> is_wait q then (b, q # qs')
          else ((i, q_tok q, q_pos q) # b, q\<lparr>q_state := SEQ_INFLIGHT\<rparr> # qs'))"

definition decode_cut :: "'l sched \<Rightarrow> batch \<times> 'l sched" where
  "decode_cut c =
     (case cut_from 0 (sch_seq c) of
        (b, qs) \<Rightarrow> (b, c\<lparr>sch_seq := qs, n_wait := n_wait c - int (length b)\<rparr>))"

definition set_seq :: "nat \<Rightarrow> ('l seq_t \<Rightarrow> 'l seq_t) \<Rightarrow> 'l sched \<Rightarrow> 'l sched" where
  "set_seq i f c = c\<lparr>sch_seq := (sch_seq c)[i := f (sch_seq c ! i)]\<rparr>"

text \<open>Each row is copied home; then every sequence of the batch is made ready.\<close>

fun copy_rows :: "nat \<Rightarrow> batch \<Rightarrow> (nat \<Rightarrow> 'l) \<Rightarrow> 'l sched \<Rightarrow> 'l sched" where
  "copy_rows k [] out c = c"
| "copy_rows k ((i, _, _) # b) out c =
     copy_rows (k + 1) b out (set_seq i (\<lambda>q. q\<lparr>q_logits := Some (out k)\<rparr>) c)"

fun publish :: "batch \<Rightarrow> bool \<Rightarrow> 'l sched \<Rightarrow> 'l sched" where
  "publish [] ok c = c"
| "publish ((i, _, _) # b) ok c =
     publish b ok (set_seq i (\<lambda>q. q\<lparr>q_ok := ok, q_state := SEQ_READY\<rparr>) c)"

text \<open>The parts of \<open>sched_forward\<close>: entering, giving up at the deadline, and leaving.\<close>

definition forward_enter :: "nat \<Rightarrow> int \<Rightarrow> int \<Rightarrow> 'l sched \<Rightarrow> 'l sched" where
  "forward_enter i tok p c =
     (set_seq i (\<lambda>q. q\<lparr>q_tok := tok, q_pos := p, q_state := SEQ_WAIT\<rparr>) c)\<lparr>n_wait := n_wait c + 1\<rparr>"

definition forward_drop :: "nat \<Rightarrow> 'l sched \<Rightarrow> 'l sched" where
  "forward_drop i c = (set_seq i (\<lambda>q. q\<lparr>q_state := SEQ_OFF\<rparr>) c)\<lparr>n_wait := n_wait c - 1\<rparr>"

definition forward_leave :: "nat \<Rightarrow> 'l sched \<Rightarrow> 'l option \<times> 'l sched" where
  "forward_leave i c =
     (let q = sch_seq c ! i; ok = (q_state q = SEQ_READY \<and> q_ok q)
      in (if ok then q_logits q else None, set_seq i (\<lambda>q. q\<lparr>q_state := SEQ_OFF\<rparr>) c))"

definition sched_batch_totals :: "'l sched \<Rightarrow> nat \<times> nat" where
  "sched_batch_totals c = (sch_steps c, seqs_batched c)"

text \<open>How long the decode thread gathers: until everyone active is here (or a full batch), unless
  it is stopped; a timeout ends the wait as well, so \<open>worker_cut\<close> is always possible.\<close>

definition gathered :: "int \<Rightarrow> 'l sched \<Rightarrow> bool" where
  "gathered cap c \<longleftrightarrow> sch_stop c \<or> n_wait c \<ge> (if n_active c < cap then n_active c else cap)"

subsection \<open>Steps\<close>

text \<open>\<open>Worker\<close>: a step of the decode thread; \<open>Turn i\<close>: slot \<open>i\<close> obtains or gives back the turn;
  \<open>Asked\<close> and \<open>Returned\<close>: a call of \<open>sched_forward\<close> and its return (\<open>None\<close> is NULL).\<close>

datatype 'l event = Worker | Turn nat | Asked nat int int | Returned nat int int "'l option" | Other

inductive decode_step :: "(batch \<Rightarrow> (nat \<Rightarrow> 'l) option \<Rightarrow> bool) \<Rightarrow> bool \<Rightarrow> 'l sys \<Rightarrow> 'l sys \<Rightarrow> bool"
  for decodes :: "batch \<Rightarrow> (nat \<Rightarrow> 'l) option \<Rightarrow> bool" and device_turn :: bool where
  dw_wake: "wrk s = W_idle \<Longrightarrow> \<not> sch_stop (sch s) \<Longrightarrow> n_wait (sch s) \<noteq> 0 \<Longrightarrow>
    decode_step decodes device_turn s (s\<lparr>wrk := W_gather\<rparr>)"
| dw_exit: "wrk s = W_idle \<Longrightarrow> sch_stop (sch s) \<Longrightarrow>
    decode_step decodes device_turn s (s\<lparr>wrk := W_exit\<rparr>)"
| dw_cut: "wrk s = W_gather \<Longrightarrow> decode_cut (sch s) = (b, c) \<Longrightarrow>
    decode_step decodes device_turn s (s\<lparr>sch := c, wrk := (if b = [] then W_idle else W_take b)\<rparr>)"
| dw_draw: "wrk s = W_take b \<Longrightarrow> device_turn \<Longrightarrow>
    decode_step decodes device_turn s (s\<lparr>trn := dev_draw 0 (trn s), wrk := W_turn b\<rparr>)"
| dw_free: "wrk s = W_take b \<Longrightarrow> \<not> device_turn \<Longrightarrow>
    decode_step decodes device_turn s (s\<lparr>wrk := W_decode b\<rparr>)"
| dw_turn: "wrk s = W_turn b \<Longrightarrow> dev_served 0 (trn s) \<Longrightarrow>
    decode_step decodes device_turn s (s\<lparr>wrk := W_decode b\<rparr>)"
| dw_decode: "wrk s = W_decode b \<Longrightarrow> decodes b (Some out) \<Longrightarrow>
    decode_step decodes device_turn s (s\<lparr>sch := copy_rows 0 b out (sch s), wrk := W_give b True\<rparr>)"
| dw_decode_failed: "wrk s = W_decode b \<Longrightarrow> decodes b None \<Longrightarrow>
    decode_step decodes device_turn s (s\<lparr>wrk := W_give b False\<rparr>)"
| dw_give: "wrk s = W_give b ok \<Longrightarrow>
    decode_step decodes device_turn s
      (s\<lparr>trn := (if device_turn then dev_give 0 (trn s) else trn s),
         sch := (sch s)\<lparr>sch_steps := sch_steps (sch s) + 1, seqs_batched := seqs_batched (sch s) + length b\<rparr>,
         wrk := W_publish b ok\<rparr>)"
| dw_publish: "wrk s = W_publish b ok \<Longrightarrow>
    decode_step decodes device_turn s (s\<lparr>sch := publish b ok (sch s), wrk := W_idle\<rparr>)"

text \<open>The slot threads: \<open>sched_prefill_begin\<close>, \<open>sched_prefill_end\<close>, \<open>sched_forward\<close> and
  \<open>sched_generate\<close>.\<close>

inductive slot_step :: "bool \<Rightarrow> 'l sys \<Rightarrow> 'l event \<Rightarrow> 'l sys \<Rightarrow> bool"
  for device_turn :: bool where
  thread_begin: "i < length (slots s) \<Longrightarrow> slots s ! i = P_idle \<Longrightarrow>
    slot_step device_turn s Other
      (s\<lparr>sch := (sch s)\<lparr>n_active := n_active (sch s) + 1\<rparr>, slots := (slots s)[i := P_gen]\<rparr>)"
| thread_forward: "i < length (slots s) \<Longrightarrow> slots s ! i = P_gen \<Longrightarrow> \<not> sch_stop (sch s) \<Longrightarrow>
    slot_step device_turn s (Asked i tok p)
      (s\<lparr>sch := forward_enter i tok p (sch s), slots := (slots s)[i := P_forward tok p]\<rparr>)"
| thread_forward_stopped: "i < length (slots s) \<Longrightarrow> slots s ! i = P_gen \<Longrightarrow> sch_stop (sch s) \<Longrightarrow>
    forward_leave i (forward_enter i tok p (sch s)) = (r, c) \<Longrightarrow>
    slot_step device_turn s (Returned i tok p r) (s\<lparr>sch := c, slots := (slots s)[i := P_fail]\<rparr>)"
| thread_deadline: "i < length (slots s) \<Longrightarrow> slots s ! i = P_forward tok p \<Longrightarrow> \<not> sch_stop (sch s) \<Longrightarrow>
    is_wait (sch_seq (sch s) ! i) \<Longrightarrow>
    slot_step device_turn s (Returned i tok p None)
      (s\<lparr>sch := forward_drop i (sch s), slots := (slots s)[i := P_fail]\<rparr>)"
| thread_return: "i < length (slots s) \<Longrightarrow> slots s ! i = P_forward tok p \<Longrightarrow>
    q_state (sch_seq (sch s) ! i) = SEQ_READY \<or> sch_stop (sch s) \<Longrightarrow> forward_leave i (sch s) = (r, c) \<Longrightarrow>
    slot_step device_turn s (Returned i tok p r)
      (s\<lparr>sch := c, slots := (slots s)[i := (if r = None then P_fail else P_gen)]\<rparr>)"
| thread_end: "i < length (slots s) \<Longrightarrow> slots s ! i = P_gen \<or> slots s ! i = P_fail \<Longrightarrow>
    slot_step device_turn s Other
      (s\<lparr>sch := (sch s)\<lparr>n_active := n_active (sch s) - 1\<rparr>, slots := (slots s)[i := P_idle]\<rparr>)"
| thread_draw: "i < length (slots s) \<Longrightarrow> slots s ! i = P_idle \<Longrightarrow> device_turn \<Longrightarrow>
    slot_step device_turn s Other (s\<lparr>trn := dev_draw (i + 1) (trn s), slots := (slots s)[i := P_drawn]\<rparr>)"
| thread_turn: "i < length (slots s) \<Longrightarrow> slots s ! i = P_drawn \<Longrightarrow> dev_served (i + 1) (trn s) \<Longrightarrow>
    slot_step device_turn s (Turn i) (s\<lparr>slots := (slots s)[i := P_turn]\<rparr>)"
| thread_give: "i < length (slots s) \<Longrightarrow> slots s ! i = P_turn \<Longrightarrow>
    slot_step device_turn s (Turn i) (s\<lparr>trn := dev_give (i + 1) (trn s), slots := (slots s)[i := P_idle]\<rparr>)"

text \<open>Any thread may take the next step; \<open>sched_shutdown\<close> may be called at any time.\<close>

inductive sstep :: "(batch \<Rightarrow> (nat \<Rightarrow> 'l) option \<Rightarrow> bool) \<Rightarrow> bool \<Rightarrow> 'l sys \<Rightarrow> 'l event \<Rightarrow> 'l sys \<Rightarrow> bool"
  for decodes :: "batch \<Rightarrow> (nat \<Rightarrow> 'l) option \<Rightarrow> bool" and device_turn :: bool where
  step_decode: "decode_step decodes device_turn s s' \<Longrightarrow> sstep decodes device_turn s Worker s'"
| step_slot: "slot_step device_turn s e s' \<Longrightarrow> sstep decodes device_turn s e s'"
| shutdown: "sstep decodes device_turn s Other (s\<lparr>sch := (sch s)\<lparr>sch_stop := True\<rparr>\<rparr>)"

lemmas worker_wake = dw_wake [THEN step_decode]
lemmas worker_exit = dw_exit [THEN step_decode]
lemmas worker_cut = dw_cut [THEN step_decode]
lemmas worker_draw = dw_draw [THEN step_decode]
lemmas worker_free = dw_free [THEN step_decode]
lemmas worker_turn = dw_turn [THEN step_decode]
lemmas worker_decode = dw_decode [THEN step_decode]
lemmas worker_decode_failed = dw_decode_failed [THEN step_decode]
lemmas worker_give = dw_give [THEN step_decode]
lemmas worker_publish = dw_publish [THEN step_decode]

lemmas slot_begin = thread_begin [THEN step_slot]
lemmas slot_forward = thread_forward [THEN step_slot]
lemmas slot_forward_stopped = thread_forward_stopped [THEN step_slot]
lemmas slot_deadline = thread_deadline [THEN step_slot]
lemmas slot_return = thread_return [THEN step_slot]
lemmas slot_end = thread_end [THEN step_slot]
lemmas slot_draw = thread_draw [THEN step_slot]
lemmas slot_turn = thread_turn [THEN step_slot]
lemmas slot_give = thread_give [THEN step_slot]

inductive_cases decode_stepE: "decode_step decodes device_turn s s'"
inductive_cases slot_stepE: "slot_step device_turn s e s'"
inductive_cases slot_returnedE: "slot_step device_turn s (Returned i tok p r) s'"
inductive_cases sstepE: "sstep decodes device_turn s e s'"

text \<open>After \<open>sched_start\<close> with \<open>n\<close> slots.\<close>

definition sched_init :: "nat \<Rightarrow> 'l sys" where
  "sched_init n =
     \<lparr>sch = \<lparr>sch_seq = replicate n \<lparr>q_state = SEQ_OFF, q_tok = 0, q_pos = 0, q_logits = None, q_ok = False\<rparr>,
             n_wait = 0, n_active = 0, sch_stop = False, sch_steps = 0, seqs_batched = 0\<rparr>,
      wrk = W_idle, slots = replicate n P_idle, trn = turn_init\<rparr>"

inductive reachable :: "(batch \<Rightarrow> (nat \<Rightarrow> 'l) option \<Rightarrow> bool) \<Rightarrow> bool \<Rightarrow> nat \<Rightarrow> 'l sys \<Rightarrow> bool"
  for decodes device_turn n where
  reach_init: "reachable decodes device_turn n (sched_init n)"
| reach_step: "reachable decodes device_turn n s \<Longrightarrow> sstep decodes device_turn s e s' \<Longrightarrow>
    reachable decodes device_turn n s'"

end
