(* ===== verification/Scheduler_Laws.thy ===== *)
theory Scheduler_Laws
  imports Scheduler
begin

text \<open>
  What the batching scheduler guarantees under every interleaving: the invariant of the sequences
  (\<open>seq_inv\<close>: the counts are exact, a batch only holds sequences whose slots wait for it, and a row
  that can still be returned was computed for its request), the invariant of the device turn
  (\<open>turn_inv\<close>), and the progress of a waiting request, with the properties that follow. The
  turnstile enters only through the interpretation \<open>turn\<close> of its interface.
\<close>

subsection \<open>Lists\<close>

lemma filter_update_count:
  "i < length xs \<Longrightarrow> int (length (filter P (xs[i := x]))) =
     int (length (filter P xs)) - of_bool (P (xs ! i)) + of_bool (P x)"
proof (induction xs arbitrary: i)
  case (Cons a xs)
  then show ?case by (cases i) auto
qed simp

subsection \<open>The operations\<close>

definition waits_from :: "nat \<Rightarrow> 'l seq_t list \<Rightarrow> (nat \<times> int \<times> int) set" where
  "waits_from i qs = {(i + k, q_tok (qs ! k), q_pos (qs ! k)) | k. k < length qs \<and> is_wait (qs ! k)}"

lemma waits_from_Cons:
  "waits_from i (q # qs) = (if is_wait q then {(i, q_tok q, q_pos q)} else {}) \<union> waits_from (i + 1) qs"
  unfolding waits_from_def
  by (auto simp: less_Suc_eq_0_disj)

lemma waits_from_ge: "(j, r) \<in> waits_from i qs \<Longrightarrow> i \<le> j"
  by (auto simp: waits_from_def)

lemma cut_from_all:
  "cut_from i qs = (b, qs') \<Longrightarrow>
     qs' = map (\<lambda>q. if is_wait q then q\<lparr>q_state := SEQ_INFLIGHT\<rparr> else q) qs \<and>
     length b = length (filter is_wait qs) \<and> set b = waits_from i qs \<and> distinct (map fst b)"
proof (induction i qs arbitrary: b qs' rule: cut_from.induct)
  case (1 i)
  then show ?case by (simp add: waits_from_def)
next
  case (2 i q qs)
  obtain c ps where c: "cut_from (i + 1) qs = (c, ps)" by (cases "cut_from (i + 1) qs")
  note IH = "2.IH" [OF c]
  have "i \<notin> fst ` set c" using IH waits_from_ge [of i _ "i + 1" qs] by fastforce
  then show ?case
    using "2.prems" c IH by (auto simp: waits_from_Cons split: if_splits)
qed

lemma cut_from_spec:
  assumes "cut_from 0 qs = (b, qs')"
  shows "qs' = map (\<lambda>q. if is_wait q then q\<lparr>q_state := SEQ_INFLIGHT\<rparr> else q) qs"
    "length b = length (filter is_wait qs)" "distinct (map fst b)"
    "(i, t, p) \<in> set b \<longleftrightarrow> i < length qs \<and> is_wait (qs ! i) \<and> t = q_tok (qs ! i) \<and> p = q_pos (qs ! i)"
    "i \<in> fst ` set b \<longleftrightarrow> i < length qs \<and> is_wait (qs ! i)"
  using cut_from_all [OF assms] by (force simp: waits_from_def)+

lemma set_seq_fields [simp]:
  "n_wait (set_seq i f c) = n_wait c" "n_active (set_seq i f c) = n_active c" "sch_stop (set_seq i f c) = sch_stop c"
  "length (sch_seq (set_seq i f c)) = length (sch_seq c)"
  by (simp_all add: set_seq_def)

lemma set_seq_nth:
  "k < length (sch_seq c) \<Longrightarrow> sch_seq (set_seq i f c) ! k = (if i = k then f (sch_seq c ! i) else sch_seq c ! k)"
  by (simp add: set_seq_def nth_list_update)

lemma copy_rows_fields [simp]:
  "n_wait (copy_rows k b out c) = n_wait c" "n_active (copy_rows k b out c) = n_active c"
  "sch_stop (copy_rows k b out c) = sch_stop c" "length (sch_seq (copy_rows k b out c)) = length (sch_seq c)"
  by (induction k b out c rule: copy_rows.induct) auto

lemma copy_rows_nth:
  "j < length (sch_seq c) \<Longrightarrow>
     q_state (sch_seq (copy_rows k b out c) ! j) = q_state (sch_seq c ! j) \<and>
     q_tok (sch_seq (copy_rows k b out c) ! j) = q_tok (sch_seq c ! j) \<and>
     q_pos (sch_seq (copy_rows k b out c) ! j) = q_pos (sch_seq c ! j) \<and>
     q_ok (sch_seq (copy_rows k b out c) ! j) = q_ok (sch_seq c ! j) \<and>
     (j \<notin> fst ` set b \<longrightarrow> q_logits (sch_seq (copy_rows k b out c) ! j) = q_logits (sch_seq c ! j))"
  by (induction k b out c rule: copy_rows.induct) (auto simp: set_seq_nth)

lemma copy_rows_logits:
  "distinct (map fst b) \<Longrightarrow> m < length b \<Longrightarrow> fst (b ! m) < length (sch_seq c) \<Longrightarrow>
     q_logits (sch_seq (copy_rows k b out c) ! fst (b ! m)) = Some (out (k + m))"
proof (induction k b out c arbitrary: m rule: copy_rows.induct)
  case (2 k i t p b out c)
  show ?case
  proof (cases m)
    case 0
    then have "i \<notin> fst ` set b" using 2 by simp
    then show ?thesis using "2.prems" 0 copy_rows_nth [of i "set_seq i (\<lambda>q. q\<lparr>q_logits := Some (out k)\<rparr>) c" "k + 1" b out]
      by (simp add: set_seq_nth)
  next
    case (Suc j)
    then show ?thesis using 2 by simp
  qed
qed simp

lemma publish_fields [simp]:
  "n_wait (publish b ok c) = n_wait c" "n_active (publish b ok c) = n_active c"
  "sch_stop (publish b ok c) = sch_stop c" "length (sch_seq (publish b ok c)) = length (sch_seq c)"
  by (induction b ok c rule: publish.induct) auto

lemma publish_nth:
  "j < length (sch_seq c) \<Longrightarrow>
     q_state (sch_seq (publish b ok c) ! j) = (if j \<in> fst ` set b then SEQ_READY else q_state (sch_seq c ! j)) \<and>
     q_ok (sch_seq (publish b ok c) ! j) = (if j \<in> fst ` set b then ok else q_ok (sch_seq c ! j)) \<and>
     q_tok (sch_seq (publish b ok c) ! j) = q_tok (sch_seq c ! j) \<and>
     q_pos (sch_seq (publish b ok c) ! j) = q_pos (sch_seq c ! j) \<and>
     q_logits (sch_seq (publish b ok c) ! j) = q_logits (sch_seq c ! j)"
  by (induction b ok c rule: publish.induct) (auto simp: set_seq_nth)

subsection \<open>The invariant of the sequences\<close>

fun active_slot :: "slot \<Rightarrow> bool" where
  "active_slot P_gen = True"
| "active_slot (P_forward _ _) = True"
| "active_slot P_fail = True"
| "active_slot _ = False"

fun wbatch :: "worker \<Rightarrow> batch" where
  "wbatch (W_take b) = b"
| "wbatch (W_turn b) = b"
| "wbatch (W_decode b) = b"
| "wbatch (W_give b _) = b"
| "wbatch (W_publish b _) = b"
| "wbatch _ = []"

fun decoded :: "worker \<Rightarrow> bool" where
  "decoded (W_give _ ok) = ok"
| "decoded (W_publish _ ok) = ok"
| "decoded _ = False"

text \<open>A row that was computed for exactly this request: the decode thread decoded a batch that
  contains it, and this is the row at its position.\<close>

definition own_row :: "(batch \<Rightarrow> (nat \<Rightarrow> 'l) option \<Rightarrow> bool) \<Rightarrow> nat \<Rightarrow> int \<Rightarrow> int \<Rightarrow> 'l option \<Rightarrow> bool" where
  "own_row decodes i tok p row \<longleftrightarrow>
     (\<exists>b out k. decodes b (Some out) \<and> distinct (map fst b) \<and> k < length b \<and> b ! k = (i, tok, p) \<and> row = Some (out k))"

text \<open>One slot and its sequence, while the decode thread has batch \<open>b\<close> out.\<close>

definition slot_inv :: "(batch \<Rightarrow> (nat \<Rightarrow> 'l) option \<Rightarrow> bool) \<Rightarrow> bool \<Rightarrow> worker \<Rightarrow> nat \<Rightarrow> slot \<Rightarrow> 'l seq_t \<Rightarrow> bool" where
  "slot_inv decodes stopped w i p q \<longleftrightarrow>
     (case p of
        P_forward tok ps \<Rightarrow>
          q_state q \<noteq> SEQ_OFF \<and> q_tok q = tok \<and> q_pos q = ps \<and>
          (q_state q = SEQ_INFLIGHT \<longleftrightarrow> i \<in> fst ` set (wbatch w)) \<and>
          (i \<in> fst ` set (wbatch w) \<longrightarrow> (i, tok, ps) \<in> set (wbatch w)) \<and>
          (decoded w \<and> i \<in> fst ` set (wbatch w) \<longrightarrow> own_row decodes i tok ps (q_logits q)) \<and>
          (q_state q = SEQ_READY \<and> q_ok q \<longrightarrow> own_row decodes i tok ps (q_logits q))
      | _ \<Rightarrow> q_state q \<noteq> SEQ_WAIT \<and> (\<not> stopped \<longrightarrow> q_state q = SEQ_OFF \<and> i \<notin> fst ` set (wbatch w)))"

definition seq_inv :: "(batch \<Rightarrow> (nat \<Rightarrow> 'l) option \<Rightarrow> bool) \<Rightarrow> 'l sys \<Rightarrow> bool" where
  "seq_inv decodes s \<longleftrightarrow>
     length (sch_seq (sch s)) = length (slots s) \<and>
     n_active (sch s) = int (length (filter active_slot (slots s))) \<and>
     (\<not> sch_stop (sch s) \<longrightarrow> n_wait (sch s) = int (length (filter is_wait (sch_seq (sch s))))) \<and>
     distinct (map fst (wbatch (wrk s))) \<and> (\<forall>i \<in> fst ` set (wbatch (wrk s)). i < length (slots s)) \<and>
     (\<forall>i < length (slots s). slot_inv decodes (sch_stop (sch s)) (wrk s) i (slots s ! i) (sch_seq (sch s) ! i))"


lemma seq_inv_init: "seq_inv decodes (sched_init n)"
  by (auto simp: seq_inv_def sched_init_def slot_inv_def is_wait_def)

lemma seq_invD:
  assumes "seq_inv decodes s"
  shows "length (sch_seq (sch s)) = length (slots s)" "n_active (sch s) = int (length (filter active_slot (slots s)))"
    "\<not> sch_stop (sch s) \<Longrightarrow> n_wait (sch s) = int (length (filter is_wait (sch_seq (sch s))))"
    "distinct (map fst (wbatch (wrk s)))"
    "i \<in> fst ` set (wbatch (wrk s)) \<Longrightarrow> i < length (slots s)"
    "i < length (slots s) \<Longrightarrow> slot_inv decodes (sch_stop (sch s)) (wrk s) i (slots s ! i) (sch_seq (sch s) ! i)"
  using assms unfolding seq_inv_def by blast+

text \<open>A step of one slot: it may change that slot and its sequence, and the counts by what that
  changes.\<close>

lemma seq_inv_slot:
  assumes inv: "seq_inv decodes s" and i: "i < length (slots s)"
    and s': "slots s' = (slots s)[i := p]" "wrk s' = wrk s" "sch_stop (sch s') = sch_stop (sch s)"
      "sch_seq (sch s') = (sch_seq (sch s))[i := q]"
    and a: "n_active (sch s') = n_active (sch s) - of_bool (active_slot (slots s ! i)) + of_bool (active_slot p)"
    and w: "\<not> sch_stop (sch s) \<Longrightarrow>
      n_wait (sch s') = n_wait (sch s) - of_bool (is_wait (sch_seq (sch s) ! i)) + of_bool (is_wait q)"
    and si: "slot_inv decodes (sch_stop (sch s)) (wrk s) i p q"
  shows "seq_inv decodes s'"
  using seq_invD [OF inv] i s' a w si
  by (auto simp: seq_inv_def filter_update_count nth_list_update)

text \<open>A step of the decode thread leaves the slots alone.\<close>

lemma seq_inv_worker:
  assumes inv: "seq_inv decodes s"
    and s': "slots s' = slots s" "sch_stop (sch s') = sch_stop (sch s)" "n_active (sch s') = n_active (sch s)"
      "length (sch_seq (sch s')) = length (sch_seq (sch s))"
    and w: "\<not> sch_stop (sch s) \<Longrightarrow> n_wait (sch s') = int (length (filter is_wait (sch_seq (sch s'))))"
    and b: "distinct (map fst (wbatch (wrk s')))" "\<And>i. i \<in> fst ` set (wbatch (wrk s')) \<Longrightarrow> i < length (slots s)"
    and si: "\<And>i. i < length (slots s) \<Longrightarrow>
      slot_inv decodes (sch_stop (sch s)) (wrk s) i (slots s ! i) (sch_seq (sch s) ! i) \<Longrightarrow>
      slot_inv decodes (sch_stop (sch s)) (wrk s') i (slots s ! i) (sch_seq (sch s') ! i)"
  shows "seq_inv decodes s'"
  using seq_invD [OF inv] s' w b si by (simp add: seq_inv_def)

lemma seq_inv_same:
  assumes "seq_inv decodes s" "slots s' = slots s" "sch_stop (sch s') = sch_stop (sch s)" "n_active (sch s') = n_active (sch s)"
    "sch_seq (sch s') = sch_seq (sch s)" "n_wait (sch s') = n_wait (sch s)" "wbatch (wrk s') = wbatch (wrk s)"
    "decoded (wrk s') = decoded (wrk s)"
  shows "seq_inv decodes s'"
  using assms by (simp add: seq_inv_def slot_inv_def cong: slot.case_cong)

lemma filter_map_wait: "filter (is_wait \<circ> (\<lambda>q. if is_wait q then q\<lparr>q_state := SEQ_INFLIGHT\<rparr> else q)) qs = []"
  by (simp add: filter_empty_conv is_wait_def)

lemma wait_count_cong: "map is_wait xs = map is_wait ys \<Longrightarrow> length (filter is_wait xs) = length (filter is_wait ys)"
proof (induction xs arbitrary: ys)
  case (Cons x xs)
  then show ?case by (cases ys) auto
qed simp

lemma seq_inv_cut:
  assumes inv: "seq_inv decodes s" and g: "wrk s = W_gather" and c: "decode_cut (sch s) = (b, c)"
  shows "seq_inv decodes (s\<lparr>sch := c, wrk := (if b = [] then W_idle else W_take b)\<rparr>)"
proof -
  obtain qs where q: "cut_from 0 (sch_seq (sch s)) = (b, qs)" "c = (sch s)\<lparr>sch_seq := qs, n_wait := n_wait (sch s) - int (length b)\<rparr>"
    using c by (auto simp: decode_cut_def split: prod.splits)
  note cut = cut_from_spec [OF q(1)]
  note D = seq_invD [OF inv]
  have wb: "wbatch (if b = [] then W_idle else W_take b) = b" by simp
  have dc: "\<not> decoded (if b = [] then W_idle else W_take b)" by simp
  show ?thesis
  proof (rule seq_inv_worker [OF inv])
    fix i assume i: "i < length (slots s)"
      and si: "slot_inv decodes (sch_stop (sch s)) (wrk s) i (slots s ! i) (sch_seq (sch s) ! i)"
    show "slot_inv decodes (sch_stop (sch s)) (wrk (s\<lparr>sch := c, wrk := (if b = [] then W_idle else W_take b)\<rparr>)) i
      (slots s ! i) (sch_seq (sch (s\<lparr>sch := c, wrk := (if b = [] then W_idle else W_take b)\<rparr>)) ! i)"
      using si i g D(1) cut(4) [of i] cut(5) [of i]
      by (cases "b = []") (auto simp: slot_inv_def q(2) cut(1) is_wait_def split: slot.splits)
  next
    fix i assume "i \<in> fst ` set (wbatch (wrk (s\<lparr>sch := c, wrk := (if b = [] then W_idle else W_take b)\<rparr>)))"
    then show "i < length (slots s)" using cut(5) [of i] D(1) wb by simp
  next
    assume "\<not> sch_stop (sch s)"
    then show "n_wait (sch (s\<lparr>sch := c, wrk := (if b = [] then W_idle else W_take b)\<rparr>)) =
      int (length (filter is_wait (sch_seq (sch (s\<lparr>sch := c, wrk := (if b = [] then W_idle else W_take b)\<rparr>)))))"
      using D(3) by (simp add: q(2) cut(1) filter_map_wait cut(2))
  qed (use wb cut(1,3) q(2) in simp_all)
qed

lemma seq_inv_decode:
  assumes inv: "seq_inv decodes s" and g: "wrk s = W_decode b" and d: "decodes b (Some out)"
  shows "seq_inv decodes (s\<lparr>sch := copy_rows 0 b out (sch s), wrk := W_give b True\<rparr>)"
proof -
  note D = seq_invD [OF inv]
  have sw: "map is_wait (sch_seq (copy_rows 0 b out (sch s))) = map is_wait (sch_seq (sch s))"
    by (rule nth_equalityI) (simp_all add: is_wait_def copy_rows_nth)
  show ?thesis
  proof (rule seq_inv_worker [OF inv])
    fix i assume i: "i < length (slots s)"
      and si: "slot_inv decodes (sch_stop (sch s)) (wrk s) i (slots s ! i) (sch_seq (sch s) ! i)"
    have own: "own_row decodes i t p (q_logits (sch_seq (copy_rows 0 b out (sch s)) ! i))" if m: "(i, t, p) \<in> set b" for t p
    proof -
      obtain k where k: "k < length b" "b ! k = (i, t, p)" using m by (auto simp: in_set_conv_nth)
      then show ?thesis
        using copy_rows_logits [of b k "sch s" 0 out] D(1,4) g d i by (auto simp: own_row_def)
    qed
    show "slot_inv decodes (sch_stop (sch s)) (wrk (s\<lparr>sch := copy_rows 0 b out (sch s), wrk := W_give b True\<rparr>)) i
      (slots s ! i) (sch_seq (sch (s\<lparr>sch := copy_rows 0 b out (sch s), wrk := W_give b True\<rparr>)) ! i)"
      using si i g D(1) copy_rows_nth [of i "sch s" 0 b out] own
      by (auto simp: slot_inv_def split: slot.splits)
  next
    fix i assume "i \<in> fst ` set (wbatch (wrk (s\<lparr>sch := copy_rows 0 b out (sch s), wrk := W_give b True\<rparr>)))"
    then show "i < length (slots s)" using D(5) [of i] g by simp
  qed (use D(3,4) g wait_count_cong [OF sw] in simp_all)
qed

lemma seq_inv_publish:
  assumes inv: "seq_inv decodes s" and g: "wrk s = W_publish b ok"
  shows "seq_inv decodes (s\<lparr>sch := publish b ok (sch s), wrk := W_idle\<rparr>)"
proof -
  note D = seq_invD [OF inv]
  have nw: "is_wait (sch_seq (publish b ok (sch s)) ! i) = is_wait (sch_seq (sch s) ! i)"
    if "\<not> sch_stop (sch s)" "i < length (slots s)" for i
    using that D(6) [of i] D(1) g publish_nth [of i "sch s" b ok]
    by (auto simp: is_wait_def slot_inv_def split: slot.splits)
  have sw: "map is_wait (sch_seq (publish b ok (sch s))) = map is_wait (sch_seq (sch s))" if "\<not> sch_stop (sch s)"
    by (rule nth_equalityI) (use nw [OF that] D(1) in simp_all)
  show ?thesis
  proof (rule seq_inv_worker [OF inv])
    fix i assume i: "i < length (slots s)"
      and si: "slot_inv decodes (sch_stop (sch s)) (wrk s) i (slots s ! i) (sch_seq (sch s) ! i)"
    show "slot_inv decodes (sch_stop (sch s)) (wrk (s\<lparr>sch := publish b ok (sch s), wrk := W_idle\<rparr>)) i
      (slots s ! i) (sch_seq (sch (s\<lparr>sch := publish b ok (sch s), wrk := W_idle\<rparr>)) ! i)"
      using si i g D(1) publish_nth [of i "sch s" b ok]
      by (auto simp: slot_inv_def split: slot.splits)
  next
    assume ns: "\<not> sch_stop (sch s)"
    then show "n_wait (sch (s\<lparr>sch := publish b ok (sch s), wrk := W_idle\<rparr>)) =
      int (length (filter is_wait (sch_seq (sch (s\<lparr>sch := publish b ok (sch s), wrk := W_idle\<rparr>)))))"
      using D(3) wait_count_cong [OF sw [OF ns]] by simp
  qed simp_all
qed


lemma seq_inv_forward_enter:
  assumes inv: "seq_inv decodes s" and i: "i < length (slots s)" and g: "slots s ! i = P_gen" and ns: "\<not> sch_stop (sch s)"
  shows "seq_inv decodes (s\<lparr>sch := forward_enter i tok p (sch s), slots := (slots s)[i := P_forward tok p]\<rparr>)"
  using seq_invD(6) [OF inv i] g ns i
  by (intro seq_inv_slot [OF inv i, where p = "P_forward tok p"
        and q = "(sch_seq (sch s) ! i)\<lparr>q_tok := tok, q_pos := p, q_state := SEQ_WAIT\<rparr>"])
    (simp_all add: forward_enter_def set_seq_def slot_inv_def is_wait_def)

lemma seq_inv_forward_stopped:
  assumes inv: "seq_inv decodes s" and i: "i < length (slots s)" and g: "slots s ! i = P_gen" and st: "sch_stop (sch s)"
    and r: "forward_leave i (forward_enter i tok p (sch s)) = (r, c)"
  shows "r = None" "seq_inv decodes (s\<lparr>sch := c, slots := (slots s)[i := P_fail]\<rparr>)"
proof -
  have l: "i < length (sch_seq (sch s))" using seq_invD(1) [OF inv] i by simp
  show "r = None" using r l by (auto simp: forward_leave_def forward_enter_def set_seq_def Let_def)
  show "seq_inv decodes (s\<lparr>sch := c, slots := (slots s)[i := P_fail]\<rparr>)"
    using r l g st
    by (intro seq_inv_slot [OF inv i, where p = P_fail
          and q = "(sch_seq (sch s) ! i)\<lparr>q_tok := tok, q_pos := p, q_state := SEQ_OFF\<rparr>"])
      (auto simp: forward_leave_def forward_enter_def set_seq_def slot_inv_def is_wait_def Let_def)
qed

lemma seq_inv_deadline:
  assumes inv: "seq_inv decodes s" and i: "i < length (slots s)" and g: "slots s ! i = P_forward tok p"
    and ns: "\<not> sch_stop (sch s)" and w: "is_wait (sch_seq (sch s) ! i)"
  shows "seq_inv decodes (s\<lparr>sch := forward_drop i (sch s), slots := (slots s)[i := P_fail]\<rparr>)"
  using seq_invD(6) [OF inv i] g ns i w
  by (intro seq_inv_slot [OF inv i, where p = P_fail and q = "(sch_seq (sch s) ! i)\<lparr>q_state := SEQ_OFF\<rparr>"])
    (simp_all add: forward_drop_def set_seq_def slot_inv_def is_wait_def)

lemma seq_inv_return:
  assumes inv: "seq_inv decodes s" and i: "i < length (slots s)" and g: "slots s ! i = P_forward tok p"
    and ready: "q_state (sch_seq (sch s) ! i) = SEQ_READY \<or> sch_stop (sch s)" and r: "forward_leave i (sch s) = (r, c)"
  shows "r \<noteq> None \<Longrightarrow> own_row decodes i tok p r"
    and "seq_inv decodes (s\<lparr>sch := c, slots := (slots s)[i := (if r = None then P_fail else P_gen)]\<rparr>)"
proof -
  have si: "slot_inv decodes (sch_stop (sch s)) (wrk s) i (P_forward tok p) (sch_seq (sch s) ! i)"
    using seq_invD(6) [OF inv i] g by simp
  have nb: "\<not> sch_stop (sch s) \<Longrightarrow> i \<notin> fst ` set (wbatch (wrk s))" using si ready by (auto simp: slot_inv_def)
  show "r \<noteq> None \<Longrightarrow> own_row decodes i tok p r"
    using r si by (auto simp: forward_leave_def slot_inv_def Let_def split: if_splits)
  show "seq_inv decodes (s\<lparr>sch := c, slots := (slots s)[i := (if r = None then P_fail else P_gen)]\<rparr>)"
    using r si g nb ready
    by (intro seq_inv_slot [OF inv i, where p = "if r = None then P_fail else P_gen"
          and q = "(sch_seq (sch s) ! i)\<lparr>q_state := SEQ_OFF\<rparr>"])
      (auto simp: forward_leave_def set_seq_def slot_inv_def is_wait_def Let_def)
qed

text \<open>A slot that moves between places where it takes no part in the batches.\<close>

lemma seq_inv_move:
  assumes inv: "seq_inv decodes s" and i: "i < length (slots s)"
    and p: "\<nexists>t q. slots s ! i = P_forward t q" "\<nexists>t q. p = P_forward t q"
    and s': "slots s' = (slots s)[i := p]" "wrk s' = wrk s" "sch_stop (sch s') = sch_stop (sch s)"
      "sch_seq (sch s') = sch_seq (sch s)" "n_wait (sch s') = n_wait (sch s)"
      "n_active (sch s') = n_active (sch s) - of_bool (active_slot (slots s ! i)) + of_bool (active_slot p)"
  shows "seq_inv decodes s'"
  using seq_invD(6) [OF inv i] p s'
  by (intro seq_inv_slot [OF inv i, where p = p and q = "sch_seq (sch s) ! i"])
    (auto simp: slot_inv_def split: slot.splits)

lemma seq_inv_stop: "seq_inv decodes s \<Longrightarrow> seq_inv decodes (s\<lparr>sch := (sch s)\<lparr>sch_stop := True\<rparr>\<rparr>)"
  by (auto simp: seq_inv_def slot_inv_def split: slot.splits)

lemma seq_inv_decode_step: "decode_step decodes device_turn s s' \<Longrightarrow> seq_inv decodes s \<Longrightarrow> seq_inv decodes s'"
proof (induction rule: decode_step.induct)
  case (dw_cut s b c)
  then show ?case by (blast intro: seq_inv_cut)
next
  case (dw_decode s b out)
  then show ?case by (blast intro: seq_inv_decode)
next
  case (dw_decode_failed s b)
  have si: "slot_inv decodes st (W_decode b) i p q \<Longrightarrow> slot_inv decodes st (W_give b False) i p q" for st i p q
    by (auto simp: slot_inv_def split: slot.splits)
  show ?case using dw_decode_failed by (auto simp: seq_inv_def intro: si)
next
  case (dw_publish s b ok)
  then show ?case by (blast intro: seq_inv_publish)
qed (auto elim: seq_inv_same)

lemma seq_inv_slot_step: "slot_step device_turn s e s' \<Longrightarrow> seq_inv decodes s \<Longrightarrow> seq_inv decodes s'"
proof (induction rule: slot_step.induct)
  case (thread_begin i s)
  then show ?case by - (rule seq_inv_move [where s = s and i = i and p = P_gen], auto)
next
  case (thread_forward i s tok p)
  then show ?case by (blast intro: seq_inv_forward_enter)
next
  case (thread_forward_stopped i s tok p r c)
  then show ?case by (blast intro: seq_inv_forward_stopped)
next
  case (thread_deadline i s tok p)
  then show ?case by (blast intro: seq_inv_deadline)
next
  case (thread_return i s tok p r c)
  then show ?case by (blast intro: seq_inv_return)
next
  case (thread_end i s)
  then show ?case by - (rule seq_inv_move [where s = s and i = i and p = P_idle], auto)
next
  case (thread_draw i s)
  then show ?case by - (rule seq_inv_move [where s = s and i = i and p = P_drawn], auto)
next
  case (thread_turn i s)
  then show ?case by - (rule seq_inv_move [where s = s and i = i and p = P_turn], auto)
next
  case (thread_give i s)
  then show ?case by - (rule seq_inv_move [where s = s and i = i and p = P_idle], auto)
qed

lemma seq_inv_step: "sstep decodes device_turn s e s' \<Longrightarrow> seq_inv decodes s \<Longrightarrow> seq_inv decodes s'"
  by (erule sstepE) (auto intro: seq_inv_decode_step seq_inv_slot_step seq_inv_stop)

lemma seq_inv_reachable: "reachable decodes device_turn n s \<Longrightarrow> seq_inv decodes s"
  by (induction rule: reachable.induct) (auto intro: seq_inv_init seq_inv_step)

lemma slots_reachable: "reachable decodes device_turn n s \<Longrightarrow> length (slots s) = n"
proof (induction rule: reachable.induct)
  case (reach_step s e s')
  then show ?case by (auto elim!: sstepE elim: decode_step.cases slot_step.cases)
qed (simp add: sched_init_def)

subsection \<open>The invariant of the turn\<close>

text \<open>The threads that have drawn a ticket, and those that have been let through.\<close>

fun turn_waiter :: "'l sys \<Rightarrow> nat \<Rightarrow> bool" where
  "turn_waiter s 0 = (case wrk s of W_turn _ \<Rightarrow> True | W_decode _ \<Rightarrow> True | W_give _ _ \<Rightarrow> True | _ \<Rightarrow> False)"
| "turn_waiter s (Suc i) = (i < length (slots s) \<and> (slots s ! i = P_drawn \<or> slots s ! i = P_turn))"

fun turn_holder :: "'l sys \<Rightarrow> nat \<Rightarrow> bool" where
  "turn_holder s 0 = (case wrk s of W_decode _ \<Rightarrow> True | W_give _ _ \<Rightarrow> True | _ \<Rightarrow> False)"
| "turn_holder s (Suc i) = (i < length (slots s) \<and> slots s ! i = P_turn)"

definition turn_inv :: "'l sys \<Rightarrow> bool" where
  "turn_inv s \<longleftrightarrow> turn_ok (trn s) \<and> (\<forall>t. t \<in> set (turn_queue (trn s)) \<longleftrightarrow> turn_waiter s t) \<and>
     (\<forall>t. turn_holder s t \<longrightarrow> dev_served t (trn s))"

lemma turn_inv_cong:
  assumes "turn_inv s" "trn s' = trn s" "\<And>t. turn_waiter s' t = turn_waiter s t"
    "\<And>t. turn_holder s' t \<Longrightarrow> turn_holder s t \<or> dev_served t (trn s)"
  shows "turn_inv s'"
  using assms unfolding turn_inv_def by metis

lemma turn_queue_short:
  assumes inv: "turn_inv s" and t: "\<not> turn_waiter s t" "t \<le> length (slots s)" and n: "length (slots s) < turn_cap"
  shows "length (turn_queue (trn s)) < turn_cap"
proof -
  have "u \<le> length (slots s)" if "turn_waiter s u" for u using that by (cases u) auto
  then have "set (turn_queue (trn s)) \<subseteq> {..length (slots s)} - {t}" using inv t(1) by (auto simp: turn_inv_def)
  then have "card (set (turn_queue (trn s))) \<le> card ({..length (slots s)} - {t})" by (intro card_mono) auto
  also have "\<dots> = length (slots s)" using t(2) by simp
  finally show ?thesis using inv n by (simp add: turn_inv_def turn.ok_distinct distinct_card)
qed

lemma turn_inv_draw:
  assumes inv: "turn_inv s" and t: "\<not> turn_waiter s t" "t \<le> length (slots s)" and n: "length (slots s) < turn_cap"
    and s': "trn s' = dev_draw t (trn s)" "\<And>u. turn_waiter s' u \<longleftrightarrow> u = t \<or> turn_waiter s u"
      "\<And>u. turn_holder s' u \<Longrightarrow> turn_holder s u"
  shows "turn_inv s'"
proof -
  have q: "turn_ok (trn s)" "t \<notin> set (turn_queue (trn s))" using inv t(1) by (auto simp: turn_inv_def)
  note d = turn.draw_ok [OF q turn_queue_short [OF inv t n]] turn.draw_queue [OF q turn_queue_short [OF inv t n]]
  have "dev_served u (trn s')" if "turn_holder s' u" for u
  proof -
    have "dev_served u (trn s)" using inv s'(3) that by (auto simp: turn_inv_def)
    then show ?thesis using q(1) d s'(1) by (simp add: turn.served_head)
  qed
  then show ?thesis using inv d s' by (auto simp: turn_inv_def)
qed

lemma turn_inv_give:
  assumes inv: "turn_inv s" and t: "turn_holder s t"
    and s': "trn s' = dev_give t (trn s)" "\<And>u. turn_waiter s' u \<longleftrightarrow> u \<noteq> t \<and> turn_waiter s u"
      "\<And>u. turn_holder s' u \<longleftrightarrow> u \<noteq> t \<and> turn_holder s u"
  shows "turn_inv s'"
proof -
  have sv: "turn_ok (trn s)" "dev_served t (trn s)" using inv t by (auto simp: turn_inv_def)
  then obtain q where q: "turn_queue (trn s) = t # q" by (metis list.collapse turn.served_head)
  have d: "t \<notin> set q" using turn.ok_distinct [OF sv(1)] q by simp
  have "\<not> turn_holder s' u" for u
    using inv s'(3) sv turn.served_unique [of "trn s" t u] by (auto simp: turn_inv_def)
  then show ?thesis
    using inv turn.give_ok [OF sv] turn.give_queue [OF sv] q d s' by (auto simp: turn_inv_def)
qed

lemma turn_inv_init: "turn_inv (sched_init n)"
proof -
  have "\<not> turn_waiter (sched_init n :: 'a sys) t" "\<not> turn_holder (sched_init n :: 'a sys) t" for t
    by (cases t; simp add: sched_init_def)+
  then show ?thesis by (simp add: turn_inv_def sched_init_def turn.init_ok turn.init_queue)
qed


lemma turn_inv_same:
  assumes "turn_inv s" "trn s' = trn s"
    "turn_waiter s' 0 = turn_waiter s 0" "turn_holder s' 0 = turn_holder s 0"
    "\<And>i. turn_waiter s' (Suc i) = turn_waiter s (Suc i)" "\<And>i. turn_holder s' (Suc i) = turn_holder s (Suc i)"
  shows "turn_inv s'"
proof (rule turn_inv_cong [OF assms(1,2)])
  show "turn_waiter s' t = turn_waiter s t" "turn_holder s' t \<Longrightarrow> turn_holder s t \<or> dev_served t (trn s)" for t
    using assms(3-6) by (cases t; simp)+
qed

lemma turn_inv_decode_step:
  assumes "decode_step decodes True s s'" "turn_inv s" "length (slots s) < turn_cap"
  shows "turn_inv s'"
  using assms
proof (cases rule: decode_step.cases)
  case (dw_draw b)
  show ?thesis
  proof (rule turn_inv_draw [OF assms(2) _ _ assms(3), where t = 0])
    show "turn_waiter s' u \<longleftrightarrow> u = 0 \<or> turn_waiter s u" "turn_holder s' u \<Longrightarrow> turn_holder s u" for u
      using dw_draw by (cases u; simp)+
  qed (use dw_draw in simp_all)
next
  case (dw_turn b)
  show ?thesis
  proof (rule turn_inv_cong [OF assms(2)])
    show "turn_waiter s' u \<longleftrightarrow> turn_waiter s u" "turn_holder s' u \<Longrightarrow> turn_holder s u \<or> dev_served u (trn s)" for u
      using dw_turn by (cases u; simp)+
  qed (use dw_turn in simp_all)
next
  case (dw_give b ok)
  show ?thesis
  proof (rule turn_inv_give [OF assms(2), where t = 0])
    show "turn_waiter s' u \<longleftrightarrow> u \<noteq> 0 \<and> turn_waiter s u" "turn_holder s' u \<longleftrightarrow> u \<noteq> 0 \<and> turn_holder s u" for u
      using dw_give by (cases u; simp)+
  qed (use dw_give in simp_all)
qed (rule turn_inv_same [OF assms(2)]; auto simp: nth_list_update split: if_splits)+

lemma turn_inv_slot_step:
  assumes "slot_step True s e s'" "turn_inv s" "length (slots s) < turn_cap"
  shows "turn_inv s'"
  using assms
proof (cases rule: slot_step.cases)
  case (thread_draw i)
  show ?thesis
  proof (rule turn_inv_draw [OF assms(2) _ _ assms(3), where t = "Suc i"])
    show "turn_waiter s' u \<longleftrightarrow> u = Suc i \<or> turn_waiter s u" "turn_holder s' u \<Longrightarrow> turn_holder s u" for u
      using thread_draw by (cases u; auto simp: nth_list_update split: if_splits)+
  qed (use thread_draw in simp_all)
next
  case (thread_turn i)
  show ?thesis
  proof (rule turn_inv_cong [OF assms(2)])
    show "turn_waiter s' u \<longleftrightarrow> turn_waiter s u" "turn_holder s' u \<Longrightarrow> turn_holder s u \<or> dev_served u (trn s)" for u
      using thread_turn by (cases u; auto simp: nth_list_update split: if_splits)+
  qed (use thread_turn in simp_all)
next
  case (thread_give i)
  show ?thesis
  proof (rule turn_inv_give [OF assms(2), where t = "Suc i"])
    show "turn_waiter s' u \<longleftrightarrow> u \<noteq> Suc i \<and> turn_waiter s u" "turn_holder s' u \<longleftrightarrow> u \<noteq> Suc i \<and> turn_holder s u" for u
      using thread_give by (cases u; auto simp: nth_list_update split: if_splits)+
  qed (use thread_give in simp_all)
qed (rule turn_inv_same [OF assms(2)]; auto simp: nth_list_update split: if_splits)+

lemma turn_inv_stop: "turn_inv s \<Longrightarrow> turn_inv (s\<lparr>sch := (sch s)\<lparr>sch_stop := True\<rparr>\<rparr>)"
  by (rule turn_inv_same) simp_all

lemma turn_inv_step: "sstep decodes True s e s' \<Longrightarrow> turn_inv s \<Longrightarrow> length (slots s) < turn_cap \<Longrightarrow> turn_inv s'"
  by (erule sstepE) (auto intro: turn_inv_decode_step turn_inv_slot_step turn_inv_stop)

lemma turn_inv_reachable: "reachable decodes True n s \<Longrightarrow> n < turn_cap \<Longrightarrow> turn_inv s"
proof (induction rule: reachable.induct)
  case (reach_step s e s')
  then show ?case using turn_inv_step [of decodes s e s'] slots_reachable [of decodes True n s] by simp
qed (rule turn_inv_init)


lemma turn_queue_draw:
  "turn_inv s \<Longrightarrow> length (slots s) < turn_cap \<Longrightarrow> \<not> turn_waiter s t \<Longrightarrow> t \<le> length (slots s) \<Longrightarrow>
     turn_queue (dev_draw t (trn s)) = turn_queue (trn s) @ [t]"
  using turn.draw_queue [of "trn s" t] turn_queue_short [of s t] by (simp add: turn_inv_def)

lemma turn_queue_give:
  "turn_inv s \<Longrightarrow> turn_holder s t \<Longrightarrow> turn_queue (trn s) = t # turn_queue (dev_give t (trn s))"
  using turn.give_queue [of "trn s" t] turn.served_head [of "trn s" t]
  by (cases "turn_queue (trn s)") (auto simp: turn_inv_def)

lemma turn_queue_step:
  assumes "sstep decodes True s e s'" "turn_inv s" "length (slots s) < turn_cap"
  shows "turn_queue (trn s') = turn_queue (trn s) \<or> (\<exists>t. turn_queue (trn s') = turn_queue (trn s) @ [t]) \<or>
    (\<exists>t. turn_holder s t \<and> turn_queue (trn s) = t # turn_queue (trn s'))"
  using assms(1)
proof (cases rule: sstep.cases)
  case step_decode
  from step_decode(2) show ?thesis
  proof (cases rule: decode_step.cases)
    case (dw_draw b)
    then show ?thesis using turn_queue_draw [OF assms(2,3), of 0] by simp
  next
    case (dw_give b ok)
    then show ?thesis using turn_queue_give [OF assms(2), of 0] by auto
  qed simp_all
next
  case step_slot
  then show ?thesis
  proof (cases rule: slot_step.cases)
    case (thread_draw i)
    then show ?thesis using turn_queue_draw [OF assms(2,3), of "Suc i"] by simp
  next
    case (thread_give i)
    then show ?thesis using turn_queue_give [OF assms(2), of "Suc i"] by auto
  qed simp_all
qed simp

subsection \<open>Progress\<close>

text \<open>Steps of the decode thread and of the threads that hold or obtain the turn.\<close>

fun helps :: "'l event \<Rightarrow> bool" where
  "helps Worker = True"
| "helps (Turn _) = True"
| "helps _ = False"

definition helped :: "(batch \<Rightarrow> (nat \<Rightarrow> 'l) option \<Rightarrow> bool) \<Rightarrow> bool \<Rightarrow> 'l sys \<Rightarrow> 'l sys \<Rightarrow> bool" where
  "helped decodes device_turn = (\<lambda>s s'. \<exists>e. helps e \<and> sstep decodes device_turn s e s')\<^sup>*\<^sup>*"

lemma helped_refl: "helped decodes device_turn s s"
  by (simp add: helped_def)

lemma helped_worker: "sstep decodes device_turn s Worker s' \<Longrightarrow> helped decodes device_turn s s'"
  unfolding helped_def by (rule r_into_rtranclp) (meson helps.simps(1))

lemma helped_turn: "sstep decodes device_turn s (Turn j) s' \<Longrightarrow> helped decodes device_turn s s'"
  unfolding helped_def by (rule r_into_rtranclp) (meson helps.simps(2))

lemma helped_trans: "helped decodes device_turn s s' \<Longrightarrow> helped decodes device_turn s' s'' \<Longrightarrow> helped decodes device_turn s s''"
  unfolding helped_def by (rule rtranclp_trans)

lemma helped_reachable: "helped decodes device_turn s s' \<Longrightarrow> reachable decodes device_turn n s \<Longrightarrow> reachable decodes device_turn n s'"
  unfolding helped_def by (induction rule: rtranclp_induct) (auto intro: reach_step)

lemma exit_stopped: "reachable decodes device_turn n s \<Longrightarrow> wrk s = W_exit \<Longrightarrow> sch_stop (sch s)"
proof (induction rule: reachable.induct)
  case (reach_step s e s')
  show ?case using reach_step(2,1,3,4)
    by (elim sstepE)
      (auto elim!: decode_stepE slot_stepE
        simp: forward_enter_def forward_drop_def forward_leave_def decode_cut_def Let_def split: if_splits prod.splits)
qed (simp add: sched_init_def)

text \<open>The turn comes round to the decode thread: those before it in the queue take it and give it
  back, each in two steps.\<close>

definition ahead :: "'l sys \<Rightarrow> nat" where
  "ahead s = 2 * length (takeWhile (\<lambda>t. t \<noteq> 0) (turn_queue (trn s))) -
     of_bool (turn_queue (trn s) \<noteq> [] \<and> turn_holder s (hd (turn_queue (trn s))))"

lemma turn_inv_head: "turn_inv s \<Longrightarrow> turn_queue (trn s) = t # q \<Longrightarrow> turn_waiter s t \<and> turn_ok (trn s)"
  unfolding turn_inv_def by (metis list.set_intros(1))

lemma ahead_take:
  assumes inv: "turn_inv s" and w: "wrk s = W_turn b" and q: "turn_queue (trn s) = Suc j # q" and p: "slots s ! j = P_drawn"
  defines "s' \<equiv> s\<lparr>slots := (slots s)[j := P_turn]\<rparr>"
  shows "sstep decodes True s (Turn j) s'" "ahead s' < ahead s"
proof -
  have j: "turn_waiter s (Suc j)" "turn_ok (trn s)" using turn_inv_head [OF inv q] by blast+
  have sv: "dev_served (j + 1) (trn s)" using j q by (simp add: turn.served_head)
  show "sstep decodes True s (Turn j) s'" unfolding s'_def by (rule slot_turn) (use j p sv in auto)
  show "ahead s' < ahead s" using j q p by (simp add: ahead_def s'_def)
qed

lemma ahead_give:
  assumes inv: "turn_inv s" and w: "wrk s = W_turn b" and q: "turn_queue (trn s) = Suc j # q" and p: "slots s ! j = P_turn"
  defines "s' \<equiv> s\<lparr>trn := dev_give (j + 1) (trn s), slots := (slots s)[j := P_idle]\<rparr>"
  shows "sstep decodes True s (Turn j) s'" "ahead s' < ahead s"
proof -
  have j: "turn_waiter s (Suc j)" "turn_ok (trn s)" using turn_inv_head [OF inv q] by blast+
  have sv: "dev_served (j + 1) (trn s)" using j q by (simp add: turn.served_head)
  show "sstep decodes True s (Turn j) s'" unfolding s'_def by (rule slot_give) (use j p in auto)
  have "turn_queue (trn s') = q" using turn.give_queue [OF j(2) sv] q by (simp add: s'_def)
  then show "ahead s' < ahead s" using j q p by (simp add: ahead_def s'_def)
qed

lemma turn_comes:
  assumes "reachable decodes True n s" "n < turn_cap" "wrk s = W_turn b" "slots s ! i = P_forward tok p"
  shows "\<exists>s'. helped decodes True s s' \<and> wrk s' = W_decode b \<and> sch s' = sch s \<and> slots s' ! i = slots s ! i"
  using assms
proof (induction "ahead s" arbitrary: s rule: less_induct)
  case less
  have inv: "turn_inv s" using turn_inv_reachable less.prems(1,2) .
  then have ok: "turn_ok (trn s)" "0 \<in> set (turn_queue (trn s))" using less.prems(3) by (auto simp: turn_inv_def)
  obtain t q where q: "turn_queue (trn s) = t # q" using ok(2) by (cases "turn_queue (trn s)") auto
  show ?case
  proof (cases t)
    case 0
    then have "dev_served 0 (trn s)" using q ok(1) by (simp add: turn.served_head)
    then show ?thesis
      using less.prems helped_worker [OF worker_turn [where s = s and b = b and decodes = decodes]] by fastforce
  next
    case (Suc j)
    obtain s' where s': "sstep decodes True s (Turn j) s'" "ahead s' < ahead s" "wrk s' = W_turn b" "sch s' = sch s"
      "slots s' ! i = slots s ! i"
    proof (cases "slots s ! j = P_turn")
      case True
      then have "j \<noteq> i" using less.prems(4) by auto
      then show ?thesis
        by (intro that [OF ahead_give [OF inv less.prems(3) q [unfolded Suc] True]]) (simp_all add: less.prems(3))
    next
      case False
      then have d: "slots s ! j = P_drawn" using turn_inv_head [OF inv q] Suc by simp
      then have "j \<noteq> i" using less.prems(4) by auto
      then show ?thesis
        by (intro that [OF ahead_take [OF inv less.prems(3) q [unfolded Suc] d]]) (simp_all add: less.prems(3))
    qed
    have "reachable decodes True n s'" using reach_step less.prems(1) s'(1) .
    then obtain s'' where "helped decodes True s' s'' \<and> wrk s'' = W_decode b \<and> sch s'' = sch s' \<and> slots s'' ! i = slots s' ! i"
      using less.hyps [OF s'(2)] less.prems(2,4) s'(3,5) by auto
    then show ?thesis using helped_trans [OF helped_turn [OF s'(1)]] s' by metis
  qed
qed

text \<open>How far the decode thread is from publishing the row of a sequence.\<close>

fun phase :: "worker \<Rightarrow> seq_state \<Rightarrow> nat" where
  "phase (W_publish _ _) SEQ_INFLIGHT = 1"
| "phase (W_give _ _) SEQ_INFLIGHT = 2"
| "phase (W_decode _) SEQ_INFLIGHT = 3"
| "phase (W_turn _) SEQ_INFLIGHT = 4"
| "phase (W_take _) SEQ_INFLIGHT = 5"
| "phase W_gather SEQ_WAIT = 6"
| "phase W_idle SEQ_WAIT = 7"
| "phase (W_publish _ _) SEQ_WAIT = 8"
| "phase (W_give _ _) SEQ_WAIT = 9"
| "phase (W_decode _) SEQ_WAIT = 10"
| "phase (W_turn _) SEQ_WAIT = 11"
| "phase (W_take _) SEQ_WAIT = 12"
| "phase _ _ = 0"


lemma turn_needed: "reachable decodes device_turn n s \<Longrightarrow> wrk s = W_turn b \<Longrightarrow> device_turn"
proof (induction arbitrary: b rule: reachable.induct)
  case (reach_step s e s')
  show ?case using reach_step(2,1,3,4) by (elim sstepE) (auto elim!: decode_stepE slot_stepE split: if_splits)
qed (simp add: sched_init_def)

lemma phase_step:
  assumes reach: "reachable decodes device_turn n s" and n: "device_turn \<Longrightarrow> n < turn_cap"
    and tot: "\<And>b. \<exists>r. decodes b r"
    and ns: "\<not> sch_stop (sch s)" and i: "i < n" and f: "slots s ! i = P_forward tok p"
    and nr: "q_state (sch_seq (sch s) ! i) \<noteq> SEQ_READY"
  shows "\<exists>s'. helped decodes device_turn s s' \<and> \<not> sch_stop (sch s') \<and> slots s' ! i = P_forward tok p \<and>
    phase (wrk s') (q_state (sch_seq (sch s') ! i)) < phase (wrk s) (q_state (sch_seq (sch s) ! i))"
proof -
  have inv: "seq_inv decodes s" by (rule seq_inv_reachable [OF reach])
  have ln: "i < length (slots s)" "i < length (sch_seq (sch s))"
    using slots_reachable [OF reach] i seq_invD(1) [OF inv] by simp_all
  have si: "slot_inv decodes False (wrk s) i (P_forward tok p) (sch_seq (sch s) ! i)"
    using seq_invD(6) [OF inv ln(1)] f ns by simp
  define q where "q = sch_seq (sch s) ! i"
  have st: "q_state q = SEQ_WAIT \<or> q_state q = SEQ_INFLIGHT" "q_state q = SEQ_INFLIGHT \<longleftrightarrow> i \<in> fst ` set (wbatch (wrk s))"
    using si nr by (cases "q_state q"; auto simp: slot_inv_def q_def)+
  have go: ?thesis if "sstep decodes device_turn s Worker s'" "\<not> sch_stop (sch s')" "slots s' ! i = slots s ! i"
      "phase (wrk s') (q_state (sch_seq (sch s') ! i)) < phase (wrk s) (q_state q)" for s'
    using helped_worker [OF that(1)] that(2-4) f by (auto simp: q_def)
  show ?thesis
  proof (cases "wrk s")
    case W_idle
    have wt: "is_wait q" using st W_idle by (simp add: is_wait_def)
    then have "filter is_wait (sch_seq (sch s)) \<noteq> []" using ln(2) by (auto simp: filter_empty_conv q_def)
    then have "n_wait (sch s) \<noteq> 0" using seq_invD(3) [OF inv ns] by simp
    then show ?thesis
      by (rule go [OF worker_wake [OF W_idle ns]]) (use ns W_idle wt in \<open>auto simp: is_wait_def q_def\<close>)
  next
    case W_gather
    obtain b c where bc: "decode_cut (sch s) = (b, c)" by (cases "decode_cut (sch s)")
    then obtain qs where qs: "cut_from 0 (sch_seq (sch s)) = (b, qs)" "c = (sch s)\<lparr>sch_seq := qs, n_wait := n_wait (sch s) - int (length b)\<rparr>"
      by (auto simp: decode_cut_def split: prod.splits)
    have wt: "is_wait q" using st W_gather by (simp add: is_wait_def)
    have "b \<noteq> []" "q_state (qs ! i) = SEQ_INFLIGHT"
      using cut_from_spec(5) [OF qs(1), of i] cut_from_spec(1) [OF qs(1)] wt ln(2) by (auto simp: q_def)
    then show ?thesis
      by (intro go [OF worker_cut [OF W_gather bc]]) (use W_gather ns wt in \<open>auto simp: is_wait_def q_def qs(2)\<close>)
  next
    case (W_take b)
    show ?thesis
    proof (cases device_turn)
      case True
      then show ?thesis
        by (intro go [OF worker_draw [OF W_take True]]) (use W_take ns st in \<open>auto simp: q_def\<close>)
    next
      case False
      then show ?thesis
        by (intro go [OF worker_free [OF W_take False]]) (use W_take ns st in \<open>auto simp: q_def\<close>)
    qed
  next
    case (W_turn b)
    have dt: "device_turn" using turn_needed [OF reach] W_turn by simp
    then obtain s' where s': "helped decodes True s s'" "wrk s' = W_decode b" "sch s' = sch s" "slots s' ! i = slots s ! i"
      using turn_comes [of decodes n s b i tok p] reach n W_turn f by auto
    show ?thesis
      by (rule exI [of _ s']) (use dt s' ns f st W_turn in \<open>auto simp: q_def\<close>)
  next
    case (W_decode b)
    obtain r where r: "decodes b r" using tot by blast
    show ?thesis
    proof (cases r)
      case None
      then show ?thesis
        by (intro go [OF worker_decode_failed [OF W_decode]]) (use r W_decode ns st in \<open>auto simp: q_def\<close>)
    next
      case (Some out)
      have "q_state (sch_seq (copy_rows 0 b out (sch s)) ! i) = q_state q" using copy_rows_nth [OF ln(2)] by (simp add: q_def)
      then show ?thesis
        by (intro go [OF worker_decode [OF W_decode]]) (use Some r W_decode ns st in \<open>auto simp: q_def\<close>)
    qed
  next
    case (W_give b ok)
    then show ?thesis
        by (intro go [OF worker_give [OF W_give]]) (use W_give ns st in \<open>auto simp: q_def\<close>)
  next
    case (W_publish b ok)
    have "q_state (sch_seq (publish b ok (sch s)) ! i) = (if i \<in> fst ` set b then SEQ_READY else q_state q)"
      using publish_nth [OF ln(2)] by (simp add: q_def)
    then show ?thesis
        by (intro go [OF worker_publish [OF W_publish]]) (use W_publish ns st in \<open>auto simp: q_def\<close>)
  next
    case W_exit
    then show ?thesis using exit_stopped [OF reach] ns by simp
  qed
qed


text \<open>While the scheduler is not stopped, a request for logits is always served by steps of the
  decode thread and of the threads that hold the turn, whatever the other slots are doing.\<close>

lemma forward_ready:
  assumes "reachable decodes device_turn n s" and n: "device_turn \<Longrightarrow> n < turn_cap"
    and tot: "\<And>b. \<exists>r. decodes b r"
    and "\<not> sch_stop (sch s)" and i: "i < n" and "slots s ! i = P_forward tok p"
  shows "\<exists>s'. helped decodes device_turn s s' \<and> slots s' ! i = P_forward tok p \<and> q_state (sch_seq (sch s') ! i) = SEQ_READY"
  using assms(1,4,6)
proof (induction "phase (wrk s) (q_state (sch_seq (sch s) ! i))" arbitrary: s rule: less_induct)
  case less
  show ?case
  proof (cases "q_state (sch_seq (sch s) ! i) = SEQ_READY")
    case True
    then show ?thesis using helped_refl less.prems(3) by blast
  next
    case False
    then obtain s' where s': "helped decodes device_turn s s'" "\<not> sch_stop (sch s')" "slots s' ! i = P_forward tok p"
      "phase (wrk s') (q_state (sch_seq (sch s') ! i)) < phase (wrk s) (q_state (sch_seq (sch s) ! i))"
      using phase_step [OF less.prems(1) n tot less.prems(2) i less.prems(3)] by blast
    then show ?thesis
      using less.hyps [OF s'(4) helped_reachable [OF s'(1) less.prems(1)] s'(2,3)] helped_trans by blast
  qed
qed


subsection \<open>Properties\<close>

text \<open>C27: logits that \<open>sched_forward\<close> returns are never another request's: whatever the
  interleaving, deadlines and shutdown included, a row that is returned for token \<open>tok\<close> at
  position \<open>p\<close> of slot \<open>i\<close> is the row that a decode computed for exactly these.\<close>

theorem sched_forward_own_row:
  assumes "reachable decodes device_turn n s" and "sstep decodes device_turn s (Returned i tok p (Some lg)) s'"
  shows "own_row decodes i tok p (Some lg)"
proof -
  have inv: "seq_inv decodes s" by (rule seq_inv_reachable [OF assms(1)])
  from assms(2) show ?thesis
    by (elim sstepE; simp?) (auto elim!: slot_returnedE dest: seq_inv_forward_stopped(1) [OF inv] seq_inv_return(1) [OF inv])
qed

text \<open>C28: the device turn is held by one thread at a time: of the decode thread between
  \<open>dev_take\<close> and \<open>dev_give\<close> and the slot threads in a prefill or a solo generation, at most one
  is there.\<close>

theorem device_turn_exclusive:
  assumes "reachable decodes True n s" "n < turn_cap" "turn_holder s t" "turn_holder s u"
  shows "t = u"
  using turn_inv_reachable [OF assms(1,2)] assms(3,4) turn.served_unique [of "trn s" t u] by (simp add: turn_inv_def)

text \<open>C29: the turn is first come, first served: it refines a queue of the threads waiting for it or
  holding it, to which every step appends at most one thread at the end or from which it removes
  the holder, who is the first.\<close>

theorem device_turn_fifo:
  assumes "reachable decodes True n s" "n < turn_cap" "sstep decodes True s e s'"
  shows "(turn_queue (trn s') = turn_queue (trn s) \<or>
          (\<exists>t. turn_queue (trn s') = turn_queue (trn s) @ [t]) \<or>
          (\<exists>t. turn_holder s t \<and> turn_queue (trn s) = t # turn_queue (trn s'))) \<and>
         (\<forall>t. t \<in> set (turn_queue (trn s')) \<longleftrightarrow> turn_waiter s' t) \<and>
         (\<forall>t. turn_holder s' t \<longrightarrow> hd (turn_queue (trn s')) = t)"
proof -
  have inv: "turn_inv s" "turn_inv s'"
    using turn_inv_reachable assms(1,2) reach_step [OF assms(1,3)] by blast+
  have "turn_queue (trn s') = turn_queue (trn s) \<or> (\<exists>t. turn_queue (trn s') = turn_queue (trn s) @ [t]) \<or>
    (\<exists>t. turn_holder s t \<and> turn_queue (trn s) = t # turn_queue (trn s'))"
    using turn_queue_step [OF assms(3) inv(1)] slots_reachable [OF assms(1)] assms(2) by simp
  moreover have "\<forall>t. turn_holder s' t \<longrightarrow> hd (turn_queue (trn s')) = t"
    using inv(2) turn.served_head by (auto simp: turn_inv_def)
  ultimately show ?thesis using inv(2) by (simp add: turn_inv_def)
qed



text \<open>A run: slot 0 of one asks for the logits after token 7 at position 3. The decode thread
  answers each position of a batch with its token.\<close>

definition sample_decodes :: "batch \<Rightarrow> (nat \<Rightarrow> int) option \<Rightarrow> bool" where
  "sample_decodes b r \<longleftrightarrow> r = Some (\<lambda>k. fst (snd (b ! k)))"

definition sample_seq :: "seq_state \<Rightarrow> int option \<Rightarrow> bool \<Rightarrow> int seq_t" where
  "sample_seq st l ok = \<lparr>q_state = st, q_tok = 7, q_pos = 3, q_logits = l, q_ok = ok\<rparr>"

definition sample_sys :: "int seq_t \<Rightarrow> int \<Rightarrow> nat \<Rightarrow> worker \<Rightarrow> slot \<Rightarrow> int sys" where
  "sample_sys q nw k w p =
     \<lparr>sch = \<lparr>sch_seq = [q], n_wait = nw, n_active = 1, sch_stop = False, sch_steps = k, seqs_batched = k\<rparr>,
      wrk = w, slots = [p], trn = turn_init\<rparr>"

abbreviation sample_at :: "seq_state \<Rightarrow> int option \<Rightarrow> bool \<Rightarrow> int \<Rightarrow> nat \<Rightarrow> worker \<Rightarrow> int sys" where
  "sample_at st l ok nw k w \<equiv> sample_sys (sample_seq st l ok) nw k w (P_forward 7 3)"

lemma sample_waiting: "reachable sample_decodes False 1 (sample_at SEQ_WAIT None False 1 0 W_idle)"
proof -
  note d = sample_sys_def sample_seq_def sched_init_def forward_enter_def set_seq_def
  have "reachable sample_decodes False 1 (sample_sys \<lparr>q_state = SEQ_OFF, q_tok = 0, q_pos = 0, q_logits = None, q_ok = False\<rparr> 0 0 W_idle P_gen)"
    using reach_step [OF reach_init slot_begin [of 0 "sched_init 1" sample_decodes False]] by (simp add: d)
  from reach_step [OF this slot_forward [where i = 0 and tok = 7 and p = 3]] show ?thesis by (simp add: d)
qed

lemma sample_ready: "reachable sample_decodes False 1 (sample_at SEQ_READY (Some 7) True 0 1 W_idle)"
proof -
  let ?B = "[(0, 7, 3)] :: batch"
  note d = sample_sys_def sample_seq_def
  have "reachable sample_decodes False 1 (sample_at SEQ_WAIT None False 1 0 W_gather)"
    using reach_step [OF sample_waiting worker_wake] by (simp add: d)
  from reach_step [OF this worker_cut [where b = ?B and c = "sch (sample_at SEQ_INFLIGHT None False 0 0 W_gather)"]]
  have "reachable sample_decodes False 1 (sample_at SEQ_INFLIGHT None False 0 0 (W_take ?B))"
    by (simp add: d decode_cut_def is_wait_def)
  from reach_step [OF this worker_free [where b = ?B]]
  have "reachable sample_decodes False 1 (sample_at SEQ_INFLIGHT None False 0 0 (W_decode ?B))" by (simp add: d)
  from reach_step [OF this worker_decode [where b = ?B and out = "\<lambda>k. fst (snd (?B ! k))"]]
  have "reachable sample_decodes False 1 (sample_at SEQ_INFLIGHT (Some 7) False 0 0 (W_give ?B True))"
    by (simp add: d sample_decodes_def set_seq_def)
  from reach_step [OF this worker_give [where b = ?B and ok = True]]
  have "reachable sample_decodes False 1 (sample_at SEQ_INFLIGHT (Some 7) False 0 1 (W_publish ?B True))" by (simp add: d)
  from reach_step [OF this worker_publish [where b = ?B and ok = True]]
  show ?thesis by (simp add: d set_seq_def)
qed

theorem sched_forward_own_row_witness:
  "sstep sample_decodes False (sample_at SEQ_READY (Some 7) True 0 1 W_idle) (Returned 0 7 3 (Some 7))
     (sample_sys (sample_seq SEQ_OFF (Some 7) True) 0 1 W_idle P_gen) \<and> own_row sample_decodes 0 7 3 (Some 7)"
proof -
  have "sstep sample_decodes False (sample_at SEQ_READY (Some 7) True 0 1 W_idle) (Returned 0 7 3 (Some 7))
     (sample_sys (sample_seq SEQ_OFF (Some 7) True) 0 1 W_idle P_gen)"
    using slot_return [of 0 "sample_at SEQ_READY (Some 7) True 0 1 W_idle" 7 3 "Some 7" _ sample_decodes False]
    by (simp add: sample_sys_def sample_seq_def forward_leave_def set_seq_def)
  then show ?thesis using sched_forward_own_row [OF sample_ready] by blast
qed


text \<open>A slot in a prefill that holds the turn and gives it back.\<close>

definition sample_turn :: "slot \<Rightarrow> turnstile \<Rightarrow> int sys" where
  "sample_turn p t =
     \<lparr>sch = \<lparr>sch_seq = [\<lparr>q_state = SEQ_OFF, q_tok = 0, q_pos = 0, q_logits = None, q_ok = False\<rparr>], n_wait = 0, n_active = 0,
             sch_stop = False, sch_steps = 0, seqs_batched = 0\<rparr>,
      wrk = W_idle, slots = [p], trn = t\<rparr>"

lemma sample_holding: "reachable sample_decodes True 1 (sample_turn P_turn (dev_draw 1 turn_init))"
proof -
  note d = sample_turn_def sched_init_def
  have "reachable sample_decodes True 1 (sample_turn P_drawn (dev_draw 1 turn_init))"
    using reach_step [OF reach_init slot_draw [of 0 "sched_init 1" True sample_decodes]] by (simp add: d)
  from reach_step [OF this slot_turn [where i = 0]] show ?thesis
    by (simp add: d dev_served_def dev_draw_def turn_init_def)
qed

theorem device_turn_exclusive_witness:
  "turn_holder (sample_turn P_turn (dev_draw 1 turn_init)) 1 \<and> (1 :: nat) = 1"
  using device_turn_exclusive [OF sample_holding, of 1 1] by (simp add: turn_cap_def sample_turn_def)

theorem device_turn_fifo_witness:
  "turn_queue (dev_draw 1 turn_init) = [1] \<and> turn_queue (dev_give 1 (dev_draw 1 turn_init)) = [] \<and>
   turn_holder (sample_turn P_turn (dev_draw 1 turn_init)) 1"
proof -
  have "sstep sample_decodes True (sample_turn P_turn (dev_draw 1 turn_init)) (Turn 0)
     (sample_turn P_idle (dev_give 1 (dev_draw 1 turn_init)))"
    using slot_give [of 0 "sample_turn P_turn (dev_draw 1 turn_init)" sample_decodes True] by (simp add: sample_turn_def)
  from device_turn_fifo [OF sample_holding _ this] show ?thesis
    by (auto simp: turn_cap_def sample_turn_def turn_queue_def dev_draw_def dev_give_def turn_init_def)
qed

end
