(* ===== verification/Jsonmode.thy ===== *)
theory Jsonmode
  imports Prelude
begin

text \<open>
  The incremental JSON validator of \<open>src/jsonmode.c\<close>. It is fed the bytes a constrained
  model generates and stays alive exactly while they are a prefix of one JSON value (of one
  JSON object after \<open>jsonv_init\<close>); when the token budget runs out, \<open>jsonv_close\<close> emits
  the bytes that complete the document.

  \<open>jsonv\<close> is the C struct field by field. The container stack is the 200-entry array, with
  \<open>push\<close> writing at \<open>depth\<close>, so that the short copy made by \<open>jsonv_snapshot\<close> can be
  stated and justified. A C function that mutates the struct and returns a \<open>bool\<close> is a
  function to a pair of the result and the mutated struct, also where it fails.
\<close>

subsection \<open>State\<close>

datatype jstate =
    S_START | S_VALUE | S_KEY_OR_END | S_KEY_EXPECT | S_KEY | S_COLON | S_STRING
  | S_AFTER | S_ARR_FIRST
  | S_NUM_MINUS | S_NUM_ZERO | S_NUM_INT | S_NUM_FRAC0 | S_NUM_FRAC
  | S_NUM_EXP0 | S_NUM_EXP1 | S_NUM_EXP
  | S_LIT | S_DONE

record jsonv =
  v_stack :: string
  v_depth :: int
  v_st :: jstate
  v_sub :: nat
  v_lit :: nat
  v_done :: bool
  v_esc :: nat

definition LITS :: "string list" where
  "LITS = [''true'', ''false'', ''null'']"

definition stack_size :: int where
  "stack_size = 200"

subsection \<open>Escapes shared by both validators\<close>

definition hex_digit :: "char \<Rightarrow> nat option" where
  "hex_digit c =
     (if byte CHR ''0'' \<le> byte c \<and> byte c \<le> byte CHR ''9'' then Some (byte c - byte CHR ''0'')
      else if byte CHR ''a'' \<le> byte c \<and> byte c \<le> byte CHR ''f''
        then Some (byte c - byte CHR ''a'' + 10)
      else if byte CHR ''A'' \<le> byte c \<and> byte c \<le> byte CHR ''F''
        then Some (byte c - byte CHR ''A'' + 10)
      else None)"

text \<open>The result is (accepted, sub, esc); the 16-bit truncation of \<open>esc\<close> is written out.\<close>

definition json_escape_hex :: "nat \<Rightarrow> nat \<Rightarrow> char \<Rightarrow> bool \<times> nat \<times> nat" where
  "json_escape_hex sub esc c =
     (case hex_digit c of
        None \<Rightarrow> (False, sub, esc)
      | Some d \<Rightarrow>
          (let low = (8 \<le> sub);
               nth = sub - (if low then 8 else 2);
               val = ((if nth \<noteq> 0 then esc else 0) * 16 + d) mod 65536
           in if low \<and> nth = 0 \<and> d \<noteq> 0xD then (False, sub, esc)
              else if low \<and> nth = 1 \<and> (val < 0xDC \<or> 0xDF < val) then (False, sub, esc)
              else if \<not> low \<and> nth = 1 \<and> 0xDC \<le> val \<and> val \<le> 0xDF then (False, sub, esc)
              else if nth < 3 then (True, sub + 1, val)
              else if \<not> low \<and> val = 0 then (False, sub, val)
              else (True, if \<not> low \<and> 0xD800 \<le> val \<and> val \<le> 0xDBFF then 6 else 0, val)))"

text \<open>
  \<open>ESC_PUT\<close>: append when there is room. \<open>json_escape_close\<close> falls through its cases, so
  it is the composition of one step per \<open>if\<close> of the source.
\<close>

definition esc_put :: "nat \<Rightarrow> string \<Rightarrow> char \<Rightarrow> string" where
  "esc_put cap out c = (if length out < cap then out @ [c] else out)"

definition esc_puts :: "nat \<Rightarrow> string \<Rightarrow> string \<Rightarrow> string" where
  "esc_puts cap out cs = foldl (esc_put cap) out cs"

definition json_escape_close :: "nat \<Rightarrow> nat \<Rightarrow> nat \<Rightarrow> nat \<times> string" where
  "json_escape_close sub esc cap =
     (if sub = 1 then (0, esc_put cap [] CHR ''n'')
      else
        (let nth = sub - 2;
             cp = ((if nth \<noteq> 0 then esc else 0) * 16 ^ (4 - nth)) mod 65536;
             (sub1, out1) =
               (if 2 \<le> sub \<and> sub \<le> 5 then
                  (let pad = (if cp = 0 then replicate (3 - nth) CHR ''0'' @ ''1''
                              else replicate (4 - nth) CHR ''0'');
                       cp' = (if cp = 0 then 1 else cp)
                   in (if 0xD800 \<le> cp' \<and> cp' \<le> 0xDBFF then 6 else 0, esc_puts cap [] pad))
                else (sub, []));
             (sub2, out2) = (if sub1 = 6 then (7, esc_put cap out1 CHR 0x5C) else (sub1, out1));
             (sub3, out3) = (if sub2 = 7 then (8, esc_put cap out2 CHR ''u'') else (sub2, out2));
             (sub4, out4) =
               (if 8 \<le> sub3 \<and> sub3 \<le> 11
                then (0, esc_puts cap out3 (drop (sub3 - 8) ''DC00'')) else (sub3, out3))
         in (sub4, out4)))"

subsection \<open>Feeding bytes\<close>

definition jsonv_init :: "jsonv \<Rightarrow> jsonv" where
  "jsonv_init v = v\<lparr>v_depth := 0, v_st := S_START, v_sub := 0, v_lit := 0, v_esc := 0,
                    v_done := False\<rparr>"

definition jsonv_init_any :: "jsonv \<Rightarrow> jsonv" where
  "jsonv_init_any v = (jsonv_init v)\<lparr>v_st := S_VALUE\<rparr>"

definition num_end_state :: "jstate \<Rightarrow> bool" where
  "num_end_state s \<longleftrightarrow> s = S_NUM_ZERO \<or> s = S_NUM_INT \<or> s = S_NUM_FRAC \<or> s = S_NUM_EXP"

definition jsonv_value_end :: "jsonv \<Rightarrow> bool" where
  "jsonv_value_end v \<longleftrightarrow> v_done v \<or> (v_depth v = 0 \<and> num_end_state (v_st v))"

definition push :: "jsonv \<Rightarrow> char \<Rightarrow> bool \<times> jsonv" where
  "push v c = (if stack_size \<le> v_depth v then (False, v)
               else (True, v\<lparr>v_stack := (v_stack v)[nat (v_depth v) := c],
                             v_depth := v_depth v + 1\<rparr>))"

definition value_done :: "jsonv \<Rightarrow> jsonv" where
  "value_done v = (if v_depth v = 0 then v\<lparr>v_st := S_DONE, v_done := True\<rparr>
                   else v\<lparr>v_st := S_AFTER\<rparr>)"

definition pop_done :: "jsonv \<Rightarrow> jsonv" where
  "pop_done v = value_done (v\<lparr>v_depth := v_depth v - 1\<rparr>)"

definition stack_top :: "jsonv \<Rightarrow> char" where
  "stack_top v = (if 0 < v_depth v then v_stack v ! nat (v_depth v - 1) else CHR 0x00)"

text \<open>The value-start dispatch (\<open>case S_VALUE\<close>), shared by \<open>S_ARR_FIRST\<close> through the
  fall-through.\<close>

definition feed_value :: "jsonv \<Rightarrow> char \<Rightarrow> bool \<times> jsonv" where
  "feed_value v c =
     (if is_ws c then (True, v)
      else if c = CHR ''{'' then push (v\<lparr>v_st := S_KEY_OR_END\<rparr>) CHR ''O''
      else if c = CHR ''['' then push (v\<lparr>v_st := S_ARR_FIRST\<rparr>) CHR ''A''
      else if c = CHR 0x22 then (True, v\<lparr>v_st := S_STRING, v_sub := 0\<rparr>)
      else if c = CHR ''-'' then (True, v\<lparr>v_st := S_NUM_MINUS\<rparr>)
      else if c = CHR ''0'' then (True, v\<lparr>v_st := S_NUM_ZERO\<rparr>)
      else if digit19 c then (True, v\<lparr>v_st := S_NUM_INT\<rparr>)
      else if c = CHR ''t'' then (True, v\<lparr>v_st := S_LIT, v_lit := 0, v_sub := 1\<rparr>)
      else if c = CHR ''f'' then (True, v\<lparr>v_st := S_LIT, v_lit := 1, v_sub := 1\<rparr>)
      else if c = CHR ''n'' then (True, v\<lparr>v_st := S_LIT, v_lit := 2, v_sub := 1\<rparr>)
      else (False, v))"

definition simple_escape :: "char \<Rightarrow> bool" where
  "simple_escape c \<longleftrightarrow> c = CHR 0x22 \<or> c = CHR 0x5C \<or> c = CHR ''/'' \<or> c = CHR ''b'' \<or>
     c = CHR ''f'' \<or> c = CHR ''n'' \<or> c = CHR ''r'' \<or> c = CHR ''t''"

definition feed_string :: "jsonv \<Rightarrow> char \<Rightarrow> bool \<times> jsonv" where
  "feed_string v c =
     (let key = (v_st v = S_KEY) in
      if v_sub v = 1 then
        (if simple_escape c then (True, v\<lparr>v_sub := 0\<rparr>)
         else if c = CHR ''u'' then (True, v\<lparr>v_sub := 2\<rparr>)
         else (False, v))
      else if v_sub v = 6 then
        (if c \<noteq> CHR 0x5C then (False, v) else (True, v\<lparr>v_sub := 7\<rparr>))
      else if v_sub v = 7 then
        (if c \<noteq> CHR ''u'' then (False, v) else (True, v\<lparr>v_sub := 8\<rparr>))
      else if 2 \<le> v_sub v then
        (case json_escape_hex (v_sub v) (v_esc v) c of
           (ok, sub, esc) \<Rightarrow> (ok, v\<lparr>v_sub := sub, v_esc := esc\<rparr>))
      else if c = CHR 0x22 then
        (True, if key then v\<lparr>v_st := S_COLON\<rparr> else value_done v)
      else if c = CHR 0x5C then (True, v\<lparr>v_sub := 1\<rparr>)
      else (0x20 \<le> byte c, v))"

text \<open>\<open>feed_byte\<close>: (accepted, state, reconsume). A number only ends when the byte after it
  arrives; that byte is then consumed again by the enclosing container.\<close>

definition ret :: "bool \<times> jsonv \<Rightarrow> bool \<times> jsonv \<times> bool" where
  "ret r = (case r of (ok, v) \<Rightarrow> (ok, v, False))"

definition feed_byte :: "jsonv \<Rightarrow> char \<Rightarrow> bool \<times> jsonv \<times> bool" where
  "feed_byte v c =
     (case v_st v of
        S_START \<Rightarrow>
          (if c = CHR ''{'' then ret (push (v\<lparr>v_st := S_KEY_OR_END\<rparr>) CHR ''O'')
           else (False, v, False))
      | S_ARR_FIRST \<Rightarrow>
          (if c = CHR '']'' \<and> \<not> is_ws c then (True, pop_done v, False)
           else ret (feed_value v c))
      | S_VALUE \<Rightarrow> ret (feed_value v c)
      | S_KEY_OR_END \<Rightarrow>
          (if is_ws c then (True, v, False)
           else if c = CHR 0x22 then (True, v\<lparr>v_st := S_KEY, v_sub := 0\<rparr>, False)
           else if c = CHR ''}'' then (True, pop_done v, False)
           else (False, v, False))
      | S_KEY_EXPECT \<Rightarrow>
          (if is_ws c then (True, v, False)
           else if c = CHR 0x22 then (True, v\<lparr>v_st := S_KEY, v_sub := 0\<rparr>, False)
           else (False, v, False))
      | S_KEY \<Rightarrow> ret (feed_string v c)
      | S_STRING \<Rightarrow> ret (feed_string v c)
      | S_COLON \<Rightarrow>
          (if is_ws c then (True, v, False)
           else if c = CHR '':'' then (True, v\<lparr>v_st := S_VALUE\<rparr>, False)
           else (False, v, False))
      | S_AFTER \<Rightarrow>
          (if is_ws c then (True, v, False)
           else
             (let top = stack_top v in
              if c = CHR '','' \<and> top = CHR ''O'' then (True, v\<lparr>v_st := S_KEY_EXPECT\<rparr>, False)
              else if c = CHR '','' \<and> top = CHR ''A'' then (True, v\<lparr>v_st := S_VALUE\<rparr>, False)
              else if c = CHR ''}'' \<and> top = CHR ''O'' then (True, pop_done v, False)
              else if c = CHR '']'' \<and> top = CHR ''A'' then (True, pop_done v, False)
              else (False, v, False)))
      | S_NUM_MINUS \<Rightarrow>
          (if c = CHR ''0'' then (True, v\<lparr>v_st := S_NUM_ZERO\<rparr>, False)
           else if digit19 c then (True, v\<lparr>v_st := S_NUM_INT\<rparr>, False)
           else (False, v, False))
      | S_NUM_ZERO \<Rightarrow>
          (if c = CHR ''.'' then (True, v\<lparr>v_st := S_NUM_FRAC0\<rparr>, False)
           else if c = CHR ''e'' \<or> c = CHR ''E'' then (True, v\<lparr>v_st := S_NUM_EXP0\<rparr>, False)
           else (True, value_done v, True))
      | S_NUM_INT \<Rightarrow>
          (if is_digit c then (True, v, False)
           else if c = CHR ''.'' then (True, v\<lparr>v_st := S_NUM_FRAC0\<rparr>, False)
           else if c = CHR ''e'' \<or> c = CHR ''E'' then (True, v\<lparr>v_st := S_NUM_EXP0\<rparr>, False)
           else (True, value_done v, True))
      | S_NUM_FRAC0 \<Rightarrow>
          (if is_digit c then (True, v\<lparr>v_st := S_NUM_FRAC\<rparr>, False) else (False, v, False))
      | S_NUM_FRAC \<Rightarrow>
          (if is_digit c then (True, v, False)
           else if c = CHR ''e'' \<or> c = CHR ''E'' then (True, v\<lparr>v_st := S_NUM_EXP0\<rparr>, False)
           else (True, value_done v, True))
      | S_NUM_EXP0 \<Rightarrow>
          (if c = CHR ''+'' \<or> c = CHR ''-'' then (True, v\<lparr>v_st := S_NUM_EXP1\<rparr>, False)
           else if is_digit c then (True, v\<lparr>v_st := S_NUM_EXP\<rparr>, False)
           else (False, v, False))
      | S_NUM_EXP1 \<Rightarrow>
          (if is_digit c then (True, v\<lparr>v_st := S_NUM_EXP\<rparr>, False) else (False, v, False))
      | S_NUM_EXP \<Rightarrow>
          (if is_digit c then (True, v, False) else (True, value_done v, True))
      | S_LIT \<Rightarrow>
          (let lit = LITS ! v_lit v in
           if v_sub v < length lit \<and> c = lit ! v_sub v then
             (let v' = v\<lparr>v_sub := v_sub v + 1\<rparr>
              in (True, if v_sub v + 1 = length lit then value_done v' else v', False))
           else (False, v, False))
      | S_DONE \<Rightarrow> (False, v, False))"

text \<open>One iteration of the loop of \<open>jsonv_feed\<close>, and the loop. The result is (accepted,
  state).\<close>

definition feed_char :: "jsonv \<Rightarrow> char \<Rightarrow> bool \<times> jsonv" where
  "feed_char v c =
     (case feed_byte v c of
        (ok, v1, re) \<Rightarrow>
          (if \<not> ok then (False, v1)
           else if re then (case feed_byte v1 c of (ok2, v2, _) \<Rightarrow> (ok2, v2))
           else (True, v1)))"

fun jsonv_feed :: "jsonv \<Rightarrow> string \<Rightarrow> bool \<times> jsonv" where
  "jsonv_feed v [] = (True, v)"
| "jsonv_feed v (c # s) =
     (case feed_char v c of (ok, v1) \<Rightarrow> if ok then jsonv_feed v1 s else (False, v1))"

definition jsonv_snapshot :: "jsonv \<Rightarrow> jsonv \<Rightarrow> jsonv" where
  "jsonv_snapshot dst src =
     (let d = nat (min (max (v_depth src) 0) stack_size)
      in dst\<lparr>v_stack := take d (v_stack src) @ drop d (v_stack dst),
             v_depth := v_depth src, v_st := v_st src, v_sub := v_sub src,
             v_lit := v_lit src, v_done := v_done src, v_esc := v_esc src\<rparr>)"

definition jsonv_trial :: "jsonv \<Rightarrow> jsonv \<Rightarrow> string \<Rightarrow> bool \<times> jsonv" where
  "jsonv_trial v scratch s = jsonv_feed (jsonv_snapshot scratch v) s"

subsection \<open>Forced completion\<close>

text \<open>\<open>EMIT\<close>: one byte is kept free for the terminating NUL. Each \<open>if\<close> of the source is one
  stage on the pair of validator and bytes written so far.\<close>

definition emit :: "int \<Rightarrow> string \<Rightarrow> char \<Rightarrow> string" where
  "emit cap out c = (if int (length out) < cap - 1 then out @ [c] else out)"

definition emits :: "int \<Rightarrow> string \<Rightarrow> string \<Rightarrow> string" where
  "emits cap out cs = foldl (emit cap) out cs"

definition close_string :: "int \<Rightarrow> jsonv \<times> string \<Rightarrow> jsonv \<times> string" where
  "close_string cap r =
     (case r of (v, out) \<Rightarrow>
        if v_st v = S_KEY \<or> v_st v = S_STRING then
          (case json_escape_close (v_sub v) (v_esc v) 12 of
             (sub, e) \<Rightarrow>
               (let v1 = v\<lparr>v_sub := sub\<rparr>;
                    out1 = emit cap (emits cap out e) CHR 0x22
                in (if v_st v1 = S_KEY then v1\<lparr>v_st := S_COLON\<rparr> else value_done v1, out1)))
        else (v, out))"

definition close_colon :: "int \<Rightarrow> jsonv \<times> string \<Rightarrow> jsonv \<times> string" where
  "close_colon cap r =
     (case r of (v, out) \<Rightarrow>
        if v_st v = S_COLON then (v\<lparr>v_st := S_VALUE\<rparr>, emit cap out CHR '':'') else (v, out))"

definition close_key :: "int \<Rightarrow> jsonv \<times> string \<Rightarrow> jsonv \<times> string" where
  "close_key cap r =
     (case r of (v, out) \<Rightarrow>
        if v_st v = S_KEY_EXPECT
        then (v\<lparr>v_st := S_VALUE\<rparr>, emits cap out [CHR 0x22, CHR ''_'', CHR 0x22, CHR '':''])
        else (v, out))"

definition close_lit :: "int \<Rightarrow> jsonv \<times> string \<Rightarrow> jsonv \<times> string" where
  "close_lit cap r =
     (case r of (v, out) \<Rightarrow>
        if v_st v = S_LIT then
          (let lit = LITS ! v_lit v
           in (value_done (v\<lparr>v_sub := max (v_sub v) (length lit)\<rparr>),
               emits cap out (drop (v_sub v) lit)))
        else (v, out))"

definition close_num_open :: "int \<Rightarrow> jsonv \<times> string \<Rightarrow> jsonv \<times> string" where
  "close_num_open cap r =
     (case r of (v, out) \<Rightarrow>
        if v_st v = S_NUM_MINUS \<or> v_st v = S_NUM_FRAC0 \<or> v_st v = S_NUM_EXP0 \<or>
           v_st v = S_NUM_EXP1
        then (value_done v, emit cap out CHR ''0'') else (v, out))"

definition close_num_end :: "int \<Rightarrow> jsonv \<times> string \<Rightarrow> jsonv \<times> string" where
  "close_num_end cap r =
     (case r of (v, out) \<Rightarrow> if num_end_state (v_st v) then (value_done v, out) else (v, out))"

definition close_value :: "int \<Rightarrow> jsonv \<times> string \<Rightarrow> jsonv \<times> string" where
  "close_value cap r =
     (case r of (v, out) \<Rightarrow>
        if v_st v = S_VALUE \<or> v_st v = S_ARR_FIRST
        then (value_done v, emits cap out ''null'') else (v, out))"

function close_containers :: "int \<Rightarrow> jsonv \<times> string \<Rightarrow> jsonv \<times> string" where
  "close_containers cap (v, out) =
     (if \<not> v_done v \<and> 0 < v_depth v \<and> (v_st v = S_AFTER \<or> v_st v = S_KEY_OR_END)
      then close_containers cap
             (pop_done v,
              emit cap out (if v_stack v ! nat (v_depth v - 1) = CHR ''O''
                            then CHR ''}'' else CHR '']''))
      else (v, out))"
  by pat_completeness auto
termination
  by (relation "measure (\<lambda>(cap, v, out). nat (v_depth v))")
    (auto simp: pop_done_def value_done_def)

declare close_containers.simps [simp del]

text \<open>The result is the validator and the bytes in \<open>out[0..m)\<close>; the code returns \<open>m\<close>, their
  number, and writes the terminating NUL at index \<open>m\<close>.\<close>

definition jsonv_close :: "jsonv \<Rightarrow> int \<Rightarrow> jsonv \<times> string" where
  "jsonv_close v cap =
     (if v_st v = S_START \<or> v_done v then (v, [])
      else close_containers cap (close_value cap (close_num_end cap (close_num_open cap
             (close_lit cap (close_key cap (close_colon cap (close_string cap (v, [])))))))))"

subsection \<open>Well-formed states\<close>

text \<open>What the machine keeps true between bytes: the live stack holds only \<open>O\<close> and \<open>A\<close>, the
  micro-state agrees with the container on top, and a partial \<open>\\u\<close> escape is one that can
  still become a character the parser accepts.\<close>

definition esc_ok :: "nat \<Rightarrow> nat \<Rightarrow> bool" where
  "esc_ok sub esc \<longleftrightarrow> sub \<le> 11 \<and>
     (sub = 3 \<longrightarrow> esc < 16) \<and>
     (sub = 4 \<longrightarrow> esc < 256 \<and> \<not> (0xDC \<le> esc \<and> esc \<le> 0xDF)) \<and>
     (sub = 5 \<longrightarrow> esc < 4096 \<and> \<not> (0xDC0 \<le> esc \<and> esc \<le> 0xDFF)) \<and>
     (sub = 9 \<longrightarrow> esc = 0xD) \<and>
     (sub = 10 \<longrightarrow> 0xDC \<le> esc \<and> esc \<le> 0xDF) \<and>
     (sub = 11 \<longrightarrow> 0xDC0 \<le> esc \<and> esc \<le> 0xDFF)"

definition in_string :: "jstate \<Rightarrow> bool" where
  "in_string s \<longleftrightarrow> s = S_KEY \<or> s = S_STRING"

definition key_side :: "jstate \<Rightarrow> bool" where
  "key_side s \<longleftrightarrow> s = S_KEY_OR_END \<or> s = S_KEY_EXPECT \<or> s = S_KEY \<or> s = S_COLON"

definition wf_stack :: "jsonv \<Rightarrow> bool" where
  "wf_stack v \<longleftrightarrow>
     length (v_stack v) = 200 \<and> 0 \<le> v_depth v \<and> v_depth v \<le> 200 \<and>
     (\<forall>i < nat (v_depth v). v_stack v ! i = CHR ''O'' \<or> v_stack v ! i = CHR ''A'')"

definition wf_mode :: "jsonv \<Rightarrow> bool" where
  "wf_mode v \<longleftrightarrow>
     (v_done v \<longleftrightarrow> v_st v = S_DONE) \<and>
     (v_st v = S_START \<or> v_st v = S_DONE \<longrightarrow> v_depth v = 0) \<and>
     (key_side (v_st v) \<longrightarrow> 0 < v_depth v \<and> stack_top v = CHR ''O'') \<and>
     (v_st v = S_ARR_FIRST \<longrightarrow> 0 < v_depth v \<and> stack_top v = CHR ''A'') \<and>
     (v_st v = S_AFTER \<longrightarrow> 0 < v_depth v) \<and>
     (in_string (v_st v) \<longrightarrow> esc_ok (v_sub v) (v_esc v)) \<and>
     (v_st v = S_LIT \<longrightarrow> v_lit v < 3 \<and> 0 < v_sub v \<and> v_sub v < length (LITS ! v_lit v))"

definition wf_jsonv :: "jsonv \<Rightarrow> bool" where
  "wf_jsonv v \<longleftrightarrow> wf_stack v \<and> wf_mode v"

lemma wf_stack_update [simp]:
  "wf_stack (v\<lparr>v_st := s\<rparr>) = wf_stack v" "wf_stack (v\<lparr>v_sub := n\<rparr>) = wf_stack v"
  "wf_stack (v\<lparr>v_lit := n\<rparr>) = wf_stack v" "wf_stack (v\<lparr>v_done := b\<rparr>) = wf_stack v"
  "wf_stack (v\<lparr>v_esc := n\<rparr>) = wf_stack v"
  by (simp_all add: wf_stack_def)

lemma stack_top_update [simp]:
  "stack_top (v\<lparr>v_st := s\<rparr>) = stack_top v" "stack_top (v\<lparr>v_sub := n\<rparr>) = stack_top v"
  "stack_top (v\<lparr>v_lit := n\<rparr>) = stack_top v" "stack_top (v\<lparr>v_done := b\<rparr>) = stack_top v"
  "stack_top (v\<lparr>v_esc := n\<rparr>) = stack_top v"
  by (simp_all add: stack_top_def)

lemmas mode_simps = wf_mode_def key_side_def in_string_def

lemma hex_digit_lt: "hex_digit c = Some d \<Longrightarrow> d < 16"
  by (auto simp: hex_digit_def split: if_splits)

lemma esc_ok_free [simp]:
  "esc_ok 0 e" "esc_ok (Suc 0) e" "esc_ok 2 e" "esc_ok 6 e" "esc_ok 7 e" "esc_ok 8 e"
  by (simp_all add: esc_ok_def)

lemma esc_ok_hex:
  assumes "esc_ok sub esc" "2 \<le> sub" "sub \<noteq> 6" "sub \<noteq> 7"
    and h: "json_escape_hex sub esc c = (True, sub', esc')"
  shows "esc_ok sub' esc'"
proof -
  obtain d where d: "hex_digit c = Some d"
    using h by (auto simp: json_escape_hex_def split: option.splits)
  then have d16: "d < 16" by (rule hex_digit_lt)
  have v: "(esc * 16 + d) mod 65536 = esc * 16 + d" if "esc < 4096"
    using that d16 by simp
  have le: "sub \<le> 11" using assms(1) by (simp add: esc_ok_def)
  have "sub = 2 \<or> sub = 3 \<or> sub = 4 \<or> sub = 5 \<or> sub = 8 \<or> sub = 9 \<or> sub = 10 \<or> sub = 11"
    using le assms(2-4) by presburger
  then consider "sub = 2" | "sub = 3" | "sub = 4" | "sub = 5" | "sub = 8" | "sub = 9" | "sub = 10" | "sub = 11"
    by blast
  then show ?thesis
  proof cases
    case 1 with h d d16 show ?thesis by (simp add: json_escape_hex_def esc_ok_def Let_def)
  next
    case 2
    then have "esc < 16" using assms(1) by (simp add: esc_ok_def)
    with 2 h d d16 v show ?thesis by (simp add: json_escape_hex_def esc_ok_def Let_def split: if_splits)
  next
    case 3
    then have "esc < 256" "\<not> (0xDC \<le> esc \<and> esc \<le> 0xDF)" using assms(1) by (simp_all add: esc_ok_def)
    with 3 h d d16 v show ?thesis by (simp add: json_escape_hex_def esc_ok_def Let_def) linarith
  next
    case 4 with h d show ?thesis
      by (simp add: json_escape_hex_def esc_ok_def Let_def split: if_splits)
  next
    case 5 with h d show ?thesis
      by (simp add: json_escape_hex_def esc_ok_def Let_def split: if_splits)
  next
    case 6
    then have "esc = 13" using assms(1) by (simp add: esc_ok_def)
    with 6 h d v show ?thesis by (simp add: json_escape_hex_def esc_ok_def Let_def split: if_splits) 
  next
    case 7
    then have "0xDC \<le> esc" "esc \<le> 0xDF" using assms(1) by (simp_all add: esc_ok_def)
    with 7 h d d16 v show ?thesis by (simp add: json_escape_hex_def esc_ok_def Let_def)
  next
    case 8 with h d show ?thesis
      by (simp add: json_escape_hex_def esc_ok_def Let_def split: if_splits)
  qed
qed

lemma wf_value_done:
  assumes "wf_stack v" "\<not> v_done v"
  shows "wf_jsonv (value_done v)"
  using assms
  by (auto simp: wf_jsonv_def mode_simps value_done_def) (simp add: wf_stack_def)

lemma wf_stack_pop: "wf_stack v \<Longrightarrow> 0 < v_depth v \<Longrightarrow> wf_stack (v\<lparr>v_depth := v_depth v - 1\<rparr>)"
  by (auto simp: wf_stack_def)

lemma wf_pop: "wf_stack v \<Longrightarrow> \<not> v_done v \<Longrightarrow> 0 < v_depth v \<Longrightarrow> wf_jsonv (pop_done v)"
  unfolding pop_done_def by (rule wf_value_done) (simp_all add: wf_stack_pop)

lemma wf_push_stack:
  assumes "wf_stack v" "push v c = (True, v')" "c = CHR ''O'' \<or> c = CHR ''A''"
  shows "wf_stack v' \<and> stack_top v' = c \<and> 0 < v_depth v' \<and> v_st v' = v_st v \<and> v_done v' = v_done v"
proof -
  have d: "v_depth v < 200" and v': "v' = v\<lparr>v_stack := (v_stack v)[nat (v_depth v) := c], v_depth := v_depth v + 1\<rparr>"
    using assms(2) by (auto simp: push_def stack_size_def split: if_splits)
  have "(v_stack v)[nat (v_depth v) := c] ! i = CHR ''O'' \<or> (v_stack v)[nat (v_depth v) := c] ! i = CHR ''A''"
    if "i < nat (v_depth v + 1)" for i
    using that assms(1,3) d by (cases "i = nat (v_depth v)") (auto simp: wf_stack_def)
  then show ?thesis
    using assms(1) d by (auto simp: v' wf_stack_def stack_top_def)
qed

lemma wf_push:
  assumes "wf_stack v" "\<not> v_done v" "push v c = (True, v')"
    and "v_st v = S_KEY_OR_END \<and> c = CHR ''O'' \<or> v_st v = S_ARR_FIRST \<and> c = CHR ''A''"
  shows "wf_jsonv v'"
  using wf_push_stack [OF assms(1,3)] assms(2,4)
  by (auto simp: wf_jsonv_def mode_simps)

lemma wf_feed_value:
  assumes "wf_stack v" "\<not> v_done v" "wf_mode v" "v_st v = S_VALUE \<or> v_st v = S_ARR_FIRST"
    and f: "feed_value v c = (True, v')"
  shows "wf_jsonv v'"
proof -
  consider (ws) "is_ws c" | (obj) "\<not> is_ws c" "c = CHR ''{''" | (arr) "\<not> is_ws c" "c = CHR ''[''"
    | (other) "\<not> is_ws c" "c \<noteq> CHR ''{''" "c \<noteq> CHR ''[''"
    by blast
  then show ?thesis
  proof cases
    case ws
    then show ?thesis using assms by (simp add: feed_value_def wf_jsonv_def)
  next
    case obj
    then show ?thesis using f assms(1,2)
      by (auto simp: feed_value_def intro: wf_push [of "v\<lparr>v_st := S_KEY_OR_END\<rparr>" "CHR ''O''"])
  next
    case arr
    then show ?thesis using f assms(1,2)
      by (auto simp: feed_value_def intro: wf_push [of "v\<lparr>v_st := S_ARR_FIRST\<rparr>" "CHR ''A''"])
  next
    case other
    then have "(\<exists>s \<in> {S_NUM_MINUS, S_NUM_ZERO, S_NUM_INT}. v' = v\<lparr>v_st := s\<rparr>) \<or>
        v' = v\<lparr>v_st := S_STRING, v_sub := 0\<rparr> \<or>
        (\<exists>l \<in> {0, 1, 2}. v' = v\<lparr>v_st := S_LIT, v_lit := l, v_sub := 1\<rparr>)"
      using f unfolding feed_value_def by (auto split: if_splits)
    then consider s where "s \<in> {S_NUM_MINUS, S_NUM_ZERO, S_NUM_INT}" "v' = v\<lparr>v_st := s\<rparr>"
      | "v' = v\<lparr>v_st := S_STRING, v_sub := 0\<rparr>"
      | l where "l \<in> {0, 1, 2}" "v' = v\<lparr>v_st := S_LIT, v_lit := l, v_sub := 1\<rparr>"
      by blast
    then show ?thesis
    proof cases
      case 1 then show ?thesis using assms(1,2) by (auto simp: wf_jsonv_def mode_simps)
    next
      case 2 then show ?thesis using assms(1,2) by (simp add: wf_jsonv_def mode_simps)
    next
      case 3
      then have "Suc 0 < length (LITS ! l) \<and> l < 3" by (auto simp: LITS_def)
      then show ?thesis using 3 assms(1,2) by (simp add: wf_jsonv_def mode_simps)
    qed
  qed
qed

lemma wf_string_upd:
  assumes "wf_stack v" "wf_mode v" "in_string (v_st v)" "esc_ok sub esc"
  shows "wf_jsonv (v\<lparr>v_sub := sub, v_esc := esc\<rparr>)"
  using assms unfolding wf_jsonv_def wf_mode_def by (cases "v_st v") (simp_all add: key_side_def in_string_def)

lemma wf_string_sub:
  assumes "wf_stack v" "wf_mode v" "in_string (v_st v)" "esc_ok sub (v_esc v)"
  shows "wf_jsonv (v\<lparr>v_sub := sub\<rparr>)"
  using wf_string_upd [OF assms] by simp

lemma wf_feed_string:
  assumes wf: "wf_stack v" "\<not> v_done v" "wf_mode v" and st: "in_string (v_st v)"
    and f: "feed_string v c = (True, v')"
  shows "wf_jsonv v'"
proof -
  have W: "wf_jsonv v" using wf by (simp add: wf_jsonv_def)
  have ok: "esc_ok (v_sub v) (v_esc v)" using wf st by (auto simp: wf_mode_def)
  consider (s1) "v_sub v = 1" | (s6) "v_sub v = 6" | (s7) "v_sub v = 7"
    | (hex) "2 \<le> v_sub v" "v_sub v \<noteq> 6" "v_sub v \<noteq> 7" | (s0) "v_sub v = 0"
    by linarith
  then show ?thesis
  proof cases
    case hex
    then obtain sub esc where h: "json_escape_hex (v_sub v) (v_esc v) c = (True, sub, esc)"
      and v': "v' = v\<lparr>v_sub := sub, v_esc := esc\<rparr>"
      using f by (auto simp: feed_string_def split: prod.splits)
    have "esc_ok sub esc" using esc_ok_hex [OF ok hex h] .
    then show ?thesis using wf st unfolding v' by (intro wf_string_upd)
  next
    case s0
    have c: "wf_jsonv (v\<lparr>v_st := S_COLON\<rparr>)" if "v_st v = S_KEY"
      using that wf by (simp add: wf_jsonv_def mode_simps)
    show ?thesis
      using s0 f c wf_value_done [OF wf(1,2)] wf_string_sub [OF wf(1,3) st, of "Suc 0"] W
      by (simp add: feed_string_def Let_def split: if_splits)
  next
    case s1
    then show ?thesis
      using f wf_string_sub [OF wf(1,3) st, of 0] wf_string_sub [OF wf(1,3) st, of 2]
      by (simp add: feed_string_def split: if_splits)
  next
    case s6
    then show ?thesis
      using f wf_string_sub [OF wf(1,3) st, of 7] by (simp add: feed_string_def split: if_splits)
  next
    case s7
    then show ?thesis
      using f wf_string_sub [OF wf(1,3) st, of 8] by (simp add: feed_string_def split: if_splits)
  qed
qed

lemma wf_feed_byte:
  assumes "wf_jsonv v" "feed_byte v c = (True, v', re)"
  shows "wf_jsonv v'"
proof -
  have s: "wf_stack v" and m: "wf_mode v" using assms(1) by (auto simp: wf_jsonv_def)
  have nd: "v_st v \<noteq> S_DONE \<Longrightarrow> \<not> v_done v"
    using m by (simp add: wf_mode_def)
  have num_ok: "v_st v \<noteq> S_DONE \<Longrightarrow> wf_jsonv (value_done v) \<and> wf_jsonv (v\<lparr>v_st := S_NUM_ZERO\<rparr>) \<and>
      wf_jsonv (v\<lparr>v_st := S_NUM_INT\<rparr>) \<and> wf_jsonv (v\<lparr>v_st := S_NUM_FRAC0\<rparr>) \<and>
      wf_jsonv (v\<lparr>v_st := S_NUM_FRAC\<rparr>) \<and> wf_jsonv (v\<lparr>v_st := S_NUM_EXP0\<rparr>) \<and>
      wf_jsonv (v\<lparr>v_st := S_NUM_EXP1\<rparr>) \<and> wf_jsonv (v\<lparr>v_st := S_NUM_EXP\<rparr>)"
    using s nd wf_value_done [of v] by (simp add: wf_jsonv_def mode_simps)
  show ?thesis
  proof (cases "v_st v")
    case S_START
    then show ?thesis
      using s m assms(2) wf_push [of "v\<lparr>v_st := S_KEY_OR_END\<rparr>" "CHR ''O''" v']
      by (auto simp: feed_byte_def ret_def wf_mode_def split: prod.splits if_splits)
  next
    case S_ARR_FIRST
    then show ?thesis using s m assms(2) wf_pop [of v] wf_feed_value [of v c]
      by (auto simp: feed_byte_def ret_def wf_mode_def split: prod.splits if_splits)
  next
    case S_VALUE
    then show ?thesis using s m assms(2) wf_feed_value [of v c]
      by (auto simp: feed_byte_def ret_def wf_mode_def split: prod.splits)
  next
    case S_KEY
    then show ?thesis using s m assms(2) wf_feed_string [of v c]
      by (auto simp: feed_byte_def ret_def in_string_def wf_mode_def split: prod.splits)
  next
    case S_STRING
    then show ?thesis using s m assms(2) wf_feed_string [of v c]
      by (auto simp: feed_byte_def ret_def in_string_def wf_mode_def split: prod.splits)
  next
    case S_KEY_OR_END
    then have "wf_jsonv (v\<lparr>v_st := S_KEY, v_sub := 0\<rparr>)" "wf_jsonv (pop_done v)"
      using s m wf_pop [of v] by (simp_all add: wf_jsonv_def mode_simps)
    then show ?thesis using S_KEY_OR_END assms by (simp add: feed_byte_def split: if_splits)
  next
    case S_KEY_EXPECT
    then have "wf_jsonv (v\<lparr>v_st := S_KEY, v_sub := 0\<rparr>)"
      using s m by (simp add: wf_jsonv_def mode_simps)
    then show ?thesis using S_KEY_EXPECT assms by (simp add: feed_byte_def split: if_splits)
  next
    case S_AFTER
    then have "wf_jsonv (pop_done v)" "wf_jsonv (v\<lparr>v_st := S_VALUE\<rparr>)"
      "stack_top v = CHR ''O'' \<Longrightarrow> wf_jsonv (v\<lparr>v_st := S_KEY_EXPECT\<rparr>)"
      using s m wf_pop [of v] by (simp_all add: wf_jsonv_def mode_simps)
    then show ?thesis using S_AFTER assms
      by (simp add: feed_byte_def Let_def split: if_splits)
  next
    case S_LIT
    have nd: "\<not> v_done v" and b: "v_lit v < 3" "0 < v_sub v" "v_sub v < length (LITS ! v_lit v)"
      using S_LIT m by (simp_all add: mode_simps)
    have "v' = value_done (v\<lparr>v_sub := Suc (v_sub v)\<rparr>) \<or>
        v' = v\<lparr>v_sub := Suc (v_sub v)\<rparr> \<and> Suc (v_sub v) \<noteq> length (LITS ! v_lit v)"
      using S_LIT assms(2) by (auto simp: feed_byte_def Let_def split: if_splits)
    then show ?thesis
    proof (elim disjE conjE)
      assume "v' = value_done (v\<lparr>v_sub := Suc (v_sub v)\<rparr>)"
      then show ?thesis using s nd by (simp add: wf_value_done)
    next
      assume "v' = v\<lparr>v_sub := Suc (v_sub v)\<rparr>" "Suc (v_sub v) \<noteq> length (LITS ! v_lit v)"
      then show ?thesis using S_LIT s m b by (simp add: wf_jsonv_def mode_simps)
    qed
  next
    case S_DONE
    then show ?thesis using assms by (simp add: feed_byte_def)
  next
    case S_COLON
    then have "wf_jsonv (v\<lparr>v_st := S_VALUE\<rparr>)" using s m by (simp add: wf_jsonv_def mode_simps)
    then show ?thesis using S_COLON assms by (simp add: feed_byte_def split: if_splits)
  qed (use num_ok assms in \<open>simp add: feed_byte_def split: if_splits\<close>)+
qed

subsection \<open>The short copy of a trial\<close>

text \<open>Two states are related when they agree everywhere but above the live part of the stack.\<close>

definition live_eq :: "int \<Rightarrow> string \<Rightarrow> string \<Rightarrow> bool" where
  "live_eq d xs ys \<longleftrightarrow> length xs = 200 \<and> length ys = 200 \<and> 0 \<le> d \<and> d \<le> 200 \<and>
     take (nat d) xs = take (nat d) ys"

definition jsim :: "jsonv \<Rightarrow> jsonv \<Rightarrow> bool" where
  "jsim v w \<longleftrightarrow> (\<exists>stk. w = v\<lparr>v_stack := stk\<rparr> \<and> live_eq (v_depth v) (v_stack v) stk)"

lemma jsimE:
  assumes "jsim v w"
  obtains stk where "w = v\<lparr>v_stack := stk\<rparr>" "live_eq (v_depth v) (v_stack v) stk"
  using assms by (auto simp: jsim_def)

lemma jsimI: "live_eq (v_depth v) (v_stack v) stk \<Longrightarrow> w = v\<lparr>v_stack := stk\<rparr> \<Longrightarrow> jsim v w"
  by (auto simp: jsim_def)

lemma live_eq_nth: "live_eq d xs ys \<Longrightarrow> i < nat d \<Longrightarrow> ys ! i = xs ! i"
  unfolding live_eq_def by (metis nth_take)

lemma live_eq_less: "live_eq d xs ys \<Longrightarrow> 0 \<le> e \<Longrightarrow> e \<le> d \<Longrightarrow> live_eq e xs ys"
  unfolding live_eq_def by (metis min.absorb1 nat_mono order_trans take_take)

lemma live_eq_snoc:
  assumes "live_eq d xs ys" "d < 200"
  shows "live_eq (d + 1) (xs[nat d := c]) (ys[nat d := c])"
proof -
  have "nat (d + 1) = Suc (nat d)"
    using assms by (simp add: live_eq_def Suc_nat_eq_nat_zadd1)
  then show ?thesis
    using assms by (simp add: live_eq_def take_Suc_conv_app_nth)
qed

lemma jsim_value_done:
  assumes "jsim v w"
  shows "jsim (value_done v) (value_done w)"
proof -
  obtain stk where "w = v\<lparr>v_stack := stk\<rparr>" "live_eq (v_depth v) (v_stack v) stk"
    using assms by (rule jsimE)
  then show ?thesis by (intro jsimI [where stk = stk]) (auto simp: value_done_def)
qed

lemma jsim_pop_done:
  assumes "jsim v w" "0 < v_depth v"
  shows "jsim (pop_done v) (pop_done w)"
proof -
  obtain stk where w: "w = v\<lparr>v_stack := stk\<rparr>" and l: "live_eq (v_depth v) (v_stack v) stk"
    using assms(1) by (rule jsimE)
  have "live_eq (v_depth v - 1) (v_stack v) stk"
    using l assms(2) by (auto intro: live_eq_less)
  then show ?thesis
    by (intro jsimI [where stk = stk]) (auto simp: w value_done_def pop_done_def)
qed

lemma jsim_update:
  assumes "jsim v w"
  shows "jsim (v\<lparr>v_st := s\<rparr>) (w\<lparr>v_st := s\<rparr>)" "jsim (v\<lparr>v_sub := n\<rparr>) (w\<lparr>v_sub := n\<rparr>)"
    "jsim (v\<lparr>v_lit := n\<rparr>) (w\<lparr>v_lit := n\<rparr>)" "jsim (v\<lparr>v_esc := n\<rparr>) (w\<lparr>v_esc := n\<rparr>)"
proof -
  obtain stk where "w = v\<lparr>v_stack := stk\<rparr>" "live_eq (v_depth v) (v_stack v) stk"
    using assms by (rule jsimE)
  then show "jsim (v\<lparr>v_st := s\<rparr>) (w\<lparr>v_st := s\<rparr>)" "jsim (v\<lparr>v_sub := n\<rparr>) (w\<lparr>v_sub := n\<rparr>)"
    "jsim (v\<lparr>v_lit := n\<rparr>) (w\<lparr>v_lit := n\<rparr>)" "jsim (v\<lparr>v_esc := n\<rparr>) (w\<lparr>v_esc := n\<rparr>)"
    by (auto intro: jsimI [where stk = stk])
qed

lemma jsim_top: "jsim v w \<Longrightarrow> stack_top w = stack_top v"
  by (auto elim!: jsimE simp: stack_top_def live_eq_nth)

lemma jsim_fields:
  assumes "jsim v w"
  shows "v_st w = v_st v" "v_depth w = v_depth v" "v_sub w = v_sub v" "v_lit w = v_lit v"
    "v_esc w = v_esc v" "v_done w = v_done v"
  using assms by (auto elim!: jsimE)

definition res_sim :: "bool \<times> jsonv \<Rightarrow> bool \<times> jsonv \<Rightarrow> bool" where
  "res_sim r r' \<longleftrightarrow> fst r' = fst r \<and> jsim (snd r) (snd r')"

lemma jsim_push:
  assumes "jsim v w"
  shows "res_sim (push v c) (push w c)"
proof -
  obtain stk where w: "w = v\<lparr>v_stack := stk\<rparr>" and l: "live_eq (v_depth v) (v_stack v) stk"
    using assms by (rule jsimE)
  show ?thesis
  proof (cases "v_depth v < 200")
    case True
    then show ?thesis
      using live_eq_snoc [OF l True, of c]
      by (auto simp: w res_sim_def push_def stack_size_def
          intro: jsimI [where stk = "stk[nat (v_depth v) := c]"])
  next
    case False
    then show ?thesis using assms w by (simp add: res_sim_def push_def stack_size_def)
  qed
qed

lemma res_sim_pair: "jsim v w \<Longrightarrow> res_sim (b, v) (b, w)"
  by (simp add: res_sim_def)

lemma res_sim_if: "(b \<Longrightarrow> res_sim r r') \<Longrightarrow> (\<not> b \<Longrightarrow> res_sim q q') \<Longrightarrow>
  res_sim (if b then r else q) (if b then r' else q')"
  by simp

lemma jsim_feed_value: "jsim v w \<Longrightarrow> res_sim (feed_value v c) (feed_value w c)"
  unfolding feed_value_def by (intro res_sim_if res_sim_pair jsim_push jsim_update)

lemma jsim_feed_string: "jsim v w \<Longrightarrow> res_sim (feed_string v c) (feed_string w c)"
  unfolding feed_string_def Let_def
  by (auto simp: jsim_fields split: prod.splits
      intro!: res_sim_if res_sim_pair jsim_update jsim_value_done)

definition res3_sim :: "bool \<times> jsonv \<times> bool \<Rightarrow> bool \<times> jsonv \<times> bool \<Rightarrow> bool" where
  "res3_sim r r' \<longleftrightarrow> fst r' = fst r \<and> snd (snd r') = snd (snd r) \<and> jsim (fst (snd r)) (fst (snd r'))"

lemma res3_sim_pair: "jsim v w \<Longrightarrow> res3_sim (b, v, re) (b, w, re)"
  by (simp add: res3_sim_def)

lemma res3_sim_ret: "res_sim r r' \<Longrightarrow> res3_sim (ret r) (ret r')"
  by (auto simp: res3_sim_def res_sim_def ret_def split: prod.splits)

lemma res3_sim_if: "(b \<Longrightarrow> res3_sim r r') \<Longrightarrow> (\<not> b \<Longrightarrow> res3_sim q q') \<Longrightarrow>
  res3_sim (if b then r else q) (if b then r' else q')"
  by simp

lemma jsim_if: "(b \<Longrightarrow> jsim r r') \<Longrightarrow> (\<not> b \<Longrightarrow> jsim q q') \<Longrightarrow>
  jsim (if b then r else q) (if b then r' else q')"
  by simp

lemmas jsim_intros = res3_sim_if res3_sim_ret res3_sim_pair jsim_update jsim_value_done
  jsim_push jsim_feed_value jsim_feed_string jsim_pop_done jsim_if

lemma jsim_feed_byte:
  assumes "jsim v w" "wf_jsonv v"
  shows "res3_sim (feed_byte v c) (feed_byte w c)"
proof -
  have "v_st v = S_ARR_FIRST \<or> v_st v = S_KEY_OR_END \<or> v_st v = S_AFTER \<Longrightarrow> 0 < v_depth v"
    using assms(2) by (auto simp: wf_jsonv_def mode_simps)
  then show ?thesis
    using assms(1) unfolding feed_byte_def Let_def jsim_fields [OF assms(1)] jsim_top [OF assms(1)]
    by (cases "v_st v"; simp only: jstate.simps; intro jsim_intros; simp)
qed

lemma jsim_feed_char:
  assumes "jsim v w" "wf_jsonv v"
  shows "res_sim (feed_char v c) (feed_char w c)"
proof -
  obtain ok v1 re where v: "feed_byte v c = (ok, v1, re)" by (cases "feed_byte v c")
  obtain ok' w1 re' where w: "feed_byte w c = (ok', w1, re')" by (cases "feed_byte w c")
  have eq: "ok' = ok" "re' = re" and s: "jsim v1 w1"
    using jsim_feed_byte [OF assms, of c] v w by (auto simp: res3_sim_def)
  show ?thesis
  proof (cases "ok \<and> re")
    case True
    then have "res3_sim (feed_byte v1 c) (feed_byte w1 c)"
      using v wf_feed_byte [OF assms(2), of c v1 re] jsim_feed_byte [OF s] by simp
    then show ?thesis
      using True v w eq by (auto simp: feed_char_def res3_sim_def res_sim_def split: prod.splits)
  next
    case False
    then show ?thesis
      using v w eq s by (auto simp: feed_char_def res_sim_def)
  qed
qed

lemma wf_feed_char:
  assumes "wf_jsonv v" "feed_char v c = (True, v')"
  shows "wf_jsonv v'"
  using assms by (auto simp: feed_char_def dest: wf_feed_byte split: prod.splits if_splits)

lemma wf_jsonv_feed: "wf_jsonv v \<Longrightarrow> jsonv_feed v s = (True, v') \<Longrightarrow> wf_jsonv v'"
  by (induction v s rule: jsonv_feed.induct) (auto dest: wf_feed_char split: prod.splits if_splits)

lemma jsim_feed:
  "jsim v w \<Longrightarrow> wf_jsonv v \<Longrightarrow> res_sim (jsonv_feed v s) (jsonv_feed w s)"
proof (induction s arbitrary: v w)
  case Nil
  then show ?case by (simp add: res_sim_def)
next
  case (Cons c s)
  have "res_sim (feed_char v c) (feed_char w c)"
    using Cons.prems by (rule jsim_feed_char)
  then show ?case
    using Cons wf_feed_char [OF Cons.prems(2), of c]
    by (auto simp: res_sim_def split: prod.splits)
qed

lemma jsim_snapshot:
  assumes "wf_jsonv v" "length (v_stack scratch) = 200"
  shows "jsim v (jsonv_snapshot scratch v)"
proof (rule jsimI)
  let ?stk = "take (nat (v_depth v)) (v_stack v) @ drop (nat (v_depth v)) (v_stack scratch)"
  show "live_eq (v_depth v) (v_stack v) ?stk"
    using assms by (auto simp: live_eq_def wf_jsonv_def wf_stack_def)
  have "nat (min (max (v_depth v) 0) stack_size) = nat (v_depth v)"
    using assms by (simp add: wf_jsonv_def wf_stack_def stack_size_def)
  then show "jsonv_snapshot scratch v = v\<lparr>v_stack := ?stk\<rparr>"
    by (cases v; cases scratch) (simp add: jsonv_snapshot_def Let_def)
qed

text \<open>The bytes of a forced completion, in two parts: what finishes the value under way, and
  the closers of the open containers, innermost first.\<close>

definition close_head :: "jsonv \<Rightarrow> string" where
  "close_head v =
     (case v_st v of
        S_KEY \<Rightarrow> snd (json_escape_close (v_sub v) (v_esc v) 12) @ [CHR 0x22] @ '':null''
      | S_STRING \<Rightarrow> snd (json_escape_close (v_sub v) (v_esc v) 12) @ [CHR 0x22]
      | S_COLON \<Rightarrow> '':null''
      | S_KEY_EXPECT \<Rightarrow> [CHR 0x22, CHR ''_'', CHR 0x22] @ '':null''
      | S_LIT \<Rightarrow> drop (v_sub v) (LITS ! v_lit v)
      | S_NUM_MINUS \<Rightarrow> ''0'' | S_NUM_FRAC0 \<Rightarrow> ''0'' | S_NUM_EXP0 \<Rightarrow> ''0'' | S_NUM_EXP1 \<Rightarrow> ''0''
      | S_VALUE \<Rightarrow> ''null'' | S_ARR_FIRST \<Rightarrow> ''null''
      | _ \<Rightarrow> [])"

definition closer :: "char \<Rightarrow> char" where
  "closer t = (if t = CHR ''O'' then CHR ''}'' else CHR '']'')"

definition closers :: "jsonv \<Rightarrow> string" where
  "closers v = map closer (rev (take (nat (v_depth v)) (v_stack v)))"

lemma emits_append: "emits cap out (s @ t) = emits cap (emits cap out s) t"
  by (simp add: emits_def)

lemma emits_Cons: "emits cap out (c # t) = emits cap (emit cap out c) t"
  by (simp add: emits_def)

lemma emits_Nil [simp]: "emits cap out [] = out"
  by (simp add: emits_def)

lemma emits_room: "int (length out + length t) < cap \<Longrightarrow> emits cap out t = out @ t"
  by (induction t arbitrary: out) (simp_all add: emits_def emit_def)

lemma emits_le: "int (length out) \<le> cap - 1 \<Longrightarrow> int (length (emits cap out t)) \<le> cap - 1"
  by (induction t arbitrary: out) (simp_all add: emits_def emit_def)

lemma pop_done_fields [simp]:
  "v_stack (pop_done v) = v_stack v" "v_depth (pop_done v) = v_depth v - 1"
  by (simp_all add: pop_done_def value_done_def)

lemma nat_pred: "0 < d \<Longrightarrow> nat d = Suc (nat (d - 1))"
  by simp

lemma closers_pop:
  assumes "wf_stack v" "0 < v_depth v"
  shows "closers v = closer (v_stack v ! nat (v_depth v - 1)) # closers (pop_done v)"
proof -
  have "nat (v_depth v) = Suc (nat (v_depth v - 1))"
    using assms(2) by simp
  moreover have "nat (v_depth v - 1) < length (v_stack v)"
    using assms unfolding wf_stack_def by linarith
  ultimately show ?thesis
    by (simp add: closers_def pop_done_def value_done_def take_Suc_conv_app_nth)
qed

definition ended :: "jsonv \<Rightarrow> bool" where
  "ended v \<longleftrightarrow> v_st v = S_AFTER \<or> v_st v = S_KEY_OR_END \<or> v_st v = S_DONE"

lemma ended_pop: "ended (pop_done v)"
  by (simp add: ended_def pop_done_def value_done_def)

lemma ended_wf:
  assumes "wf_jsonv v" "ended v"
  shows "v_done v \<and> v_depth v = 0 \<or> \<not> v_done v \<and> 0 < v_depth v \<and> (v_st v = S_AFTER \<or> v_st v = S_KEY_OR_END)"
  using assms by (auto simp: wf_jsonv_def mode_simps ended_def)

lemma close_containers_text:
  "wf_jsonv v \<Longrightarrow> ended v \<Longrightarrow> snd (close_containers cap (v, out)) = emits cap out (closers v)"
proof (induction "nat (v_depth v)" arbitrary: v out)
  case 0
  then have "v_depth v = 0" by (auto simp: wf_jsonv_def wf_stack_def)
  then show ?case by (simp add: close_containers.simps [of cap v] closers_def)
next
  case (Suc n)
  then have d: "0 < v_depth v" "\<not> v_done v" "v_st v = S_AFTER \<or> v_st v = S_KEY_OR_END"
    using ended_wf [of v] by auto
  then have wf: "wf_jsonv (pop_done v)" "wf_stack v"
    using Suc.prems wf_pop [of v] by (auto simp: wf_jsonv_def)
  have n: "n = nat (v_depth (pop_done v))"
    using Suc.hyps(2) d nat_pred [of "v_depth v"] by simp
  show ?case
    using d Suc.hyps(1) [OF n wf(1) ended_pop]
    by (simp add: close_containers.simps [of cap v] closers_pop [OF wf(2) d(1)] emits_Cons closer_def)
qed

lemma feed_char_closer:
  assumes "wf_jsonv v" "ended v" "0 < v_depth v"
  shows "feed_char v (closer (v_stack v ! nat (v_depth v - 1))) = (True, pop_done v)"
proof -
  have "stack_top v = v_stack v ! nat (v_depth v - 1)"
    using assms(3) by (simp add: stack_top_def)
  moreover have "v_stack v ! nat (v_depth v - 1) = CHR ''O'' \<or> v_stack v ! nat (v_depth v - 1) = CHR ''A''"
    using assms by (simp add: wf_jsonv_def wf_stack_def)
  moreover have "v_st v = S_AFTER \<or> v_st v = S_KEY_OR_END \<and> stack_top v = CHR ''O''"
    using ended_wf [OF assms(1,2)] assms by (auto simp: wf_jsonv_def mode_simps)
  ultimately show ?thesis
    by (elim disjE conjE) (simp_all add: feed_char_def feed_byte_def closer_def is_ws_def)
qed

lemma feed_closers:
  "wf_jsonv v \<Longrightarrow> ended v \<Longrightarrow> \<exists>v'. jsonv_feed v (closers v) = (True, v') \<and> v_done v'"
proof (induction "nat (v_depth v)" arbitrary: v)
  case 0
  then have "v_depth v = 0" by (auto simp: wf_jsonv_def wf_stack_def)
  then show ?case using ended_wf [OF 0(2,3)] by (simp add: closers_def)
next
  case (Suc n)
  then have d: "0 < v_depth v" by simp
  then have wf: "wf_jsonv (pop_done v)" "wf_stack v"
    using Suc.prems wf_pop [of v] ended_wf [of v] by (auto simp: wf_jsonv_def)
  have n: "n = nat (v_depth (pop_done v))"
    using Suc.hyps(2) d nat_pred [of "v_depth v"] by simp
  show ?case
    using Suc.hyps(1) [OF n wf(1) ended_pop]
    by (simp add: closers_pop [OF wf(2) d] feed_char_closer [OF Suc.prems d])
qed

subsection \<open>What a forced completion feeds\<close>

lemma hex_digit_lits [simp]:
  "hex_digit CHR ''0'' = Some 0" "hex_digit CHR ''1'' = Some 1" "hex_digit CHR ''C'' = Some 12"
  "hex_digit CHR ''D'' = Some 13"
  by (simp_all add: hex_digit_def)

lemma feed_hex:
  assumes "in_string (v_st v)" "2 \<le> v_sub v" "v_sub v \<noteq> 6" "v_sub v \<noteq> 7"
    and "json_escape_hex (v_sub v) (v_esc v) c = (True, sub, esc)"
  shows "feed_char v c = (True, v\<lparr>v_sub := sub, v_esc := esc\<rparr>)"
  using assms
  by (cases "v_st v") (simp_all add: feed_char_def feed_byte_def ret_def feed_string_def in_string_def)

lemma feed_sub_literal:
  assumes "in_string (v_st v)"
  shows "v_sub v = 1 \<Longrightarrow> simple_escape c \<Longrightarrow> feed_char v c = (True, v\<lparr>v_sub := 0\<rparr>)"
    and "v_sub v = 6 \<Longrightarrow> feed_char v CHR 0x5C = (True, v\<lparr>v_sub := 7\<rparr>)"
    and "v_sub v = 7 \<Longrightarrow> feed_char v CHR ''u'' = (True, v\<lparr>v_sub := 8\<rparr>)"
  using assms
  by (cases "v_st v"; simp add: feed_char_def feed_byte_def ret_def feed_string_def in_string_def)+

definition at_esc :: "jsonv \<Rightarrow> nat \<Rightarrow> nat \<Rightarrow> jsonv" where
  "at_esc v sub esc = v\<lparr>v_sub := sub, v_esc := esc\<rparr>"

lemma at_esc_simps [simp]:
  "v_st (at_esc v s e) = v_st v" "v_sub (at_esc v s e) = s" "v_esc (at_esc v s e) = e"
  "at_esc (at_esc v s e) s' e' = at_esc v s' e'" "at_esc v (v_sub v) (v_esc v) = v"
  by (simp_all add: at_esc_def)

lemma ex_at_esc [simp]: "\<exists>e'. at_esc v s e = at_esc v s e'"
  by blast

lemma feed_at_hex:
  assumes "in_string (v_st v)" "2 \<le> s" "s \<noteq> 6" "s \<noteq> 7" "json_escape_hex s e c = (True, s', e')"
  shows "feed_char (at_esc v s e) c = (True, at_esc v s' e')"
  using feed_hex [of "at_esc v s e" c s' e'] assms by (simp add: at_esc_def)

lemma hex_zero:
  "json_escape_hex 2 e CHR ''0'' = (True, 3, 0)"
  "e < 16 \<Longrightarrow> json_escape_hex 3 e CHR ''0'' = (True, 4, e * 16)"
  "e < 256 \<Longrightarrow> json_escape_hex 4 e CHR ''0'' = (True, 5, e * 16)"
  "e < 4096 \<Longrightarrow> e \<noteq> 0 \<Longrightarrow> json_escape_hex 5 e CHR ''0'' =
     (True, if 0xD800 \<le> e * 16 \<and> e * 16 \<le> 0xDBFF then 6 else 0, e * 16)"
  "json_escape_hex 10 e CHR ''0'' = (True, 11, (e * 16) mod 65536)"
  "json_escape_hex 11 e CHR ''0'' = (True, 0, (e * 16) mod 65536)"
  by (simp_all add: json_escape_hex_def Let_def) presburger+

lemma hex_other:
  "json_escape_hex 5 0 CHR ''1'' = (True, 0, 1)"
  "json_escape_hex 8 e CHR ''D'' = (True, 9, 13)"
  "json_escape_hex 9 13 CHR ''C'' = (True, 10, 220)"
  by (simp_all add: json_escape_hex_def Let_def)

lemma feed_pair_tail:
  assumes "in_string (v_st v)"
  shows "\<exists>e'. jsonv_feed (at_esc v 8 e) ''DC00'' = (True, at_esc v 0 e')"
    and "\<exists>e'. jsonv_feed (at_esc v 9 13) ''C00'' = (True, at_esc v 0 e')"
    and "\<exists>e'. jsonv_feed (at_esc v 10 e) ''00'' = (True, at_esc v 0 e')"
    and "\<exists>e'. jsonv_feed (at_esc v 11 e) ''0'' = (True, at_esc v 0 e')"
  using assms by (simp_all add: feed_at_hex hex_zero hex_other)

lemma feed_at_67:
  assumes "in_string (v_st v)"
  shows "feed_char (at_esc v 6 e) CHR 0x5C = (True, at_esc v 7 e)"
    "feed_char (at_esc v 7 e) CHR ''u'' = (True, at_esc v 8 e)"
  using feed_sub_literal(2) [of "at_esc v 6 e"] feed_sub_literal(3) [of "at_esc v 7 e"] assms
  by (simp_all add: at_esc_def)

lemma feed_pair:
  assumes "in_string (v_st v)"
  shows "\<exists>e'. jsonv_feed (at_esc v 6 e) (CHR 0x5C # ''uDC00'') = (True, at_esc v 0 e')"
    and "\<exists>e'. jsonv_feed (at_esc v 7 e) ''uDC00'' = (True, at_esc v 0 e')"
  using assms by (simp_all add: feed_at_67 feed_at_hex hex_zero hex_other)

lemma esc_puts_room: "length out + length t \<le> cap \<Longrightarrow> esc_puts cap out t = out @ t"
  by (induction t arbitrary: out) (simp_all add: esc_puts_def esc_put_def)

lemma escape_close_text:
  "json_escape_close 0 e 12 = (0, [])"
  "json_escape_close (Suc 0) e 12 = (0, ''n'')"
  "json_escape_close 2 e 12 = (0, ''0001'')"
  "json_escape_close 6 e 12 = (0, CHR 0x5C # ''uDC00'')"
  "json_escape_close 7 e 12 = (0, ''uDC00'')"
  "json_escape_close 8 e 12 = (0, ''DC00'')"
  "json_escape_close 9 e 12 = (0, ''C00'')"
  "json_escape_close 10 e 12 = (0, ''00'')"
  "json_escape_close 11 e 12 = (0, ''0'')"
  by (simp_all add: json_escape_close_def esc_puts_def esc_put_def Let_def numeral_2_eq_2 numeral_3_eq_3)

lemma replicate_2_3: "replicate 2 c = [c, c]" "replicate 3 c = [c, c, c]"
  by (simp_all add: numeral_2_eq_2 numeral_3_eq_3)

lemma escape_close_text3:
  assumes "e * 4096 = cp" "cp < 65536"
  shows "json_escape_close 3 e 12 =
    (0, (if cp = 0 then ''001'' else ''000'') @ (if 0xD800 \<le> cp \<and> cp \<le> 0xDBFF then CHR 0x5C # ''uDC00'' else []))"
proof -
  have cp: "e * 4096 mod 65536 = cp" using assms by simp
  show ?thesis
    by (cases "0xD800 \<le> cp"; cases "cp \<le> 0xDBFF"; cases "cp = 0")
      (simp_all add: json_escape_close_def Let_def esc_puts_def esc_put_def replicate_2_3 cp)
qed

lemma escape_close_text4:
  assumes "e * 256 = cp" "cp < 65536"
  shows "json_escape_close 4 e 12 =
    (0, (if cp = 0 then ''01'' else ''00'') @ (if 0xD800 \<le> cp \<and> cp \<le> 0xDBFF then CHR 0x5C # ''uDC00'' else []))"
proof -
  have cp: "e * 256 mod 65536 = cp" using assms by simp
  show ?thesis
    by (cases "0xD800 \<le> cp"; cases "cp \<le> 0xDBFF"; cases "cp = 0")
      (simp_all add: json_escape_close_def Let_def esc_puts_def esc_put_def replicate_2_3 cp)
qed

lemma escape_close_text5:
  assumes "e * 16 = cp" "cp < 65536"
  shows "json_escape_close 5 e 12 =
    (0, (if cp = 0 then ''1'' else ''0'') @ (if 0xD800 \<le> cp \<and> cp \<le> 0xDBFF then CHR 0x5C # ''uDC00'' else []))"
proof -
  have cp: "e * 16 mod 65536 = cp" using assms by simp
  show ?thesis
    by (cases "0xD800 \<le> cp"; cases "cp \<le> 0xDBFF"; cases "cp = 0")
      (simp_all add: json_escape_close_def Let_def esc_puts_def esc_put_def replicate_2_3 cp)
qed

lemma no_surrogate_pad: "\<not> (0xD800 \<le> (e::nat) * 4096 \<and> e * 4096 \<le> 0xDBFF)"
proof
  assume "0xD800 \<le> e * 4096 \<and> e * 4096 \<le> 0xDBFF"
  then have "13 < e" "e < 14" by linarith+
  then show False by simp
qed

lemma feed_escape_close:
  assumes st: "in_string (v_st v)" and ok: "esc_ok (v_sub v) (v_esc v)"
  shows "\<exists>e. jsonv_feed v (snd (json_escape_close (v_sub v) (v_esc v) 12)) = (True, at_esc v 0 e)"
proof -
  define s e where "s = v_sub v" and "e = v_esc v"
  have v: "v = at_esc v s e" by (simp add: s_def e_def)
  have ok': "esc_ok s e" using ok by (simp add: s_def e_def)
  have one: "feed_char (at_esc v (Suc 0) e) CHR ''n'' = (True, at_esc v 0 e)"
    using feed_sub_literal(1) [of "at_esc v 1 e" "CHR ''n''"] st by (simp add: at_esc_def simple_escape_def)
  note F = feed_at_hex [OF st] hex_zero hex_other
  have "s \<le> 11" using ok' by (simp add: esc_ok_def)
  then have "s \<in> {0, Suc 0, 2, 3, 4, 5, 6, 7, 8, 9, 10, 11}" by simp presburger
  then have "\<exists>e'. jsonv_feed (at_esc v s e) (snd (json_escape_close s e 12)) = (True, at_esc v 0 e')"
  proof (elim insertE; (elim emptyE)?)
    assume n: "s = 3" with ok' have e: "e < 16" by (simp add: esc_ok_def)
    then have "e * 4096 < 65536" by simp
    note T = escape_close_text3 [OF refl this]
    have h: "json_escape_hex 3 e CHR ''0'' = (True, 4, e * 16)"
      "json_escape_hex 4 (e * 16) CHR ''0'' = (True, 5, e * 256)"
      using e hex_zero(2) [of e] hex_zero(3) [of "e * 16"] by simp_all
    have ns: "\<not> (0xD800 \<le> e * 256 * 16 \<and> e * 256 * 16 \<le> 0xDBFF)"
      using no_surrogate_pad [of e] by (simp add: mult.commute [of e])
    have h5: "json_escape_hex 5 (e * 256) CHR ''0'' = (True, 0, e * 256 * 16)" if "e \<noteq> 0"
      using hex_zero(4) [of "e * 256", unfolded if_not_P [OF ns]] e that by simp
    note T' = T [unfolded if_not_P [OF no_surrogate_pad]]
    show ?thesis
    proof (cases "e = 0")
      case True
      then show ?thesis using T' h by (simp add: n feed_at_hex [OF st] hex_other)
    next
      case False
      then show ?thesis using T' h h5 by (simp add: n feed_at_hex [OF st])
    qed
  next
    assume n: "s = 4" with ok' have e: "e < 256" by (simp add: esc_ok_def)
    then have "e * 256 < 65536" by simp
    note T = escape_close_text4 [OF refl this]
    show ?thesis
      using feed_pair(1) [OF st] e T
      by (cases "0xD800 \<le> e * 256 \<and> e * 256 \<le> 0xDBFF"; cases "e = 0") (simp_all add: n F mult.commute [of e] del: de_Morgan_conj)
  next
    assume n: "s = 5" with ok' have e: "e < 4096" by (simp add: esc_ok_def)
    then have "e * 16 < 65536" by simp
    note T = escape_close_text5 [OF refl this]
    show ?thesis
      using feed_pair(1) [OF st] e T
      by (cases "0xD800 \<le> e * 16 \<and> e * 16 \<le> 0xDBFF"; cases "e = 0") (simp_all add: n F mult.commute [of e] del: de_Morgan_conj)
  next
    assume "s = 9" with ok' have "e = 13" by (simp add: esc_ok_def)
    with \<open>s = 9\<close> show ?thesis using feed_pair_tail(2) [OF st] by (simp add: escape_close_text)
  qed (use feed_pair [OF st] feed_pair_tail [OF st] in \<open>simp_all add: escape_close_text one F\<close>)
  then show ?thesis by (simp add: s_def e_def)
qed


lemma feed_null:
  assumes "v_st v = S_VALUE \<or> v_st v = S_ARR_FIRST"
  shows "jsonv_feed v ''null'' = (True, value_done (v\<lparr>v_st := S_LIT, v_lit := 2, v_sub := 4\<rparr>))"
  using assms
  by (elim disjE)
    (simp_all add: feed_char_def feed_byte_def ret_def feed_value_def is_ws_def digit19_def LITS_def
      Let_def eval_nat_numeral)

lemma jsonv_feed_append:
  "jsonv_feed v (s @ t) =
     (case jsonv_feed v s of (ok, v1) \<Rightarrow> if ok then jsonv_feed v1 t else (False, v1))"
  by (induction v s rule: jsonv_feed.induct) (auto split: prod.splits)

lemma feed_quote:
  assumes "in_string (v_st v)" "v_sub v = 0"
  shows "feed_char v CHR 0x22 = (True, if v_st v = S_KEY then v\<lparr>v_st := S_COLON\<rparr> else value_done v)"
  using assms
  by (cases "v_st v"; simp add: feed_char_def feed_byte_def ret_def feed_string_def in_string_def)

lemma feed_lit_rest:
  assumes "v_st v = S_LIT" "v_sub v < length (LITS ! v_lit v)"
  shows "jsonv_feed v (drop (v_sub v) (LITS ! v_lit v)) =
    (True, value_done (v\<lparr>v_sub := length (LITS ! v_lit v)\<rparr>))"
  using assms
proof (induction "length (LITS ! v_lit v) - v_sub v" arbitrary: v)
  case 0
  then show ?case by simp
next
  case (Suc n)
  let ?w = "v\<lparr>v_sub := Suc (v_sub v)\<rparr>"
  have d: "drop (v_sub v) (LITS ! v_lit v) = (LITS ! v_lit v ! v_sub v) # drop (Suc (v_sub v)) (LITS ! v_lit v)"
    using Suc.prems by (simp add: Cons_nth_drop_Suc)
  show ?case
  proof (cases "Suc (v_sub v) = length (LITS ! v_lit v)")
    case True
    then show ?thesis using Suc.prems
      by (simp add: d feed_char_def feed_byte_def Let_def)
  next
    case False
    have f: "feed_char v (LITS ! v_lit v ! v_sub v) = (True, ?w)"
      using False Suc.prems by (simp add: feed_char_def feed_byte_def Let_def)
    have "jsonv_feed ?w (drop (v_sub ?w) (LITS ! v_lit ?w)) =
        (True, value_done (?w\<lparr>v_sub := length (LITS ! v_lit ?w)\<rparr>))"
      using False Suc.prems Suc.hyps(2) by (intro Suc.hyps(1)) auto
    then show ?thesis by (simp add: d f)
  qed
qed

lemma ended_value_done: "ended (value_done v)"
  by (simp add: ended_def value_done_def)

lemma value_done_fields [simp]: "v_stack (value_done v) = v_stack v" "v_depth (value_done v) = v_depth v"
  by (simp_all add: value_done_def)

definition head_ok :: "jsonv \<Rightarrow> bool \<times> jsonv \<Rightarrow> bool" where
  "head_ok v r \<longleftrightarrow> fst r \<and> v_stack (snd r) = v_stack v \<and> v_depth (snd r) = v_depth v \<and>
     (ended (snd r) \<or> num_end_state (v_st (snd r)))"

lemma feed_head:
  assumes "wf_jsonv v" "v_st v \<noteq> S_START"
  shows "head_ok v (jsonv_feed v (close_head v))"
proof -
  have nul: "head_ok v (jsonv_feed w ''null'')"
    if "v_st w = S_VALUE \<or> v_st w = S_ARR_FIRST" "v_stack w = v_stack v" "v_depth w = v_depth v" for w
    using that by (simp only: feed_null) (simp add: head_ok_def ended_value_done)
  have esc: "in_string (v_st v) \<Longrightarrow>
      \<exists>e. jsonv_feed v (snd (json_escape_close (v_sub v) (v_esc v) 12)) = (True, at_esc v 0 e)"
    using assms(1) by (intro feed_escape_close) (auto simp: wf_jsonv_def mode_simps)
  note C = close_head_def head_ok_def ended_def num_end_state_def feed_char_def feed_byte_def
  show ?thesis
  proof (cases "v_st v")
    case S_KEY
    then obtain e where e: "jsonv_feed v (snd (json_escape_close (v_sub v) (v_esc v) 12)) = (True, at_esc v 0 e)"
      using esc by (auto simp: in_string_def)
    have q: "feed_char (at_esc v 0 e) CHR 0x22 = (True, (at_esc v 0 e)\<lparr>v_st := S_COLON\<rparr>)"
      using S_KEY by (simp add: feed_quote in_string_def)
    have c: "feed_char (w\<lparr>v_st := S_COLON\<rparr>) CHR '':'' = (True, w\<lparr>v_st := S_VALUE\<rparr>)" for w
      by (simp add: feed_char_def feed_byte_def is_ws_def)
    have "head_ok v (jsonv_feed ((at_esc v 0 e)\<lparr>v_st := S_VALUE\<rparr>) ''null'')"
      by (rule nul) (simp_all add: at_esc_def)
    then show ?thesis
      using S_KEY by (simp add: close_head_def jsonv_feed_append e q c del: jsonv_feed.simps(2)) (simp add: q c)
  next
    case S_STRING
    then obtain e where e: "jsonv_feed v (snd (json_escape_close (v_sub v) (v_esc v) 12)) = (True, at_esc v 0 e)"
      using esc by (auto simp: in_string_def)
    have q: "feed_char (at_esc v 0 e) CHR 0x22 = (True, value_done (at_esc v 0 e))"
      using S_STRING by (simp add: feed_quote in_string_def)
    show ?thesis
      using S_STRING by (simp add: close_head_def jsonv_feed_append e q head_ok_def ended_value_done) (simp add: at_esc_def)
  next
    case S_COLON
    then have "feed_char v CHR '':'' = (True, v\<lparr>v_st := S_VALUE\<rparr>)"
      by (simp add: feed_char_def feed_byte_def is_ws_def)
    then show ?thesis using S_COLON nul [of "v\<lparr>v_st := S_VALUE\<rparr>"] by (simp add: close_head_def)
  next
    case S_KEY_EXPECT
    have k: "jsonv_feed v [CHR 0x22, CHR ''_'', CHR 0x22, CHR '':''] = (True, v\<lparr>v_st := S_VALUE, v_sub := 0\<rparr>)"
      using S_KEY_EXPECT by (simp add: feed_char_def feed_byte_def is_ws_def ret_def feed_string_def Let_def)
    have "close_head v = [CHR 0x22, CHR ''_'', CHR 0x22, CHR '':''] @ ''null''"
      using S_KEY_EXPECT by (simp add: close_head_def)
    then show ?thesis
      using nul [of "v\<lparr>v_st := S_VALUE, v_sub := 0\<rparr>"] k by (simp only: jsonv_feed_append) simp
  next
    case S_LIT
    then show ?thesis
      using assms(1) feed_lit_rest [of v]
      by (simp add: close_head_def wf_jsonv_def mode_simps head_ok_def ended_value_done)
  next
    case S_VALUE
    then show ?thesis using nul [of v] by (simp add: close_head_def)
  next
    case S_ARR_FIRST
    then show ?thesis using nul [of v] by (simp add: close_head_def)
  qed (use assms(2) in \<open>simp_all add: C is_digit_def\<close>)
qed


lemma head_result:
  assumes "wf_jsonv v" "v_st v \<noteq> S_START"
  obtains w where "jsonv_feed v (close_head v) = (True, w)" "wf_jsonv w" "closers w = closers v"
    "v_depth w = v_depth v" "ended w \<or> num_end_state (v_st w)"
proof -
  obtain w where w: "jsonv_feed v (close_head v) = (True, w)"
    and h: "v_stack w = v_stack v" "v_depth w = v_depth v" "ended w \<or> num_end_state (v_st w)"
    using feed_head [OF assms] by (cases "jsonv_feed v (close_head v)") (auto simp: head_ok_def)
  show ?thesis
    by (rule that [OF w wf_jsonv_feed [OF assms(1) w] _ h(2,3)]) (simp add: closers_def h)
qed

text \<open>A number that is complete as it stands is ended by whatever closer follows it.\<close>

lemma num_end_closer:
  assumes "num_end_state (v_st v)" "0 < v_depth v"
  shows "feed_char v (closer t) = feed_char (value_done v) (closer t)"
proof -
  have st: "v_st (value_done v) = S_AFTER" using assms(2) by (simp add: value_done_def)
  have c: "closer t = CHR ''}'' \<or> closer t = CHR '']''" by (simp add: closer_def)
  have "feed_byte v CHR ''}'' = (True, value_done v, True)" "feed_byte v CHR '']'' = (True, value_done v, True)"
    using assms(1) by (cases "v_st v"; simp add: feed_byte_def num_end_state_def is_digit_def)+
  then have r: "feed_byte v (closer t) = (True, value_done v, True)"
    using c by (elim disjE) simp_all
  have "\<not> snd (snd (feed_byte (value_done v) (closer t)))"
    using st by (simp add: feed_byte_def Let_def)
  then show ?thesis by (cases "feed_byte (value_done v) (closer t)") (simp add: feed_char_def r)
qed

lemma feed_closers':
  assumes "wf_jsonv v" "ended v \<or> num_end_state (v_st v)"
  shows "\<exists>v'. jsonv_feed v (closers v) = (True, v') \<and> jsonv_value_end v'"
proof (cases "ended v")
  case True
  then show ?thesis using feed_closers [OF assms(1)] by (auto simp: jsonv_value_end_def)
next
  case False
  then have num: "num_end_state (v_st v)" using assms(2) by simp
  have ws: "wf_stack v" using assms(1) by (simp add: wf_jsonv_def)
  have "v_st v \<noteq> S_DONE" using num by (auto simp: num_end_state_def)
  then have nd: "\<not> v_done v" using assms(1) by (simp add: wf_jsonv_def wf_mode_def)
  have wf: "wf_jsonv (value_done v)" using ws nd by (rule wf_value_done)
  have cl: "closers (value_done v) = closers v" by (simp add: closers_def)
  show ?thesis
  proof (cases "v_depth v = 0")
    case True
    then show ?thesis using num by (simp add: closers_def jsonv_value_end_def)
  next
    case F: False
    then have d: "0 < v_depth v" using ws by (simp add: wf_stack_def)
    obtain rest where "closers v = closer (v_stack v ! nat (v_depth v - 1)) # rest"
      using closers_pop [OF ws d] by blast
    then have "jsonv_feed v (closers v) = jsonv_feed (value_done v) (closers v)"
      by (simp add: num_end_closer [OF num d])
    then show ?thesis
      using feed_closers [OF wf ended_value_done] by (auto simp: cl jsonv_value_end_def)
  qed
qed

lemma close_text_completes:
  assumes "wf_jsonv v" "v_st v \<noteq> S_START"
  shows "\<exists>v'. jsonv_feed v (close_head v @ closers v) = (True, v') \<and> jsonv_value_end v'"
proof -
  obtain w where w: "jsonv_feed v (close_head v) = (True, w)" "wf_jsonv w" "closers w = closers v"
    "ended w \<or> num_end_state (v_st w)"
    using head_result [OF assms] by metis
  then show ?thesis
    using feed_closers' [OF w(2,4)] by (simp add: jsonv_feed_append)
qed

lemma st_value_done [simp]:
  "v_st (value_done v) \<noteq> S_VALUE" "v_st (value_done v) \<noteq> S_ARR_FIRST"
  "v_st (value_done v) \<noteq> S_COLON" "v_st (value_done v) \<noteq> S_KEY_EXPECT"
  "v_st (value_done v) \<noteq> S_LIT" "v_st (value_done v) \<noteq> S_KEY" "v_st (value_done v) \<noteq> S_STRING"
  "v_st (value_done v) \<noteq> S_NUM_MINUS" "v_st (value_done v) \<noteq> S_NUM_FRAC0"
  "v_st (value_done v) \<noteq> S_NUM_ZERO" "v_st (value_done v) \<noteq> S_NUM_INT"
  "v_st (value_done v) \<noteq> S_NUM_FRAC" "v_st (value_done v) \<noteq> S_NUM_EXP"
  "v_st (value_done v) \<noteq> S_NUM_EXP0" "v_st (value_done v) \<noteq> S_NUM_EXP1"
  "\<not> num_end_state (v_st (value_done v))"
  by (simp_all add: value_done_def num_end_state_def)

lemma close_stages:
  assumes "wf_jsonv v" "v_st v \<noteq> S_START" "\<not> v_done v"
  shows "\<exists>w. wf_jsonv w \<and> ended w \<and> closers w = closers v \<and>
    close_value cap (close_num_end cap (close_num_open cap (close_lit cap (close_key cap
      (close_colon cap (close_string cap (v, []))))))) = (w, emits cap [] (close_head v))"
proof -
  note S = close_value_def close_num_end_def close_num_open_def close_lit_def close_key_def
    close_colon_def close_string_def close_head_def Let_def emits_append emits_Cons
  have ws: "wf_stack v" using assms(1) by (simp add: wf_jsonv_def)
  let ?P = "\<lambda>r. \<exists>w. wf_jsonv w \<and> ended w \<and> closers w = closers v \<and> r = (w, emits cap [] (close_head v))"
  have vd: "?P (value_done w, emits cap [] (close_head v))"
    if "wf_stack w" "\<not> v_done w" "v_stack w = v_stack v" "v_depth w = v_depth v" for w
    using that by (simp add: wf_value_done closers_def ended_value_done)
  show ?thesis
  proof (cases "v_st v")
    case S_KEY
    obtain sub e where e: "json_escape_close (v_sub v) (v_esc v) 12 = (sub, e)" by fastforce
    show ?thesis using S_KEY vd [of "v\<lparr>v_sub := sub, v_st := S_VALUE\<rparr>"] ws assms(3)
      by (simp add: S num_end_state_def e)
  next
    case S_STRING
    obtain sub e where e: "json_escape_close (v_sub v) (v_esc v) 12 = (sub, e)" by fastforce
    show ?thesis using S_STRING vd [of "v\<lparr>v_sub := sub\<rparr>"] ws assms(3)
      by (simp add: S e)
  next
    case S_COLON
    then show ?thesis using vd [of "v\<lparr>v_st := S_VALUE\<rparr>"] ws assms(3) by (simp add: S num_end_state_def)
  next
    case S_KEY_EXPECT
    then show ?thesis using vd [of "v\<lparr>v_st := S_VALUE\<rparr>"] ws assms(3) by (simp add: S num_end_state_def)
  next
    case S_LIT
    then show ?thesis
      using vd [of "v\<lparr>v_sub := max (v_sub v) (length (LITS ! v_lit v))\<rparr>"] ws assms(3)
      by (simp add: S)
  next
    case S_AFTER
    then show ?thesis using assms(1) by (simp add: S num_end_state_def ended_def)
  next
    case S_KEY_OR_END
    then show ?thesis using assms(1) by (simp add: S num_end_state_def ended_def)
  next
    case S_DONE
    then show ?thesis using assms by (simp add: wf_jsonv_def mode_simps)
  next
    case S_START
    then show ?thesis using assms by simp
  qed (use vd [of v] ws assms(3) in \<open>simp add: S num_end_state_def\<close>)+
qed

lemma jsonv_close_text:
  assumes "wf_jsonv v" "v_st v \<noteq> S_START" "\<not> v_done v"
  shows "snd (jsonv_close v cap) = emits cap [] (close_head v @ closers v)"
proof -
  obtain w where "wf_jsonv w" "ended w" "closers w = closers v"
    "close_value cap (close_num_end cap (close_num_open cap (close_lit cap (close_key cap
      (close_colon cap (close_string cap (v, []))))))) = (w, emits cap [] (close_head v))"
    using close_stages [OF assms] by metis
  then show ?thesis
    using assms(2,3) by (simp add: jsonv_close_def close_containers_text emits_append)
qed

lemma length_closers: "wf_jsonv v \<Longrightarrow> int (length (closers v)) = v_depth v"
  by (auto simp: closers_def wf_jsonv_def wf_stack_def)

lemma length_escape_close: "length (snd (json_escape_close sub esc 12)) \<le> 12"
proof -
  have put: "length out \<le> 12 \<Longrightarrow> length (esc_put 12 out c) \<le> 12" for out c
    by (simp add: esc_put_def)
  have puts: "length out \<le> 12 \<Longrightarrow> length (esc_puts 12 out t) \<le> 12" for out t
    by (induction t arbitrary: out) (auto simp: esc_puts_def esc_put_def)
  show ?thesis
    by (auto simp: json_escape_close_def Let_def split: prod.splits if_splits intro!: put puts)
qed

lemma length_close_head:
  assumes "wf_jsonv v"
  shows "length (close_head v) \<le> 18"
proof (cases "v_st v = S_LIT")
  case True
  then have "v_lit v = 0 \<or> v_lit v = 1 \<or> v_lit v = 2"
    using assms by (auto simp: wf_jsonv_def wf_mode_def)
  then show ?thesis using True by (auto simp: close_head_def LITS_def)
next
  case False
  then show ?thesis
    using length_escape_close [of "v_sub v" "v_esc v"]
    by (simp add: close_head_def split: jstate.splits)
qed

lemma jsonv_close_room:
  assumes "wf_jsonv v" "v_st v \<noteq> S_START" "\<not> v_done v" "v_depth v + 19 < cap"
  shows "snd (jsonv_close v cap) = close_head v @ closers v"
proof -
  have "int (length ([] :: string) + length (close_head v @ closers v)) < cap"
    using length_close_head [OF assms(1)] length_closers [OF assms(1)] assms(4) by simp
  then show ?thesis using jsonv_close_text [OF assms(1-3)] emits_room by fastforce
qed

text \<open>A run that started with an object has that object at the bottom of the stack, so a number
  or a string at depth 0 never occurs in it.\<close>

definition rooted :: "jsonv \<Rightarrow> bool" where
  "rooted v \<longleftrightarrow> (v_depth v = 0 \<longrightarrow> v_st v = S_START \<or> v_st v = S_DONE)"

lemma rooted_value_done: "rooted (value_done v)"
  by (simp add: rooted_def value_done_def)

lemma rooted_depth: "v_depth v \<noteq> 0 \<Longrightarrow> rooted v"
  by (simp add: rooted_def)

lemma rooted_push: "wf_stack v \<Longrightarrow> push v c = (True, v') \<Longrightarrow> rooted v'"
  by (auto simp: push_def wf_stack_def rooted_def split: if_splits)



lemma rooted_feed_string: "rooted v \<Longrightarrow> v_depth v \<noteq> 0 \<Longrightarrow> feed_string v c = (True, v') \<Longrightarrow> rooted v'"
  by (auto simp: feed_string_def Let_def rooted_def value_done_def split: if_splits prod.splits)

lemma rooted_feed_value:
  "wf_stack v \<Longrightarrow> v_depth v \<noteq> 0 \<Longrightarrow> feed_value v c = (True, v') \<Longrightarrow> rooted v'"
  by (auto simp: feed_value_def rooted_depth split: if_splits intro: rooted_push [rotated])

lemma rooted_pop_done: "rooted (pop_done v)"
  by (simp add: pop_done_def rooted_value_done)

lemma rooted_feed_byte:
  assumes "wf_jsonv v" "rooted v" "feed_byte v c = (True, v', re)"
  shows "rooted v'"
proof (cases "v_depth v = 0")
  case True
  then have "v_st v = S_START \<or> v_st v = S_DONE" using assms(2) by (simp add: rooted_def)
  then show ?thesis
    using assms(1,3) rooted_push [of "v\<lparr>v_st := S_KEY_OR_END\<rparr>" "CHR ''O''" v']
    by (elim disjE) (simp_all add: feed_byte_def ret_def wf_jsonv_def split: prod.splits if_splits)
next
  case False
  have ws: "wf_stack v" using assms(1) by (simp add: wf_jsonv_def)
  have u: "rooted (v\<lparr>v_st := s\<rparr>)" "rooted (v\<lparr>v_st := s, v_sub := n\<rparr>)" for s n
    using False by (simp_all add: rooted_def)
  have l: "rooted (v\<lparr>v_sub := n\<rparr>)" if "v_st v = S_LIT" for n
    using False by (simp add: rooted_def)
  note S = feed_byte_def ret_def Let_def
  note R = rooted_value_done rooted_pop_done u assms(2)
  show ?thesis
  proof (cases "v_st v")
    case S_START
    then show ?thesis using assms False by (simp add: wf_jsonv_def wf_mode_def)
  next
    case S_VALUE
    then show ?thesis using assms(3) rooted_feed_value [OF ws False] by (simp add: S split: prod.splits)
  next
    case S_ARR_FIRST
    then show ?thesis
      using assms(3) rooted_feed_value [OF ws False] by (auto simp add: S R split: prod.splits if_splits)
  next
    case S_KEY
    then show ?thesis using assms(3) rooted_feed_string [OF assms(2) False] by (simp add: S split: prod.splits)
  next
    case S_STRING
    then show ?thesis using assms(3) rooted_feed_string [OF assms(2) False] by (simp add: S split: prod.splits)
  next
    case S_LIT
    then show ?thesis using assms(3) l by (auto simp: S R split: if_splits)
  qed (use assms(2,3) in \<open>simp only: S jstate.simps; auto simp: R split: if_splits\<close>)+
qed

lemma rooted_feed_char:
  assumes "wf_jsonv v" "rooted v" "feed_char v c = (True, v')"
  shows "rooted v'"
  using assms by (auto simp: feed_char_def dest: wf_feed_byte rooted_feed_byte split: prod.splits if_splits)

lemma rooted_feed: "wf_jsonv v \<Longrightarrow> rooted v \<Longrightarrow> jsonv_feed v s = (True, v') \<Longrightarrow> rooted v'"
  by (induction v s rule: jsonv_feed.induct)
    (auto dest: wf_feed_char rooted_feed_char split: prod.splits if_splits)

lemma wf_init: "length (v_stack junk) = 200 \<Longrightarrow> wf_jsonv (jsonv_init junk)"
  by (simp add: jsonv_init_def wf_jsonv_def mode_simps) (simp add: wf_stack_def)

lemma wf_init_any: "length (v_stack junk) = 200 \<Longrightarrow> wf_jsonv (jsonv_init_any junk)"
  by (simp add: jsonv_init_any_def jsonv_init_def wf_jsonv_def mode_simps) (simp add: wf_stack_def)

lemma rooted_init: "rooted (jsonv_init junk)"
  by (simp add: jsonv_init_def rooted_def)

lemma feed_byte_not_start: "feed_byte v c = (True, v', re) \<Longrightarrow> v_st v' \<noteq> S_START"
  by (cases "v_st v"; auto simp: feed_byte_def ret_def Let_def feed_value_def feed_string_def push_def
      value_done_def pop_done_def split: if_splits prod.splits)

lemma feed_char_not_start: "feed_char v c = (True, v') \<Longrightarrow> v_st v' \<noteq> S_START"
  by (auto simp: feed_char_def dest: feed_byte_not_start split: prod.splits if_splits)

lemma feed_not_start: "jsonv_feed v s = (True, v') \<Longrightarrow> s \<noteq> [] \<or> v_st v \<noteq> S_START \<Longrightarrow> v_st v' \<noteq> S_START"
  by (induction v s rule: jsonv_feed.induct)
    (auto dest: feed_char_not_start split: prod.splits if_splits)

lemma close_done: "v_done v \<Longrightarrow> snd (jsonv_close v cap) = []"
  by (simp add: jsonv_close_def)

lemma feed_close:
  assumes wf: "wf_jsonv v0" and f: "jsonv_feed v0 s = (True, v)" "s \<noteq> [] \<or> v_st v0 \<noteq> S_START"
    and cap: "220 \<le> cap"
  shows "\<exists>v'. jsonv_feed v0 (s @ snd (jsonv_close v cap)) = (True, v') \<and> wf_jsonv v' \<and> jsonv_value_end v'"
proof -
  have wv: "wf_jsonv v" using wf f(1) by (rule wf_jsonv_feed)
  have st: "v_st v \<noteq> S_START" using feed_not_start [OF f] .
  show ?thesis
  proof (cases "v_done v")
    case True
    then show ?thesis using wv f(1) by (simp add: close_done jsonv_feed_append jsonv_value_end_def)
  next
    case False
    have "v_depth v \<le> 200" using wv by (simp add: wf_jsonv_def wf_stack_def)
    then have "snd (jsonv_close v cap) = close_head v @ closers v"
      using cap by (intro jsonv_close_room [OF wv st False]) simp
    moreover obtain v' where v': "jsonv_feed v (close_head v @ closers v) = (True, v')" "jsonv_value_end v'"
      using close_text_completes [OF wv st] by blast
    moreover have "jsonv_feed v0 (s @ t) = jsonv_feed v t" for t
      using f(1) by (simp add: jsonv_feed_append)
    moreover have "wf_jsonv v'" using wf_jsonv_feed [OF wv v'(1)] .
    ultimately show ?thesis by auto
  qed
qed

lemma value_end_rooted:
  "wf_jsonv v \<Longrightarrow> rooted v \<Longrightarrow> jsonv_value_end v \<Longrightarrow> v_done v"
  by (cases "v_st v") (simp_all add: jsonv_value_end_def rooted_def num_end_state_def)

lemma more_after_number:
  assumes "v_depth v = 0" "num_end_state (v_st v)"
  shows "\<exists>c. fst (feed_char v c)"
  using assms
  by (intro exI [of _ "if v_st v = S_NUM_ZERO then CHR ''.'' else CHR ''0''"])
    (cases "v_st v"; simp add: num_end_state_def feed_char_def feed_byte_def is_digit_def)

lemma some_byte_accepted:
  assumes "wf_jsonv v" "\<not> v_done v"
  shows "\<exists>c. fst (feed_char v c)"
proof (cases "v_st v = S_START")
  case True
  then have "v_depth v = 0" using assms(1) by (simp add: wf_jsonv_def wf_mode_def)
  then have "fst (feed_char v CHR ''{'')"
    using True by (simp add: feed_char_def feed_byte_def ret_def push_def stack_size_def)
  then show ?thesis ..
next
  case False
  obtain v' where f: "jsonv_feed v (close_head v @ closers v) = (True, v')" "jsonv_value_end v'"
    using close_text_completes [OF assms(1) False] by blast
  show ?thesis
  proof (cases "close_head v @ closers v")
    case Nil
    then show ?thesis using f assms(2) more_after_number by (auto simp: jsonv_value_end_def)
  next
    case (Cons c t)
    then have "fst (feed_char v c)"
      using f(1) by (simp split: prod.splits if_splits)
    then show ?thesis ..
  qed
qed

subsection \<open>Properties\<close>

text \<open>A fixed instance for the witnesses: a struct with an arbitrary (here zeroed) stack.\<close>

definition blank_jsonv :: jsonv where
  "blank_jsonv = \<lparr>v_stack = replicate 200 CHR 0x00, v_depth = 0, v_st = S_DONE, v_sub = 0, v_lit = 0,
     v_done = False, v_esc = 0\<rparr>"

lemmas jsonv_run = blank_jsonv_def jsonv_init_def jsonv_init_any_def feed_char_def feed_byte_def
  ret_def push_def stack_size_def feed_string_def feed_value_def is_ws_def is_digit_def digit19_def
  simple_escape_def LITS_def value_done_def pop_done_def Let_def

text \<open>A document cut inside a \<open>\\u\<close> escape of a key.\<close>

definition cut_text :: string where
  "cut_text = [CHR ''{'', CHR 0x22, CHR ''a'', CHR 0x5C, CHR ''u'']"

text \<open>
  C1. Forced completion finishes the document. Whatever bytes have been accepted since
  \<open>jsonv_init\<close> (at least one), appending the bytes \<open>jsonv_close\<close> writes yields a text the
  same validator accepts and is done with: the output is one complete JSON object, in every
  state, inside strings, escapes, surrogate pairs, literals and numbers. 220 bytes of room are
  enough; the engine passes 600.
\<close>

theorem jsonv_close_completes:
  assumes "length (v_stack junk) = 200" "jsonv_feed (jsonv_init junk) s = (True, v)" "s \<noteq> []" "220 \<le> cap"
  shows "\<exists>v'. jsonv_feed (jsonv_init junk) (s @ snd (jsonv_close v cap)) = (True, v') \<and> v_done v'"
proof -
  have wf: "wf_jsonv (jsonv_init junk)" using assms(1) by (rule wf_init)
  obtain v' where "jsonv_feed (jsonv_init junk) (s @ snd (jsonv_close v cap)) = (True, v')"
    "wf_jsonv v'" "jsonv_value_end v'"
    using feed_close [OF wf assms(2) _ assms(4)] assms(3) by blast
  then show ?thesis
    using value_end_rooted rooted_feed [OF wf rooted_init] by blast
qed

lemma jsonv_close_completes_witness:
  "\<exists>v'. jsonv_feed (jsonv_init blank_jsonv)
     (cut_text @ snd (jsonv_close (snd (jsonv_feed (jsonv_init blank_jsonv) cut_text)) 600)) = (True, v') \<and>
     v_done v'"
  by (rule jsonv_close_completes) (simp_all add: jsonv_run cut_text_def)

text \<open>
  The same for the any-value mode (\<open>jsonv_init_any\<close>), also when nothing was generated: the
  completed text is one that may stop there (\<open>jsonv_value_end\<close>), a root number included.
\<close>

theorem jsonv_close_any_completes:
  assumes "length (v_stack junk) = 200" "jsonv_feed (jsonv_init_any junk) s = (True, v)" "220 \<le> cap"
  shows "\<exists>v'. jsonv_feed (jsonv_init_any junk) (s @ snd (jsonv_close v cap)) = (True, v') \<and> jsonv_value_end v'"
proof -
  have st: "v_st (jsonv_init_any junk) \<noteq> S_START" by (simp add: jsonv_init_any_def)
  show ?thesis
    using feed_close [OF wf_init_any [OF assms(1)] assms(2) disjI2 [OF st] assms(3)] by blast
qed

lemma jsonv_close_any_completes_witness:
  "\<exists>v'. jsonv_feed (jsonv_init_any blank_jsonv)
     (''[-'' @ snd (jsonv_close (snd (jsonv_feed (jsonv_init_any blank_jsonv) ''[-'')) 512)) = (True, v') \<and>
     jsonv_value_end v'"
  by (rule jsonv_close_any_completes) (simp_all add: jsonv_run)

text \<open>
  Memory safety of forced completion: from every reachable state and for every buffer size
  of at least one byte, \<open>jsonv_close\<close> writes at most \<open>cap - 1\<close> bytes, so the terminating NUL it
  stores at the returned index stays inside the buffer.
\<close>

theorem jsonv_close_bound:
  assumes "length (v_stack junk) = 200" "jsonv_feed (jsonv_init junk) s = (True, v)" "1 \<le> cap"
  shows "int (length (snd (jsonv_close v cap))) \<le> cap - 1"
proof (cases "v_st v = S_START \<or> v_done v")
  case True
  then show ?thesis using assms(3) by (auto simp: jsonv_close_def)
next
  case False
  have "wf_jsonv v" using wf_init [OF assms(1)] assms(2) by (rule wf_jsonv_feed)
  then show ?thesis
    using False assms(3) emits_le [of "[]" cap] by (simp add: jsonv_close_text)
qed

lemma jsonv_close_bound_witness:
  "int (length (snd (jsonv_close (snd (jsonv_feed (jsonv_init blank_jsonv) cut_text)) 4))) \<le> 4 - 1"
  by (rule jsonv_close_bound [where s = cut_text and junk = blank_jsonv])
    (simp_all add: jsonv_run cut_text_def)

text \<open>
  A trial on a snapshot decides like the validator itself: although \<open>jsonv_snapshot\<close> copies
  only the live prefix of the stack over whatever the scratch held, feeding any bytes to the
  snapshot is accepted exactly when the original would accept them.
\<close>

theorem jsonv_trial_agrees:
  assumes "length (v_stack junk) = 200" "jsonv_feed (jsonv_init junk) s = (True, v)"
    "length (v_stack scratch) = 200"
  shows "fst (jsonv_trial v scratch t) = fst (jsonv_feed v t)"
proof -
  have "wf_jsonv v" using wf_init [OF assms(1)] assms(2) by (rule wf_jsonv_feed)
  then show ?thesis
    using jsim_feed [OF jsim_snapshot] assms(3) by (simp add: jsonv_trial_def res_sim_def)
qed

lemma jsonv_trial_agrees_witness:
  "fst (jsonv_trial (snd (jsonv_feed (jsonv_init blank_jsonv) cut_text))
      (blank_jsonv\<lparr>v_stack := replicate 200 CHR ''O'', v_depth := 7\<rparr>) ''0041'') =
   fst (jsonv_feed (snd (jsonv_feed (jsonv_init blank_jsonv) cut_text)) ''0041'')"
  by (rule jsonv_trial_agrees [where s = cut_text and junk = blank_jsonv])
    (simp_all add: jsonv_run cut_text_def)

text \<open>
  C5. No dead end: in every reachable state that is not done some byte is accepted, so a model
  whose tokens are masked by the validator always has a legal continuation (this is what the
  early rejections of \<open>json_escape_hex\<close> are for).
\<close>

theorem jsonv_no_dead_end:
  assumes "length (v_stack junk) = 200" "jsonv_feed (jsonv_init junk) s = (True, v)" "\<not> v_done v"
  shows "\<exists>c v'. feed_char v c = (True, v')"
proof -
  have "wf_jsonv v" using wf_init [OF assms(1)] assms(2) by (rule wf_jsonv_feed)
  then obtain c where "fst (feed_char v c)" using some_byte_accepted assms(3) by blast
  then show ?thesis by (metis prod.collapse)
qed

lemma jsonv_no_dead_end_witness:
  "\<exists>c v'. feed_char (snd (jsonv_feed (jsonv_init blank_jsonv) (cut_text @ ''D''))) c = (True, v')"
  by (rule jsonv_no_dead_end [where s = "cut_text @ ''D''" and junk = blank_jsonv])
    (simp_all add: jsonv_run cut_text_def json_escape_hex_def hex_digit_def)

end
