(* ===== verification/Json.thy ===== *)
theory Json
  imports Jsonmode "HOL-Library.List_Lexorder" "HOL-Library.Log_Nat" Complex_Main
begin

unbundle bit_operations_syntax

text \<open>
  The JSON tree of \<open>src/json.c\<close>: the recursive-descent parser, the string escaper and its
  inverses, the duplicate-key table, the string builder, the serialiser and \<open>jv_dictsort\<close>.

  The parser's cursor (\<open>p\<close>, \<open>end\<close>) is the list of the bytes from \<open>p\<close> up to \<open>end\<close>; a parse
  function returns \<open>None\<close> where the C code returns \<open>NULL\<close> and otherwise the value with the
  bytes that are left. The recursion counter \<open>depth\<close> (at most 128) is the number of levels
  still allowed. The loop over the members of a container takes fuel, the number of bytes
  left; \<open>parse_members_fuel\<close> shows that more would not change the result. Parsing assumes that
  allocation succeeds; the string builder, whose contract is about failure, takes the
  allocator as a parameter.

  A \<open>double\<close> is finite here (the parser refuses the rest) and is the rational number it
  denotes, so that -0 and 0 are one value.
\<close>

subsection \<open>Values\<close>

datatype jv = JNull | JBool bool | JNum rat | JStr string | JArr "jv list"
  | JObj "(string \<times> jv) list"

definition skip_ws :: "string \<Rightarrow> string" where
  "skip_ws s = dropWhile is_ws s"

fun get_member :: "(string \<times> jv) list \<Rightarrow> string \<Rightarrow> jv option" where
  "get_member [] key = None"
| "get_member ((k, v) # ms) key = (if k = key then Some v else get_member ms key)"

definition jv_get :: "jv option \<Rightarrow> string \<Rightarrow> jv option" where
  "jv_get obj key = (case obj of Some (JObj ms) \<Rightarrow> get_member ms key | _ \<Rightarrow> None)"

definition jv_str :: "jv option \<Rightarrow> string \<Rightarrow> string" where
  "jv_str v dflt = (case v of Some (JStr s) \<Rightarrow> s | _ \<Rightarrow> dflt)"

definition jv_num :: "jv option \<Rightarrow> rat \<Rightarrow> rat" where
  "jv_num v dflt = (case v of Some (JNum d) \<Rightarrow> d | _ \<Rightarrow> dflt)"

definition jv_bool :: "jv option \<Rightarrow> bool \<Rightarrow> bool" where
  "jv_bool v dflt = (case v of Some (JBool b) \<Rightarrow> b | _ \<Rightarrow> dflt)"

subsection \<open>UTF-8 and escapes\<close>

definition u8_emit :: "nat \<Rightarrow> string" where
  "u8_emit cp =
     (if cp < 0x80 then [char_of cp]
      else if cp < 0x800 then
        [char_of (0xC0 OR drop_bit 6 cp), char_of (0x80 OR (cp AND 0x3F))]
      else if cp < 0x10000 then
        [char_of (0xE0 OR drop_bit 12 cp), char_of (0x80 OR (drop_bit 6 cp AND 0x3F)),
         char_of (0x80 OR (cp AND 0x3F))]
      else
        [char_of (0xF0 OR drop_bit 18 cp), char_of (0x80 OR (drop_bit 12 cp AND 0x3F)),
         char_of (0x80 OR (drop_bit 6 cp AND 0x3F)), char_of (0x80 OR (cp AND 0x3F))])"

text \<open>\<open>hex4\<close> reads the first four bytes; \<open>None\<close> is the -1 of the source.\<close>

fun hex_digits :: "nat \<Rightarrow> string \<Rightarrow> nat option" where
  "hex_digits v [] = Some v"
| "hex_digits v (c # s) =
     (case hex_digit c of None \<Rightarrow> None | Some d \<Rightarrow> hex_digits (push_bit 4 v OR d) s)"

definition hex4 :: "string \<Rightarrow> nat option" where
  "hex4 p = hex_digits 0 (take 4 p)"

definition utf8_len :: "nat \<Rightarrow> nat" where
  "utf8_len c = (if c < 0x80 then 1 else if c AND 0xE0 = 0xC0 then 2
     else if c AND 0xF0 = 0xE0 then 3 else if c AND 0xF8 = 0xF0 then 4 else 0)"

definition utf8_seq :: "string \<Rightarrow> nat" where
  "utf8_seq s =
     (let c = byte (s ! 0);
          len = utf8_len c;
          c1 = (if 1 < len then byte (s ! 1) else 0)
      in if len = 0 \<or> length s < len then 0
         else if \<not> list_all (\<lambda>b. byte b AND 0xC0 = 0x80) (take (len - 1) (drop 1 s)) then 0
         else if len = 2 \<and> c < 0xC2 then 0
         else if len = 3 \<and> c = 0xE0 \<and> c1 < 0xA0 then 0
         else if len = 3 \<and> c = 0xED \<and> 0xA0 \<le> c1 then 0
         else if len = 4 \<and> c = 0xF0 \<and> c1 < 0x90 then 0
         else if len = 4 \<and> (0xF4 < c \<or> c = 0xF4 \<and> 0x90 \<le> c1) then 0
         else len)"

definition escape_value :: "char \<Rightarrow> char option" where
  "escape_value e =
     (if e = CHR 0x22 then Some CHR 0x22
      else if e = CHR 0x5C then Some CHR 0x5C
      else if e = CHR ''/'' then Some CHR ''/''
      else if e = CHR ''b'' then Some CHR 0x08
      else if e = CHR ''f'' then Some CHR 0x0C
      else if e = CHR ''n'' then Some CHR 0x0A
      else if e = CHR ''r'' then Some CHR 0x0D
      else if e = CHR ''t'' then Some CHR 0x09
      else None)"

text \<open>\<open>json_unescape\<close>: the result code (consumed, 0 for incomplete, -1 for never valid) and
  the bytes in \<open>out\<close>.\<close>

definition json_unescape :: "string \<Rightarrow> int \<times> string" where
  "json_unescape s =
     (let n = length s in
      if n < 1 \<or> s ! 0 \<noteq> CHR 0x5C then (-1, [])
      else if n < 2 then (0, [])
      else if escape_value (s ! 1) = None \<and> s ! 1 \<noteq> CHR ''u'' then (-1, [])
      else (case escape_value (s ! 1) of
        Some c \<Rightarrow> (2, [c])
      | None \<Rightarrow>
          if n < 6 then (0, [])
          else (case hex4 (drop 2 s) of
            None \<Rightarrow> (-1, [])
          | Some cp \<Rightarrow>
              if cp = 0 then (-1, [])
              else if 0xD800 \<le> cp \<and> cp \<le> 0xDBFF then
                (if n < 7 then (0, [])
                 else if s ! 6 \<noteq> CHR 0x5C then (-1, [])
                 else if n < 8 then (0, [])
                 else if s ! 7 \<noteq> CHR ''u'' then (-1, [])
                 else if n < 12 then (0, [])
                 else (case hex4 (drop 8 s) of
                   None \<Rightarrow> (-1, [])
                 | Some lo \<Rightarrow>
                     if lo < 0xDC00 \<or> 0xDFFF < lo then (-1, [])
                     else (12, u8_emit (0x10000 + push_bit 10 (cp - 0xD800) + (lo - 0xDC00)))))
              else if 0xDC00 \<le> cp \<and> cp \<le> 0xDFFF then (-1, [])
              else (6, u8_emit cp))))"

subsection \<open>Parsing strings\<close>

text \<open>The \<open>case 'u'\<close> of \<open>parse_string\<close>, after the letter: the emitted bytes and the rest.\<close>

definition parse_u :: "string \<Rightarrow> (string \<times> string) option" where
  "parse_u r =
     (if length r < 4 then None
      else (case hex4 r of
        None \<Rightarrow> None
      | Some cp \<Rightarrow>
          (let r4 = drop 4 r in
           if cp = 0 then None
           else if 0xD800 \<le> cp \<and> cp \<le> 0xDBFF then
             (if length r4 < 6 \<or> r4 ! 0 \<noteq> CHR 0x5C \<or> r4 ! 1 \<noteq> CHR ''u'' then None
              else (case hex4 (drop 2 r4) of
                None \<Rightarrow> None
              | Some lo \<Rightarrow>
                  if lo < 0xDC00 \<or> 0xDFFF < lo then None
                  else Some (u8_emit (0x10000 + push_bit 10 (cp - 0xD800) + (lo - 0xDC00)),
                             drop 6 r4)))
           else if 0xDC00 \<le> cp \<and> cp \<le> 0xDFFF then None
           else Some (u8_emit cp, r4))))"

lemma parse_u_shorter: "parse_u r = Some (u, r') \<Longrightarrow> length r' < length r"
  by (auto simp: parse_u_def Let_def split: if_splits option.splits)

function parse_string_loop :: "string \<Rightarrow> string \<Rightarrow> (string \<times> string) option" where
  "parse_string_loop out [] = None"
| "parse_string_loop out (ch # r) =
     (if ch = CHR 0x22 then Some (out, r)
      else if ch = CHR 0x5C then
        (case r of
           [] \<Rightarrow> None
         | e # r1 \<Rightarrow>
             (case escape_value e of
                Some c \<Rightarrow> parse_string_loop (out @ [c]) r1
              | None \<Rightarrow>
                  if e = CHR ''u'' then
                    (case parse_u r1 of
                       None \<Rightarrow> None
                     | Some (u, r2) \<Rightarrow> parse_string_loop (out @ u) r2)
                  else None))
      else if byte ch < 0x20 then None
      else if byte ch < 0x80 then parse_string_loop (out @ [ch]) r
      else
        (let len = utf8_seq (ch # r) in
         if len = 0 then None
         else parse_string_loop (out @ take len (ch # r)) (drop len (ch # r))))"
  by pat_completeness auto
termination
  by (relation "measure (\<lambda>(out, s). length s)") (auto dest: parse_u_shorter)

definition parse_string :: "string \<Rightarrow> (string \<times> string) option" where
  "parse_string s =
     (case s of [] \<Rightarrow> None | q # r \<Rightarrow> if q \<noteq> CHR 0x22 then None else parse_string_loop [] r)"

subsection \<open>The duplicate-key table\<close>

record keyset =
  k_slots :: "string option list"
  k_cap :: nat
  k_used :: nat

definition keyset_empty :: keyset where
  "keyset_empty = \<lparr>k_slots = [], k_cap = 0, k_used = 0\<rparr>"

definition key_hash :: "string \<Rightarrow> 64 word" where
  "key_hash s = foldl (\<lambda>h c. (h XOR of_char c) * 1099511628211) 1469598103934665603 s"

definition hash_slot :: "nat \<Rightarrow> string \<Rightarrow> nat" where
  "hash_slot cap key = unat (key_hash key) AND (cap - 1)"

text \<open>The two probe loops: the one of rehashing stops at a free slot, the one of insertion also
  at the key itself. They take the number of slots as fuel.\<close>

fun probe_free :: "nat \<Rightarrow> string option list \<Rightarrow> nat \<Rightarrow> nat \<Rightarrow> nat option" where
  "probe_free 0 slots cap i = None"
| "probe_free (Suc f) slots cap i =
     (case slots ! i of
        None \<Rightarrow> Some i
      | Some _ \<Rightarrow> probe_free f slots cap ((i + 1) AND (cap - 1)))"

fun probe_key :: "nat \<Rightarrow> string option list \<Rightarrow> nat \<Rightarrow> string \<Rightarrow> nat \<Rightarrow> (bool \<times> nat) option" where
  "probe_key 0 slots cap key i = None"
| "probe_key (Suc f) slots cap key i =
     (case slots ! i of
        None \<Rightarrow> Some (False, i)
      | Some k \<Rightarrow> if k = key then Some (True, i)
                  else probe_key f slots cap key ((i + 1) AND (cap - 1)))"

definition rehash_one :: "nat \<Rightarrow> string option list \<Rightarrow> string option \<Rightarrow> string option list" where
  "rehash_one cap slots old =
     (case old of
        None \<Rightarrow> slots
      | Some k \<Rightarrow>
          (case probe_free cap slots cap (hash_slot cap k) of
             None \<Rightarrow> slots
           | Some i \<Rightarrow> slots[i := Some k]))"

definition keyset_grow :: "keyset \<Rightarrow> keyset" where
  "keyset_grow t =
     (if k_cap t div 2 < k_used t + 1 then
        (let cap = (if k_cap t \<noteq> 0 then k_cap t * 2 else 16)
         in t\<lparr>k_slots := foldl (rehash_one cap) (replicate cap None) (k_slots t),
              k_cap := cap\<rparr>)
      else t)"

definition keyset_insert :: "keyset \<Rightarrow> string \<Rightarrow> int \<times> keyset" where
  "keyset_insert t0 key =
     (let t = keyset_grow t0 in
      case probe_key (k_cap t) (k_slots t) (k_cap t) key (hash_slot (k_cap t) key) of
        None \<Rightarrow> (-1, t)
      | Some (True, i) \<Rightarrow> (0, t)
      | Some (False, i) \<Rightarrow>
          (1, t\<lparr>k_slots := (k_slots t)[i := Some key], k_used := k_used t + 1\<rparr>))"

subsection \<open>Numbers\<close>

text \<open>Binary64 rounding to nearest, ties to even, of an exact rational, and the \<open>ERANGE\<close> of
  glibc's \<open>strtod\<close>: overflow, or an inexact subnormal result.\<close>

definition round_even :: "rat \<Rightarrow> int" where
  "round_even q =
     (let f = \<lfloor>q\<rfloor>; r = q - of_int f
      in if r < 1 / 2 then f else if 1 / 2 < r then f + 1 else if even f then f else f + 1)"

definition pow2 :: "int \<Rightarrow> rat" where
  "pow2 e = (if 0 \<le> e then 2 ^ nat e else 1 / 2 ^ nat (- e))"

definition ilog2 :: "rat \<Rightarrow> int" where
  "ilog2 q =
     (case quotient_of q of
        (a, b) \<Rightarrow>
          (let e = int (floorlog 2 (nat a)) - int (floorlog 2 (nat b))
           in if pow2 e \<le> q then e else e - 1))"

definition ulp_exp :: "rat \<Rightarrow> int" where
  "ulp_exp q = (if q = 0 then -1074 else max (ilog2 \<bar>q\<bar> - 52) (-1074))"

definition round_double :: "rat \<Rightarrow> rat" where
  "round_double q = of_int (round_even (q / pow2 (ulp_exp q))) * pow2 (ulp_exp q)"

definition strtod_erange :: "rat \<Rightarrow> bool" where
  "strtod_erange q \<longleftrightarrow>
     pow2 1024 \<le> \<bar>round_double q\<bar> \<or> \<bar>round_double q\<bar> < pow2 (-1022) \<and> round_double q \<noteq> q"

definition dec_digits :: "string \<Rightarrow> nat" where
  "dec_digits s = foldl (\<lambda>n c. n * 10 + (byte c - byte CHR ''0'')) 0 s"

definition pow10 :: "int \<Rightarrow> rat" where
  "pow10 e = (if 0 \<le> e then 10 ^ nat e else 1 / 10 ^ nat (- e))"

definition dec_exponent :: "string \<Rightarrow> int" where
  "dec_exponent s =
     (case s of
        [] \<Rightarrow> 0
      | _ # r \<Rightarrow>
          (case r of
             [] \<Rightarrow> 0
           | c # ds \<Rightarrow>
               if c = CHR ''-'' then - int (dec_digits ds)
               else if c = CHR ''+'' then int (dec_digits ds)
               else int (dec_digits r)))"

text \<open>The exact value of a decimal literal: sign, integer part, fraction, exponent.\<close>

definition dec_value :: "string \<Rightarrow> rat" where
  "dec_value lit =
     (let neg = (lit \<noteq> [] \<and> hd lit = CHR ''-'');
          s = (if neg then tl lit else lit);
          ip = takeWhile is_digit s;
          r = dropWhile is_digit s;
          frac = (r \<noteq> [] \<and> hd r = CHR ''.'');
          fp = (if frac then takeWhile is_digit (tl r) else []);
          r2 = (if frac then dropWhile is_digit (tl r) else r);
          q = of_nat (dec_digits (ip @ fp)) * pow10 (dec_exponent r2 - int (length fp))
      in if neg then - q else q)"

definition max_num :: rat where
  "max_num = round_double (17 * 10 ^ 307)"

text \<open>The scan: where the literal ends, or \<open>None\<close>. \<open>some_digits\<close> is the test for one digit
  followed by the \<open>do ... while\<close> loop over the rest.\<close>

definition some_digits :: "string \<Rightarrow> string option" where
  "some_digits p = (if p = [] \<or> \<not> is_digit (hd p) then None else Some (dropWhile is_digit p))"

definition scan_int :: "string \<Rightarrow> string option" where
  "scan_int p =
     (case p of
        [] \<Rightarrow> None
      | c # r \<Rightarrow>
          if c = CHR ''0'' then (if r \<noteq> [] \<and> is_digit (hd r) then None else Some r)
          else if digit19 c then Some (dropWhile is_digit r)
          else None)"

definition scan_frac :: "string \<Rightarrow> string option" where
  "scan_frac p = (if p \<noteq> [] \<and> hd p = CHR ''.'' then some_digits (tl p) else Some p)"

definition scan_exp :: "string \<Rightarrow> string option" where
  "scan_exp p =
     (if p \<noteq> [] \<and> (hd p = CHR ''e'' \<or> hd p = CHR ''E'') then
        (let q = tl p
         in some_digits (if q \<noteq> [] \<and> (hd q = CHR ''+'' \<or> hd q = CHR ''-'') then tl q else q))
      else Some p)"

definition scan_number :: "string \<Rightarrow> string option" where
  "scan_number s =
     (case scan_int (if s \<noteq> [] \<and> hd s = CHR ''-'' then tl s else s) of
        None \<Rightarrow> None
      | Some p \<Rightarrow> (case scan_frac p of None \<Rightarrow> None | Some q \<Rightarrow> scan_exp q))"

definition parse_number :: "string \<Rightarrow> (jv \<times> string) option" where
  "parse_number s =
     (case scan_number s of
        None \<Rightarrow> None
      | Some p \<Rightarrow>
          (let q = dec_value (take (length s - length p) s);
               d = round_double q
           in if \<not> strtod_erange q \<and> - max_num < d \<and> d < max_num then Some (JNum d, p) else None))"

subsection \<open>Parsing values\<close>

text \<open>The loop of \<open>parse_container\<close>, entered after the opening token; \<open>pv\<close> is \<open>parse_value\<close> one
  level down. Arrays do not touch the key table.\<close>

definition parse_key :: "keyset \<Rightarrow> string \<Rightarrow> (string \<times> keyset \<times> string) option" where
  "parse_key keys s =
     (case parse_string (skip_ws s) of
        None \<Rightarrow> None
      | Some (key, s1) \<Rightarrow>
          (case keyset_insert keys key of
             (r, keys1) \<Rightarrow>
               if r \<noteq> 1 then None
               else
                 (case skip_ws s1 of
                    [] \<Rightarrow> None
                  | c # s2 \<Rightarrow> if c \<noteq> CHR '':'' then None else Some (key, keys1, s2))))"

fun parse_members :: "nat \<Rightarrow> (string \<Rightarrow> (jv \<times> string) option) \<Rightarrow> keyset \<Rightarrow> (string \<times> jv) list \<Rightarrow>
    string \<Rightarrow> (jv \<times> string) option" where
  "parse_members 0 pv keys acc s = None"
| "parse_members (Suc f) pv keys acc s =
     (case parse_key keys s of
        None \<Rightarrow> None
      | Some (key, keys1, s1) \<Rightarrow>
          (case pv s1 of
             None \<Rightarrow> None
           | Some (item, s2) \<Rightarrow>
               (case skip_ws s2 of
                  [] \<Rightarrow> None
                | c # s3 \<Rightarrow>
                    if c = CHR '','' then parse_members f pv keys1 (acc @ [(key, item)]) s3
                    else if c = CHR ''}'' then Some (JObj (acc @ [(key, item)]), s3)
                    else None)))"

fun parse_items :: "nat \<Rightarrow> (string \<Rightarrow> (jv \<times> string) option) \<Rightarrow> jv list \<Rightarrow> string \<Rightarrow>
    (jv \<times> string) option" where
  "parse_items 0 pv acc s = None"
| "parse_items (Suc f) pv acc s =
     (case pv s of
        None \<Rightarrow> None
      | Some (item, s2) \<Rightarrow>
          (case skip_ws s2 of
             [] \<Rightarrow> None
           | c # s3 \<Rightarrow>
               if c = CHR '','' then parse_items f pv (acc @ [item]) s3
               else if c = CHR '']'' then Some (JArr (acc @ [item]), s3)
               else None))"

definition parse_container :: "(string \<Rightarrow> (jv \<times> string) option) \<Rightarrow> string \<Rightarrow>
    (jv \<times> string) option" where
  "parse_container pv s =
     (let open_obj = (hd s = CHR ''{''); s1 = skip_ws (tl s) in
      if s1 \<noteq> [] \<and> hd s1 = (if open_obj then CHR ''}'' else CHR '']'')
      then Some (if open_obj then JObj [] else JArr [], tl s1)
      else if open_obj then parse_members (length s) pv keyset_empty [] s1
      else parse_items (length s) pv [] s1)"

text \<open>The argument is the number of levels still allowed: \<open>128 - depth\<close>.\<close>

fun parse_value :: "nat \<Rightarrow> string \<Rightarrow> (jv \<times> string) option" where
  "parse_value 0 s = None"
| "parse_value (Suc k) s0 =
     (let s = skip_ws s0 in
      case s of
        [] \<Rightarrow> None
      | ch # r \<Rightarrow>
          if ch = CHR ''{'' \<or> ch = CHR ''['' then parse_container (parse_value k) s
          else if ch = CHR 0x22 then
            (case parse_string s of None \<Rightarrow> None | Some (t, r1) \<Rightarrow> Some (JStr t, r1))
          else if ch = CHR ''t'' \<and> take 4 s = ''true'' then Some (JBool True, drop 4 s)
          else if ch = CHR ''f'' \<and> take 5 s = ''false'' then Some (JBool False, drop 5 s)
          else if ch = CHR ''n'' \<and> take 4 s = ''null'' then Some (JNull, drop 4 s)
          else if ch = CHR ''-'' \<or> is_digit ch then parse_number s
          else None)"

definition max_depth :: nat where
  "max_depth = 128"

definition json_parse :: "string \<Rightarrow> jv option" where
  "json_parse s =
     (case parse_value max_depth s of
        None \<Rightarrow> None
      | Some (v, r) \<Rightarrow> if skip_ws r \<noteq> [] then None else Some v)"

subsection \<open>Escaping\<close>

definition short_escape :: "char \<Rightarrow> char option" where
  "short_escape c =
     (if c = CHR 0x22 then Some CHR 0x22
      else if c = CHR 0x5C then Some CHR 0x5C
      else if c = CHR 0x0A then Some CHR ''n''
      else if c = CHR 0x0D then Some CHR ''r''
      else if c = CHR 0x09 then Some CHR ''t''
      else if c = CHR 0x08 then Some CHR ''b''
      else if c = CHR 0x0C then Some CHR ''f''
      else None)"

definition hex_char :: "nat \<Rightarrow> char" where
  "hex_char d = (if d < 10 then char_of (byte CHR ''0'' + d) else char_of (byte CHR ''a'' + (d - 10)))"

text \<open>\<open>snprintf(..., "\\u%04x", c)\<close> of a control byte.\<close>

definition u_escape :: "char \<Rightarrow> string" where
  "u_escape c = CHR 0x5C # ''u00'' @ [hex_char (byte c div 16), hex_char (byte c mod 16)]"

definition replacement :: string where
  "replacement = [CHR 0xEF, CHR 0xBF, CHR 0xBD]"

text \<open>One iteration at the first byte of \<open>s\<close>: the bytes written and the number consumed. The
  inner copy loop stops at \<open>cap - 1\<close>.\<close>

definition escape_step :: "nat \<Rightarrow> nat \<Rightarrow> string \<Rightarrow> string \<times> nat" where
  "escape_step cap m s =
     (let c = s ! 0 in
      case short_escape c of
        Some e \<Rightarrow> ([CHR 0x5C, e], 1)
      | None \<Rightarrow>
          if byte c < 0x20 then (take (cap - m - 1) (u_escape c), 1)
          else if byte c < 0x80 then ([c], 1)
          else
            (let len = utf8_seq s in
             if len = 0 then (replacement, 1)
             else (take (cap - 1 - m) (take len s), len)))"

lemma escape_step_used: "0 < snd (escape_step cap m s)"
  by (simp add: escape_step_def Let_def split: option.splits)

lemma escape_step_shorter:
  "(w, used) = escape_step cap m (c # s) \<Longrightarrow> length (drop used (c # s)) < length (c # s)"
  using escape_step_used [of cap m "c # s"] by (intro drop_shorter) (auto dest: sym)

function json_escape_loop :: "nat \<Rightarrow> string \<Rightarrow> string \<Rightarrow> string" where
  "json_escape_loop cap out [] = out"
| "json_escape_loop cap out (c # s) =
     (if length out + 8 < cap then
        (case escape_step cap (length out) (c # s) of
           (w, used) \<Rightarrow> json_escape_loop cap (out @ w) (drop used (c # s)))
      else out)"
  by pat_completeness auto
termination
  by (relation "measure (\<lambda>(cap, out, s). length s)")
    (auto simp del: length_drop drop_Cons dest: escape_step_shorter [simplified] simp: escape_step_shorter)

definition json_escape :: "string \<Rightarrow> nat \<Rightarrow> string" where
  "json_escape s cap = json_escape_loop cap [] s"

subsection \<open>The string builder\<close>

text \<open>The buffer's allocated size, the bytes in it and the failure latch; \<open>alloc n\<close> tells
  whether an allocation of \<open>n\<close> bytes succeeds. \<open>size_t\<close> wraps at \<open>2 ^ 64\<close>.\<close>

record sbuf =
  b_s :: string
  b_cap :: nat
  b_failed :: bool

definition SIZE_MAX :: nat where
  "SIZE_MAX = 2 ^ 64 - 1"

definition wrap64 :: "int \<Rightarrow> nat" where
  "wrap64 x = nat (x mod 2 ^ 64)"

definition sb_put :: "(nat \<Rightarrow> bool) \<Rightarrow> string \<Rightarrow> sbuf \<Rightarrow> sbuf" where
  "sb_put alloc s b =
     (let n = length s; bn = length (b_s b) in
      if b_failed b then b
      else if b_cap b < wrap64 (int bn + int n + 1) then
        (if wrap64 (int (SIZE_MAX div 2) - int bn - 256) < n then b\<lparr>b_failed := True\<rparr>
         else
           (let cap = wrap64 ((int bn + int n + 1) * 2 + 256) in
            if \<not> alloc cap then b\<lparr>b_failed := True\<rparr>
            else b\<lparr>b_cap := cap, b_s := b_s b @ s\<rparr>))
      else b\<lparr>b_s := b_s b @ s\<rparr>)"

text \<open>\<open>sb_fmt\<close> on the text its format expands to: up to 4095 bytes through the stack buffer, a
  longer text through the heap.\<close>

definition sb_fmt :: "(nat \<Rightarrow> bool) \<Rightarrow> string \<Rightarrow> sbuf \<Rightarrow> sbuf" where
  "sb_fmt alloc text b =
     (if b_failed b then b
      else if length text < 4096 then sb_put alloc text b
      else if \<not> alloc (length text + 1) then b\<lparr>b_failed := True\<rparr>
      else sb_put alloc text b)"

definition sb_esc :: "(nat \<Rightarrow> bool) \<Rightarrow> string \<Rightarrow> sbuf \<Rightarrow> sbuf" where
  "sb_esc alloc s b =
     (let n = length s in
      if b_failed b then b
      else if (SIZE_MAX - 8) div 6 < n then b\<lparr>b_failed := True\<rparr>
      else
        (let cap = n * 6 + 8 in
         if \<not> alloc cap then b\<lparr>b_failed := True\<rparr>
         else sb_put alloc (json_escape s cap) b))"

subsection \<open>Serialising\<close>

fun nat_str :: "nat \<Rightarrow> string" where
  "nat_str n = (if n < 10 then [char_of (byte CHR ''0'' + n)]
                else nat_str (n div 10) @ [char_of (byte CHR ''0'' + n mod 10)])"

declare nat_str.simps [simp del]

text \<open>\<open>%lld\<close> and \<open>%.10g\<close>. The latter rounds to ten significant digits (ties to even), uses the
  exponent form outside \<open>10^-4 .. 10^10\<close> and drops trailing zeros.\<close>

definition fmt_lld :: "int \<Rightarrow> string" where
  "fmt_lld i = (if i < 0 then CHR ''-'' # nat_str (nat (- i)) else nat_str (nat i))"

definition ilog10 :: "rat \<Rightarrow> int" where
  "ilog10 q =
     (case quotient_of q of
        (a, b) \<Rightarrow>
          (let e = int (length (nat_str (nat a))) - int (length (nat_str (nat b)))
           in if pow10 e \<le> q then e else e - 1))"

definition strip_zeros :: "string \<Rightarrow> string" where
  "strip_zeros s = rev (dropWhile (\<lambda>c. c = CHR ''0'') (rev s))"

definition with_point :: "string \<Rightarrow> string \<Rightarrow> string" where
  "with_point ip fp = (let f = strip_zeros fp in if f = [] then ip else ip @ CHR ''.'' # f)"

definition fmt_exp :: "int \<Rightarrow> string" where
  "fmt_exp x = (let d = nat_str (nat \<bar>x\<bar>)
                in CHR ''e'' # (if x < 0 then CHR ''-'' else CHR ''+'') #
                   (if length d < 2 then CHR ''0'' # d else d))"

definition fmt_g10 :: "rat \<Rightarrow> string" where
  "fmt_g10 q =
     (if q = 0 then ''0''
      else
        (let a = \<bar>q\<bar>; e0 = ilog10 a; m0 = round_even (a / pow10 (e0 - 9));
             (m, x) = (if m0 = 10 ^ 10 then (10 ^ 9, e0 + 1) else (m0, e0));
             ds = nat_str (nat m);
             body = (if x < -4 \<or> 10 \<le> x then with_point (take 1 ds) (drop 1 ds) @ fmt_exp x
                     else if 0 \<le> x then with_point (take (nat x + 1) ds) (drop (nat x + 1) ds)
                     else with_point ''0'' (replicate (nat (- x) - 1) CHR ''0'' @ ds))
         in if q < 0 then CHR ''-'' # body else body))"

definition num_text :: "rat \<Rightarrow> string" where
  "num_text q = (if - (2 ^ 63) \<le> q \<and> q < 2 ^ 63 \<and> q = of_int \<lfloor>q\<rfloor> then fmt_lld \<lfloor>q\<rfloor> else fmt_g10 q)"

fun jv_dump_sep :: "(nat \<Rightarrow> bool) \<Rightarrow> string \<Rightarrow> string \<Rightarrow> jv \<Rightarrow> sbuf \<Rightarrow> sbuf"
  and dump_items :: "(nat \<Rightarrow> bool) \<Rightarrow> string \<Rightarrow> string \<Rightarrow> bool \<Rightarrow> jv list \<Rightarrow> sbuf \<Rightarrow> sbuf"
  and dump_members ::
    "(nat \<Rightarrow> bool) \<Rightarrow> string \<Rightarrow> string \<Rightarrow> bool \<Rightarrow> (string \<times> jv) list \<Rightarrow> sbuf \<Rightarrow> sbuf" where
  "jv_dump_sep al comma colon JNull o1 = sb_put al ''null'' o1"
| "jv_dump_sep al comma colon (JBool b) o1 = sb_put al (if b then ''true'' else ''false'') o1"
| "jv_dump_sep al comma colon (JNum q) o1 = sb_fmt al (num_text q) o1"
| "jv_dump_sep al comma colon (JStr s) o1 =
     sb_put al [CHR 0x22] (sb_esc al s (sb_put al [CHR 0x22] o1))"
| "jv_dump_sep al comma colon (JArr vs) o1 =
     sb_put al '']'' (dump_items al comma colon False vs (sb_put al ''['' o1))"
| "jv_dump_sep al comma colon (JObj ms) o1 =
     sb_put al ''}'' (dump_members al comma colon False ms (sb_put al ''{'' o1))"
| "dump_items al comma colon i [] o1 = o1"
| "dump_items al comma colon i (v # vs) o1 =
     dump_items al comma colon True vs
       (jv_dump_sep al comma colon v (if i then sb_put al comma o1 else o1))"
| "dump_members al comma colon i [] o1 = o1"
| "dump_members al comma colon i ((k, v) # ms) o1 =
     dump_members al comma colon True ms
       (jv_dump_sep al comma colon v
         (sb_put al colon (sb_put al [CHR 0x22] (sb_esc al k
           (sb_put al [CHR 0x22] (if i then sb_put al comma o1 else o1))))))"

definition jv_dump :: "(nat \<Rightarrow> bool) \<Rightarrow> jv option \<Rightarrow> sbuf \<Rightarrow> sbuf" where
  "jv_dump al v o1 =
     (case v of None \<Rightarrow> sb_put al ''null'' o1 | Some w \<Rightarrow> jv_dump_sep al '','' '':'' w o1)"

definition jv_dump_tojson :: "(nat \<Rightarrow> bool) \<Rightarrow> jv option \<Rightarrow> sbuf \<Rightarrow> sbuf" where
  "jv_dump_tojson al v o1 =
     (case v of None \<Rightarrow> sb_put al ''null'' o1 | Some w \<Rightarrow> jv_dump_sep al '', '' '': '' w o1)"

subsection \<open>Sorting members\<close>

definition lower_byte :: "char \<Rightarrow> nat" where
  "lower_byte c = (if byte CHR ''A'' \<le> byte c \<and> byte c \<le> byte CHR ''Z''
                   then byte c - byte CHR ''A'' + byte CHR ''a'' else byte c)"

text \<open>The terminating NUL of a C string is the end of the list.\<close>

fun jv_key_cmp :: "string \<Rightarrow> string \<Rightarrow> int" where
  "jv_key_cmp [] [] = 0"
| "jv_key_cmp [] (y # b) = (if lower_byte y \<noteq> 0 then -1 else 0)"
| "jv_key_cmp (x # a) [] = (if lower_byte x \<noteq> 0 then 1 else 0)"
| "jv_key_cmp (x # a) (y # b) =
     (if lower_byte x \<noteq> lower_byte y then (if lower_byte x < lower_byte y then -1 else 1)
      else if lower_byte x = 0 then 0 else jv_key_cmp a b)"

text \<open>The inner loop on the array \<open>order\<close>, and the outer one over all members.\<close>

fun dictsort_shift :: "string list \<Rightarrow> nat \<Rightarrow> nat list \<Rightarrow> nat \<Rightarrow> nat list" where
  "dictsort_shift keys i order 0 = order[0 := i]"
| "dictsort_shift keys i order (Suc j) =
     (if 0 < jv_key_cmp (keys ! (order ! j)) (keys ! i)
      then dictsort_shift keys i (order[Suc j := order ! j]) j
      else order[Suc j := i])"

definition jv_dictsort :: "jv option \<Rightarrow> nat list \<Rightarrow> nat list" where
  "jv_dictsort obj order =
     (case obj of
        Some (JObj ms) \<Rightarrow>
          foldl (\<lambda>ord i. dictsort_shift (map fst ms) i ord i) order [0..<length ms]
      | _ \<Rightarrow> order)"

end
