(* ===== verification/Fp16.thy ===== *)
theory Fp16
  imports Json "HOL-Library.While_Combinator"
begin

text \<open>
  The floating-point bit patterns of \<open>src/fp16.h\<close> and \<open>src/quants.c\<close>: half precision to single
  and back, bfloat16, and the values the patterns denote. A C \<open>float\<close> that is only looked at
  through its bits is its 32-bit word; \<open>f16_val\<close>, \<open>f32_val\<close> and \<open>f64_val\<close> are the rational
  numbers the finite patterns denote (IEEE 754: sign, biased exponent, fraction), so that 0
  and -0 have one value. \<open>f64_of_f32\<close> is the widening conversion of the language.
\<close>

subsection \<open>What a bit pattern denotes\<close>

definition fsign :: "nat \<Rightarrow> rat" where
  "fsign s = (if s = 0 then 1 else -1)"

definition f16_sgn :: "16 word \<Rightarrow> nat" where
  "f16_sgn h = unat h div 2 ^ 15"

definition f16_exp :: "16 word \<Rightarrow> nat" where
  "f16_exp h = unat h div 2 ^ 10 mod 2 ^ 5"

definition f16_frac :: "16 word \<Rightarrow> nat" where
  "f16_frac h = unat h mod 2 ^ 10"

definition f16_val :: "16 word \<Rightarrow> rat" where
  "f16_val h =
     fsign (f16_sgn h) *
     (if f16_exp h = 0 then of_nat (f16_frac h) * pow2 (- 24)
      else of_nat (2 ^ 10 + f16_frac h) * pow2 (int (f16_exp h) - 25))"

definition f32_sgn :: "32 word \<Rightarrow> nat" where
  "f32_sgn h = unat h div 2 ^ 31"

definition f32_exp :: "32 word \<Rightarrow> nat" where
  "f32_exp h = unat h div 2 ^ 23 mod 2 ^ 8"

definition f32_frac :: "32 word \<Rightarrow> nat" where
  "f32_frac h = unat h mod 2 ^ 23"

definition f32_val :: "32 word \<Rightarrow> rat" where
  "f32_val h =
     fsign (f32_sgn h) *
     (if f32_exp h = 0 then of_nat (f32_frac h) * pow2 (- 149)
      else of_nat (2 ^ 23 + f32_frac h) * pow2 (int (f32_exp h) - 150))"

definition f64_sgn :: "64 word \<Rightarrow> nat" where
  "f64_sgn h = unat h div 2 ^ 63"

definition f64_exp :: "64 word \<Rightarrow> nat" where
  "f64_exp h = unat h div 2 ^ 52 mod 2 ^ 11"

definition f64_frac :: "64 word \<Rightarrow> nat" where
  "f64_frac h = unat h mod 2 ^ 52"

definition f64_val :: "64 word \<Rightarrow> rat" where
  "f64_val h =
     fsign (f64_sgn h) *
     (if f64_exp h = 0 then of_nat (f64_frac h) * pow2 (- 1074)
      else of_nat (2 ^ 52 + f64_frac h) * pow2 (int (f64_exp h) - 1075))"

text \<open>\<open>(double)f\<close> on bit patterns: a subnormal single becomes a normal double.\<close>

definition f64_of_f32 :: "32 word \<Rightarrow> 64 word" where
  "f64_of_f32 u =
     (let s = f32_sgn u; e = f32_exp u; m = f32_frac u
      in word_of_nat (s * 2 ^ 63 +
           (if e = 255 then 2047 * 2 ^ 52 + m * 2 ^ 29
            else if e = 0 then
              (if m = 0 then 0
               else (let k = floorlog 2 m - 1 in (k + 874) * 2 ^ 52 + (m - 2 ^ k) * 2 ^ (52 - k)))
            else (e + 896) * 2 ^ 52 + m * 2 ^ 29)))"

subsection \<open>Half precision\<close>

text \<open>\<open>f16_decode\<close>: the loop that normalises a subnormal fraction may run for ever on a zero
  fraction, which the code excludes; the result is \<open>None\<close> when it does not return.\<close>

definition f16_decode :: "16 word \<Rightarrow> 32 word option" where
  "f16_decode h =
     (let sgn = push_bit 16 (ucast (h AND 0x8000)) :: 32 word;
          exp = ucast (drop_bit 10 h) AND 0x1F :: 32 word;
          mant = ucast (h AND 0x3FF) :: 32 word
      in if exp = 0 then
           (if mant = 0 then Some sgn
            else
              (case while_option (\<lambda>(m :: 32 word, e :: 32 word). m AND 0x400 = 0)
                      (\<lambda>(m, e). (push_bit 1 m, e - 1)) (mant, 113) of
                 None \<Rightarrow> None
               | Some (m, e) \<Rightarrow> Some (sgn OR push_bit 23 e OR push_bit 13 (m AND 0x3FF))))
         else if exp = 31 then Some (sgn OR 0x7F800000 OR push_bit 13 mant)
         else Some (sgn OR push_bit 23 (exp - 15 + 127) OR push_bit 13 mant))"

text \<open>\<open>g_f16_table\<close> after \<open>f16_init\<close>.\<close>

definition f16_init :: "32 word option list" where
  "f16_init = map (\<lambda>i. f16_decode (word_of_nat i)) [0..<65536]"

definition f16_to_f32 :: "16 word \<Rightarrow> 32 word option" where
  "f16_to_f32 h = f16_init ! unat h"

definition bf16_to_f32 :: "16 word \<Rightarrow> 32 word" where
  "bf16_to_f32 h = push_bit 16 (ucast h)"

text \<open>\<open>exp\<close> is a signed \<open>int32_t\<close> that stays between -112 and 143.\<close>

definition f32_to_f16_soft :: "32 word \<Rightarrow> 16 word" where
  "f32_to_f16_soft u =
     (let sgn = drop_bit 16 u AND 0x8000;
          exp = uint (drop_bit 23 u AND 0xFF) - 127 + 15;
          mant = u AND 0x7FFFFF
      in if exp \<ge> 31 then
           (if exp = 143 \<and> mant \<noteq> 0
            then ucast (sgn OR 0x7C00 OR drop_bit 13 mant OR 0x0200)
            else ucast (sgn OR 0x7C00))
         else if exp \<le> 0 then
           (if exp < - 10 then ucast sgn
            else
              (let mant = mant OR 0x800000;
                   shift = nat (14 - exp);
                   h = drop_bit shift mant;
                   rm = mant AND (push_bit shift 1 - 1);
                   half = push_bit (shift - 1) 1;
                   h = (if rm > half \<or> rm = half \<and> h AND 1 \<noteq> 0 then h + 1 else h)
               in ucast (sgn OR h)))
         else
           (let h = push_bit 10 (word_of_int exp) OR drop_bit 13 mant;
                rm = mant AND 0x1FFF;
                h = (if rm > 0x1000 \<or> rm = 0x1000 \<and> h AND 1 \<noteq> 0 then h + 1 else h)
            in ucast (sgn OR h)))"

text \<open>\<open>quantize_row_f16\<close> and \<open>quantize_row_bf16\<close> on one row.\<close>

definition quantize_row_f16 :: "32 word list \<Rightarrow> 16 word list" where
  "quantize_row_f16 x = map f32_to_f16_soft x"

definition f32_to_bf16 :: "32 word \<Rightarrow> 16 word" where
  "f32_to_bf16 u =
     (if u AND 0x7fffffff > 0x7f800000 then ucast (drop_bit 16 u OR 64)
      else ucast (drop_bit 16 (u + (0x7fff + (drop_bit 16 u AND 1)))))"

definition quantize_row_bf16 :: "32 word list \<Rightarrow> 16 word list" where
  "quantize_row_bf16 x = map f32_to_bf16 x"

subsection \<open>Reference: rounding to a grid\<close>

text \<open>Rounding to nearest, ties to even, onto binary numbers of \<open>p + 1\<close> significant bits whose
  last place is not below \<open>pow2 l\<close>.\<close>

definition round_to :: "int \<Rightarrow> int \<Rightarrow> rat \<Rightarrow> rat" where
  "round_to p l q =
     (let u = (if q = 0 then l else max (ilog2 \<bar>q\<bar> - p) l)
      in of_int (round_even (q / pow2 u)) * pow2 u)"

lemma round_double_round_to: "round_double q = round_to 52 (- 1074) q"
  by (simp add: round_double_def ulp_exp_def round_to_def Let_def)

end
