(* ===== verification/Gguf.thy ===== *)
theory Gguf
  imports Fp16
begin

text \<open>
  The GGUF container of \<open>src/gguf.c\<close>: the bounded cursor, metadata values, the tensor directory,
  the duplicate checks, the two ways of opening one file, the typed getters, and the assembly
  of a split model. The file system is the parameter \<open>fs\<close>: what \<open>plat_mmap_ro\<close> maps for a path
  (\<open>None\<close> when it returns NULL). A mapping is named by the path it was made from; a pointer into
  it is an offset. Numbers are little endian, as on every platform the code runs on. Memory
  allocation is assumed to succeed. Failing functions return an error value where the code
  prints a message and returns false; the texts of the messages are not modelled.

  The block sizes of the tensor types are those of \<open>src/quants.c\<close>, the overflow-checked
  arithmetic is that of \<open>src/compat.h\<close>.
\<close>

subsection \<open>Checked arithmetic\<close>

definition UINT64_MAX :: "64 word" where
  "UINT64_MAX = - 1"

definition checked_u64_add :: "64 word \<Rightarrow> 64 word \<Rightarrow> 64 word option" where
  "checked_u64_add a b = (if b > UINT64_MAX - a then None else Some (a + b))"

definition checked_u64_mul :: "64 word \<Rightarrow> 64 word \<Rightarrow> 64 word option" where
  "checked_u64_mul a b = (if a \<noteq> 0 \<and> b > UINT64_MAX div a then None else Some (a * b))"

subsection \<open>Tensor types\<close>

text \<open>The members of \<open>enum ggml_type\<close>.\<close>

abbreviation "T_F32 \<equiv> 0 :: 32 word"
abbreviation "T_F16 \<equiv> 1 :: 32 word"
abbreviation "T_Q4_0 \<equiv> 2 :: 32 word"
abbreviation "T_Q4_1 \<equiv> 3 :: 32 word"
abbreviation "T_Q5_0 \<equiv> 6 :: 32 word"
abbreviation "T_Q5_1 \<equiv> 7 :: 32 word"
abbreviation "T_Q8_0 \<equiv> 8 :: 32 word"
abbreviation "T_Q2_K \<equiv> 10 :: 32 word"
abbreviation "T_Q3_K \<equiv> 11 :: 32 word"
abbreviation "T_Q4_K \<equiv> 12 :: 32 word"
abbreviation "T_Q5_K \<equiv> 13 :: 32 word"
abbreviation "T_Q6_K \<equiv> 14 :: 32 word"
abbreviation "T_IQ2_XXS \<equiv> 16 :: 32 word"
abbreviation "T_IQ2_XS \<equiv> 17 :: 32 word"
abbreviation "T_IQ3_XXS \<equiv> 18 :: 32 word"
abbreviation "T_IQ1_S \<equiv> 19 :: 32 word"
abbreviation "T_IQ4_NL \<equiv> 20 :: 32 word"
abbreviation "T_IQ3_S \<equiv> 21 :: 32 word"
abbreviation "T_IQ2_S \<equiv> 22 :: 32 word"
abbreviation "T_IQ4_XS \<equiv> 23 :: 32 word"
abbreviation "T_IQ1_M \<equiv> 29 :: 32 word"
abbreviation "T_BF16 \<equiv> 30 :: 32 word"
abbreviation "T_MXFP4 \<equiv> 39 :: 32 word"

definition QK :: nat where "QK = 32"
definition QK_K :: nat where "QK_K = 256"

text \<open>Elements per block, and bytes per block (\<open>sizeof\<close> of the block structs, which have no
  padding).\<close>

definition ggml_block_size :: "32 word \<Rightarrow> nat" where
  "ggml_block_size t =
     (if t = T_F32 \<or> t = T_F16 \<or> t = T_BF16 then 1
      else if t = T_Q4_0 \<or> t = T_Q4_1 \<or> t = T_Q5_0 \<or> t = T_Q5_1 \<or> t = T_Q8_0 \<or> t = T_IQ4_NL \<or> t = T_MXFP4
      then QK
      else if t = T_Q4_K \<or> t = T_Q5_K \<or> t = T_Q6_K \<or> t = T_Q2_K \<or> t = T_Q3_K \<or> t = T_IQ4_XS \<or>
        t = T_IQ2_XXS \<or> t = T_IQ2_XS \<or> t = T_IQ2_S \<or> t = T_IQ3_XXS \<or> t = T_IQ3_S \<or> t = T_IQ1_S \<or> t = T_IQ1_M
      then QK_K
      else 1)"

definition ggml_type_size :: "32 word \<Rightarrow> nat" where
  "ggml_type_size t =
     (if t = T_F32 then 4
      else if t = T_F16 then 2
      else if t = T_BF16 then 2
      else if t = T_Q4_0 then 2 + QK div 2
      else if t = T_Q4_1 then 2 + 2 + QK div 2
      else if t = T_Q5_0 then 2 + 4 + QK div 2
      else if t = T_Q5_1 then 2 + 2 + 4 + QK div 2
      else if t = T_Q8_0 then 2 + QK
      else if t = T_Q4_K then 2 + 2 + 12 + QK_K div 2
      else if t = T_Q5_K then 2 + 2 + 12 + QK_K div 8 + QK_K div 2
      else if t = T_Q6_K then QK_K div 2 + QK_K div 4 + QK_K div 16 + 2
      else if t = T_Q2_K then QK_K div 16 + QK_K div 4 + 2 + 2
      else if t = T_Q3_K then QK_K div 8 + QK_K div 4 + 12 + 2
      else if t = T_IQ4_NL then 2 + QK div 2
      else if t = T_IQ4_XS then 2 + 2 + QK_K div 64 + QK_K div 2
      else if t = T_IQ2_XXS then 2 + 2 * (QK_K div 8)
      else if t = T_IQ2_XS then 2 + 2 * (QK_K div 8) + QK_K div 32
      else if t = T_IQ2_S then 2 + QK_K div 4 + QK_K div 32 + QK_K div 32
      else if t = T_IQ3_XXS then 2 + 3 * QK_K div 8
      else if t = T_IQ3_S then 2 + QK_K div 4 + QK_K div 32 + QK_K div 8 + QK_K div 64
      else if t = T_IQ1_S then 2 + QK_K div 8 + 2 * (QK_K div 32)
      else if t = T_IQ1_M then QK_K div 8 + QK_K div 16 + QK_K div 32
      else if t = T_MXFP4 then 1 + QK div 2
      else 1)"

definition ggml_type_supported :: "32 word \<Rightarrow> bool" where
  "ggml_type_supported t \<longleftrightarrow>
     t = T_F32 \<or> t = T_F16 \<or> t = T_BF16 \<or>
     t = T_Q4_0 \<or> t = T_Q4_1 \<or> t = T_Q5_0 \<or> t = T_Q5_1 \<or> t = T_Q8_0 \<or>
     t = T_Q2_K \<or> t = T_Q3_K \<or> t = T_Q4_K \<or> t = T_Q5_K \<or> t = T_Q6_K \<or>
     t = T_IQ4_NL \<or> t = T_IQ4_XS \<or> t = T_MXFP4 \<or>
     t = T_IQ2_XXS \<or> t = T_IQ2_XS \<or> t = T_IQ2_S \<or>
     t = T_IQ3_XXS \<or> t = T_IQ3_S \<or> t = T_IQ1_S \<or> t = T_IQ1_M"

text \<open>\<open>(size_t)(n / block) * type_size\<close>, with \<open>n\<close> an \<open>int64_t\<close>.\<close>

definition ggml_row_size :: "32 word \<Rightarrow> int \<Rightarrow> 64 word" where
  "ggml_row_size t n =
     (let b = int (ggml_block_size t) in word_of_int (if n < 0 then - ((- n) div b) else n div b)) *
     word_of_nat (ggml_type_size t)"

subsection \<open>The bounded cursor\<close>

text \<open>\<open>c_rest\<close> is the bytes from \<open>p\<close> to \<open>end\<close>.\<close>

record cursor =
  c_rest :: string
  c_ok :: bool

definition need :: "cursor \<Rightarrow> nat \<Rightarrow> bool \<times> cursor" where
  "need c n =
     (if \<not> c_ok c \<or> length (c_rest c) < n then (False, c\<lparr>c_ok := False\<rparr>) else (True, c))"

text \<open>The number a run of bytes holds, and \<open>n\<close> bytes that hold a number.\<close>

fun le_val :: "string \<Rightarrow> nat" where
  "le_val [] = 0"
| "le_val (b # bs) = byte b + 256 * le_val bs"

fun le_bytes :: "nat \<Rightarrow> nat \<Rightarrow> string" where
  "le_bytes 0 v = []"
| "le_bytes (Suc n) v = char_of (v mod 256) # le_bytes n (v div 256)"

definition rd_le :: "nat \<Rightarrow> cursor \<Rightarrow> nat \<times> cursor" where
  "rd_le n c =
     (case need c n of
        (True, c') \<Rightarrow> (le_val (take n (c_rest c')), c'\<lparr>c_rest := drop n (c_rest c')\<rparr>)
      | (False, c') \<Rightarrow> (0, c'))"

definition rd_u8 :: "cursor \<Rightarrow> 8 word \<times> cursor" where
  "rd_u8 c = (case rd_le 1 c of (v, c') \<Rightarrow> (word_of_nat v, c'))"

definition rd_u16 :: "cursor \<Rightarrow> 16 word \<times> cursor" where
  "rd_u16 c = (case rd_le 2 c of (v, c') \<Rightarrow> (word_of_nat v, c'))"

definition rd_u32 :: "cursor \<Rightarrow> 32 word \<times> cursor" where
  "rd_u32 c = (case rd_le 4 c of (v, c') \<Rightarrow> (word_of_nat v, c'))"

definition rd_u64 :: "cursor \<Rightarrow> 64 word \<times> cursor" where
  "rd_u64 c = (case rd_le 8 c of (v, c') \<Rightarrow> (word_of_nat v, c'))"

text \<open>The \<open>n\<close> bytes of a string; \<open>None\<close> is the result false, on which every caller gives up. A
  C string ends at its first NUL: \<open>cstr\<close>.\<close>

definition rd_str :: "cursor \<Rightarrow> (string \<times> cursor) option" where
  "rd_str c =
     (case rd_u64 c of
        (n, c1) \<Rightarrow>
          if n > UINT64_MAX - 1 then None
          else (case need c1 (unat n) of
            (False, _) \<Rightarrow> None
          | (True, c2) \<Rightarrow> Some (take (unat n) (c_rest c2), c2\<lparr>c_rest := drop (unat n) (c_rest c2)\<rparr>)))"

definition cstr :: "string \<Rightarrow> string" where
  "cstr s = takeWhile (\<lambda>c. c \<noteq> CHR 0x00) s"

subsection \<open>Metadata\<close>

text \<open>\<open>enum gguf_val_type\<close>.\<close>

abbreviation "GGUF_T_U8 \<equiv> 0 :: 32 word"
abbreviation "GGUF_T_I8 \<equiv> 1 :: 32 word"
abbreviation "GGUF_T_U16 \<equiv> 2 :: 32 word"
abbreviation "GGUF_T_I16 \<equiv> 3 :: 32 word"
abbreviation "GGUF_T_U32 \<equiv> 4 :: 32 word"
abbreviation "GGUF_T_I32 \<equiv> 5 :: 32 word"
abbreviation "GGUF_T_F32 \<equiv> 6 :: 32 word"
abbreviation "GGUF_T_BOOL \<equiv> 7 :: 32 word"
abbreviation "GGUF_T_STR \<equiv> 8 :: 32 word"
abbreviation "GGUF_T_ARR \<equiv> 9 :: 32 word"
abbreviation "GGUF_T_U64 \<equiv> 10 :: 32 word"
abbreviation "GGUF_T_I64 \<equiv> 11 :: 32 word"
abbreviation "GGUF_T_F64 \<equiv> 12 :: 32 word"

text \<open>\<open>v\<close> is the eight bytes of the union \<open>v\<close> (zero from \<open>calloc\<close>); \<open>arr_raw\<close> points into the
  mapping, so it is the bytes from there to the end of the file.\<close>

record gguf_kv =
  kv_key :: string
  kv_type :: "32 word"
  kv_v :: "64 word"
  kv_raw :: "64 word"
  kv_str :: string
  kv_arr_type :: "32 word"
  kv_arr_n :: "64 word"
  kv_arr_raw :: "string option"
  kv_arr_str :: "string list"

definition kv_zero :: gguf_kv where
  "kv_zero = \<lparr>kv_key = [], kv_type = 0, kv_v = 0, kv_raw = 0, kv_str = [], kv_arr_type = 0, kv_arr_n = 0,
     kv_arr_raw = None, kv_arr_str = []\<rparr>"

definition gguf_scalar_size :: "32 word \<Rightarrow> nat" where
  "gguf_scalar_size t =
     (if t = GGUF_T_U8 \<or> t = GGUF_T_I8 \<or> t = GGUF_T_BOOL then 1
      else if t = GGUF_T_U16 \<or> t = GGUF_T_I16 then 2
      else if t = GGUF_T_U32 \<or> t = GGUF_T_I32 \<or> t = GGUF_T_F32 then 4
      else if t = GGUF_T_U64 \<or> t = GGUF_T_I64 \<or> t = GGUF_T_F64 then 8
      else 0)"

fun rd_strs :: "nat \<Rightarrow> cursor \<Rightarrow> (string list \<times> cursor) option" where
  "rd_strs 0 c = Some ([], c)"
| "rd_strs (Suc n) c =
     (case rd_str c of
        None \<Rightarrow> None
      | Some (s, c') \<Rightarrow> (case rd_strs n c' of None \<Rightarrow> None | Some (ss, c'') \<Rightarrow> Some (s # ss, c'')))"

definition rd_arr :: "cursor \<Rightarrow> gguf_kv \<Rightarrow> (gguf_kv \<times> cursor) option" where
  "rd_arr c kv =
     (case rd_u32 c of
        (aty, c1) \<Rightarrow>
          (case rd_u64 c1 of
             (cnt, c2) \<Rightarrow>
               (let kv = kv\<lparr>kv_arr_type := aty, kv_arr_n := cnt\<rparr>
                in if aty = GGUF_T_STR then
                     (if unat cnt > length (c_rest c2) div 8 then None
                      else (case rd_strs (unat cnt) c2 of
                        None \<Rightarrow> None
                      | Some (ss, c3) \<Rightarrow> Some (kv\<lparr>kv_arr_str := ss\<rparr>, c3)))
                   else if aty < GGUF_T_F64 + 1 \<and> aty \<noteq> GGUF_T_ARR then
                     (let es = gguf_scalar_size aty
                      in if es = 0 \<or> cnt > UINT64_MAX div word_of_nat es then None
                         else (case need c2 (es * unat cnt) of
                           (False, _) \<Rightarrow> None
                         | (True, c3) \<Rightarrow>
                             Some (kv\<lparr>kv_arr_raw := Some (c_rest c3)\<rparr>,
                                   c3\<lparr>c_rest := drop (es * unat cnt) (c_rest c3)\<rparr>)))
                   else None)))"

text \<open>\<open>rd_kv_value\<close>; every branch but the failing ones ends in \<open>return c->ok\<close>.\<close>

definition rd_kv_value :: "cursor \<Rightarrow> gguf_kv \<Rightarrow> 32 word \<Rightarrow> (gguf_kv \<times> cursor) option" where
  "rd_kv_value c kv t =
     (case
        (if t = GGUF_T_U8 then (case rd_u8 c of (x, c') \<Rightarrow> Some (kv\<lparr>kv_v := ucast x\<rparr>, c'))
         else if t = GGUF_T_I8 then (case rd_u8 c of (x, c') \<Rightarrow> Some (kv\<lparr>kv_v := scast x\<rparr>, c'))
         else if t = GGUF_T_U16 then (case rd_u16 c of (x, c') \<Rightarrow> Some (kv\<lparr>kv_v := ucast x\<rparr>, c'))
         else if t = GGUF_T_I16 then (case rd_u16 c of (x, c') \<Rightarrow> Some (kv\<lparr>kv_v := scast x\<rparr>, c'))
         else if t = GGUF_T_U32 then (case rd_u32 c of (x, c') \<Rightarrow> Some (kv\<lparr>kv_v := ucast x\<rparr>, c'))
         else if t = GGUF_T_I32 then (case rd_u32 c of (x, c') \<Rightarrow> Some (kv\<lparr>kv_v := scast x\<rparr>, c'))
         else if t = GGUF_T_F32 then
           (case rd_u32 c of (x, c') \<Rightarrow> Some (kv\<lparr>kv_raw := ucast x, kv_v := f64_of_f32 x\<rparr>, c'))
         else if t = GGUF_T_BOOL then
           (case rd_u8 c of (x, c') \<Rightarrow> Some (kv\<lparr>kv_v := (if x \<noteq> 0 then 1 else 0)\<rparr>, c'))
         else if t = GGUF_T_U64 then (case rd_u64 c of (x, c') \<Rightarrow> Some (kv\<lparr>kv_v := x\<rparr>, c'))
         else if t = GGUF_T_I64 then (case rd_u64 c of (x, c') \<Rightarrow> Some (kv\<lparr>kv_v := x\<rparr>, c'))
         else if t = GGUF_T_F64 then (case rd_u64 c of (x, c') \<Rightarrow> Some (kv\<lparr>kv_raw := x, kv_v := x\<rparr>, c'))
         else if t = GGUF_T_STR then
           (case rd_str c of None \<Rightarrow> None | Some (s, c') \<Rightarrow> Some (kv\<lparr>kv_str := s\<rparr>, c'))
         else if t = GGUF_T_ARR then rd_arr c kv
         else None)
      of None \<Rightarrow> None | Some (kv', c') \<Rightarrow> if c_ok c' then Some (kv', c') else None)"


subsection \<open>Duplicates\<close>

text \<open>\<open>qsort\<close> with \<open>strcmp\<close> sorts by the bytes as unsigned characters; the order of \<open>string\<close>
  is that one.\<close>

fun adjacent_equal :: "string list \<Rightarrow> string option" where
  "adjacent_equal (a # b # s) = (if a = b then Some b else adjacent_equal (b # s))"
| "adjacent_equal _ = None"

definition first_duplicate_inplace :: "string list \<Rightarrow> string option" where
  "first_duplicate_inplace s = (if length s < 2 then None else adjacent_equal (sort s))"

subsection \<open>Files\<close>

text \<open>What a tensor's \<open>data\<close> holds: NULL, the offset of the file before it is checked, or the
  address of the byte \<open>off\<close> of a mapping.\<close>

datatype pointer = Null | File_offset "64 word" | In_map string "64 word"

record gguf_tensor =
  t_name :: string
  t_type :: "32 word"
  t_n_dims :: "32 word"
  t_ne :: "64 word list"
  t_data :: pointer
  t_nbytes :: "64 word"

text \<open>\<open>map\<close> and \<open>maps\<close> name mappings by their paths; \<open>n_maps\<close> is 0 for a single file.\<close>

record gguf_file =
  g_map :: "string option"
  g_map_size :: "64 word"
  g_maps :: "string list"
  g_map_sizes :: "64 word list"
  g_n_maps :: "32 word"
  g_mapped_size :: "64 word"
  g_version :: "32 word"
  g_n_tensors :: "64 word"
  g_n_kv :: "64 word"
  g_kv :: "gguf_kv list"
  g_tensors :: "gguf_tensor list"
  g_header_only :: bool
  g_data_bytes :: "64 word"

datatype gguf_error = Cannot_open | Not_gguf | Unsupported_version | Too_many | Bad_metadata
  | Bad_metadata_value string | Bad_tensor_name | Name_too_long | Bad_dimensions string | Truncated_header
  | Duplicate_key string | Duplicate_tensor string | Invalid_metadata | Invalid_tensor string
  | Invalid_split | Bad_split_name | Bad_part "32 word" | Inconsistent_part "32 word" | Wrong_tensor_count

text \<open>The two reading loops.\<close>

fun rd_kvs :: "nat \<Rightarrow> cursor \<Rightarrow> gguf_error + (gguf_kv list \<times> cursor)" where
  "rd_kvs 0 c = Inr ([], c)"
| "rd_kvs (Suc n) c =
     (case rd_str c of
        None \<Rightarrow> Inl Bad_metadata
      | Some (k, c1) \<Rightarrow>
          (case rd_u32 c1 of
             (ty, c2) \<Rightarrow>
               (case rd_kv_value c2 (kv_zero\<lparr>kv_key := cstr k, kv_type := ty\<rparr>) ty of
                  None \<Rightarrow> Inl (Bad_metadata_value (cstr k))
                | Some (kv, c3) \<Rightarrow>
                    (case rd_kvs n c3 of
                       Inl e \<Rightarrow> Inl e
                     | Inr (kvs, c4) \<Rightarrow> Inr (kv # kvs, c4)))))"

fun rd_dims :: "nat \<Rightarrow> cursor \<Rightarrow> 64 word list \<times> cursor" where
  "rd_dims 0 c = ([], c)"
| "rd_dims (Suc n) c =
     (case rd_u64 c of (d, c1) \<Rightarrow> (case rd_dims n c1 of (ds, c2) \<Rightarrow> (d # ds, c2)))"

definition rd_tensor :: "cursor \<Rightarrow> gguf_error + (gguf_tensor \<times> cursor)" where
  "rd_tensor c =
     (case rd_str c of
        None \<Rightarrow> Inl Bad_tensor_name
      | Some (name, c1) \<Rightarrow>
          if length name \<ge> 128 then Inl Name_too_long
          else (case rd_u32 c1 of
            (nd, c2) \<Rightarrow>
              if nd = 0 \<or> nd > 4 then Inl (Bad_dimensions (cstr name))
              else (case rd_dims (unat nd) c2 of
                (ds, c3) \<Rightarrow>
                  (case rd_u32 c3 of
                     (ty, c4) \<Rightarrow>
                       (case rd_u64 c4 of
                          (off, c5) \<Rightarrow>
                            Inr (\<lparr>t_name = cstr name, t_type = ty, t_n_dims = nd,
                                  t_ne = ds @ replicate (4 - unat nd) 1, t_data = File_offset off,
                                  t_nbytes = 0\<rparr>, c5))))))"

fun rd_tensors :: "nat \<Rightarrow> cursor \<Rightarrow> gguf_error + (gguf_tensor list \<times> cursor)" where
  "rd_tensors 0 c = Inr ([], c)"
| "rd_tensors (Suc n) c =
     (case rd_tensor c of
        Inl e \<Rightarrow> Inl e
      | Inr (t, c1) \<Rightarrow>
          (case rd_tensors n c1 of Inl e \<Rightarrow> Inl e | Inr (ts, c2) \<Rightarrow> Inr (t # ts, c2)))"

subsection \<open>Typed getters\<close>

definition gguf_get :: "gguf_kv list \<Rightarrow> string \<Rightarrow> gguf_kv option" where
  "gguf_get kvs key = find (\<lambda>kv. kv_key kv = key) kvs"

definition kv_is_unsigned :: "32 word \<Rightarrow> bool" where
  "kv_is_unsigned t \<longleftrightarrow> t = GGUF_T_U8 \<or> t = GGUF_T_U16 \<or> t = GGUF_T_U32 \<or> t = GGUF_T_U64"

definition kv_is_signed :: "32 word \<Rightarrow> bool" where
  "kv_is_signed t \<longleftrightarrow> t = GGUF_T_I8 \<or> t = GGUF_T_I16 \<or> t = GGUF_T_I32 \<or> t = GGUF_T_I64"

definition raw_f32_finite :: "32 word \<Rightarrow> bool" where
  "raw_f32_finite u \<longleftrightarrow> u AND 0x7f800000 \<noteq> 0x7f800000"

definition raw_f32_negative :: "32 word \<Rightarrow> bool" where
  "raw_f32_negative u \<longleftrightarrow> drop_bit 31 u \<noteq> 0"

definition raw_f64_finite :: "64 word \<Rightarrow> bool" where
  "raw_f64_finite u \<longleftrightarrow> u AND 0x7ff0000000000000 \<noteq> 0x7ff0000000000000"

definition raw_f64_negative :: "64 word \<Rightarrow> bool" where
  "raw_f64_negative u \<longleftrightarrow> drop_bit 63 u \<noteq> 0"

text \<open>The double \<open>d\<close> is only compared after the checks for finiteness and sign;
  \<open>d != (double)(uint32_t)d\<close> says that it is no integer.\<close>

definition gguf_get_u32 :: "gguf_kv list \<Rightarrow> string \<Rightarrow> 32 word \<Rightarrow> 32 word" where
  "gguf_get_u32 kvs key dflt =
     (case gguf_get kvs key of
        None \<Rightarrow> dflt
      | Some kv \<Rightarrow>
          if kv_is_unsigned (kv_type kv) then
            (if unat (kv_v kv) \<le> 2 ^ 32 - 1 then ucast (kv_v kv) else dflt)
          else if kv_is_signed (kv_type kv) then
            (if 0 \<le> sint (kv_v kv) \<and> sint (kv_v kv) \<le> 2 ^ 32 - 1 then ucast (kv_v kv) else dflt)
          else if kv_type kv = GGUF_T_F32 \<or> kv_type kv = GGUF_T_F64 then
            (let finite = (if kv_type kv = GGUF_T_F32 then raw_f32_finite (ucast (kv_raw kv))
                           else raw_f64_finite (kv_raw kv));
                 negative = (if kv_type kv = GGUF_T_F32 then raw_f32_negative (ucast (kv_raw kv))
                             else raw_f64_negative (kv_raw kv));
                 d = f64_val (kv_v kv)
             in if \<not> finite \<or> negative \<or> d > 2 ^ 32 - 1 \<or> d \<noteq> of_int \<lfloor>d\<rfloor> then dflt
                else word_of_int \<lfloor>d\<rfloor>)
          else dflt)"

text \<open>A read of \<open>n\<close> bytes at byte \<open>i\<close> of an array; \<open>None\<close> is a read outside the mapping.\<close>

definition arr_read :: "string \<Rightarrow> nat \<Rightarrow> nat \<Rightarrow> nat option" where
  "arr_read p i n = (if i + n \<le> length p then Some (le_val (take n (drop i p))) else None)"

definition gguf_get_u32_idx :: "gguf_kv list \<Rightarrow> string \<Rightarrow> 64 word \<Rightarrow> 32 word \<Rightarrow> 32 word option" where
  "gguf_get_u32_idx kvs key idx dflt =
     (case gguf_get kvs key of
        None \<Rightarrow> Some dflt
      | Some kv \<Rightarrow>
          if kv_type kv \<noteq> GGUF_T_ARR then Some (gguf_get_u32 kvs key dflt)
          else if idx \<ge> kv_arr_n kv then Some dflt
          else (case kv_arr_raw kv of
            None \<Rightarrow> Some dflt
          | Some p \<Rightarrow>
              (let t = kv_arr_type kv
               in if t = GGUF_T_U8 then map_option word_of_nat (arr_read p (unat idx) 1)
                  else if t = GGUF_T_I8 then
                    map_option (\<lambda>n. let v = word_of_nat n :: 8 word in if 0 \<le> sint v then ucast v else dflt)
                      (arr_read p (unat idx) 1)
                  else if t = GGUF_T_U16 then map_option word_of_nat (arr_read p (unat (idx * 2)) 2)
                  else if t = GGUF_T_I16 then
                    map_option (\<lambda>n. let v = word_of_nat n :: 16 word in if 0 \<le> sint v then ucast v else dflt)
                      (arr_read p (unat (idx * 2)) 2)
                  else if t = GGUF_T_U32 then map_option word_of_nat (arr_read p (unat (idx * 4)) 4)
                  else if t = GGUF_T_I32 then
                    map_option (\<lambda>n. let v = word_of_nat n :: 32 word in if 0 \<le> sint v then v else dflt)
                      (arr_read p (unat (idx * 4)) 4)
                  else if t = GGUF_T_U64 then
                    map_option (\<lambda>n. let v = word_of_nat n :: 64 word in if unat v \<le> 2 ^ 32 - 1 then ucast v else dflt)
                      (arr_read p (unat (idx * 8)) 8)
                  else if t = GGUF_T_I64 then
                    map_option (\<lambda>n. let v = word_of_nat n :: 64 word
                        in if 0 \<le> sint v \<and> sint v \<le> 2 ^ 32 - 1 then ucast v else dflt)
                      (arr_read p (unat (idx * 8)) 8)
                  else Some dflt)))"

text \<open>A \<open>float\<close> result is the number it denotes; \<open>(float)\<close> rounds to nearest even and overflows
  from 2^128 on.\<close>

definition to_f32 :: "rat \<Rightarrow> rat" where
  "to_f32 q = round_to 23 (- 149) q"

definition gguf_get_f32 :: "gguf_kv list \<Rightarrow> string \<Rightarrow> rat \<Rightarrow> rat" where
  "gguf_get_f32 kvs key dflt =
     (case gguf_get kvs key of
        None \<Rightarrow> dflt
      | Some kv \<Rightarrow>
          if kv_type kv = GGUF_T_F32 then
            (let u = ucast (kv_raw kv) in if raw_f32_finite u then f32_val u else dflt)
          else if kv_type kv = GGUF_T_F64 then
            (if \<not> raw_f64_finite (kv_raw kv) then dflt
             else (let f = to_f32 (f64_val (kv_v kv)) in if \<bar>f\<bar> < 2 ^ 128 then f else dflt))
          else if kv_is_unsigned (kv_type kv) then to_f32 (of_nat (unat (kv_v kv)))
          else if kv_is_signed (kv_type kv) then to_f32 (of_int (sint (kv_v kv)))
          else dflt)"

definition gguf_get_bool :: "gguf_kv list \<Rightarrow> string \<Rightarrow> bool \<Rightarrow> bool" where
  "gguf_get_bool kvs key dflt =
     (case gguf_get kvs key of
        None \<Rightarrow> dflt
      | Some kv \<Rightarrow> if kv_type kv = GGUF_T_BOOL then kv_v kv \<noteq> 0 else dflt)"

definition gguf_get_str :: "gguf_kv list \<Rightarrow> string \<Rightarrow> string option \<Rightarrow> string option" where
  "gguf_get_str kvs key dflt =
     (case gguf_get kvs key of
        None \<Rightarrow> dflt
      | Some kv \<Rightarrow> if kv_type kv = GGUF_T_STR then Some (cstr (kv_str kv)) else dflt)"

definition gguf_find_tensor :: "gguf_file \<Rightarrow> string \<Rightarrow> gguf_tensor option" where
  "gguf_find_tensor g name = find (\<lambda>t. t_name t = name) (g_tensors g)"

subsection \<open>Opening one file\<close>

text \<open>The size of a tensor's data, or \<open>None\<close> where the dimensions are refused.\<close>

definition tensor_bytes :: "gguf_tensor \<Rightarrow> 64 word option" where
  "tensor_bytes t =
     (let bs = word_of_nat (ggml_block_size (t_type t)); imax = 2147483647;
          n0 = t_ne t ! 0; n1 = t_ne t ! 1; n2 = t_ne t ! 2; n3 = t_ne t ! 3
      in if n0 = 0 \<or> n0 > imax \<or> n0 mod bs \<noteq> 0 \<or> n1 = 0 \<or> n1 > imax \<or> n2 = 0 \<or> n2 > imax \<or>
            n3 = 0 \<or> n3 > imax then None
         else (case checked_u64_mul n1 n2 of
           None \<Rightarrow> None
         | Some r \<Rightarrow>
             (case checked_u64_mul r n3 of
                None \<Rightarrow> None
              | Some rows \<Rightarrow>
                  (case checked_u64_mul (n0 div bs) (word_of_nat (ggml_type_size (t_type t))) of
                     None \<Rightarrow> None
                   | Some row_bytes \<Rightarrow> checked_u64_mul row_bytes rows))))"

text \<open>The loop over the tensors; \<open>db\<close> is \<open>data_bytes\<close>.\<close>

definition fix_tensor :: "bool \<Rightarrow> string \<Rightarrow> 64 word \<Rightarrow> 64 word \<Rightarrow> gguf_tensor \<Rightarrow> 64 word \<Rightarrow>
    gguf_error + (gguf_tensor \<times> 64 word)" where
  "fix_tensor hdr_only path map_size data_start t db =
     (if \<not> ggml_type_supported (t_type t) then Inr (t\<lparr>t_data := Null, t_nbytes := 0\<rparr>, db)
      else (case tensor_bytes t of
        None \<Rightarrow> Inl (Invalid_tensor (t_name t))
      | Some n \<Rightarrow>
          (let off = (case t_data t of File_offset x \<Rightarrow> x | _ \<Rightarrow> 0)
           in if hdr_only then
                (case checked_u64_add off n of
                   None \<Rightarrow> Inl (Invalid_tensor (t_name t))
                 | Some e \<Rightarrow> Inr (t\<lparr>t_data := Null, t_nbytes := n\<rparr>, if e > db then e else db))
              else if off > map_size - data_start \<or> n > map_size - data_start - off
                then Inl (Invalid_tensor (t_name t))
              else Inr (t\<lparr>t_data := In_map path (data_start + off), t_nbytes := n\<rparr>, db))))"

fun fix_tensors :: "bool \<Rightarrow> string \<Rightarrow> 64 word \<Rightarrow> 64 word \<Rightarrow> gguf_tensor list \<Rightarrow> 64 word \<Rightarrow>
    gguf_error + (gguf_tensor list \<times> 64 word)" where
  "fix_tensors hdr_only path map_size data_start [] db = Inr ([], db)"
| "fix_tensors hdr_only path map_size data_start (t # ts) db =
     (case fix_tensor hdr_only path map_size data_start t db of
        Inl e \<Rightarrow> Inl e
      | Inr (t', db1) \<Rightarrow>
          (case fix_tensors hdr_only path map_size data_start ts db1 of
             Inl e \<Rightarrow> Inl e
           | Inr (ts', db2) \<Rightarrow> Inr (t' # ts', db2)))"

text \<open>\<open>general.alignment\<close>, and where the data section starts: the end of the header rounded up.\<close>

definition alignment :: "gguf_kv list \<Rightarrow> 64 word" where
  "alignment kvs =
     (let a = ucast (gguf_get_u32 kvs ''general.alignment'' 32)
      in if a = 0 \<or> a AND (a - 1) \<noteq> 0 then 32 else a)"

definition align_up :: "64 word \<Rightarrow> 64 word \<Rightarrow> 64 word option" where
  "align_up header_end align =
     (case checked_u64_add header_end (align - 1) of
        None \<Rightarrow> None
      | Some e \<Rightarrow> Some (e AND NOT (align - 1)))"

text \<open>The header up to the end of the tensor directory.\<close>

definition rd_header :: "string \<Rightarrow>
    gguf_error + (32 word \<times> gguf_kv list \<times> gguf_tensor list \<times> cursor)" where
  "rd_header file =
     (case rd_u32 \<lparr>c_rest = file, c_ok = True\<rparr> of
        (magic, c1) \<Rightarrow>
          if magic \<noteq> 0x46554747 then Inl Not_gguf
          else (case rd_u32 c1 of
            (version, c2) \<Rightarrow>
              if version < 2 \<or> version > 3 then Inl Unsupported_version
              else (case rd_u64 c2 of
                (nt, c3) \<Rightarrow>
                  (case rd_u64 c3 of
                     (nk, c4) \<Rightarrow>
                       if nt > 100000 \<or> nk > 100000 then Inl Too_many
                       else (case rd_kvs (unat nk) c4 of
                         Inl e \<Rightarrow> Inl e
                       | Inr (kvs, c5) \<Rightarrow>
                           (case rd_tensors (unat nt) c5 of
                              Inl e \<Rightarrow> Inl e
                            | Inr (ts, c6) \<Rightarrow>
                                if \<not> c_ok c6 then Inl Truncated_header
                                else Inr (version, kvs, ts, c6)))))))"

definition gguf_open_one_x :: "(string \<Rightarrow> string option) \<Rightarrow> string \<Rightarrow> bool \<Rightarrow> gguf_error + gguf_file" where
  "gguf_open_one_x fs path hdr_only =
     (case fs path of
        None \<Rightarrow> Inl Cannot_open
      | Some file \<Rightarrow>
          if length file < 24 then Inl Cannot_open
          else (case rd_header file of
            Inl e \<Rightarrow> Inl e
          | Inr (version, kvs, ts, c) \<Rightarrow>
              (case first_duplicate_inplace (map kv_key kvs) of
                 Some d \<Rightarrow> Inl (Duplicate_key d)
               | None \<Rightarrow>
                   (case first_duplicate_inplace (map t_name ts) of
                      Some d \<Rightarrow> Inl (Duplicate_tensor d)
                    | None \<Rightarrow>
                        (let map_size = word_of_nat (length file);
                             header_end = word_of_nat (length file - length (c_rest c))
                         in case align_up header_end (alignment kvs) of
                              None \<Rightarrow> Inl Invalid_metadata
                            | Some data_start \<Rightarrow>
                                if data_start > map_size then Inl Invalid_metadata
                                else (case fix_tensors hdr_only path map_size data_start ts 0 of
                                  Inl e \<Rightarrow> Inl e
                                | Inr (ts', db) \<Rightarrow>
                                    (case (if hdr_only then checked_u64_add data_start db else Some map_size) of
                                       None \<Rightarrow> Inl Invalid_metadata
                                     | Some tot \<Rightarrow>
                                         Inr \<lparr>g_map = Some path, g_map_size = map_size, g_maps = [],
                                              g_map_sizes = [], g_n_maps = 0, g_mapped_size = tot,
                                              g_version = version, g_n_tensors = word_of_nat (length ts),
                                              g_n_kv = word_of_nat (length kvs), g_kv = kvs,
                                              g_tensors = ts', g_header_only = hdr_only,
                                              g_data_bytes = db\<rparr>)))))))"

definition gguf_open_one :: "(string \<Rightarrow> string option) \<Rightarrow> string \<Rightarrow> gguf_error + gguf_file" where
  "gguf_open_one fs path = gguf_open_one_x fs path False"

definition gguf_open_header :: "(string \<Rightarrow> string option) \<Rightarrow> string \<Rightarrow> gguf_error + gguf_file" where
  "gguf_open_header fs path = gguf_open_one_x fs path True"

subsection \<open>Split models\<close>

text \<open>\<open>%05u\<close>.\<close>

definition u05 :: "32 word \<Rightarrow> string" where
  "u05 n = (let s = nat_str (unat n) in replicate (5 - length s) CHR ''0'' @ s)"

definition split_suffix :: "32 word \<Rightarrow> 32 word \<Rightarrow> string" where
  "split_suffix no parts = ''-'' @ u05 no @ ''-of-'' @ u05 parts @ ''.gguf''"

text \<open>A path is shorter than \<open>INT_MAX\<close> bytes, so that the cast of the precision is exact.\<close>

definition split_part_path :: "nat \<Rightarrow> string \<Rightarrow> 32 word \<Rightarrow> 32 word \<Rightarrow> 32 word \<Rightarrow> string option" where
  "split_part_path cap path current parts wanted =
     (let suffix = split_suffix (current + 1) parts; n = length path; sn = length suffix
      in if n < sn \<or> drop (n - sn) path \<noteq> suffix then None
         else (let out = take (n - sn) path @ split_suffix (wanted + 1) parts
               in if 0 < length out \<and> length out < cap then Some out else None))"

text \<open>Part \<open>i\<close> fits the parts before it: \<open>g0\<close> is the first part.\<close>

definition part_consistent :: "gguf_file \<Rightarrow> gguf_file \<Rightarrow> 32 word \<Rightarrow> 32 word \<Rightarrow> 32 word \<Rightarrow> 64 word \<Rightarrow> 64 word \<Rightarrow> bool" where
  "part_consistent g0 g i parts expected tot mapped \<longleftrightarrow>
     g_version g = g_version g0 \<and>
     (case (gguf_get_str (g_kv g0) ''general.architecture'' None, gguf_get_str (g_kv g) ''general.architecture'' None) of
        (Some a0, Some ai) \<Rightarrow> a0 = ai
      | _ \<Rightarrow> False) \<and>
     gguf_get_u32 (g_kv g0) ''general.alignment'' 32 = gguf_get_u32 (g_kv g) ''general.alignment'' 32 \<and>
     gguf_get_u32 (g_kv g) ''split.no'' (- 1) = i \<and>
     gguf_get_u32 (g_kv g) ''split.count'' 0 = parts \<and>
     gguf_get_u32 (g_kv g) ''split.tensors.count'' (- 1) = expected \<and>
     g_n_tensors g \<le> ucast expected \<and>
     tot \<le> ucast expected - g_n_tensors g \<and>
     mapped \<le> UINT64_MAX - g_map_size g"

text \<open>The loop over the parts from part \<open>i\<close> on, \<open>k\<close> of them; \<open>gs\<close> are the parts before it.\<close>

fun open_parts :: "(string \<Rightarrow> string option) \<Rightarrow> string \<Rightarrow> 32 word \<Rightarrow> 32 word \<Rightarrow> nat \<Rightarrow> 32 word \<Rightarrow>
    gguf_file list \<Rightarrow> 64 word \<Rightarrow> 64 word \<Rightarrow> gguf_error + (gguf_file list \<times> 64 word \<times> 64 word)" where
  "open_parts fs first parts expected 0 i gs tot mapped = Inr (gs, tot, mapped)"
| "open_parts fs first parts expected (Suc k) i gs tot mapped =
     (case split_part_path 4096 first 0 parts i of
        None \<Rightarrow> Inl (Bad_part i)
      | Some part \<Rightarrow>
          (case gguf_open_one fs part of
             Inl e \<Rightarrow> Inl (Bad_part i)
           | Inr g \<Rightarrow>
               if part_consistent (hd (gs @ [g])) g i parts expected tot mapped
               then open_parts fs first parts expected k (i + 1) (gs @ [g])
                      (tot + g_n_tensors g) (mapped + g_map_size g)
               else Inl (Inconsistent_part i)))"

text \<open>The parts as one model.\<close>

definition merge_parts :: "gguf_file list \<Rightarrow> 32 word \<Rightarrow> 64 word \<Rightarrow> 64 word \<Rightarrow> gguf_file" where
  "merge_parts gs parts tot mapped =
     (hd gs)\<lparr>g_tensors := concat (map g_tensors gs), g_n_tensors := tot,
       g_maps := map (\<lambda>g. case g_map g of Some p \<Rightarrow> p | None \<Rightarrow> []) gs,
       g_map_sizes := map g_map_size gs, g_n_maps := parts, g_mapped_size := mapped,
       g_map := g_map (hd gs), g_map_size := g_map_size (hd gs)\<rparr>"

definition gguf_open :: "(string \<Rightarrow> string option) \<Rightarrow> string \<Rightarrow> gguf_error + gguf_file" where
  "gguf_open fs path =
     (case gguf_open_one fs path of
        Inl e \<Rightarrow> Inl e
      | Inr probe \<Rightarrow>
          (let parts = gguf_get_u32 (g_kv probe) ''split.count'' 0
           in if parts \<le> 1 then Inr probe
              else
                (let current = gguf_get_u32 (g_kv probe) ''split.no'' (- 1);
                     expected = gguf_get_u32 (g_kv probe) ''split.tensors.count'' (- 1)
                 in if current \<ge> parts \<or> expected = - 1 \<or> expected > 100000 \<or> parts > expected \<or> parts > 10000
                    then Inl Invalid_split
                    else (case split_part_path 4096 path current parts 0 of
                      None \<Rightarrow> Inl Bad_split_name
                    | Some first \<Rightarrow>
                        (case open_parts fs first parts expected (unat parts) 0 [] 0 0 of
                           Inl e \<Rightarrow> Inl e
                         | Inr (gs, tot, mapped) \<Rightarrow>
                             if tot \<noteq> ucast expected then Inl Wrong_tensor_count
                             else
                               (let g = merge_parts gs parts tot mapped
                                in case first_duplicate_inplace (map t_name (g_tensors g)) of
                                     Some d \<Rightarrow> Inl (Duplicate_tensor d)
                                   | None \<Rightarrow> Inr g))))))"

subsection \<open>Mappings\<close>

definition gguf_mapped_size :: "gguf_file option \<Rightarrow> 64 word" where
  "gguf_mapped_size g = (case g of None \<Rightarrow> 0 | Some g \<Rightarrow> g_mapped_size g)"

definition gguf_map_count :: "gguf_file option \<Rightarrow> 32 word" where
  "gguf_map_count g =
     (case g of None \<Rightarrow> 0 | Some g \<Rightarrow> if g_n_maps g \<noteq> 0 then g_n_maps g else 1)"

definition gguf_map_part :: "gguf_file option \<Rightarrow> 32 word \<Rightarrow> string option \<times> 64 word" where
  "gguf_map_part g i =
     (case g of
        None \<Rightarrow> (None, 0)
      | Some f \<Rightarrow>
          if i \<ge> gguf_map_count g then (None, 0)
          else if g_n_maps f \<noteq> 0 then (Some (g_maps f ! unat i), g_map_sizes f ! unat i)
          else (g_map f, g_map_size f))"

end
