(* ===== verification/Json_Laws.thy ===== *)
theory Json_Laws
  imports Json "HOL-Library.Multiset"
begin

text \<open>
  The laws of the JSON component: the duplicate-key table implements a set, strings survive
  escaping and parsing, what the parser accepts is well formed, the serialiser's output is
  parsed back to the same value, and \<open>jv_dictsort\<close> is the stable sort of jinja.
\<close>

subsection \<open>The duplicate-key table is a set\<close>

text \<open>
  Open addressing without deletion: every stored key sits on its own probe sequence with no
  free slot before it, the capacity is a power of two and at least half of it is free.
\<close>

definition filled :: "string option list \<Rightarrow> nat" where
  "filled slots = length (filter (\<lambda>x. x \<noteq> None) slots)"

definition stored :: "string option list \<Rightarrow> string set" where
  "stored slots = {k. Some k \<in> set slots}"

definition slot_at :: "nat \<Rightarrow> string \<Rightarrow> nat \<Rightarrow> nat" where
  "slot_at cap k d = (hash_slot cap k + d) mod cap"

definition on_path :: "nat \<Rightarrow> string option list \<Rightarrow> string \<Rightarrow> nat \<Rightarrow> bool" where
  "on_path cap slots k i \<longleftrightarrow>
     (\<exists>d<cap. slot_at cap k d = i \<and> (\<forall>d'<d. slots ! slot_at cap k d' \<noteq> None))"

definition table_ok :: "nat \<Rightarrow> string option list \<Rightarrow> bool" where
  "table_ok cap slots \<longleftrightarrow> (\<exists>e. cap = 2 ^ e) \<and> length slots = cap \<and>
     (\<forall>i<cap. \<forall>j<cap. slots ! i \<noteq> None \<and> slots ! i = slots ! j \<longrightarrow> i = j) \<and>
     (\<forall>i<cap. \<forall>k. slots ! i = Some k \<longrightarrow> on_path cap slots k i)"

lemma and_mask: "cap = 2 ^ e \<Longrightarrow> (n :: nat) AND (cap - 1) = n mod cap"
  using take_bit_eq_mask [of e n] by (simp add: take_bit_eq_mod mask_eq_exp_minus_1)

lemma probe_next: "cap = 2 ^ e \<Longrightarrow> (n :: nat) AND (cap - Suc 0) = n mod cap"
  using and_mask [of cap e n] by simp

lemma hash_slot_less: "cap = 2 ^ e \<Longrightarrow> hash_slot cap k < cap"
  unfolding hash_slot_def by (subst and_mask) auto

lemma slot_at_less: "cap = 2 ^ e \<Longrightarrow> slot_at cap k d < cap"
  by (simp add: slot_at_def)

lemma slot_at_onto:
  assumes "cap = 2 ^ e" "j < cap"
  shows "\<exists>d<cap. slot_at cap k d = j"
proof (intro exI conjI)
  let ?h = "hash_slot cap k"
  have h: "?h < cap" using assms(1) by (rule hash_slot_less)
  show "(j + cap - ?h) mod cap < cap" using assms by simp
  have "slot_at cap k ((j + cap - ?h) mod cap) = (?h + (j + cap - ?h)) mod cap"
    by (simp add: slot_at_def mod_add_right_eq)
  also have "\<dots> = j" using h assms(2) by simp
  finally show "slot_at cap k ((j + cap - ?h) mod cap) = j" .
qed

lemma probe_key_step:
  assumes "cap = 2 ^ e"
  shows "d < f \<Longrightarrow> \<forall>d'<d. \<exists>k'. slots ! ((i + d') mod cap) = Some k' \<and> k' \<noteq> key \<Longrightarrow>
    slots ! ((i + d) mod cap) \<in> {None, Some key} \<Longrightarrow>
    probe_key f slots cap key (i mod cap) = Some (slots ! ((i + d) mod cap) \<noteq> None, (i + d) mod cap)"
proof (induction d arbitrary: f i)
  case 0
  then show ?case by (cases f) auto
next
  case (Suc d)
  then obtain f' where f: "f = Suc f'" "d < f'" by (cases f) auto
  obtain k' where k': "slots ! (i mod cap) = Some k'" "k' \<noteq> key"
    using Suc.prems(2) by (metis add_0_right zero_less_Suc)
  have "\<forall>d'<d. \<exists>k'. slots ! ((i + 1 + d') mod cap) = Some k' \<and> k' \<noteq> key"
    using Suc.prems(2) by (metis Suc_eq_plus1 add.commute add.left_commute not_less_eq)
  then have "probe_key f' slots cap key ((i + 1) mod cap) =
      Some (slots ! ((i + 1 + d) mod cap) \<noteq> None, (i + 1 + d) mod cap)"
    using Suc.prems(3) f(2) by (intro Suc.IH) auto
  then show ?case
    using k' by (simp add: f(1) probe_next [OF assms] mod_Suc_eq)
qed

lemma probe_free_step:
  assumes "cap = 2 ^ e"
  shows "d < f \<Longrightarrow> \<forall>d'<d. slots ! ((i + d') mod cap) \<noteq> None \<Longrightarrow>
    slots ! ((i + d) mod cap) = None \<Longrightarrow>
    probe_free f slots cap (i mod cap) = Some ((i + d) mod cap)"
proof (induction d arbitrary: f i)
  case 0
  then show ?case by (cases f) auto
next
  case (Suc d)
  then obtain f' where f: "f = Suc f'" "d < f'" by (cases f) auto
  obtain k' where k': "slots ! (i mod cap) = Some k'"
    using Suc.prems(2) by (metis add_0_right zero_less_Suc not_None_eq)
  have "\<forall>d'<d. slots ! ((i + 1 + d') mod cap) \<noteq> None"
    using Suc.prems(2) by (metis Suc_eq_plus1 add.commute add.left_commute not_less_eq)
  then have "probe_free f' slots cap ((i + 1) mod cap) = Some ((i + 1 + d) mod cap)"
    using Suc.prems(3) f(2) by (intro Suc.IH) auto
  then show ?case
    using k' by (simp add: f(1) probe_next [OF assms] mod_Suc_eq)
qed

lemma filled_full: "filled slots < length slots \<Longrightarrow> \<exists>i<length slots. slots ! i = None"
  unfolding filled_def
  by (metis (mono_tags, lifting) filter_True in_set_conv_nth nat_neq_iff)

lemma stored_nth: "k \<in> stored slots \<longleftrightarrow> (\<exists>i<length slots. slots ! i = Some k)"
  by (auto simp: stored_def in_set_conv_nth)

text \<open>Where a key that is not in the table goes: the first free slot of its probe sequence.\<close>

lemma free_slot:
  assumes "table_ok cap slots" "filled slots < cap"
  obtains d where "d < cap" "slots ! slot_at cap k d = None"
    "\<forall>d'<d. slots ! slot_at cap k d' \<noteq> None"
proof -
  obtain e where e: "cap = 2 ^ e" and len: "length slots = cap"
    using assms(1) by (auto simp: table_ok_def)
  obtain i where i: "i < cap" "slots ! i = None"
    using filled_full assms(2) len by blast
  obtain d0 where d0: "d0 < cap" "slot_at cap k d0 = i"
    using slot_at_onto [OF e i(1)] by blast
  define d where "d = (LEAST d. slots ! slot_at cap k d = None)"
  have "slots ! slot_at cap k d = None"
    unfolding d_def by (rule LeastI [of _ d0]) (simp add: d0 i)
  moreover have "d \<le> d0" unfolding d_def by (rule Least_le) (simp add: d0 i)
  moreover have "\<forall>d'<d. slots ! slot_at cap k d' \<noteq> None"
    unfolding d_def using not_less_Least by blast
  ultimately show ?thesis using that [of d] d0(1) by simp
qed

lemma place:
  assumes t: "table_ok cap slots" and k: "k \<notin> stored slots" and d: "d < cap"
    and free: "slots ! slot_at cap k d = None" and path: "\<forall>d'<d. slots ! slot_at cap k d' \<noteq> None"
  defines "slots' \<equiv> slots[slot_at cap k d := Some k]"
  shows "table_ok cap slots' \<and> stored slots' = insert k (stored slots) \<and> filled slots' = Suc (filled slots)"
proof -
  let ?i = "slot_at cap k d"
  obtain e where e: "cap = 2 ^ e" and len: "length slots = cap"
    using t by (auto simp: table_ok_def)
  have i: "?i < cap" using slot_at_less [OF e] .
  have nth: "slots' ! j = (if j = ?i then Some k else slots ! j)" if "j < cap" for j
    using that len i by (simp add: slots'_def)
  have mono: "slots ! j \<noteq> None \<Longrightarrow> slots' ! j \<noteq> None" if "j < cap" for j
    using that by (simp add: nth)
  have keep: "on_path cap slots x j \<Longrightarrow> on_path cap slots' x j" for x j
    using mono slot_at_less [OF e] unfolding on_path_def by metis
  have new: "on_path cap slots' k ?i"
    using d path mono slot_at_less [OF e] unfolding on_path_def by metis
  have fresh: "j < cap \<Longrightarrow> slots ! j \<noteq> Some k" for j
    using k len by (auto simp: stored_nth)
  have "filled slots' = Suc (filled slots)"
  proof -
    have s: "slots = take ?i slots @ None # drop (Suc ?i) slots"
      using free i len by (metis id_take_nth_drop)
    have "slots' = take ?i slots @ Some k # drop (Suc ?i) slots"
      using i len by (simp add: slots'_def upd_conv_take_nth_drop)
    then have "filled slots' = Suc (filled (take ?i slots) + filled (drop (Suc ?i) slots))"
      by (simp add: filled_def)
    also have "filled (take ?i slots) + filled (drop (Suc ?i) slots) = filled slots"
      by (subst (3) s) (simp add: filled_def)
    finally show ?thesis .
  qed
  moreover have "stored slots' = insert k (stored slots)"
  proof (intro set_eqI iffI)
    fix x assume "x \<in> stored slots'"
    then obtain j where "j < cap" "slots' ! j = Some x" using len by (auto simp: stored_nth slots'_def)
    then show "x \<in> insert k (stored slots)" using nth [of j] len by (auto simp: stored_nth split: if_splits)
  next
    fix x assume "x \<in> insert k (stored slots)"
    moreover have "k \<in> stored slots'"
      using nth [OF i] i len by (auto simp: stored_nth slots'_def)
    moreover have "x \<in> stored slots'" if sx: "x \<in> stored slots"
    proof -
      obtain j where j: "j < cap" "slots ! j = Some x" using sx unfolding stored_nth len by blast
      then have "slots' ! j = Some x" using nth [OF j(1)] free by auto
      then show ?thesis using j(1) len by (auto simp: stored_nth slots'_def)
    qed
    ultimately show "x \<in> stored slots'" by blast
  qed
  moreover have "table_ok cap slots'"
    unfolding table_ok_def
  proof (intro conjI allI impI)
    show "\<exists>e. cap = 2 ^ e" using e by blast
    show "length slots' = cap" using len by (simp add: slots'_def)
    show "i' = j" if "i' < cap" "j < cap" "slots' ! i' \<noteq> None \<and> slots' ! i' = slots' ! j" for i' j
      using that t fresh nth unfolding table_ok_def by (metis (no_types, lifting))
    show "on_path cap slots' k' i'" if "i' < cap" "slots' ! i' = Some k'" for i' k'
      using that t keep new nth unfolding table_ok_def by (metis (no_types, lifting) option.inject)
  qed
  ultimately show ?thesis by blast
qed

lemma rehash_one_place:
  assumes "table_ok cap slots" "k \<notin> stored slots" "filled slots < cap"
  shows "table_ok cap (rehash_one cap slots (Some k)) \<and>
    stored (rehash_one cap slots (Some k)) = insert k (stored slots) \<and>
    filled (rehash_one cap slots (Some k)) = Suc (filled slots)"
proof -
  obtain e where e: "cap = 2 ^ e" using assms(1) by (auto simp: table_ok_def)
  obtain d where d: "d < cap" "slots ! slot_at cap k d = None"
    "\<forall>d'<d. slots ! slot_at cap k d' \<noteq> None"
    using free_slot [OF assms(1,3)] by blast
  have "probe_free cap slots cap (hash_slot cap k) = Some (slot_at cap k d)"
    using probe_free_step [OF e d(1), of slots "hash_slot cap k"] d hash_slot_less [OF e]
    by (simp add: slot_at_def)
  then show ?thesis
    using place [OF assms(1,2) d] by (simp add: rehash_one_def)
qed

lemma filled_append: "filled (xs @ ys) = filled xs + filled ys"
  by (simp add: filled_def)

lemma rehash_all:
  "table_ok cap slots \<Longrightarrow> filled slots + filled olds < cap \<Longrightarrow> distinct (filter (\<lambda>x. x \<noteq> None) olds) \<Longrightarrow>
   stored slots \<inter> stored olds = {} \<Longrightarrow>
   table_ok cap (foldl (rehash_one cap) slots olds) \<and>
   stored (foldl (rehash_one cap) slots olds) = stored slots \<union> stored olds \<and>
   filled (foldl (rehash_one cap) slots olds) = filled slots + filled olds"
proof (induction olds arbitrary: slots)
  case Nil
  then show ?case by (simp add: stored_def filled_def)
next
  case (Cons x olds)
  show ?case
  proof (cases x)
    case None
    then show ?thesis using Cons by (simp add: rehash_one_def stored_def filled_def)
  next
    case (Some k)
    have st: "stored (x # olds) = insert k (stored olds)" and fl: "filled (x # olds) = Suc (filled olds)"
      and nk: "k \<notin> stored olds"
      using Cons.prems(3) by (auto simp: stored_def filled_def Some)
    have nd: "distinct (filter (\<lambda>x. x \<noteq> None) olds)" using Cons.prems(3) by (simp add: Some)
    have "k \<notin> stored slots" "filled slots < cap" using Cons.prems(2,4) st fl by auto
    then have p: "table_ok cap (rehash_one cap slots x)" "stored (rehash_one cap slots x) = insert k (stored slots)"
      "filled (rehash_one cap slots x) = Suc (filled slots)"
      using rehash_one_place [OF Cons.prems(1), of k] by (simp_all add: Some)
    have "table_ok cap (foldl (rehash_one cap) (rehash_one cap slots x) olds) \<and>
      stored (foldl (rehash_one cap) (rehash_one cap slots x) olds) = insert k (stored slots) \<union> stored olds \<and>
      filled (foldl (rehash_one cap) (rehash_one cap slots x) olds) = Suc (filled slots) + filled olds"
      unfolding p(2,3) [symmetric]
      using Cons.prems(2,4) nk p nd by (intro Cons.IH) (simp_all add: st fl)
    then show ?thesis by (simp add: st fl)
  qed
qed

definition ks_inv :: "keyset \<Rightarrow> bool" where
  "ks_inv t \<longleftrightarrow> t = keyset_empty \<or>
     table_ok (k_cap t) (k_slots t) \<and> k_used t = filled (k_slots t) \<and> k_used t \<le> k_cap t div 2 \<and> 16 \<le> k_cap t"

definition ks_abs :: "keyset \<Rightarrow> string set" where
  "ks_abs t = stored (k_slots t)"

lemma table_ok_empty: "cap = 2 ^ e \<Longrightarrow> table_ok cap (replicate cap None)"
  by (auto simp: table_ok_def)

lemma filled_replicate [simp]: "filled (replicate n None) = 0" "stored (replicate n None) = {}" 
  "filled [] = 0" "stored [] = {}"
  by (auto simp: filled_def stored_def)

lemma table_distinct:
  assumes "table_ok cap slots"
  shows "distinct (filter (\<lambda>x. x \<noteq> None) slots)"
proof -
  have "inj_on (\<lambda>i. slots ! i) {i. i < length slots \<and> slots ! i \<noteq> None}"
    using assms by (auto simp: table_ok_def inj_on_def)
  moreover have "filter (\<lambda>x. x \<noteq> None) slots =
      map (\<lambda>i. slots ! i) (filter (\<lambda>i. slots ! i \<noteq> None) [0..<length slots])"
    by (metis (no_types, lifting) filter_map map_nth comp_apply filter_cong)
  ultimately show ?thesis by (auto simp: distinct_map intro: inj_on_subset)
qed

lemma grow_ok:
  assumes "ks_inv t"
  shows "table_ok (k_cap (keyset_grow t)) (k_slots (keyset_grow t)) \<and>
    k_used (keyset_grow t) = filled (k_slots (keyset_grow t)) \<and> ks_abs (keyset_grow t) = ks_abs t \<and>
    k_used (keyset_grow t) + 1 \<le> k_cap (keyset_grow t) div 2 \<and> 16 \<le> k_cap (keyset_grow t)"
proof (cases "k_cap t div 2 < k_used t + 1")
  case False
  then show ?thesis using assms by (auto simp: ks_inv_def keyset_grow_def keyset_empty_def ks_abs_def)
next
  case True
  show ?thesis
  proof (cases "t = keyset_empty")
    case True
    have "table_ok 16 (replicate 16 None)" by (rule table_ok_empty [of _ 4]) simp
    then show ?thesis using True by (simp add: keyset_empty_def keyset_grow_def ks_abs_def)
  next
    case False
    then have t: "table_ok (k_cap t) (k_slots t)" "k_used t = filled (k_slots t)"
      "k_used t \<le> k_cap t div 2" "16 \<le> k_cap t"
      using assms by (auto simp: ks_inv_def)
    obtain e where "k_cap t = 2 ^ e" using t(1) by (auto simp: table_ok_def)
    then have e: "k_cap t * 2 = 2 ^ (Suc e)" by simp
    have g: "keyset_grow t = t\<lparr>k_slots := foldl (rehash_one (k_cap t * 2)) (replicate (k_cap t * 2) None) (k_slots t),
        k_cap := k_cap t * 2\<rparr>"
      using True t(4) by (simp add: keyset_grow_def Let_def)
    have "table_ok (k_cap t * 2) (foldl (rehash_one (k_cap t * 2)) (replicate (k_cap t * 2) None) (k_slots t)) \<and>
      stored (foldl (rehash_one (k_cap t * 2)) (replicate (k_cap t * 2) None) (k_slots t)) =
        stored (replicate (k_cap t * 2) None) \<union> stored (k_slots t) \<and>
      filled (foldl (rehash_one (k_cap t * 2)) (replicate (k_cap t * 2) None) (k_slots t)) =
        filled (replicate (k_cap t * 2) None) + filled (k_slots t)"
      using t by (intro rehash_all table_ok_empty [OF e] table_distinct) auto
    then show ?thesis using t by (simp add: g ks_abs_def)
  qed
qed

lemma keyset_insert_spec:
  assumes "ks_inv t"
  shows "ks_inv (snd (keyset_insert t key)) \<and> ks_abs (snd (keyset_insert t key)) = insert key (ks_abs t) \<and>
    fst (keyset_insert t key) = (if key \<in> ks_abs t then 0 else 1)"
proof -
  define g where "g = keyset_grow t"
  have g: "table_ok (k_cap g) (k_slots g)" "k_used g = filled (k_slots g)" "ks_abs g = ks_abs t"
    "k_used g + 1 \<le> k_cap g div 2" "16 \<le> k_cap g"
    using grow_ok [OF assms] by (simp_all add: g_def)
  obtain e where e: "k_cap g = 2 ^ e" and len: "length (k_slots g) = k_cap g"
    using g(1) by (auto simp: table_ok_def)
  note hm = mod_less [OF hash_slot_less [OF e]]
  show ?thesis
  proof (cases "key \<in> stored (k_slots g)")
    case True
    then obtain i where i: "i < k_cap g" "k_slots g ! i = Some key" using len stored_nth by metis
    then have "on_path (k_cap g) (k_slots g) key i" using g(1) by (simp add: table_ok_def)
    then obtain d where d: "d < k_cap g" "slot_at (k_cap g) key d = i"
      "\<forall>d'<d. k_slots g ! slot_at (k_cap g) key d' \<noteq> None"
      unfolding on_path_def by blast
    define m where "m = (LEAST d. k_slots g ! slot_at (k_cap g) key d = Some key)"
    have m: "k_slots g ! slot_at (k_cap g) key m = Some key"
      unfolding m_def by (rule LeastI [of _ d]) (simp add: d i)
    have md: "m \<le> d" unfolding m_def by (rule Least_le) (simp add: d i)
    have "\<forall>d'<m. \<exists>k'. k_slots g ! slot_at (k_cap g) key d' = Some k' \<and> k' \<noteq> key"
      using d(3) md not_less_Least [where P = "\<lambda>d. k_slots g ! slot_at (k_cap g) key d = Some key"]
      unfolding m_def [symmetric] by (metis dual_order.strict_trans1 not_None_eq)
    then have "probe_key (k_cap g) (k_slots g) (k_cap g) key (hash_slot (k_cap g) key) =
        Some (True, slot_at (k_cap g) key m)"
      using probe_key_step [OF e, of m "k_cap g" "k_slots g" "hash_slot (k_cap g) key" key] m md d(1)
      by (simp add: slot_at_def hm)
    then have "keyset_insert t key = (0, g)"
      by (simp add: keyset_insert_def Let_def g_def [symmetric])
    moreover have "ks_inv g" using g by (simp add: ks_inv_def)
    ultimately show ?thesis using True g(3) by (auto simp: ks_abs_def)
  next
    case False
    have "filled (k_slots g) < k_cap g" using g(2,4,5) by simp
    then obtain d where d: "d < k_cap g" "k_slots g ! slot_at (k_cap g) key d = None"
      "\<forall>d'<d. k_slots g ! slot_at (k_cap g) key d' \<noteq> None"
      using free_slot [OF g(1)] by blast
    have "\<forall>d'<d. \<exists>k'. k_slots g ! slot_at (k_cap g) key d' = Some k' \<and> k' \<noteq> key"
      using d(3) False slot_at_less [OF e] len by (metis not_None_eq stored_nth)
    then have "probe_key (k_cap g) (k_slots g) (k_cap g) key (hash_slot (k_cap g) key) =
        Some (False, slot_at (k_cap g) key d)"
      using probe_key_step [OF e, of d "k_cap g" "k_slots g" "hash_slot (k_cap g) key" key] d
      by (simp add: slot_at_def hm)
    then have "keyset_insert t key = (1, g\<lparr>k_slots := (k_slots g)[slot_at (k_cap g) key d := Some key],
        k_used := k_used g + 1\<rparr>)"
      by (simp add: keyset_insert_def Let_def g_def [symmetric])
    then show ?thesis
      using place [OF g(1) False d] g False by (auto simp: ks_inv_def ks_abs_def)
  qed
qed


text \<open>What the parser relies on: a table behaves as a set of keys.\<close>

locale key_table =
  fixes ins :: "'t \<Rightarrow> string \<Rightarrow> int \<times> 't"
    and nil :: 't
    and keys :: "'t \<Rightarrow> string set"
    and ok :: "'t \<Rightarrow> bool"
  assumes nil_ok: "ok nil"
    and nil_keys: "keys nil = {}"
    and ins_ok: "ok t \<Longrightarrow> ok (snd (ins t k))"
    and ins_keys: "ok t \<Longrightarrow> keys (snd (ins t k)) = insert k (keys t)"
    and ins_new: "ok t \<Longrightarrow> fst (ins t k) = (if k \<in> keys t then 0 else 1)"
begin

lemma ins_accepts: "ok t \<Longrightarrow> ins t k = (r, t') \<Longrightarrow> r = 1 \<longleftrightarrow> k \<notin> keys t"
  using ins_new [of t k] by auto

lemma ins_result:
  assumes "ok t" "ins t k = (r, t')"
  shows "ok t'" "keys t' = insert k (keys t)"
  using ins_ok [of t k] ins_keys [of t k] assms by auto

definition insert_all :: "string list \<Rightarrow> 't \<Rightarrow> 't" where
  "insert_all ks t = foldl (\<lambda>t k. snd (ins t k)) t ks"

lemma insert_all_keys: "ok t \<Longrightarrow> ok (insert_all ks t) \<and> keys (insert_all ks t) = set ks \<union> keys t"
  by (induction ks arbitrary: t) (simp_all add: insert_all_def ins_ok ins_keys)

end

interpretation kt: key_table keyset_insert keyset_empty ks_abs ks_inv
proof
  show "ks_inv keyset_empty" by (simp add: ks_inv_def)
  show "ks_abs keyset_empty = {}" by (simp add: ks_abs_def keyset_empty_def)
qed (use keyset_insert_spec in auto)

subsection \<open>UTF-8\<close>

lemma less_cases_upt:
  assumes "(x :: nat) < n" "P 0 \<and> P 1 \<and> list_all P [2..<n]"
  shows "P x"
proof -
  consider "x = 0" | "x = 1" | "2 \<le> x" by linarith
  then show ?thesis using assms by cases (auto simp: list_all_iff)
qed

lemma or_C0: "x < 32 \<Longrightarrow> 0xC0 OR x = 0xC0 + (x :: nat)"
  by (rule less_cases_upt [of x 32]) simp_all

lemma or_E0: "x < 16 \<Longrightarrow> 0xE0 OR x = 0xE0 + (x :: nat)"
  by (rule less_cases_upt [of x 16]) simp_all

lemma or_F0: "x < 8 \<Longrightarrow> 0xF0 OR x = 0xF0 + (x :: nat)"
  by (rule less_cases_upt [of x 8]) simp_all

lemma or_80: "x < 64 \<Longrightarrow> 0x80 OR x = 0x80 + (x :: nat)"
  by (rule less_cases_upt [of x 64]) simp_all

lemma and_3F: "x AND 0x3F = (x :: nat) mod 64"
  using and_mask [of 64 6 x] by simp

lemma lead_C0: "x < 32 \<Longrightarrow> (0xC0 + x) AND 0xE0 = (0xC0 :: nat)"
  by (rule less_cases_upt [of x 32]) simp_all

lemma lead_E0: "x < 16 \<Longrightarrow> (0xE0 + x) AND 0xE0 \<noteq> (0xC0 :: nat) \<and> (0xE0 + x) AND 0xF0 = (0xE0 :: nat)"
  by (rule less_cases_upt [of x 16]) simp_all

lemma lead_F0: "x < 8 \<Longrightarrow> (0xF0 + x) AND 0xE0 \<noteq> (0xC0 :: nat) \<and> (0xF0 + x) AND 0xF0 \<noteq> (0xE0 :: nat) \<and>
  (0xF0 + x) AND 0xF8 = (0xF0 :: nat)"
  by (rule less_cases_upt [of x 8]) simp_all

lemma cont_80: "x < 64 \<Longrightarrow> (0x80 + x) AND 0xC0 = (0x80 :: nat)"
  by (rule less_cases_upt [of x 64]) simp_all

lemma byte_char_of: "n < 256 \<Longrightarrow> byte (char_of n) = n"
  by simp

lemma u8_emit_arith:
  "0x80 \<le> cp \<Longrightarrow> cp < 0x800 \<Longrightarrow> u8_emit cp = [char_of (0xC0 + cp div 64), char_of (0x80 + cp mod 64)]"
  "0x800 \<le> cp \<Longrightarrow> cp < 0x10000 \<Longrightarrow> u8_emit cp =
     [char_of (0xE0 + cp div 4096), char_of (0x80 + cp div 64 mod 64), char_of (0x80 + cp mod 64)]"
  "0x10000 \<le> cp \<Longrightarrow> cp < 0x200000 \<Longrightarrow> u8_emit cp =
     [char_of (0xF0 + cp div 262144), char_of (0x80 + cp div 4096 mod 64),
      char_of (0x80 + cp div 64 mod 64), char_of (0x80 + cp mod 64)]"
  by (simp_all add: u8_emit_def and_3F or_80 or_C0 or_E0 or_F0 drop_bit_eq_div less_mult_imp_div_less)

text \<open>Only the bytes of the sequence matter.\<close>

lemma utf8_seq_cases: "utf8_seq s = 0 \<or> utf8_seq s = utf8_len (byte (s ! 0)) \<and> 0 < utf8_seq s \<and> utf8_seq s \<le> length s"
  by (simp add: utf8_seq_def Let_def)

lemma utf8_seq_le: "utf8_seq s \<le> length s"
  using utf8_seq_cases [of s] by auto

lemma utf8_seq_ascii: "byte c < 0x80 \<Longrightarrow> utf8_seq (c # s) = 1"
  by (simp add: utf8_seq_def utf8_len_def Let_def)

lemma utf8_seq_append:
  assumes "0 < utf8_seq s"
  shows "utf8_seq (s @ t) = utf8_seq s"
proof -
  define len where "len = utf8_len (byte (s ! 0))"
  have l: "0 < len" "len \<le> length s" using assms utf8_seq_cases [of s] by (auto simp: len_def)
  then have 0: "(s @ t) ! 0 = s ! 0" by (cases s) auto
  have 1: "1 < len \<Longrightarrow> (s @ t) ! 1 = s ! 1" using l by (simp add: nth_append)
  have c: "take (len - 1) (drop 1 (s @ t)) = take (len - 1) (drop 1 s)"
    using l by (cases s) simp_all
  show ?thesis
    unfolding utf8_seq_def 0 len_def [symmetric] Let_def c using l 1 by (simp cong: if_cong)
qed

lemma utf8_seq_take:
  assumes "0 < utf8_seq s"
  shows "utf8_seq (take (utf8_seq s) s) = utf8_seq s"
proof -
  define len where "len = utf8_len (byte (s ! 0))"
  have l: "0 < len" "len \<le> length s" and e: "utf8_seq s = len"
    using assms utf8_seq_cases [of s] by (auto simp: len_def)
  have 0: "take len s ! 0 = s ! 0" using l by simp
  have 1: "1 < len \<Longrightarrow> take len s ! 1 = s ! 1" by simp
  have c: "take (len - 1) (drop 1 (take len s)) = take (len - 1) (drop 1 s)" by (simp add: drop_take)
  have "utf8_seq (take len s) = utf8_seq s"
    unfolding utf8_seq_def 0 len_def [symmetric] Let_def c using l 1 by (simp cong: if_cong)
  then show ?thesis by (simp add: e)
qed

lemma split_64: "(n :: nat) = 64 * (n div 64) + n mod 64"
  by simp

lemma seq3:
  assumes "(x :: nat) < 16" "(y :: nat) < 64" "(z :: nat) < 64" "x = 0 \<longrightarrow> 32 \<le> y" "x = 13 \<longrightarrow> y < 32"
  shows "utf8_seq [char_of (0xE0 + x), char_of (0x80 + y), char_of (0x80 + z)] =
      length [char_of (0xE0 + x) :: char, char_of (0x80 + y), char_of (0x80 + z)] \<and>
    0 < length [char_of (0xE0 + x) :: char, char_of (0x80 + y), char_of (0x80 + z)]"
  using assms lead_E0 [of x] cont_80 [of y] cont_80 [of z]
  by (cases "x = 0"; cases "x = 13") (simp_all add: utf8_seq_def utf8_len_def Let_def)

lemma seq4:
  assumes "(x :: nat) < 8" "(w :: nat) < 64" "(y :: nat) < 64" "(z :: nat) < 64" "x = 0 \<longrightarrow> 16 \<le> w" "x \<le> 4" "x = 4 \<longrightarrow> w < 16"
  shows "utf8_seq [char_of (0xF0 + x), char_of (0x80 + w), char_of (0x80 + y), char_of (0x80 + z)] =
      length [char_of (0xF0 + x) :: char, char_of (0x80 + w), char_of (0x80 + y), char_of (0x80 + z)] \<and>
    0 < length [char_of (0xF0 + x) :: char, char_of (0x80 + w), char_of (0x80 + y), char_of (0x80 + z)]"
  using assms lead_F0 [of x] cont_80 [of w] cont_80 [of y] cont_80 [of z]
  by (cases "x = 0"; cases "x = 4") (simp_all add: utf8_seq_def utf8_len_def Let_def)

lemma utf8_seq_emit:
  assumes "cp < 0x110000" "\<not> (0xD800 \<le> cp \<and> cp \<le> 0xDFFF)"
  shows "utf8_seq (u8_emit cp) = length (u8_emit cp) \<and> 0 < length (u8_emit cp)"
proof -
  consider "cp < 0x80" | "0x80 \<le> cp" "cp < 0x800" | "0x800 \<le> cp" "cp < 0x10000" | "0x10000 \<le> cp"
    by linarith
  then show ?thesis
  proof cases
    case 1
    then show ?thesis by (simp add: u8_emit_def utf8_seq_def utf8_len_def Let_def)
  next
    case 2
    have b: "cp div 64 < 32" "2 \<le> cp div 64" "cp mod 64 < 64" using 2 by (simp_all add: less_mult_imp_div_less)
    show ?thesis using 2 b lead_C0 [OF b(1)] cont_80 [OF b(3)]
      by (simp add: u8_emit_arith utf8_seq_def utf8_len_def)
  next
    case 3
    have b: "cp div 4096 < 16" "cp div 64 mod 64 < 64" "cp mod 64 < 64" using 3 by (simp_all add: less_mult_imp_div_less)
    have q: "cp = 64 * (cp div 64) + cp mod 64" "cp div 64 = 64 * (cp div 4096) + cp div 64 mod 64"
      using split_64 [of cp] split_64 [of "cp div 64"] by (simp_all add: div_mult2_eq [symmetric])
    have c: "cp div 4096 = 0 \<longrightarrow> 32 \<le> cp div 64 mod 64" "cp div 4096 = 13 \<longrightarrow> cp div 64 mod 64 < 32"
      using 3 assms(2) q b by (auto simp: not_le)
    show ?thesis unfolding u8_emit_arith(2) [OF 3] using b c by (intro seq3) blast+
  next
    case 4
    have b: "cp div 262144 < 8" "cp div 4096 mod 64 < 64" "cp div 64 mod 64 < 64" "cp mod 64 < 64"
      using assms by (simp_all add: less_mult_imp_div_less)
    have q: "cp = 64 * (cp div 64) + cp mod 64" "cp div 64 = 64 * (cp div 4096) + cp div 64 mod 64"
      "cp div 4096 = 64 * (cp div 262144) + cp div 4096 mod 64"
      using split_64 [of cp] split_64 [of "cp div 64"] split_64 [of "cp div 4096"]
      by (simp_all add: div_mult2_eq [symmetric])
    have c: "cp div 262144 = 0 \<longrightarrow> 16 \<le> cp div 4096 mod 64" "cp div 262144 \<le> 4"
      "cp div 262144 = 4 \<longrightarrow> cp div 4096 mod 64 < 16"
      using 4 assms(1) q b by linarith+
    have lt: "cp < 0x200000" using assms(1) by simp
    show ?thesis unfolding u8_emit_arith(3) [OF 4 lt] using b c by (intro seq4) blast+
  qed
qed

text \<open>Well-formed text: a sequence of well-formed UTF-8 sequences, no NUL.\<close>

function valid_text :: "string \<Rightarrow> bool" where
  "valid_text [] = True"
| "valid_text (c # s) =
     (c \<noteq> CHR 0x00 \<and> 0 < utf8_seq (c # s) \<and>
      (if 0 < utf8_seq (c # s) then valid_text (drop (utf8_seq (c # s)) (c # s)) else False))"
  by pat_completeness auto
termination by (relation "measure length") auto

declare valid_text.simps(2) [simp del]

lemma valid_text_step:
  assumes "0 < utf8_seq s" "hd s \<noteq> CHR 0x00"
  shows "valid_text s = valid_text (drop (utf8_seq s) s)"
  using assms utf8_seq_le [of s] by (cases s) (simp_all add: valid_text.simps)

lemma valid_text_ascii: "byte c < 0x80 \<Longrightarrow> valid_text (c # s) \<longleftrightarrow> c \<noteq> CHR 0x00 \<and> valid_text s"
  by (simp add: valid_text.simps(2) utf8_seq_ascii)

lemma valid_text_seq:
  assumes "utf8_seq u = length u" "u \<noteq> []" "hd u \<noteq> CHR 0x00"
  shows "valid_text (u @ s) = valid_text s"
  using assms valid_text_step [of "u @ s"] by (simp add: utf8_seq_append)

text \<open>What a reader of an escaped string gets: every ill-formed byte becomes U+FFFD.\<close>

function sanitize :: "string \<Rightarrow> string" where
  "sanitize [] = []"
| "sanitize (c # s) =
     (let len = utf8_seq (c # s) in
      if len = 0 then replacement @ sanitize s
      else take len (c # s) @ sanitize (drop len (c # s)))"
  by pat_completeness auto
termination by (relation "measure length") auto

declare sanitize.simps(2) [simp del]

lemma sanitize_ascii: "byte c < 0x80 \<Longrightarrow> sanitize (c # s) = c # sanitize s"
  by (simp add: sanitize.simps(2) utf8_seq_ascii)

lemma utf8_replacement: "utf8_seq replacement = 3" "length replacement = 3" "replacement \<noteq> []"
  by (simp_all add: replacement_def utf8_seq_def utf8_len_def)

lemma sanitize_valid: "valid_text s \<Longrightarrow> sanitize s = s"
  by (induction s rule: valid_text.induct) (simp_all add: valid_text.simps(2) sanitize.simps(2) Let_def del: take_Cons drop_Cons)

lemma hd_take_seq: "0 < n \<Longrightarrow> hd (take n (c # s)) = c"
  by (cases n) auto

lemma valid_sanitize: "CHR 0x00 \<notin> set s \<Longrightarrow> valid_text (sanitize s)"
proof (induction s rule: sanitize.induct)
  case 1
  then show ?case by simp
next
  case (2 c s)
  let ?n = "utf8_seq (c # s)"
  show ?case
  proof (cases "?n = 0")
    case True
    then show ?thesis
      using 2 utf8_replacement valid_text_seq [of replacement "sanitize s"]
      by (simp add: sanitize.simps(2) replacement_def)
  next
    case False
    have "CHR 0x00 \<notin> set (drop ?n (c # s))" using 2(3) by (metis in_set_dropD)
    then have "valid_text (sanitize (drop ?n (c # s)))" using 2(2) [OF refl False] by simp
    moreover have "utf8_seq (take ?n (c # s)) = length (take ?n (c # s))"
      using utf8_seq_take [of "c # s"] utf8_seq_le [of "c # s"] False by simp
    ultimately show ?thesis
      using False 2(3) valid_text_seq [of "take ?n (c # s)" "sanitize (drop ?n (c # s))"]
      by (auto simp: sanitize.simps(2) Let_def hd_take_seq simp del: take_Cons drop_Cons)
  qed
qed

subsection \<open>Strings survive escaping and parsing\<close>

lemma parse_ascii:
  "0x20 \<le> byte c \<Longrightarrow> byte c < 0x80 \<Longrightarrow> c \<noteq> CHR 0x22 \<Longrightarrow> c \<noteq> CHR 0x5C \<Longrightarrow>
   parse_string_loop out (c # s) = parse_string_loop (out @ [c]) s"
  by simp

lemma parse_seq:
  assumes "utf8_seq u = length u" "u \<noteq> []" "0x80 \<le> byte (hd u)"
  shows "parse_string_loop out (u @ s) = parse_string_loop (out @ u) s"
proof -
  obtain c u' where u: "u = c # u'" using assms(2) by (cases u) auto
  have n: "utf8_seq (u @ s) = length u" using assms by (simp add: utf8_seq_append)
  have c: "c \<noteq> CHR 0x22" "c \<noteq> CHR 0x5C" using assms(3) u by auto
  have "parse_string_loop out (u @ s) =
      parse_string_loop (out @ take (utf8_seq (u @ s)) (u @ s)) (drop (utf8_seq (u @ s)) (u @ s))"
    using c assms(2,3) n u by (simp add: Let_def)
  then show ?thesis using n by simp
qed

lemma push_bit_4_or: "d < 16 \<Longrightarrow> push_bit 4 v OR d = v * 16 + (d :: nat)"
proof -
  assume d: "d < 16"
  have "push_bit 4 v OR d = push_bit 4 v + d"
  proof (rule disjunctive_add [symmetric])
    fix n
    show "\<not> bit (push_bit 4 v) n \<or> \<not> bit d n"
    proof (cases "4 \<le> n")
      case True
      have "(2 :: nat) ^ 4 \<le> 2 ^ n" by (rule power_increasing) (use True in auto)
      then have "d < 2 ^ n" using d by simp
      then show ?thesis by (simp add: bit_iff_odd)
    next
      case False
      then show ?thesis by (simp add: bit_push_bit_iff)
    qed
  qed
  then show ?thesis by (simp add: push_bit_eq_mult)
qed

lemma hex_digits_Cons: "hex_digits v (c # s) = (case hex_digit c of None \<Rightarrow> None | Some d \<Rightarrow> hex_digits (v * 16 + d) s)"
  by (auto simp: push_bit_4_or hex_digit_lt split: option.split)

lemma hex_digit_char: "d < 16 \<Longrightarrow> hex_digit (hex_char d) = Some d"
  by (auto simp: hex_digit_def hex_char_def)

lemma hex4_control: "byte c < 0x20 \<Longrightarrow> hex4 (''00'' @ [hex_char (byte c div 16), hex_char (byte c mod 16)] @ s) = Some (byte c)"
  by (simp add: hex4_def hex_digits_Cons hex_digit_char del: hex_digits.simps(2))

lemma parse_u_escape:
  assumes "byte c < 0x20" "c \<noteq> CHR 0x00"
  shows "parse_string_loop out (u_escape c @ s) = parse_string_loop (out @ [c]) s"
proof -
  have n: "byte c \<noteq> 0" using assms(2) using byte_inject [of c "CHR 0x00"] by simp
  have "parse_u (''00'' @ [hex_char (byte c div 16), hex_char (byte c mod 16)] @ s) = Some ([c], s)"
    using hex4_control [OF assms(1), of s] n assms(1) by (simp add: parse_u_def u8_emit_def)
  then show ?thesis by (simp add: u_escape_def escape_value_def)
qed

lemma parse_short_escape:
  "short_escape c = Some e \<Longrightarrow> parse_string_loop out (CHR 0x5C # e # s) = parse_string_loop (out @ [c]) s"
  by (auto simp: short_escape_def escape_value_def split: if_splits)

text \<open>\<open>json_escape\<close> with room for everything.\<close>

function escape_text :: "string \<Rightarrow> string" where
  "escape_text [] = []"
| "escape_text (c # s) =
     (case short_escape c of
        Some e \<Rightarrow> CHR 0x5C # e # escape_text s
      | None \<Rightarrow>
          if byte c < 0x20 then u_escape c @ escape_text s
          else if byte c < 0x80 then c # escape_text s
          else (let len = utf8_seq (c # s) in
                if len = 0 then replacement @ escape_text s
                else take len (c # s) @ escape_text (drop len (c # s))))"
  by pat_completeness auto
termination by (relation "measure length") auto

declare escape_text.simps(2) [simp del]

lemma short_escape_ascii: "short_escape c = Some e \<Longrightarrow> byte c < 0x80"
  by (auto simp: short_escape_def split: if_splits)

lemma escape_none: "short_escape c = None \<Longrightarrow> c \<noteq> CHR 0x22 \<and> c \<noteq> CHR 0x5C"
  by (auto simp: short_escape_def split: if_splits)

lemma parse_escape_text:
  "CHR 0x00 \<notin> set s \<Longrightarrow> parse_string_loop out (escape_text s @ t) = parse_string_loop (out @ sanitize s) t"
proof (induction s arbitrary: out rule: escape_text.induct)
  case 1
  then show ?case by simp
next
  case (2 c s)
  have z: "CHR 0x00 \<notin> set s" "c \<noteq> CHR 0x00" using 2(6) by auto
  show ?case
  proof (cases "short_escape c")
    case (Some e)
    then show ?thesis
      using 2(5) [OF Some z(1)] parse_short_escape [OF Some] short_escape_ascii [OF Some]
      by (simp add: escape_text.simps(2) sanitize_ascii del: parse_string_loop.simps)
  next
    case None
    consider "byte c < 0x20" | "0x20 \<le> byte c" "byte c < 0x80" | "0x80 \<le> byte c" by linarith
    then show ?thesis
    proof cases
      case 1
      then show ?thesis
        using None 2(1) [OF None 1 z(1)] parse_u_escape [OF 1 z(2)]
        by (simp add: escape_text.simps(2) sanitize_ascii del: parse_string_loop.simps)
    next
      case b: 2
      then have "parse_string_loop out (c # escape_text s @ t) = parse_string_loop (out @ [c]) (escape_text s @ t)"
        using escape_none [OF None] by (intro parse_ascii) auto
      then show ?thesis
        using None b 2(2) [OF None _ b(2) z(1)]
        by (simp add: escape_text.simps(2) sanitize_ascii del: parse_string_loop.simps)
    next
      case b: 3
      let ?n = "utf8_seq (c # s)"
      have nb: "\<not> byte c < 0x20" "\<not> byte c < 0x80" using b by auto
      show ?thesis
      proof (cases "?n = 0")
        case True
        have "parse_string_loop out (replacement @ escape_text s @ t) = parse_string_loop (out @ replacement) (escape_text s @ t)"
          by (rule parse_seq) (simp_all add: utf8_replacement, simp add: replacement_def)
        then show ?thesis
          using None nb True 2(3) [OF None nb refl] z(1)
          by (simp add: escape_text.simps(2) sanitize.simps(2) del: parse_string_loop.simps)
      next
        case False
        let ?u = "take ?n (c # s)"
        have u: "utf8_seq ?u = length ?u" "?u \<noteq> []" "hd ?u = c"
          using utf8_seq_take [of "c # s"] utf8_seq_le [of "c # s"] False by (auto simp: hd_take_seq)
        have d: "CHR 0x00 \<notin> set (drop ?n (c # s))" using 2(6) by (metis in_set_dropD)
        have "parse_string_loop out (?u @ escape_text (drop ?n (c # s)) @ t) =
            parse_string_loop (out @ ?u) (escape_text (drop ?n (c # s)) @ t)"
          using u b by (intro parse_seq) auto
        then show ?thesis
          using None nb False 2(4) [OF None nb refl False d]
          by (simp add: escape_text.simps(2) sanitize.simps(2) Let_def del: parse_string_loop.simps take_Cons drop_Cons)
      qed
    qed
  qed
qed

lemma length_u_escape: "length (u_escape c) = 6"
  by (simp add: u_escape_def)

lemma escape_step_le: "s \<noteq> [] \<Longrightarrow> length (fst (escape_step cap m s)) \<le> 6 * snd (escape_step cap m s)"
  using length_u_escape by (auto simp: escape_step_def Let_def replacement_def split: option.splits)

lemma escape_step_text:
  assumes "m + 8 < cap"
  shows "fst (escape_step cap m (c # s)) @ escape_text (drop (snd (escape_step cap m (c # s))) (c # s)) =
    escape_text (c # s)"
proof -
  have "utf8_seq (c # s) \<le> 4"
    by (simp add: utf8_seq_def utf8_len_def Let_def)
  then show ?thesis
    using assms length_u_escape [of c]
    by (simp add: escape_step_def escape_text.simps(2) Let_def split: option.splits)
qed

lemma json_escape_loop_text:
  "length out + 6 * length s + 8 \<le> cap \<Longrightarrow> json_escape_loop cap out s = out @ escape_text s"
proof (induction cap out s rule: json_escape_loop.induct)
  case (1 cap out)
  then show ?case by simp
next
  case (2 cap out c s)
  let ?r = "escape_step cap (length out) (c # s)"
  have m: "length out + 8 < cap" using 2(2) by simp
  have l: "length (fst ?r) \<le> 6 * snd ?r" by (rule escape_step_le) simp
  have u: "snd ?r \<le> length (c # s)"
    using utf8_seq_le [of "c # s"] by (auto simp: escape_step_def Let_def split: option.splits)
  then have "length (out @ fst ?r) + 6 * length (drop (snd ?r) (c # s)) + 8 \<le> cap"
    using l 2(2) by simp
  then show ?case
    using 2(1) [OF m] escape_step_text [OF m, of c s]
    by (simp add: m case_prod_beta del: drop_Cons)
qed

lemma json_escape_text: "json_escape s (length s * 6 + 8) = escape_text s"
  by (simp add: json_escape_def json_escape_loop_text)

lemma json_escape_loop_le:
  "length out < cap \<Longrightarrow> length (json_escape_loop cap out s) < cap"
proof (induction cap out s rule: json_escape_loop.induct)
  case (1 cap out)
  then show ?case by simp
next
  case (2 cap out c s)
  let ?r = "escape_step cap (length out) (c # s)"
  have "utf8_seq (c # s) \<le> 4"
    by (simp add: utf8_seq_def utf8_len_def Let_def)
  then have "length (fst ?r) \<le> 6"
    using length_u_escape [of c]
    by (auto simp: escape_step_def Let_def replacement_def split: option.splits)
  then show ?case
    using 2 by (auto simp: case_prod_beta)
qed

subsection \<open>What the parser returns is well-formed text\<close>

lemma hex4_less: "hex4 p = Some v \<Longrightarrow> v < 0x10000"
proof -
  have *: "hex_digits a s = Some v \<Longrightarrow> v < (a + 1) * 16 ^ length s" for a s v
  proof (induction s arbitrary: a)
    case (Cons c s)
    then obtain d where d: "hex_digit c = Some d" "hex_digits (a * 16 + d) s = Some v"
      by (auto simp: hex_digits_Cons simp del: hex_digits.simps(2) split: option.splits)
    have "v < (a * 16 + d + 1) * 16 ^ length s" using Cons.IH [OF d(2)] .
    also have "\<dots> \<le> (a + 1) * 16 * 16 ^ length s"
      by (rule mult_le_mono1) (use hex_digit_lt [OF d(1)] in simp)
    finally show ?case by (simp only: mult.assoc list.size power_add power_one_right mult.commute [of 16] One_nat_def add.right_neutral) (simp add: algebra_simps)
  qed simp
  assume "hex4 p = Some v"
  then have "v < (0 + 1) * 16 ^ length (take 4 p)" unfolding hex4_def by (rule *)
  also have "\<dots> \<le> 16 ^ 4" using power_increasing [of "length (take 4 p)" 4 "16 :: nat"] by simp
  finally show ?thesis by simp
qed

lemma pair_cp:
  assumes "0xD800 \<le> cp" "cp \<le> 0xDBFF" "0xDC00 \<le> lo" "lo \<le> 0xDFFF"
  shows "0x10000 \<le> 0x10000 + push_bit 10 (cp - 0xD800) + (lo - 0xDC00) \<and>
    0x10000 + push_bit 10 (cp - 0xD800) + (lo - 0xDC00) < (0x110000 :: nat)"
  using assms by (simp add: push_bit_eq_mult)

lemma hd_u8_emit: "0 < cp \<Longrightarrow> cp < 0x110000 \<Longrightarrow> hd (u8_emit cp) \<noteq> CHR 0x00"
proof -
  assume a: "0 < cp" "cp < 0x110000"
  have "byte (hd (u8_emit cp)) \<noteq> 0"
  proof (cases "cp < 0x80")
    case True
    then show ?thesis using a by (simp add: u8_emit_def)
  next
    case False
    then show ?thesis using a
      by (cases "cp < 0x800"; cases "cp < 0x10000") (simp_all add: u8_emit_arith less_mult_imp_div_less div_le_mono)
  qed
  then show ?thesis by auto
qed

lemma parse_u_text:
  assumes "parse_u r = Some (u, r')"
  shows "utf8_seq u = length u \<and> u \<noteq> [] \<and> hd u \<noteq> CHR 0x00"
proof -
  obtain cp where u: "u = u8_emit cp" and cp: "0 < cp" "cp < 0x110000" "\<not> (0xD800 \<le> cp \<and> cp \<le> 0xDFFF)"
  proof -
    obtain c where c: "hex4 r = Some c" "c < 0x10000"
      using assms hex4_less [of r] by (auto simp: parse_u_def split: if_splits option.splits)
    show ?thesis
    proof (cases "0xD800 \<le> c \<and> c \<le> 0xDBFF")
      case True
      obtain lo where "0xDC00 \<le> lo" "lo \<le> 0xDFFF" "u = u8_emit (0x10000 + push_bit 10 (c - 0xD800) + (lo - 0xDC00))"
        using assms c(1) True unfolding parse_u_def
        by (auto simp: Let_def not_less split: if_splits option.splits)
      then show ?thesis using that pair_cp [of c lo] True by auto
    next
      case False
      then have "u = u8_emit c" "0 < c" "\<not> (0xD800 \<le> c \<and> c \<le> 0xDFFF)"
        using assms c unfolding parse_u_def by (auto simp: Let_def split: if_splits)
      then show ?thesis using that c by simp
    qed
  qed
  then show ?thesis using utf8_seq_emit [OF cp(2,3)] hd_u8_emit [OF cp(1,2)] by auto
qed

lemma parse_string_loop_text:
  "parse_string_loop out s = Some (t, r) \<Longrightarrow> \<exists>u. t = out @ u \<and> valid_text u \<and> length r < length s"
proof (induction s arbitrary: out rule: length_induct)
  case (1 s)
  have IH: "\<exists>u. t = out' @ u \<and> valid_text u \<and> length r < length s'"
    if "length s' < length s" "parse_string_loop out' s' = Some (t, r)" for s' out'
    using 1(1) that by blast
  obtain ch s0 where s: "s = ch # s0" using 1(2) by (cases s) auto
  consider (quote) "ch = CHR 0x22" | (esc) "ch = CHR 0x5C" | (ctl) "ch \<noteq> CHR 0x22" "ch \<noteq> CHR 0x5C" "byte ch < 0x20"
    | (ascii) "ch \<noteq> CHR 0x22" "ch \<noteq> CHR 0x5C" "0x20 \<le> byte ch" "byte ch < 0x80"
    | (multi) "ch \<noteq> CHR 0x22" "ch \<noteq> CHR 0x5C" "0x80 \<le> byte ch" by linarith
  then show ?case
  proof cases
    case quote
    then show ?thesis using 1(2) by (intro exI [of _ "[]"]) (simp add: s)
  next
    case esc
    then obtain e r1 where s0: "s0 = e # r1" using 1(2) by (cases s0) (auto simp: s)
    show ?thesis
    proof (cases "escape_value e")
      case (Some c)
      then have "parse_string_loop (out @ [c]) r1 = Some (t, r)" using 1(2) esc s s0 by simp
      then obtain u where "t = (out @ [c]) @ u" "valid_text u" "length r < length r1"
        using IH [of r1 "out @ [c]"] s s0 by auto
      moreover have "c \<noteq> CHR 0x00" "byte c < 0x80"
        using Some unfolding escape_value_def by (auto split: if_splits)
      ultimately show ?thesis using s s0 by (intro exI [of _ "c # u"]) (simp add: valid_text_ascii)
    next
      case None
      then obtain u r2 where p: "parse_u r1 = Some (u, r2)" "parse_string_loop (out @ u) r2 = Some (t, r)" "e = CHR ''u''"
        using 1(2) esc s s0 by (auto split: if_splits option.splits)
      then obtain w where "t = (out @ u) @ w" "valid_text w" "length r < length r2"
        using IH [of r2 "out @ u"] parse_u_shorter [OF p(1)] s s0 by auto
      then show ?thesis
        using s s0 parse_u_text [OF p(1)] parse_u_shorter [OF p(1)]
        by (intro exI [of _ "u @ w"]) (simp add: valid_text_seq)
    qed
  next
    case ctl
    then show ?thesis using 1(2) by (simp add: s)
  next
    case ascii
    then have "parse_string_loop (out @ [ch]) s0 = Some (t, r)" using 1(2) by (simp add: s)
    then obtain u where "t = (out @ [ch]) @ u" "valid_text u" "length r < length s0"
      using IH [of s0 "out @ [ch]"] s by auto
    then show ?thesis using ascii s by (intro exI [of _ "ch # u"]) (auto simp: valid_text_ascii)
  next
    case multi
    let ?n = "utf8_seq s"
    have n: "0 < ?n" and p: "parse_string_loop (out @ take ?n s) (drop ?n s) = Some (t, r)"
      using multi 1(2) by (auto simp: s Let_def simp del: take_Cons drop_Cons split: if_splits)
    obtain u where u: "t = (out @ take ?n s) @ u" "valid_text u" "length r < length (drop ?n s)"
      using IH [OF _ p] n s by auto
    have "utf8_seq (take ?n s) = length (take ?n s)" "take ?n s \<noteq> []"
      using utf8_seq_take [OF n] utf8_seq_le [of s] n s by auto
    moreover have "hd (take ?n s) \<noteq> CHR 0x00" using multi(3) n by (simp add: s hd_take_seq del: take_Cons) auto
    ultimately have "valid_text (take ?n s @ u)"
      using u(2) by (simp add: valid_text_seq)
    then show ?thesis using u(1,3) by (intro exI [of _ "take ?n s @ u"]) auto
  qed
qed

lemma parse_string_text:
  "parse_string s = Some (t, r) \<Longrightarrow> valid_text t \<and> length r < length s"
  by (auto simp: parse_string_def split: list.splits if_splits dest!: parse_string_loop_text)

subsection \<open>Well-formed values\<close>

definition double_num :: "rat \<Rightarrow> bool" where
  "double_num q \<longleftrightarrow> (\<exists>x. q = round_double x) \<and> - max_num < q \<and> q < max_num"

fun wf_jv :: "nat \<Rightarrow> jv \<Rightarrow> bool" where
  "wf_jv 0 v = False"
| "wf_jv (Suc k) v =
     (case v of
        JNum q \<Rightarrow> double_num q
      | JStr s \<Rightarrow> valid_text s
      | JArr vs \<Rightarrow> (\<forall>w \<in> set vs. wf_jv k w)
      | JObj ms \<Rightarrow> distinct (map fst ms) \<and> (\<forall>m \<in> set ms. valid_text (fst m) \<and> wf_jv k (snd m))
      | _ \<Rightarrow> True)"

lemma length_skip_ws: "length (skip_ws s) \<le> length s"
  unfolding skip_ws_def by (rule length_dropWhile_le)

lemma skip_ws_Cons: "skip_ws s = c # t \<Longrightarrow> length t < length s"
  using length_skip_ws [of s] by simp

text \<open>What a value parser one level down guarantees, and with it the loops.\<close>

definition parses :: "nat \<Rightarrow> (string \<Rightarrow> (jv \<times> string) option) \<Rightarrow> bool" where
  "parses k pv \<longleftrightarrow> (\<forall>s v r. pv s = Some (v, r) \<longrightarrow> wf_jv k v \<and> length r < length s)"

lemma parsesD: "parses k pv \<Longrightarrow> pv s = Some (v, r) \<Longrightarrow> wf_jv k v \<and> length r < length s"
  by (simp add: parses_def)

lemma parse_key_spec:
  assumes "parse_key keys s = Some (key, keys', r)" "ks_inv keys"
  shows "valid_text key \<and> key \<notin> ks_abs keys \<and> ks_inv keys' \<and> ks_abs keys' = insert key (ks_abs keys) \<and>
    length r < length s"
proof -
  obtain s1 where p: "parse_string (skip_ws s) = Some (key, s1)"
    and i: "keyset_insert keys key = (1, keys')" and r: "skip_ws s1 = CHR '':'' # r"
    using assms(1) by (auto simp: parse_key_def split: option.splits prod.splits if_splits list.splits)
  have "length r < length s"
    using parse_string_text [OF p] skip_ws_Cons [OF r] length_skip_ws [of s] by simp
  then show ?thesis
    using parse_string_text [OF p] kt.ins_accepts [OF assms(2) i] kt.ins_result [OF assms(2) i] by simp
qed

lemma parse_members_spec:
  "parse_members f pv keys acc s = Some (v, r) \<Longrightarrow> parses k pv \<Longrightarrow> ks_inv keys \<Longrightarrow>
   wf_jv (Suc k) (JObj acc) \<Longrightarrow> ks_abs keys = set (map fst acc) \<Longrightarrow>
   wf_jv (Suc k) v \<and> length r < length s"
proof (induction f pv keys acc s rule: parse_members.induct)
  case (1 pv keys acc s)
  then show ?case by simp
next
  case (2 f pv keys acc s)
  obtain key keys1 s1 where k: "parse_key keys s = Some (key, keys1, s1)"
    using 2(2) by (auto split: option.splits)
  obtain item s2 where i: "pv s1 = Some (item, s2)"
    using 2(2) k by (auto split: option.splits)
  obtain c s3 where c: "skip_ws s2 = c # s3"
    using 2(2) k i by (auto split: list.splits)
  have K: "valid_text key" "key \<notin> ks_abs keys" "ks_inv keys1" "ks_abs keys1 = insert key (ks_abs keys)"
    "length s1 < length s"
    using parse_key_spec [OF k 2(4)] by auto
  have I: "wf_jv k item" "length s2 < length s1" using parsesD [OF 2(3) i] by auto
  have l: "length s3 < length s" using skip_ws_Cons [OF c] I K by simp
  have w: "wf_jv (Suc k) (JObj (acc @ [(key, item)]))"
    using 2(5,6) K I by auto
  have a: "ks_abs keys1 = set (map fst (acc @ [(key, item)]))" using 2(6) K by simp
  show ?case
  proof (cases "c = CHR '',''")
    case True
    then have p: "parse_members f pv keys1 (acc @ [(key, item)]) s3 = Some (v, r)" using 2(2) k i c by simp
    show ?thesis
      using 2(1) [OF k refl refl i refl c True p 2(3) K(3) w a] l by simp
  next
    case False
    then show ?thesis using 2(2) k i c w l by (auto split: if_splits)
  qed
qed

lemma parse_items_spec:
  "parse_items f pv acc s = Some (v, r) \<Longrightarrow> parses k pv \<Longrightarrow> \<forall>w \<in> set acc. wf_jv k w \<Longrightarrow>
   wf_jv (Suc k) v \<and> length r < length s"
proof (induction f pv acc s rule: parse_items.induct)
  case (1 pv acc s)
  then show ?case by simp
next
  case (2 f pv acc s)
  obtain item s2 where i: "pv s = Some (item, s2)"
    using 2(2) by (auto split: option.splits)
  obtain c s3 where c: "skip_ws s2 = c # s3"
    using 2(2) i by (auto split: list.splits)
  have I: "wf_jv k item" "length s2 < length s" using parsesD [OF 2(3) i] by auto
  have l: "length s3 < length s" using skip_ws_Cons [OF c] I by simp
  have w: "\<forall>w \<in> set (acc @ [item]). wf_jv k w" using 2(4) I by simp
  show ?case
  proof (cases "c = CHR '',''")
    case True
    then have p: "parse_items f pv (acc @ [item]) s3 = Some (v, r)" using 2(2) i c by simp
    show ?thesis using 2(1) [OF i refl c True p 2(3) w] l by simp
  next
    case False
    then show ?thesis using 2(2) i c w l by (auto split: if_splits)
  qed
qed

lemma ks_inv_empty [simp]: "ks_inv keyset_empty" "ks_abs keyset_empty = {}"
  by (rule kt.nil_ok, rule kt.nil_keys)

lemma parse_container_spec:
  assumes "parses k pv" "parse_container pv s = Some (v, r)" "s \<noteq> []"
  shows "wf_jv (Suc k) v \<and> length r < length s"
proof -
  let ?s1 = "skip_ws (tl s)"
  have l: "length ?s1 < length s" using length_skip_ws [of "tl s"] assms(3) by (cases s) auto
  consider (empty) "v = JObj [] \<or> v = JArr []" "r = tl ?s1"
    | (obj) "parse_members (length s) pv keyset_empty [] ?s1 = Some (v, r)"
    | (arr) "parse_items (length s) pv [] ?s1 = Some (v, r)"
    using assms(2) by (auto simp: parse_container_def Let_def split: if_splits)
  then show ?thesis
  proof cases
    case empty
    then show ?thesis using l by auto
  next
    case obj
    then show ?thesis using parse_members_spec [OF obj assms(1)] l by simp
  next
    case arr
    then show ?thesis using parse_items_spec [OF arr assms(1)] l by simp
  qed
qed

lemma some_digits_le: "some_digits p = Some q \<Longrightarrow> length q < length p"
  by (cases p) (auto simp: some_digits_def le_imp_less_Suc length_dropWhile_le split: if_splits)

lemma scan_int_le: "scan_int p = Some q \<Longrightarrow> length q < length p"
  by (auto simp: scan_int_def le_imp_less_Suc length_dropWhile_le split: if_splits list.splits)

lemma scan_frac_le: "scan_frac p = Some q \<Longrightarrow> length q \<le> length p"
  by (cases p) (auto simp: scan_frac_def dest: some_digits_le split: if_splits)

lemma scan_exp_le:
  assumes "scan_exp p = Some q"
  shows "length q \<le> length p"
proof -
  define u where "u = (if tl p \<noteq> [] \<and> (hd (tl p) = CHR ''+'' \<or> hd (tl p) = CHR ''-'') then tl (tl p) else tl p)"
  have "length u \<le> length p" by (simp add: u_def)
  then show ?thesis
    using assms some_digits_le [of u q] unfolding scan_exp_def u_def [symmetric] Let_def
    by (auto split: if_splits)
qed

lemma scan_number_le: "scan_number s = Some q \<Longrightarrow> length q < length s"
  by (cases s) (fastforce simp: scan_number_def dest: scan_int_le scan_frac_le scan_exp_le split: option.splits if_splits)+

lemma parse_number_spec: "parse_number s = Some (v, r) \<Longrightarrow> wf_jv (Suc k) v \<and> length r < length s"
  by (auto simp: parse_number_def Let_def double_num_def dest: scan_number_le split: option.splits if_splits)

lemma parses_value: "parses k (parse_value k)"
proof (induction k)
  case 0
  then show ?case by (simp add: parses_def)
next
  case (Suc k)
  show ?case
    unfolding parses_def
  proof (intro allI impI)
    fix s0 v r
    assume p: "parse_value (Suc k) s0 = Some (v, r)"
    obtain ch t where s: "skip_ws s0 = ch # t"
      using p by (auto simp: Let_def split: list.splits)
    have l: "length (ch # t) \<le> length s0" using length_skip_ws [of s0] s by simp
    consider (cont) "parse_container (parse_value k) (ch # t) = Some (v, r)"
      | (str) u where "parse_string (ch # t) = Some (u, r)" "v = JStr u"
      | (lit) "v = JBool True \<or> v = JBool False \<or> v = JNull" "r = drop 4 (ch # t) \<or> r = drop 5 (ch # t)"
      | (num) "parse_number (ch # t) = Some (v, r)"
      using p s by (auto simp: Let_def simp del: drop_Cons take_Cons split: if_splits option.splits)
    then have "wf_jv (Suc k) v \<and> length r < length (ch # t)"
    proof cases
      case cont
      then show ?thesis using parse_container_spec [OF Suc cont] by simp
    next
      case str
      then show ?thesis using parse_string_text [OF str(1)] by simp
    next
      case lit
      then show ?thesis by auto
    next
      case num
      then show ?thesis by (rule parse_number_spec)
    qed
    then show "wf_jv (Suc k) v \<and> length r < length s0" using l by simp
  qed
qed

subsection \<open>The fuel of the member loops\<close>

lemma parse_members_fuel:
  "parses k pv \<Longrightarrow> ks_inv keys \<Longrightarrow> length s \<le> f \<Longrightarrow> length s \<le> f' \<Longrightarrow>
   parse_members f pv keys acc s = parse_members f' pv keys acc s"
proof (induction f arbitrary: f' keys acc s)
  case 0
  then have "parse_members f' pv keys acc [] = None"
    by (cases f') (auto simp: parse_key_def skip_ws_def parse_string_def)
  then show ?case using 0 by simp
next
  case (Suc f)
  show ?case
  proof (cases "parse_key keys s")
    case None
    then show ?thesis by (cases f') auto
  next
    case (Some a)
    then obtain key keys1 s1 where k: "parse_key keys s = Some (key, keys1, s1)" by (cases a) auto
    have K: "ks_inv keys1" "length s1 < length s" using parse_key_spec [OF k Suc.prems(2)] by auto
    then obtain g where f': "f' = Suc g" using Suc.prems(4) by (cases f') auto
    have "parse_members f pv keys1 (acc @ [(key, item)]) s3 = parse_members g pv keys1 (acc @ [(key, item)]) s3"
      if "pv s1 = Some (item, s2)" "skip_ws s2 = c # s3" for item s2 c s3
      using Suc.prems(1,3,4) parsesD [OF Suc.prems(1) that(1)] skip_ws_Cons [OF that(2)] K f'
      by (intro Suc.IH) auto
    then show ?thesis using k f' by (auto split: option.splits list.splits)
  qed
qed

lemma parse_items_fuel:
  "parses k pv \<Longrightarrow> length s \<le> f \<Longrightarrow> length s \<le> f' \<Longrightarrow> 
   parse_items (Suc f) pv acc s = parse_items (Suc f') pv acc s"
proof (induction f arbitrary: f' acc s)
  case 0
  have "pv [] = None" using parsesD [OF 0(1), of "[]"] by (cases "pv []") auto
  then show ?case using 0 by simp
next
  case (Suc f)
  show ?case
  proof (cases "pv s")
    case None
    then show ?thesis by simp
  next
    case (Some a)
    then obtain item s2 where i: "pv s = Some (item, s2)" by (cases a) auto
    have l: "length s2 < length s" using parsesD [OF Suc.prems(1) i] by simp
    then obtain g where f': "f' = Suc g" using Suc.prems(3) by (cases f') auto
    have "parse_items (Suc f) pv (acc @ [item]) s3 = parse_items (Suc g) pv (acc @ [item]) s3"
      if "skip_ws s2 = c # s3" for c s3
      using Suc.prems l skip_ws_Cons [OF that] f' by (intro Suc.IH) auto
    then show ?thesis unfolding f' using i by (auto simp del: parse_items.simps simp: parse_items.simps(2) split: list.splits)
  qed
qed

subsection \<open>The string builder\<close>

text \<open>No allocator hands out more than \<open>2 ^ 62\<close> bytes; the wrap-around of \<open>size_t\<close> in
  \<open>sb_put\<close> is out of reach then.\<close>

definition mem_ok :: "(nat \<Rightarrow> bool) \<Rightarrow> bool" where
  "mem_ok al \<longleftrightarrow> (\<forall>n. al n \<longrightarrow> n \<le> 2 ^ 62)"

definition sb_inv :: "sbuf \<Rightarrow> bool" where
  "sb_inv b \<longleftrightarrow> (length (b_s b) < b_cap b \<or> b_s b = [] \<and> b_cap b = 0) \<and> b_cap b \<le> 2 ^ 62"

definition appends :: "sbuf \<Rightarrow> string \<Rightarrow> sbuf \<Rightarrow> bool" where
  "appends b s b' \<longleftrightarrow> sb_inv b' \<and> (\<not> b_failed b' \<longrightarrow> \<not> b_failed b \<and> b_s b' = b_s b @ s)"

lemma wrap64_small: "0 \<le> x \<Longrightarrow> x < 2 ^ 64 \<Longrightarrow> wrap64 x = nat x"
  by (simp add: wrap64_def)

lemma sb_put_appends:
  assumes "mem_ok al" "sb_inv b" "length s \<le> 2 ^ 62"
  shows "appends b s (sb_put al s b)"
proof (cases "b_failed b")
  case True
  then show ?thesis using assms(2) by (simp add: sb_put_def appends_def)
next
  case False
  let ?n = "length s" and ?bn = "length (b_s b)"
  have bn: "?bn \<le> 2 ^ 62" using assms(2) by (auto simp: sb_inv_def)
  have w: "wrap64 (int ?bn + int ?n + 1) = ?bn + ?n + 1"
    using bn assms(3) by (subst wrap64_small) auto
  have w2: "wrap64 ((int ?bn + int ?n + 1) * 2 + 256) = (?bn + ?n + 1) * 2 + 256" if "?bn + ?n + 257 \<le> 2 ^ 63"
    using that by (subst wrap64_small) auto
  have w3: "wrap64 (int (SIZE_MAX div 2) - int ?bn - 256) = 2 ^ 63 - 1 - ?bn - 256"
    using bn by (subst wrap64_small) (auto simp: SIZE_MAX_def)
  show ?thesis
  proof (cases "b_cap b < ?bn + ?n + 1")
    case True
    show ?thesis
    proof (cases "2 ^ 63 - 1 - ?bn - 256 < ?n")
      case big: True
      then show ?thesis using False True assms(2) w w3 by (simp add: sb_put_def appends_def sb_inv_def)
    next
      case small: False
      then have "?bn + ?n + 257 \<le> 2 ^ 63" using bn by simp
      note w2 = w2 [OF this]
      show ?thesis
      proof (cases "al ((?bn + ?n + 1) * 2 + 256)")
        case a: True
        then have "(?bn + ?n + 1) * 2 + 256 \<le> 2 ^ 62" using assms(1) by (auto simp: mem_ok_def)
        then show ?thesis using False True small a w w2 w3
          by (simp add: sb_put_def appends_def sb_inv_def)
      next
        case a: False
        then show ?thesis using False True small assms(2) w w2 w3
          by (simp add: sb_put_def appends_def sb_inv_def)
      qed
    qed
  next
    case fits: False
    then show ?thesis using False assms(2) w by (auto simp: sb_put_def appends_def sb_inv_def)
  qed
qed

lemma appends_failed: "sb_inv b \<Longrightarrow> b_failed b \<Longrightarrow> appends b s b"
  by (simp add: appends_def)

lemma appends_trans: "appends b s b1 \<Longrightarrow> appends b1 t b2 \<Longrightarrow> appends b (s @ t) b2"
  by (simp add: appends_def)

lemma appends_refl: "sb_inv b \<Longrightarrow> appends b [] b"
  by (simp add: appends_def)

lemma appends_inv: "appends b s b' \<Longrightarrow> sb_inv b'"
  by (simp add: appends_def)

lemma appends_latch: "sb_inv b \<Longrightarrow> appends b s (b\<lparr>b_failed := True\<rparr>)"
  by (simp add: appends_def sb_inv_def)

lemma sb_fmt_appends:
  assumes "mem_ok al" "sb_inv b"
  shows "appends b s (sb_fmt al s b)"
proof -
  have "al (length s + 1) \<Longrightarrow> length s \<le> 2 ^ 62"
    using assms(1) by (auto simp: mem_ok_def dest: spec [of _ "length s + 1"])
  then show ?thesis
    using assms sb_put_appends [OF assms, of s] appends_failed appends_latch by (auto simp: sb_fmt_def)
qed

lemma sb_esc_appends:
  assumes "mem_ok al" "sb_inv b"
  shows "appends b (escape_text s) (sb_esc al s b)"
proof -
  have "length (escape_text s) < length s * 6 + 8"
    unfolding json_escape_text [symmetric] json_escape_def by (rule json_escape_loop_le) simp
  moreover have "al (length s * 6 + 8) \<Longrightarrow> length s * 6 + 8 \<le> 2 ^ 62"
    using assms(1) by (simp add: mem_ok_def)
  ultimately have "al (length s * 6 + 8) \<Longrightarrow> length (escape_text s) \<le> 2 ^ 62" by linarith
  then show ?thesis
    using assms sb_put_appends [OF assms, of "escape_text s"] appends_failed appends_latch
    by (auto simp: sb_esc_def json_escape_text Let_def)
qed

subsection \<open>The text of a value\<close>

fun text_value :: "string \<Rightarrow> string \<Rightarrow> jv \<Rightarrow> string"
  and text_items :: "string \<Rightarrow> string \<Rightarrow> bool \<Rightarrow> jv list \<Rightarrow> string"
  and text_members :: "string \<Rightarrow> string \<Rightarrow> bool \<Rightarrow> (string \<times> jv) list \<Rightarrow> string" where
  "text_value comma colon JNull = ''null''"
| "text_value comma colon (JBool b) = (if b then ''true'' else ''false'')"
| "text_value comma colon (JNum q) = num_text q"
| "text_value comma colon (JStr s) = CHR 0x22 # escape_text s @ [CHR 0x22]"
| "text_value comma colon (JArr vs) = CHR ''['' # text_items comma colon False vs @ '']''"
| "text_value comma colon (JObj ms) = CHR ''{'' # text_members comma colon False ms @ ''}''"
| "text_items comma colon i [] = []"
| "text_items comma colon i (v # vs) =
     (if i then comma else []) @ text_value comma colon v @ text_items comma colon True vs"
| "text_members comma colon i [] = []"
| "text_members comma colon i ((k, v) # ms) =
     (if i then comma else []) @ CHR 0x22 # escape_text k @ CHR 0x22 # colon @
     text_value comma colon v @ text_members comma colon True ms"

lemma put_lit: "mem_ok al \<Longrightarrow> sb_inv b \<Longrightarrow> length s \<le> 4095 \<Longrightarrow> appends b s (sb_put al s b)"
  by (rule sb_put_appends) auto

lemma put_after:
  "appends b s b1 \<Longrightarrow> mem_ok al \<Longrightarrow> length t \<le> 4095 \<Longrightarrow> appends b (s @ t) (sb_put al t b1)"
  by (rule appends_trans, assumption) (rule put_lit, auto simp: appends_inv)

lemma esc_after: "appends b s b1 \<Longrightarrow> mem_ok al \<Longrightarrow> appends b (s @ escape_text t) (sb_esc al t b1)"
  by (rule appends_trans, assumption) (rule sb_esc_appends, auto simp: appends_inv)

lemma maybe_comma:
  "mem_ok al \<Longrightarrow> sb_inv b \<Longrightarrow> length comma \<le> 4095 \<Longrightarrow>
   appends b (if i then comma else []) (if i then sb_put al comma b else b)"
  by (auto intro: put_lit appends_refl)

lemma dump_appends:
  assumes "mem_ok al" "length comma \<le> 4095" "length colon \<le> 4095"
  shows "sb_inv b \<Longrightarrow> appends b (text_value comma colon v) (jv_dump_sep al comma colon v b)"
    and "sb_inv b1 \<Longrightarrow> appends b1 (text_items comma colon i vs) (dump_items al comma colon i vs b1)"
    and "sb_inv b2 \<Longrightarrow> appends b2 (text_members comma colon j ms) (dump_members al comma colon j ms b2)"
  using assms
proof (induction al comma colon v b and al comma colon i vs b1 and al comma colon j ms b2
    rule: jv_dump_sep_dump_items_dump_members.induct)
  case (3 al comma colon q o1)
  then show ?case by (simp add: sb_fmt_appends)
next
  case (4 al comma colon s o1)
  have "appends o1 (([CHR 0x22] @ escape_text s) @ [CHR 0x22])
      (sb_put al [CHR 0x22] (sb_esc al s (sb_put al [CHR 0x22] o1)))"
    using 4 by (intro put_after esc_after put_lit) auto
  then show ?case by simp
next
  case (5 al comma colon vs o1)
  have p: "appends o1 ''['' (sb_put al ''['' o1)" using 5 by (intro put_lit) auto
  have "appends o1 ((''['' @ text_items comma colon False vs) @ '']'')
      (sb_put al '']'' (dump_items al comma colon False vs (sb_put al ''['' o1)))"
    using 5 appends_inv [OF p] by (intro put_after appends_trans [OF p]) auto
  then show ?case by simp
next
  case (6 al comma colon ms o1)
  have p: "appends o1 ''{'' (sb_put al ''{'' o1)" using 6 by (intro put_lit) auto
  have "appends o1 ((''{'' @ text_members comma colon False ms) @ ''}'')
      (sb_put al ''}'' (dump_members al comma colon False ms (sb_put al ''{'' o1)))"
    using 6 appends_inv [OF p] by (intro put_after appends_trans [OF p]) auto
  then show ?case by simp
next
  case (8 al comma colon i v vs o1)
  let ?b = "if i then sb_put al comma o1 else o1"
  have p: "appends o1 (if i then comma else []) ?b" using 8 by (intro maybe_comma)
  have q: "appends o1 ((if i then comma else []) @ text_value comma colon v) (jv_dump_sep al comma colon v ?b)"
    using 8 appends_inv [OF p] by (intro appends_trans [OF p]) auto
  have "appends o1 (((if i then comma else []) @ text_value comma colon v) @ text_items comma colon True vs)
      (dump_items al comma colon True vs (jv_dump_sep al comma colon v ?b))"
    using 8 appends_inv [OF q] by (intro appends_trans [OF q]) auto
  then show ?case by (simp only: dump_items.simps text_items.simps append_assoc)
next
  case (10 al comma colon i k v ms o1)
  let ?b = "if i then sb_put al comma o1 else o1"
  let ?c = "sb_put al colon (sb_put al [CHR 0x22] (sb_esc al k (sb_put al [CHR 0x22] ?b)))"
  have p: "appends o1 (((((if i then comma else []) @ [CHR 0x22]) @ escape_text k) @ [CHR 0x22]) @ colon) ?c"
    using 10 by (intro put_after esc_after maybe_comma) auto
  have q: "appends o1 ((((((if i then comma else []) @ [CHR 0x22]) @ escape_text k) @ [CHR 0x22]) @ colon) @
      text_value comma colon v) (jv_dump_sep al comma colon v ?c)"
    using 10 appends_inv [OF p] by (intro appends_trans [OF p]) auto
  have "appends o1 (((((((if i then comma else []) @ [CHR 0x22]) @ escape_text k) @ [CHR 0x22]) @ colon) @
      text_value comma colon v) @ text_members comma colon True ms)
      (dump_members al comma colon True ms (jv_dump_sep al comma colon v ?c))"
    using 10 appends_inv [OF q] by (intro appends_trans [OF q]) auto
  then show ?case by (simp only: dump_members.simps text_members.simps append_assoc append_Cons append_Nil)
qed (auto intro: put_lit appends_refl)

subsection \<open>Integers survive printing and parsing\<close>

lemma char_of_48: "char_of (48 :: nat) = CHR ''0''"
  by (rule char_of_byte_eq [symmetric]) simp

lemma is_digit_char: "(n :: nat) < 10 \<Longrightarrow> is_digit (char_of (48 + n))"
  by (simp add: is_digit_def)

lemma nat_str_digits: "list_all is_digit (nat_str n)"
  by (induction n rule: nat_str.induct) (auto simp: nat_str.simps [of n for n] is_digit_char)

lemma nat_str_nonempty: "nat_str n \<noteq> []"
  by (simp add: nat_str.simps [of n])

lemma nat_str_head: "0 < n \<Longrightarrow> digit19 (hd (nat_str n))"
proof (induction n rule: nat_str.induct)
  case (1 n)
  then show ?case
    by (cases "n < 10") (auto simp: nat_str.simps [of n] nat_str_nonempty digit19_def hd_append)
qed

lemma dec_digits_snoc: "dec_digits (s @ [c]) = dec_digits s * 10 + (byte c - 48)"
  by (simp add: dec_digits_def)

lemma dec_digits_nat_str: "dec_digits (nat_str n) = n"
proof (induction n rule: nat_str.induct)
  case (1 n)
  show ?case
  proof (cases "n < 10")
    case True
    then show ?thesis by (simp add: nat_str.simps [of n] dec_digits_def)
  next
    case False
    then show ?thesis using 1 [OF False] by (simp add: nat_str.simps [of n] dec_digits_snoc)
  qed
qed

text \<open>What may follow a value: nothing, a comma or a closer.\<close>

definition ends :: "string \<Rightarrow> bool" where
  "ends t \<longleftrightarrow> t = [] \<or> hd t \<in> {CHR '','', CHR '']'', CHR ''}''}"

lemma ends_not_digit: "ends t \<Longrightarrow> t = [] \<or> \<not> is_digit (hd t) \<and> hd t \<noteq> CHR ''.'' \<and> hd t \<noteq> CHR ''e'' \<and> hd t \<noteq> CHR ''E''"
  by (auto simp: ends_def is_digit_def)

lemma dropWhile_digits: "list_all is_digit s \<Longrightarrow> ends t \<Longrightarrow> dropWhile is_digit (s @ t) = t"
  using ends_not_digit [of t] by (cases t) (auto simp: list_all_iff dropWhile_append2)

lemma scan_nat: 
  assumes "ends t"
  shows "scan_int (nat_str n @ t) = Some t"
proof (cases "n = 0")
  case True
  then show ?thesis using ends_not_digit [OF assms] by (cases t) (auto simp: nat_str.simps scan_int_def char_of_48)
next
  case False
  obtain c r where c: "nat_str n = c # r" using nat_str_nonempty by (cases "nat_str n") auto
  have "digit19 c" "list_all is_digit r"
    using nat_str_head [of n] nat_str_digits [of n] False c by auto
  moreover have "c \<noteq> CHR ''0''" using \<open>digit19 c\<close> by (auto simp: digit19_def)
  ultimately show ?thesis using dropWhile_digits [OF _ assms, of r] by (simp add: c scan_int_def)
qed

lemma scan_rest: "ends t \<Longrightarrow> scan_frac t = Some t \<and> scan_exp t = Some t"
  using ends_not_digit [of t] by (auto simp: scan_frac_def scan_exp_def)

lemma nat_str_hd_digit: "is_digit (hd (nat_str n))"
  using nat_str_digits [of n] nat_str_nonempty [of n] by (cases "nat_str n") auto

lemma hd_nat_str_append: "hd (nat_str n @ t) = hd (nat_str n)"
  using nat_str_nonempty by (simp add: hd_append)

lemma digit_not_minus: "is_digit c \<Longrightarrow> c \<noteq> CHR ''-''"
  by (auto simp: is_digit_def)

lemma scan_lld: "ends t \<Longrightarrow> scan_number (fmt_lld i @ t) = Some t"
  using digit_not_minus [OF nat_str_hd_digit [of "nat i"]]
  by (simp add: scan_number_def fmt_lld_def scan_nat scan_rest hd_nat_str_append nat_str_nonempty)

lemma takeWhile_nat_str: "takeWhile is_digit (nat_str n) = nat_str n" "dropWhile is_digit (nat_str n) = []"
  using nat_str_digits [of n] by (auto simp: takeWhile_eq_all_conv list_all_iff)

lemma dec_value_lld: "dec_value (fmt_lld i) = of_int i"
  using digit_not_minus [OF nat_str_hd_digit [of "nat i"]]
  by (simp add: dec_value_def fmt_lld_def takeWhile_nat_str nat_str_nonempty dec_digits_nat_str dec_exponent_def pow10_def Let_def)

subsection \<open>Integers are exact below \<open>2 ^ 53\<close>\<close>

lemma round_even_of_int [simp]: "round_even (of_int n) = n"
  by (simp add: round_even_def Let_def)

lemma round_even_ge: "of_int n \<le> q \<Longrightarrow> n \<le> round_even q"
  by (auto simp: round_even_def Let_def le_floor_iff intro: le_SucI) (simp_all add: le_floor_iff [symmetric])

lemma floorlog_small: "0 < n \<Longrightarrow> n < 2 ^ k \<Longrightarrow> floorlog 2 n \<le> k"
  by (simp add: floorlog_leI)

lemma ilog2_int:
  assumes "0 < i" "i < 2 ^ k"
  shows "ilog2 (of_int i) \<le> int k - 1"
proof -
  have "floorlog 2 (nat i) \<le> k" using assms by (intro floorlog_small) (auto simp: nat_less_iff)
  moreover have "floorlog 2 1 = 1" by (simp add: floorlog_def)
  ultimately show ?thesis by (auto simp: ilog2_def quotient_of_int Let_def)
qed

lemma pow2_neg: "e \<le> 0 \<Longrightarrow> pow2 e = 1 / of_int (2 ^ nat (- e))"
  by (auto simp: pow2_def)

lemma round_double_int:
  assumes "\<bar>i\<bar> < 2 ^ 53"
  shows "round_double (of_int i) = of_int i"
proof -
  let ?e = "ulp_exp (of_int i)"
  have "?e \<le> 0"
  proof (cases "i = 0")
    case False
    then show ?thesis using ilog2_int [of "\<bar>i\<bar>" 53] assms by (simp add: ulp_exp_def flip: of_int_abs)
  qed (simp add: ulp_exp_def)
  then have p: "pow2 ?e = 1 / of_int (2 ^ nat (- ?e))" by (rule pow2_neg)
  have "(of_int i :: rat) / pow2 ?e = of_int (i * 2 ^ nat (- ?e))" by (simp add: p)
  then have "round_even (of_int i / pow2 ?e) = i * 2 ^ nat (- ?e)" by (simp only: round_even_of_int)
  then show ?thesis by (simp add: round_double_def p)
qed

lemma pow2_le: "e \<le> int k \<Longrightarrow> pow2 e \<le> 2 ^ k"
proof (cases "0 \<le> e")
  case True
  moreover assume "e \<le> int k"
  ultimately have "nat e \<le> k" by simp
  then show ?thesis using True by (simp add: pow2_def power_increasing)
next
  case False
  then have "pow2 e \<le> 1" by (auto simp: pow2_def divide_le_eq)
  also have "(1 :: rat) \<le> 2 ^ k" by simp
  finally show ?thesis .
qed

lemma pow2_pos: "0 < pow2 e"
  by (simp add: pow2_def)

lemma round_double_lower:
  assumes "0 < n" "n < 2 ^ (k + 53)" "2 ^ k + b < n"
  shows "of_int b < round_double (of_int n)"
proof -
  define q p where "q = (of_int n :: rat)" and "p = pow2 (ulp_exp (of_int n))"
  have "ilog2 (of_int n) \<le> int (k + 53) - 1" by (rule ilog2_int [OF assms(1,2)])
  then have "ulp_exp (of_int n) \<le> int k" using assms(1) by (simp add: ulp_exp_def)
  then have p: "0 < p" "p \<le> 2 ^ k" using pow2_pos pow2_le by (simp_all add: p_def)
  have "q / p - 1 < of_int \<lfloor>q / p\<rfloor>" by linarith
  then have "(q / p - 1) * p < of_int \<lfloor>q / p\<rfloor> * p" using p(1) by simp
  moreover have "(q / p - 1) * p = q - p" using p(1) by (simp add: field_simps)
  moreover have "of_int b < q - p"
  proof -
    have "of_int (2 ^ k + b) < q" unfolding q_def using assms(3) by (simp only: of_int_less_iff)
    then show ?thesis using p(2) by simp
  qed
  ultimately have "of_int b < of_int \<lfloor>q / p\<rfloor> * p" by linarith
  also have "\<dots> \<le> of_int (round_even (q / p)) * p"
    using p(1) round_even_ge [of "\<lfloor>q / p\<rfloor>" "q / p"] by simp
  finally show ?thesis by (simp add: round_double_def p_def q_def)
qed

lemma max_num_big: "2 ^ 63 < max_num"
proof -
  have "of_int (2 ^ 63) < round_double (of_int (17 * 10 ^ 307))"
    by (rule round_double_lower [where k = 971]) simp_all
  then show ?thesis by (simp only: max_num_def of_int_mult of_int_power of_int_numeral)
qed

text \<open>The numbers that survive \<open>%lld\<close> and \<open>strtod\<close>: integers of \<open>long long\<close> range that are
  doubles.\<close>

definition exact_int :: "rat \<Rightarrow> bool" where
  "exact_int q \<longleftrightarrow> - (2 ^ 63) \<le> q \<and> q < 2 ^ 63 \<and> q = of_int \<lfloor>q\<rfloor> \<and> round_double q = q"

lemma exact_int_small: "\<bar>i\<bar> < 2 ^ 53 \<Longrightarrow> exact_int (of_int i)"
proof -
  assume a: "\<bar>i\<bar> < 2 ^ 53"
  then have "- (2 ^ 63) \<le> i" "i < 2 ^ 63" by auto
  then have "(of_int (- (2 ^ 63)) :: rat) \<le> of_int i" "(of_int i :: rat) < of_int (2 ^ 63)"
    by (simp_all only: of_int_le_iff of_int_less_iff)
  then show ?thesis using a by (simp add: exact_int_def round_double_int)
qed

lemma big_bound: "exact_int q \<Longrightarrow> \<bar>q\<bar> < pow2 1024 \<and> - max_num < q \<and> q < max_num"
proof -
  assume a: "exact_int q"
  have "(2 :: rat) ^ 63 < pow2 1024" by (simp add: pow2_def)
  then show ?thesis using a max_num_big by (auto simp: exact_int_def abs_less_iff)
qed

lemma parse_num_text:
  assumes "exact_int q" "ends t"
  shows "parse_number (num_text q @ t) = Some (JNum q, t)"
proof -
  obtain i where i: "q = of_int i" using assms(1) by (auto simp: exact_int_def)
  have n: "num_text q = fmt_lld i" using assms(1) by (simp add: num_text_def exact_int_def i)
  have r: "round_double q = q" "\<not> strtod_erange q"
    using assms(1) big_bound [OF assms(1)] by (auto simp: exact_int_def strtod_erange_def)
  show ?thesis
    using r big_bound [OF assms(1)] scan_lld [OF assms(2), of i]
    by (simp add: parse_number_def n dec_value_lld i [symmetric] Let_def)
qed

lemma num_text_head: "exact_int q \<Longrightarrow> num_text q \<noteq> [] \<and> (hd (num_text q) = CHR ''-'' \<or> is_digit (hd (num_text q)))"
  by (auto simp: exact_int_def num_text_def fmt_lld_def nat_str_nonempty nat_str_hd_digit)

subsection \<open>Values survive serialising and parsing\<close>

fun exact_nums :: "jv \<Rightarrow> bool" where
  "exact_nums (JNum q) = exact_int q"
| "exact_nums (JArr vs) = (\<forall>v \<in> set vs. exact_nums v)"
| "exact_nums (JObj ms) = (\<forall>m \<in> set ms. exact_nums (snd m))"
| "exact_nums _ = True"

definition sep_ok :: "char \<Rightarrow> string \<Rightarrow> bool" where
  "sep_ok c s \<longleftrightarrow> (\<exists>w. s = c # w \<and> list_all is_ws w)"

lemma ws_skip: "list_all is_ws w \<Longrightarrow> skip_ws (w @ s) = skip_ws s"
  by (auto simp: skip_ws_def list_all_iff dropWhile_append2)

lemma skip_ws_stop: "\<not> is_ws c \<Longrightarrow> skip_ws (c # s) = c # s"
  by (simp add: skip_ws_def)

text \<open>\<open>pv\<close> reads back the text of \<open>v\<close>, whatever white space stands before it.\<close>

definition reads :: "string \<Rightarrow> string \<Rightarrow> (string \<Rightarrow> (jv \<times> string) option) \<Rightarrow> jv \<Rightarrow> bool" where
  "reads comma colon pv v \<longleftrightarrow>
     (\<forall>w t. list_all is_ws w \<longrightarrow> ends t \<longrightarrow> pv (w @ text_value comma colon v @ t) = Some (v, t))"

lemma readsD: "reads comma colon pv v \<Longrightarrow> list_all is_ws w \<Longrightarrow> ends t \<Longrightarrow>
  pv (w @ text_value comma colon v @ t) = Some (v, t)"
  by (simp add: reads_def)

lemma ends_closer: "ends (CHR '']'' # t)" "ends (CHR ''}'' # t)" "ends (CHR '','' # t)"
  by (simp_all add: ends_def)

lemma ends_items: "sep_ok CHR '','' comma \<Longrightarrow> ends (text_items comma colon True vs @ CHR '']'' # t)"
  by (cases vs) (auto simp: ends_closer sep_ok_def)

lemma ends_members: "sep_ok CHR '','' comma \<Longrightarrow> ends (text_members comma colon True ms @ CHR ''}'' # t)"
  by (cases ms) (auto simp: ends_closer sep_ok_def)

lemma comma_parts: "sep_ok c s \<Longrightarrow> s = c # tl s \<and> list_all is_ws (tl s)"
  by (auto simp: sep_ok_def)

lemma parse_items_text:
  assumes "sep_ok CHR '','' comma"
  shows "\<forall>v \<in> set (v1 # vs). reads comma colon pv v \<Longrightarrow> list_all is_ws w \<Longrightarrow> length vs < f \<Longrightarrow>
    parse_items f pv acc (w @ text_value comma colon v1 @ text_items comma colon True vs @ CHR '']'' # t) =
      Some (JArr (acc @ v1 # vs), t)"
proof (induction vs arbitrary: v1 w f acc)
  case Nil
  then obtain g where f: "f = Suc g" by (cases f) auto
  have "pv (w @ text_value comma colon v1 @ CHR '']'' # t) = Some (v1, CHR '']'' # t)"
    using Nil by (intro readsD) (auto simp: ends_closer)
  then show ?case by (simp add: f skip_ws_stop is_ws_def)
next
  case (Cons v2 vs)
  then obtain g where f: "f = Suc g" "length vs < g" by (cases f) auto
  let ?r = "text_value comma colon v2 @ text_items comma colon True vs @ CHR '']'' # t"
  have c: "text_items comma colon True (v2 # vs) @ CHR '']'' # t = CHR '','' # tl comma @ ?r"
    using comma_parts [OF assms] by simp
  have "pv (w @ text_value comma colon v1 @ CHR '','' # tl comma @ ?r) = Some (v1, CHR '','' # tl comma @ ?r)"
    using Cons.prems by (intro readsD) (auto simp: ends_closer)
  moreover have "parse_items g pv (acc @ [v1]) (tl comma @ ?r) = Some (JArr ((acc @ [v1]) @ v2 # vs), t)"
    using Cons.prems comma_parts [OF assms] f by (intro Cons.IH) auto
  ultimately show ?case unfolding c by (simp add: f skip_ws_stop is_ws_def)
qed

lemma utf8_seq_cont: "\<forall>b \<in> set (take (utf8_seq s - 1) (drop 1 s)). byte b AND 0xC0 = 0x80"
proof (cases "utf8_seq s = 0")
  case False
  then have "list_all (\<lambda>b. byte b AND 0xC0 = 0x80) (take (utf8_len (byte (s ! 0)) - 1) (drop 1 s))"
    unfolding utf8_seq_def Let_def by metis
  then show ?thesis using utf8_seq_cases [of s] False by (simp add: list_all_iff)
qed simp

lemma valid_text_no_nul: "valid_text s \<Longrightarrow> CHR 0x00 \<notin> set s"
proof (induction s rule: valid_text.induct)
  case 1
  then show ?case by simp
next
  case (2 c s)
  let ?n = "utf8_seq (c # s)"
  have n: "0 < ?n" "c \<noteq> CHR 0x00" "valid_text (drop ?n (c # s))"
    using 2(2) unfolding valid_text.simps(2) by (auto simp del: drop_Cons split: if_splits)
  have "CHR 0x00 \<notin> set (take (?n - 1) s)" using utf8_seq_cont [of "c # s"] by auto
  moreover have "CHR 0x00 \<notin> set (drop (?n - 1) s)" using 2(1) n by (cases ?n) auto
  moreover have "set s = set (take (?n - 1) s) \<union> set (drop (?n - 1) s)"
    by (simp flip: set_append)
  ultimately show ?case using n(2) by auto
qed

lemma parse_string_escape:
  assumes "valid_text k"
  shows "parse_string (CHR 0x22 # escape_text k @ CHR 0x22 # t) = Some (k, t)"
proof -
  have "parse_string_loop [] (escape_text k @ CHR 0x22 # t) = parse_string_loop k (CHR 0x22 # t)"
    using parse_escape_text [OF valid_text_no_nul [OF assms], of "[]"] sanitize_valid [OF assms] by simp
  also have "\<dots> = Some (k, t)" by simp
  finally show ?thesis by (simp add: parse_string_def del: parse_string_loop.simps)
qed

lemma parse_key_text:
  assumes "valid_text k" "k \<notin> ks_abs keys" "ks_inv keys" "sep_ok CHR '':'' colon" "list_all is_ws w"
  shows "\<exists>keys'. parse_key keys (w @ CHR 0x22 # escape_text k @ CHR 0x22 # colon @ t) = Some (k, keys', tl colon @ t) \<and>
    ks_inv keys' \<and> ks_abs keys' = insert k (ks_abs keys)"
proof -
  obtain r keys' where i: "keyset_insert keys k = (r, keys')" by fastforce
  have r: "r = 1" using kt.ins_accepts [OF assms(3) i] assms(2) by simp
  have c: "skip_ws (colon @ t) = CHR '':'' # tl colon @ t"
    using assms(4) by (auto simp: sep_ok_def skip_ws_stop is_ws_def)
  have q: "skip_ws (w @ CHR 0x22 # escape_text k @ CHR 0x22 # colon @ t) = CHR 0x22 # escape_text k @ CHR 0x22 # colon @ t"
    using assms(5) by (simp add: ws_skip skip_ws_stop is_ws_def)
  have "parse_key keys (w @ CHR 0x22 # escape_text k @ CHR 0x22 # colon @ t) = Some (k, keys', tl colon @ t)"
    using i r by (simp add: parse_key_def q parse_string_escape [OF assms(1)] c)
  then show ?thesis using kt.ins_result [OF assms(3) i] by blast
qed

lemma parse_members_text:
  assumes "sep_ok CHR '','' comma" "sep_ok CHR '':'' colon"
  shows "\<forall>m \<in> set (m1 # ms). valid_text (fst m) \<and> reads comma colon pv (snd m) \<Longrightarrow> ks_inv keys \<Longrightarrow>
    distinct (map fst (m1 # ms)) \<Longrightarrow> ks_abs keys \<inter> set (map fst (m1 # ms)) = {} \<Longrightarrow>
    list_all is_ws w \<Longrightarrow> length ms < f \<Longrightarrow>
    parse_members f pv keys acc (w @ CHR 0x22 # escape_text (fst m1) @ CHR 0x22 # colon @
        text_value comma colon (snd m1) @ text_members comma colon True ms @ CHR ''}'' # t) =
      Some (JObj (acc @ m1 # ms), t)"
proof (induction ms arbitrary: m1 w f acc keys)
  case Nil
  then obtain g where f: "f = Suc g" by (cases f) auto
  let ?t = "CHR ''}'' # t"
  have K: "valid_text (fst m1)" "fst m1 \<notin> ks_abs keys" "ks_inv keys" and w: "list_all is_ws w" using Nil.prems by auto
  obtain keys' where k: "parse_key keys (w @ CHR 0x22 # escape_text (fst m1) @ CHR 0x22 # colon @
        text_value comma colon (snd m1) @ ?t) = Some (fst m1, keys', tl colon @ text_value comma colon (snd m1) @ ?t)"
    using parse_key_text [OF K assms(2) w] by blast
  have "pv (tl colon @ text_value comma colon (snd m1) @ ?t) = Some (snd m1, ?t)"
    using Nil.prems comma_parts [OF assms(2)] by (intro readsD) (auto simp: ends_closer)
  then show ?case using k by (simp add: f skip_ws_stop is_ws_def)
next
  case (Cons m2 ms)
  then obtain g where f: "f = Suc g" "length ms < g" by (cases f) auto
  let ?r = "CHR 0x22 # escape_text (fst m2) @ CHR 0x22 # colon @
        text_value comma colon (snd m2) @ text_members comma colon True ms @ CHR ''}'' # t"
  have c: "text_members comma colon True (m2 # ms) @ CHR ''}'' # t = CHR '','' # tl comma @ ?r"
    using comma_parts [OF assms(1)] by (cases m2) simp
  let ?t = "CHR '','' # tl comma @ ?r"
  have K: "valid_text (fst m1)" "fst m1 \<notin> ks_abs keys" "ks_inv keys" and w: "list_all is_ws w" using Cons.prems by auto
  obtain keys' where k: "parse_key keys (w @ CHR 0x22 # escape_text (fst m1) @ CHR 0x22 # colon @
        text_value comma colon (snd m1) @ ?t) = Some (fst m1, keys', tl colon @ text_value comma colon (snd m1) @ ?t)"
    and k': "ks_inv keys'" "ks_abs keys' = insert (fst m1) (ks_abs keys)"
    using parse_key_text [OF K assms(2) w] by blast
  have "pv (tl colon @ text_value comma colon (snd m1) @ ?t) = Some (snd m1, ?t)"
    using Cons.prems comma_parts [OF assms(2)] by (intro readsD) (auto simp: ends_closer)
  moreover have "parse_members g pv keys' (acc @ [m1]) (tl comma @ ?r) = Some (JObj ((acc @ [m1]) @ m2 # ms), t)"
    using Cons.prems comma_parts [OF assms(1)] k' f by (intro Cons.IH) auto
  ultimately show ?case unfolding c using k by (simp add: f skip_ws_stop is_ws_def)
qed

lemma length_text_items: "length vs \<le> length (text_items comma colon True vs)" if "comma \<noteq> []"
  using that by (induction vs) (auto simp: neq_Nil_conv)

lemma length_text_members: "length ms \<le> length (text_members comma colon True ms)" 
  by (induction ms) (auto split: prod.splits)

lemma text_value_head:
  "exact_nums v \<Longrightarrow> \<exists>c s. text_value comma colon v = c # s \<and>  \<not> is_ws c \<and> c \<noteq> CHR ''}'' \<and> c \<noteq> CHR '']''"
proof (cases v)
  case (JNum q)
  assume "exact_nums v"
  then have "num_text q \<noteq> [] \<and> (hd (num_text q) = CHR ''-'' \<or> is_digit (hd (num_text q)))"
    using num_text_head JNum by simp
  then show ?thesis using JNum by (cases "num_text q") (auto simp: is_ws_def is_digit_def)
qed (auto simp: is_ws_def)

lemma parse_value_ws: "list_all is_ws w \<Longrightarrow> parse_value k (w @ s) = parse_value k s"
  by (cases k) (simp_all add: ws_skip)

lemma reads_value:
  assumes "sep_ok CHR '','' comma" "sep_ok CHR '':'' colon"
  shows "wf_jv k v \<Longrightarrow> exact_nums v \<Longrightarrow> reads comma colon (parse_value k) v"
proof (induction k arbitrary: v)
  case 0
  then show ?case by simp
next
  case (Suc k)
  have main: "parse_value (Suc k) (text_value comma colon v @ t) = Some (v, t)" if t: "ends t" for t
  proof (cases v)
    case (JNum q)
    then have p: "parse_number (num_text q @ t) = Some (JNum q, t)" using Suc.prems t by (simp add: parse_num_text)
    obtain c s where c: "num_text q = c # s" "c = CHR ''-'' \<or> is_digit c"
      using num_text_head [of q] Suc.prems JNum by (cases "num_text q") auto
    then have "\<not> is_ws c" "c \<notin> {CHR ''{'', CHR ''['', CHR 0x22, CHR ''t'', CHR ''f'', CHR ''n''}"
      by (auto simp: is_ws_def is_digit_def)
    then show ?thesis using p c JNum by (simp add: skip_ws_stop Let_def)
  next
    case (JStr s)
    then show ?thesis using Suc.prems by (simp add: skip_ws_stop is_ws_def Let_def parse_string_escape)
  next
    case (JArr vs)
    have r: "\<forall>w \<in> set vs. reads comma colon (parse_value k) w"
      using Suc JArr by auto
    show ?thesis
    proof (cases vs)
      case Nil
      then show ?thesis using JArr by (simp add: skip_ws_stop is_ws_def Let_def parse_container_def)
    next
      case (Cons v1 vs')
      let ?b = "text_value comma colon v1 @ text_items comma colon True vs' @ CHR '']'' # t"
      obtain c s where c: "text_value comma colon v1 = c # s" "\<not> is_ws c" "c \<noteq> CHR '']''"
        using text_value_head [of v1 comma colon] Suc.prems JArr Cons by auto
      have l: "length vs' < length (CHR ''['' # ?b)"
        using length_text_items [of comma vs' colon] assms(1) by (auto simp: sep_ok_def)
      have "parse_items (length (CHR ''['' # ?b)) (parse_value k) [] ([] @ ?b) = Some (JArr ([] @ v1 # vs'), t)"
        using r Cons l by (intro parse_items_text [OF assms(1)]) auto
      then have "parse_container (parse_value k) (CHR ''['' # ?b) = Some (JArr vs, t)"
        using c by (simp add: parse_container_def skip_ws_stop Let_def Cons del: parse_items.simps)
      then show ?thesis using JArr Cons by (simp add: skip_ws_stop is_ws_def Let_def)
    qed
  next
    case (JObj ms)
    have r: "\<forall>m \<in> set ms. valid_text (fst m) \<and> reads comma colon (parse_value k) (snd m)"
      using Suc JObj by auto
    show ?thesis
    proof (cases ms)
      case Nil
      then show ?thesis using JObj by (simp add: skip_ws_stop is_ws_def Let_def parse_container_def)
    next
      case (Cons m1 ms')
      let ?b = "CHR 0x22 # escape_text (fst m1) @ CHR 0x22 # colon @
        text_value comma colon (snd m1) @ text_members comma colon True ms' @ CHR ''}'' # t"
      have l: "length ms' < length (CHR ''{'' # ?b)"
        using length_text_members [of ms' comma colon] by simp
      have "parse_members (length (CHR ''{'' # ?b)) (parse_value k) keyset_empty [] ([] @ ?b) = Some (JObj ([] @ m1 # ms'), t)"
        using r Cons l Suc.prems JObj by (intro parse_members_text [OF assms]) auto
      then have "parse_container (parse_value k) (CHR ''{'' # ?b) = Some (JObj ms, t)"
        by (simp add: parse_container_def skip_ws_stop is_ws_def Let_def Cons del: parse_members.simps)
      then show ?thesis using JObj Cons by (cases m1) (simp add: skip_ws_stop is_ws_def Let_def)
    qed
  qed (auto simp: skip_ws_stop is_ws_def Let_def eval_nat_numeral)
  then show ?case by (simp add: reads_def parse_value_ws del: parse_value.simps)
qed

lemma json_parse_text:
  assumes "sep_ok CHR '','' comma" "sep_ok CHR '':'' colon" "wf_jv max_depth v" "exact_nums v"
  shows "json_parse (text_value comma colon v) = Some v"
  using readsD [OF reads_value [OF assms], of "[]" "[]"]
  by (simp add: json_parse_def ends_def skip_ws_def)

lemma seps: "sep_ok CHR '','' '',''" "sep_ok CHR '':'' '':''" "sep_ok CHR '','' '', ''" "sep_ok CHR '':'' '': ''"
  by (simp_all add: sep_ok_def is_ws_def)

subsection \<open>The streaming decoder agrees with the parser\<close>

lemma hex4_append: "4 \<le> length r \<Longrightarrow> hex4 (r @ t) = hex4 r"
  by (simp add: hex4_def)

definition unescape_ok :: "string \<Rightarrow> int \<times> string \<Rightarrow> bool" where
  "unescape_ok s res \<longleftrightarrow>
     (fst res = -1 \<and> (\<forall>acc t. parse_string_loop acc (s @ t) = None)) \<or>
     (fst res = 0 \<and> length s < 12) \<or>
     (0 < fst res \<and> nat (fst res) \<le> length s \<and>
      (\<forall>acc t. parse_string_loop acc (s @ t) = parse_string_loop (acc @ snd res) (drop (nat (fst res)) s @ t)))"

lemma loop_u: "parse_string_loop acc (CHR 0x5C # CHR ''u'' # r) =
  (case parse_u r of None \<Rightarrow> None | Some (u, r2) \<Rightarrow> parse_string_loop (acc @ u) r2)"
  by (simp add: escape_value_def)

lemma unescape_hex:
  assumes "4 \<le> length r"
  shows "json_unescape (CHR 0x5C # CHR ''u'' # r) =
    (case hex4 r of
       None \<Rightarrow> (-1, [])
     | Some cp \<Rightarrow>
         if cp = 0 then (-1, [])
         else if 0xD800 \<le> cp \<and> cp \<le> 0xDBFF then
           (let q = drop 4 r in
            if q = [] then (0, []) else if q ! 0 \<noteq> CHR 0x5C then (-1, [])
            else if length q < 2 then (0, []) else if q ! 1 \<noteq> CHR ''u'' then (-1, [])
            else if length q < 6 then (0, [])
            else (case hex4 (drop 2 q) of None \<Rightarrow> (-1, [])
              | Some lo \<Rightarrow> if lo < 0xDC00 \<or> 0xDFFF < lo then (-1, [])
                  else (12, u8_emit (0x10000 + push_bit 10 (cp - 0xD800) + (lo - 0xDC00)))))
         else if 0xDC00 \<le> cp \<and> cp \<le> 0xDFFF then (-1, []) else (6, u8_emit cp))"
proof -
  let ?s = "CHR 0x5C # CHR ''u'' # r"
  have e: "escape_value CHR ''u'' = None" "?s ! 0 = CHR 0x5C" "?s ! 1 = CHR ''u''"
    by (simp_all add: escape_value_def)
  have n: "\<not> length ?s < 1" "\<not> length ?s < 2" "\<not> length ?s < 6" using assms by simp_all
  have d: "drop 2 ?s = r" "drop 8 ?s = drop 2 (drop 4 r)" by simp_all
  have i: "length ?s < 7 \<longleftrightarrow> drop 4 r = []" "length ?s < 8 \<longleftrightarrow> length (drop 4 r) < 2"
    "length ?s < 12 \<longleftrightarrow> length (drop 4 r) < 6"
    using assms by auto
  have j: "?s ! 6 = drop 4 r ! 0" "?s ! 7 = drop 4 r ! 1" using assms by simp_all
  show ?thesis
    unfolding json_unescape_def Let_def i j d e using n by (simp only: e if_False option.case simp_thms refl)
qed

lemma unescape_u:
  assumes "4 \<le> length r"
  shows "unescape_ok (CHR 0x5C # CHR ''u'' # r) (json_unescape (CHR 0x5C # CHR ''u'' # r))"
proof -
  note J = unescape_hex [OF assms] Let_def
  note O = unescape_ok_def loop_u parse_u_def hex4_append [OF assms]
  show ?thesis
  proof (cases "hex4 r")
    case None
    then show ?thesis using assms by (simp add: J O del: parse_string_loop.simps)
  next
    case (Some cp)
    consider (zero) "cp = 0" | (high) "0xD800 \<le> cp" "cp \<le> 0xDBFF" | (low) "0xDC00 \<le> cp" "cp \<le> 0xDFFF"
      | (plain) "cp \<noteq> 0" "cp < 0xD800 \<or> 0xDFFF < cp" by linarith
    then show ?thesis
    proof cases
      case zero
      then show ?thesis using assms Some by (simp add: J O del: parse_string_loop.simps)
    next
      case low
      then show ?thesis using assms Some by (simp add: J O Let_def del: parse_string_loop.simps)
    next
      case plain
      then have no: "\<not> (0xD800 \<le> cp \<and> cp \<le> 0xDBFF)" "\<not> (0xDC00 \<le> cp \<and> cp \<le> 0xDFFF)" by linarith+
      have ju: "json_unescape (CHR 0x5C # CHR ''u'' # r) = (6, u8_emit cp)"
        unfolding unescape_hex [OF assms] Some option.case if_not_P [OF plain(1)] if_not_P [OF no(1)]
          if_not_P [OF no(2)] ..
      have pu: "parse_u (r @ t) = Some (u8_emit cp, drop 4 r @ t)" for t
        unfolding parse_u_def Let_def hex4_append [OF assms] Some option.case if_not_P [OF plain(1)]
          if_not_P [OF no(1)] if_not_P [OF no(2)] using assms by simp
      show ?thesis using assms by (simp add: unescape_ok_def ju loop_u pu del: parse_string_loop.simps)
    next
      case high
      define q where "q = drop 4 r"
      have r: "r ! 4 = q ! 0" "r ! 5 = q ! 1" "drop 6 r = drop 2 q" "drop 10 r = drop 6 q" "length r = length q + 4"
        using assms by (simp_all add: q_def)
      have q: "drop 4 (r @ t) = q @ t" for t using assms by (simp add: q_def)
      have ju: "json_unescape (CHR 0x5C # CHR ''u'' # r) =
          (if q = [] then (0, []) else if q ! 0 \<noteq> CHR 0x5C then (-1, [])
           else if length q < 2 then (0, []) else if q ! 1 \<noteq> CHR ''u'' then (-1, [])
           else if length q < 6 then (0, [])
           else (case hex4 (drop 2 q) of None \<Rightarrow> (-1, [])
             | Some lo \<Rightarrow> if lo < 0xDC00 \<or> 0xDFFF < lo then (-1, [])
                 else (12, u8_emit (0x10000 + push_bit 10 (cp - 0xD800) + (lo - 0xDC00)))))"
        unfolding unescape_hex [OF assms] q_def Let_def using high Some by simp
      have pu: "parse_u (r @ t) = 
          (if length q + length t < 6 \<or> (q @ t) ! 0 \<noteq> CHR 0x5C \<or> (q @ t) ! 1 \<noteq> CHR ''u'' then None
           else (case hex4 (drop 2 (q @ t)) of None \<Rightarrow> None
             | Some lo \<Rightarrow> if lo < 0xDC00 \<or> 0xDFFF < lo then None
                 else Some (u8_emit (0x10000 + push_bit 10 (cp - 0xD800) + (lo - 0xDC00)), drop 6 (q @ t))))" for t
        unfolding parse_u_def Let_def hex4_append [OF assms] Some q using high assms by simp
      consider (q0) "q = []" | (bad0) "q \<noteq> []" "q ! 0 \<noteq> CHR 0x5C" | (q1) "q \<noteq> []" "q ! 0 = CHR 0x5C" "length q < 2"
        | (bad1) "2 \<le> length q" "q ! 0 = CHR 0x5C" "q ! 1 \<noteq> CHR ''u''"
        | (q5) "2 \<le> length q" "q ! 0 = CHR 0x5C" "q ! 1 = CHR ''u''" "length q < 6"
        | (full) "6 \<le> length q" "q ! 0 = CHR 0x5C" "q ! 1 = CHR ''u''" by force
      then show ?thesis
      proof cases
        case bad0
        then have "(q @ t) ! 0 \<noteq> CHR 0x5C" for t by (cases q) auto
        then show ?thesis using bad0 ju pu by (simp add: unescape_ok_def loop_u del: parse_string_loop.simps)
      next
        case bad1
        then have "(q @ t) ! 1 \<noteq> CHR ''u''" for t by (simp add: nth_append)
        then show ?thesis using bad1 ju pu by (auto simp: unescape_ok_def loop_u simp del: parse_string_loop.simps)
      next
        case full
        have h: "hex4 (drop 2 (q @ t)) = hex4 (drop 2 q)" for t
          using hex4_append [of "drop 2 q" t] full(1) by simp
        have i: "(q @ t) ! 0 = CHR 0x5C" "(q @ t) ! 1 = CHR ''u''" for t
          using full by (auto simp: nth_append)
        have l: "q \<noteq> []" "\<not> length q < 2" "\<not> length q < 6" using full by auto
        show ?thesis
          using full l ju pu h i r
          by (auto simp: unescape_ok_def loop_u simp del: parse_string_loop.simps split: option.splits)
      qed (use ju r in \<open>simp_all add: unescape_ok_def\<close>)
    qed
  qed
qed

lemma unescape_agrees:
  assumes "s \<noteq> []" "hd s = CHR 0x5C"
  shows "unescape_ok s (json_unescape s)"
proof -
  obtain r0 where s: "s = CHR 0x5C # r0" using assms by (cases s) auto
  show ?thesis
  proof (cases r0)
    case Nil
    then show ?thesis by (simp add: s unescape_ok_def json_unescape_def)
  next
    case (Cons e r)
    show ?thesis
    proof (cases "escape_value e")
      case (Some c)
      then show ?thesis by (simp add: s Cons unescape_ok_def json_unescape_def)
    next
      case None
      show ?thesis
      proof (cases "e = CHR ''u''")
        case True
        show ?thesis
        proof (cases "4 \<le> length r")
          case 4: True
          then show ?thesis using unescape_u True by (simp add: s Cons)
        next
          case False
          then show ?thesis using None True by (simp add: s Cons unescape_ok_def json_unescape_def)
        qed
      next
        case False
        then show ?thesis using None by (simp add: s Cons unescape_ok_def json_unescape_def)
      qed
    qed
  qed
qed

subsection \<open>Sorting members\<close>

lemma key_cmp_less:
  assumes "CHR 0x00 \<notin> set a" "CHR 0x00 \<notin> set b"
  shows "0 < jv_key_cmp a b \<longleftrightarrow> map lower_byte b < map lower_byte a"
proof -
  have pos: "0 < lower_byte c" if "CHR 0x00 \<noteq> c" for c
    using that byte_inject [of c "CHR 0x00"] by (auto simp: lower_byte_def)
  have pos': "lower_byte c = 0 \<longleftrightarrow> c = CHR 0x00" for c
    using pos [of c] by (cases "c = CHR 0x00") (simp_all add: lower_byte_def)
  show ?thesis
    using assms by (induction a b rule: jv_key_cmp.induct) (auto simp: pos pos' list_less_def)
qed

definition member_key :: "string list \<Rightarrow> nat \<Rightarrow> nat list" where
  "member_key keys i = map lower_byte (keys ! i)"

definition no_nul :: "string list \<Rightarrow> bool" where
  "no_nul keys \<longleftrightarrow> (\<forall>k \<in> set keys. CHR 0x00 \<notin> set k)"

lemma key_cmp_member:
  "no_nul keys \<Longrightarrow> i < length keys \<Longrightarrow> j < length keys \<Longrightarrow>
   0 < jv_key_cmp (keys ! i) (keys ! j) \<longleftrightarrow> member_key keys j < member_key keys i"
  by (simp add: key_cmp_less no_nul_def member_key_def)

lemma shift_split:
  assumes "no_nul keys" "i < length keys"
  shows "j < length order \<Longrightarrow> \<forall>x \<in> set (take j order). x < length keys \<Longrightarrow>
    dictsort_shift keys i order j =
      rev (dropWhile (\<lambda>x. member_key keys i < member_key keys x) (rev (take j order))) @ [i] @
      rev (takeWhile (\<lambda>x. member_key keys i < member_key keys x) (rev (take j order))) @ drop (Suc j) order"
proof (induction j arbitrary: order)
  case 0
  then show ?case by (cases order) auto
next
  case (Suc j)
  have t: "take (Suc j) order = take j order @ [order ! j]" using Suc.prems(1) by (simp add: take_Suc_conv_app_nth)
  have x: "order ! j < length keys" using Suc.prems(2) t by simp
  show ?case
  proof (cases "member_key keys i < member_key keys (order ! j)")
    case True
    let ?o = "order[Suc j := order ! j]"
    have d: "drop (Suc j) ?o = order ! j # drop (Suc (Suc j)) order"
      using Suc.prems(1) by (simp add: drop_update_swap flip: Cons_nth_drop_Suc)
    have "dictsort_shift keys i ?o j =
      rev (dropWhile (\<lambda>x. member_key keys i < member_key keys x) (rev (take j ?o))) @ [i] @
      rev (takeWhile (\<lambda>x. member_key keys i < member_key keys x) (rev (take j ?o))) @ drop (Suc j) ?o"
      using Suc.prems t by (intro Suc.IH) auto
    then show ?thesis
      using True key_cmp_member [OF assms(1) x assms(2)] by (simp add: t d)
  next
    case False
    then show ?thesis
      using Suc.prems(1) key_cmp_member [OF assms(1) x assms(2)]
      by (simp add: t upd_conv_take_nth_drop)
  qed
qed

lemma sort_key_snoc:
  fixes f :: "nat \<Rightarrow> nat list"
  assumes "p = sort_key f xs"
  shows "sort_key f (xs @ [x]) =
    rev (dropWhile (\<lambda>y. f x < f y) (rev p)) @ [x] @ rev (takeWhile (\<lambda>y. f x < f y) (rev p))"
proof -
  define A B where "A = rev (dropWhile (\<lambda>y. f x < f y) (rev p))" and "B = rev (takeWhile (\<lambda>y. f x < f y) (rev p))"
  have p: "p = A @ B" unfolding A_def B_def by (metis rev_append rev_rev_ident takeWhile_dropWhile_id)
  have sp: "sorted (map f p)" by (simp add: assms)
  have b: "\<forall>y \<in> set B. f x < f y" unfolding B_def by (auto dest: set_takeWhileD)
  have a: "\<forall>y \<in> set A. f y \<le> f x"
  proof (cases "A = []")
    case False
    then have l: "\<not> f x < f (last A)" unfolding A_def using hd_dropWhile [of "\<lambda>y. f x < f y" "rev p"] by (simp add: last_rev)
    have "sorted (map f A)" using sp by (simp add: p sorted_append)
    then have "\<forall>y \<in> set A. f y \<le> f (last A)"
      using False by (induction A rule: rev_induct) (auto simp: sorted_append)
    then show ?thesis using l by fastforce
  qed simp
  have fl: "filter (\<lambda>y. f k = f y) (A @ B) = filter (\<lambda>y. f k = f y) xs" for k
    unfolding p [symmetric] assms using sort_key_stable [of f "f k" xs] by (simp add: eq_commute)
  have "sort_key f (xs @ [x]) = A @ [x] @ B"
  proof (rule properties_for_sort_key)
    have "mset (A @ B) = mset xs" unfolding p [symmetric] assms by simp
    then show "mset (A @ [x] @ B) = mset (xs @ [x])" by simp
    show "sorted (map f (A @ [x] @ B))"
      using sp a b by (auto simp: p sorted_append intro: order.trans less_imp_le)
    show "filter (\<lambda>y. f k = f y) (A @ [x] @ B) = filter (\<lambda>y. f k = f y) (xs @ [x])" for k
    proof (cases "f k = f x")
      case True
      then have "filter (\<lambda>y. f k = f y) B = []" using b by (auto simp: filter_empty_conv)
      then show ?thesis using True fl [of k] by simp
    next
      case False
      then show ?thesis using fl [of k] by simp
    qed
  qed
  then show ?thesis by (simp add: A_def B_def)
qed

lemma dictsort_prefix:
  assumes "no_nul keys" "length order = length keys"
  shows "n \<le> length keys \<Longrightarrow>
    foldl (\<lambda>ord i. dictsort_shift keys i ord i) order [0..<n] =
      sort_key (member_key keys) [0..<n] @ drop n order"
proof (induction n)
  case 0
  then show ?case by simp
next
  case (Suc n)
  let ?p = "sort_key (member_key keys) [0..<n]"
  let ?o = "?p @ drop n order"
  have o: "length ?o = length keys" "take n ?o = ?p" "drop (Suc n) ?o = drop (Suc n) order"
    using Suc.prems assms(2) by simp_all
  have "foldl (\<lambda>ord i. dictsort_shift keys i ord i) order [0..<Suc n] = dictsort_shift keys n ?o n"
    using Suc by simp
  also have "\<dots> = rev (dropWhile (\<lambda>x. member_key keys n < member_key keys x) (rev (take n ?o))) @ [n] @
      rev (takeWhile (\<lambda>x. member_key keys n < member_key keys x) (rev (take n ?o))) @ drop (Suc n) ?o"
    using Suc.prems assms(1) o by (intro shift_split) auto
  also have "\<dots> = sort_key (member_key keys) ([0..<n] @ [n]) @ drop (Suc n) order"
    unfolding o using sort_key_snoc [OF refl, of "member_key keys" "[0..<n]" n] by simp
  finally show ?case by simp
qed

subsection \<open>Properties\<close>

definition all_mem :: "nat \<Rightarrow> bool" where
  "all_mem n \<longleftrightarrow> n \<le> 2 ^ 62"

definition empty_sbuf :: sbuf where
  "empty_sbuf = \<lparr>b_s = [], b_cap = 0, b_failed = False\<rparr>"

lemma all_mem_ok: "mem_ok all_mem"
  by (simp add: mem_ok_def all_mem_def)

lemma empty_sbuf_inv: "sb_inv empty_sbuf"
  by (simp add: sb_inv_def empty_sbuf_def)

lemmas parse_run = json_parse_def max_depth_def skip_ws_def is_ws_def is_digit_def digit19_def
  parse_container_def parse_string_def parse_key_def Let_def

text \<open>
  C6. What \<open>json_parse\<close> returns is well formed: at most 128 levels deep, every object without
  duplicate members, every string and key well-formed UTF-8 without a NUL byte (so it can be
  held as a C string), every number a finite double.
\<close>

theorem json_parse_wf:
  assumes "json_parse s = Some v"
  shows "wf_jv max_depth v"
proof -
  obtain r where "parse_value max_depth s = Some (v, r)"
    using assms by (auto simp: json_parse_def split: option.splits if_splits)
  then show ?thesis using parsesD [OF parses_value] by blast
qed

lemma json_parse_wf_witness: "wf_jv max_depth (JArr [JBool True, JObj []])"
  by (rule json_parse_wf [of "''[true ,{}]''"]) (simp add: parse_run numeral_eq_Suc)


lemma exact_seven: "exact_int 7"
  using exact_int_small [of 7] by simp

lemma double_exact: "exact_int q \<Longrightarrow> double_num q"
  using big_bound [of q] by (auto simp: double_num_def exact_int_def) (metis)

lemma two_levels: "max_depth = Suc (Suc 126)"
  by (simp add: max_depth_def)


text \<open>
  C8. A string without NUL bytes, escaped by \<open>json_escape\<close> into the buffer \<open>sb_esc\<close> allocates
  (6 bytes per input byte and 8 more) and put between quotes, is read back by \<open>parse_string\<close> as
  the same string with every ill-formed byte replaced by U+FFFD; that is well-formed text, and
  well-formed text is unchanged.
\<close>

theorem json_escape_roundtrip:
  assumes "CHR 0x00 \<notin> set s"
  shows "parse_string (CHR 0x22 # json_escape s (length s * 6 + 8) @ CHR 0x22 # t) = Some (sanitize s, t) \<and>
    valid_text (sanitize s) \<and> (valid_text s \<longrightarrow> sanitize s = s)"
proof -
  have "parse_string_loop [] (escape_text s @ CHR 0x22 # t) = parse_string_loop (sanitize s) (CHR 0x22 # t)"
    using parse_escape_text [OF assms, of "[]"] by simp
  then show ?thesis
    using valid_sanitize [OF assms] sanitize_valid
    by (simp add: parse_string_def json_escape_text del: parse_string_loop.simps) simp
qed

lemma json_escape_roundtrip_witness:
  "parse_string (CHR 0x22 # json_escape [CHR 0xFF, CHR 0x0A] (length [CHR 0xFF, CHR 0x0A] * 6 + 8) @ CHR 0x22 # ''x'') =
     Some (sanitize [CHR 0xFF, CHR 0x0A], ''x'')"
  using json_escape_roundtrip [of "[CHR 0xFF, CHR 0x0A]" "''x''"] by simp

text \<open>
  \<open>json_escape\<close> stays inside its buffer for every input and every capacity of at least one
  byte: at most \<open>cap - 1\<close> bytes are written before the terminating NUL.
\<close>

theorem json_escape_bound:
  assumes "1 \<le> cap"
  shows "length (json_escape s cap) \<le> cap - 1"
  using json_escape_loop_le [of "[]" cap s] assms by (simp add: json_escape_def)

lemma json_escape_bound_witness: "length (json_escape (replicate 40 CHR 0x01) 17) \<le> 17 - 1"
  by (rule json_escape_bound) simp

text \<open>
  The streaming decoder \<open>json_unescape\<close> agrees with the parser. On bytes that start with
  a backslash it either consumes a prefix whose decoding the parser also produces before it
  continues with the rest, or answers -1 and then no continuation makes the parser accept, or
  asks for more input, which it never does once 12 bytes are there.
\<close>

theorem json_unescape_agrees:
  assumes "s \<noteq> []" "hd s = CHR 0x5C"
  shows "case json_unescape s of (used, u) \<Rightarrow>
    used = -1 \<and> (\<forall>acc t. parse_string_loop acc (s @ t) = None) \<or>
    used = 0 \<and> length s < 12 \<or>
    0 < used \<and> nat used \<le> length s \<and>
      (\<forall>acc t. parse_string_loop acc (s @ t) = parse_string_loop (acc @ u) (drop (nat used) s @ t))"
  using unescape_agrees [OF assms] by (auto simp: unescape_ok_def split: prod.splits)

lemma json_unescape_agrees_witness:
  "case json_unescape (CHR 0x5C # ''n!'') of (used, u) \<Rightarrow>
    used = -1 \<and> (\<forall>acc t. parse_string_loop acc ((CHR 0x5C # ''n!'') @ t) = None) \<or>
    used = 0 \<and> length (CHR 0x5C # ''n!'') < 12 \<or>
    0 < used \<and> nat used \<le> length (CHR 0x5C # ''n!'') \<and>
      (\<forall>acc t. parse_string_loop acc ((CHR 0x5C # ''n!'') @ t) =
        parse_string_loop (acc @ u) (drop (nat used) (CHR 0x5C # ''n!'') @ t))"
  by (rule json_unescape_agrees) simp_all

text \<open>
  C11. The duplicate-key table implements a set: after inserting any keys into the empty
  table, inserting \<open>k\<close> answers 0 exactly when \<open>k\<close> is one of them and 1 otherwise, through all
  rehashes and hash collisions; it never runs out of slots.
\<close>

theorem keyset_is_set:
  "fst (keyset_insert (foldl (\<lambda>t k. snd (keyset_insert t k)) keyset_empty ks) k) =
    (if k \<in> set ks then 0 else 1)"
proof -
  have "ks_inv (kt.insert_all ks keyset_empty) \<and> ks_abs (kt.insert_all ks keyset_empty) = set ks \<union> ks_abs keyset_empty"
    by (rule kt.insert_all_keys) (rule kt.nil_ok)
  then show ?thesis using kt.ins_new by (simp add: kt.insert_all_def kt.nil_keys)
qed

text \<open>
  C12. The serialiser writes the whole text or says so: from a sound builder, and with an
  allocator that never hands out more than \<open>2 ^ 62\<close> bytes, \<open>jv_dump_sep\<close> either ends with the
  failure latch set or has appended exactly the JSON text of the value, and the text with its
  NUL fits in the allocated buffer. A truncated body that looks successful is impossible.
\<close>

theorem jv_dump_all_or_failed:
  assumes "mem_ok al" "sb_inv b" "length comma \<le> 4095" "length colon \<le> 4095"
  shows "sb_inv (jv_dump_sep al comma colon v b) \<and>
    (b_failed (jv_dump_sep al comma colon v b) \<or>
     \<not> b_failed b \<and> b_s (jv_dump_sep al comma colon v b) = b_s b @ text_value comma colon v)"
  using dump_appends(1) [OF assms(1,3,4,2), of v] by (auto simp: appends_def)

lemma jv_dump_all_or_failed_witness:
  "sb_inv (jv_dump_sep all_mem '','' '':'' (JArr [JNull]) empty_sbuf)"
  using jv_dump_all_or_failed [OF all_mem_ok empty_sbuf_inv, of "'',''" "'':''" "JArr [JNull]"] by simp

text \<open>
  \<open>jv_dictsort\<close> is jinja's \<open>dictsort\<close>: for an object whose keys hold no NUL byte it fills
  the array with the member indices sorted by lower-cased key, ties in insertion order.
\<close>

theorem jv_dictsort_stable:
  assumes "\<forall>k \<in> set (map fst ms). CHR 0x00 \<notin> set k" "length order = length ms"
  shows "jv_dictsort (Some (JObj ms)) order =
    sort_key (\<lambda>i. map lower_byte (map fst ms ! i)) [0..<length ms]"
proof -
  have "no_nul (map fst ms)" using assms(1) by (simp add: no_nul_def)
  then have "jv_dictsort (Some (JObj ms)) order = sort_key (member_key (map fst ms)) [0..<length ms]"
    using dictsort_prefix [of "map fst ms" order "length ms"] assms(2) by (simp add: jv_dictsort_def)
  moreover have "member_key (map fst ms) = (\<lambda>i. map lower_byte (map fst ms ! i))"
    by (simp add: fun_eq_iff member_key_def)
  ultimately show ?thesis by simp
qed

lemma jv_dictsort_stable_witness:
  "jv_dictsort (Some (JObj [(''b'', JNull), (''A'', JNull), (''a'', JNull)])) [9, 9, 9] =
     sort_key (\<lambda>i. map lower_byte (map fst [(''b'', JNull), (''A'', JNull), (''a'', JNull)] ! i))
       [0..<length [(''b'', JNull), (''A'', JNull), (''a'', JNull)]]"
  by (rule jv_dictsort_stable) auto

text \<open>
  The loops over members and elements always end: the fuel the container parser gives
  them, the number of bytes left, is enough, and any larger fuel gives the same result.
\<close>

theorem parse_container_fuel:
  assumes "length s \<le> f"
  shows "parse_members f (parse_value k) keyset_empty [] s =
      parse_members (length s) (parse_value k) keyset_empty [] s \<and>
    parse_items (Suc f) (parse_value k) [] s = parse_items (Suc (length s)) (parse_value k) [] s"
  using parse_members_fuel [OF parses_value, of keyset_empty s f "length s"]
    parse_items_fuel [OF parses_value, of s f "length s"] assms by (simp del: parse_items.simps)

lemma parse_container_fuel_witness:
  "parse_members 9 (parse_value 3) keyset_empty [] ''x'' =
      parse_members (length ''x'') (parse_value 3) keyset_empty [] ''x'' \<and>
    parse_items (Suc 9) (parse_value 3) [] ''x'' = parse_items (Suc (length ''x'')) (parse_value 3) [] ''x''"
  by (rule parse_container_fuel) simp

end
