(* ===== verification/Fp16_Laws.thy ===== *)
theory Fp16_Laws
  imports Fp16 Json_Laws
begin

text \<open>
  Laws of the bit-pattern conversions: patterns as numbers of three fields, what the code's
  masks and shifts extract from them, correctness of the integer logarithm the reference
  rounding is written with, and the two conversions against their IEEE meaning.
\<close>

subsection \<open>Masks\<close>

lemma nat_or_disjoint:
  fixes a b :: nat
  assumes "b < 2 ^ n"
  shows "(a * 2 ^ n) OR b = a * 2 ^ n + b"
proof -
  have "(a * 2 ^ n) AND b = 0"
  proof (rule bit_eqI)
    fix i
    have "\<not> bit b i" if "n \<le> i"
    proof -
      have "b < 2 ^ i" using assms that by (meson less_le_trans one_le_numeral power_increasing)
      then show ?thesis by (simp add: bit_iff_odd)
    qed
    then show "bit ((a * 2 ^ n) AND b) i = bit (0 :: nat) i"
      by (auto simp: bit_and_iff bit_push_bit_iff simp flip: push_bit_eq_mult)
  qed
  then show ?thesis by (simp add: disjunctive_add_eq_or)
qed

lemma nat_and_mask: "(n :: nat) AND mask k = n mod 2 ^ k"
  by (simp add: take_bit_eq_mod flip: take_bit_eq_mask)

lemma nat_and_bit: "(n :: nat) AND 2 ^ k = n div 2 ^ k mod 2 * 2 ^ k"
proof (cases "bit n k")
  case True
  have "n AND 2 ^ k = 2 ^ k"
    by (rule bit_eqI) (use True in \<open>auto simp: bit_and_iff bit_exp_iff\<close>)
  then show ?thesis using True by (simp add: bit_iff_odd odd_iff_mod_2_eq_one)
next
  case False
  have "n AND 2 ^ k = 0"
    by (rule bit_eqI) (use False in \<open>auto simp: bit_and_iff bit_exp_iff\<close>)
  then show ?thesis using False by (simp add: bit_iff_odd even_iff_mod_2_eq_zero)
qed

lemmas nat_masks =
  nat_and_mask [of _ 10, unfolded mask_eq_exp_minus_1, simplified]
  nat_and_mask [of _ 5, unfolded mask_eq_exp_minus_1, simplified]
  nat_and_mask [of _ 13, unfolded mask_eq_exp_minus_1, simplified]
  nat_and_mask [of _ 23, unfolded mask_eq_exp_minus_1, simplified]
  nat_and_mask [of _ 8, unfolded mask_eq_exp_minus_1, simplified]
  nat_and_bit [of _ 15, simplified] nat_and_bit [of _ 10, simplified]

subsection \<open>Patterns as numbers\<close>

text \<open>Sign, exponent below \<open>a\<close> and fraction below \<open>b\<close> in one number.\<close>

definition fpack :: "nat \<Rightarrow> nat \<Rightarrow> nat \<Rightarrow> nat \<Rightarrow> nat \<Rightarrow> nat" where
  "fpack a b s e m = (s * a + e) * b + m"

lemma fpack_fields:
  assumes "e < a" "m < b"
  shows "fpack a b s e m div (a * b) = s" "fpack a b s e m div b mod a = e" "fpack a b s e m mod b = m"
    "fpack a b s e m div b = s * a + e"
proof -
  show 1: "fpack a b s e m div b = s * a + e" "fpack a b s e m mod b = m" using assms by (auto simp: fpack_def)
  show "fpack a b s e m div b mod a = e" using 1 assms by simp
  show "fpack a b s e m div (a * b) = s"
    using 1 assms by (simp add: div_mult2_eq mult.commute [of a])
qed

lemma fpack_less: "s < 2 \<Longrightarrow> e < a \<Longrightarrow> m < b \<Longrightarrow> fpack a b s e m < 2 * a * b"
proof -
  assume a: "s < 2" "e < a" "m < b"
  have "(s * a + e) + 1 \<le> 2 * a" using a by (cases s) auto
  then have "((s * a + e) + 1) * b \<le> 2 * a * b" by (rule mult_le_mono1)
  then show ?thesis using a by (simp add: fpack_def)
qed

lemma fpack_of: "n = fpack a b (n div (a * b)) (n div b mod a) (n mod b)"
  by (simp add: fpack_def div_mult2_eq mult.commute [of a])

abbreviation pack16 :: "nat \<Rightarrow> nat \<Rightarrow> nat \<Rightarrow> 16 word" where
  "pack16 s e m \<equiv> word_of_nat (fpack (2 ^ 5) (2 ^ 10) s e m)"

abbreviation pack32 :: "nat \<Rightarrow> nat \<Rightarrow> nat \<Rightarrow> 32 word" where
  "pack32 s e m \<equiv> word_of_nat (fpack (2 ^ 8) (2 ^ 23) s e m)"

abbreviation pack64 :: "nat \<Rightarrow> nat \<Rightarrow> nat \<Rightarrow> 64 word" where
  "pack64 s e m \<equiv> word_of_nat (fpack (2 ^ 11) (2 ^ 52) s e m)"

lemma unat_pack:
  "s < 2 \<Longrightarrow> e < 2 ^ 5 \<Longrightarrow> m < 2 ^ 10 \<Longrightarrow> unat (pack16 s e m) = fpack (2 ^ 5) (2 ^ 10) s e m"
  "s < 2 \<Longrightarrow> e < 2 ^ 8 \<Longrightarrow> m < 2 ^ 23 \<Longrightarrow> unat (pack32 s e m) = fpack (2 ^ 8) (2 ^ 23) s e m"
  "s < 2 \<Longrightarrow> e < 2 ^ 11 \<Longrightarrow> m < 2 ^ 52 \<Longrightarrow> unat (pack64 s e m) = fpack (2 ^ 11) (2 ^ 52) s e m"
  using fpack_less [of s e "2 ^ 5" m "2 ^ 10"] fpack_less [of s e "2 ^ 8" m "2 ^ 23"]
    fpack_less [of s e "2 ^ 11" m "2 ^ 52"]
  by (simp_all add: unsigned_of_nat take_bit_eq_mod)

lemma word_fpack_of:
  assumes "a * b * 2 = 2 ^ LENGTH('a :: len)"
  obtains s e m where "(w :: 'a word) = word_of_nat (fpack a b s e m)" "s < 2" "e < a" "m < b"
proof -
  have lt: "unat w < a * b * 2" using unsigned_less [of w, where 'a = nat] assms by simp
  have pos: "0 < a" "0 < b" using assms by (auto intro: gr0I)
  show thesis
  proof (rule that)
    show "w = word_of_nat (fpack a b (unat w div (a * b)) (unat w div b mod a) (unat w mod b))"
      by (subst fpack_of [symmetric]) simp
    show "unat w div (a * b) < 2" using lt pos by (simp add: div_less_iff_less_mult mult.commute)
  qed (use pos in auto)
qed

lemmas word16_cases = word_fpack_of [where a = "2 ^ 5" and b = "2 ^ 10" and 'a = 16, simplified]
lemmas word32_cases = word_fpack_of [where a = "2 ^ 8" and b = "2 ^ 23" and 'a = 32, simplified]

lemma f16_fields:
  assumes "s < 2" "e < 2 ^ 5" "m < 2 ^ 10"
  shows "f16_sgn (pack16 s e m) = s" "f16_exp (pack16 s e m) = e" "f16_frac (pack16 s e m) = m"
proof -
  have "(2 :: nat) ^ 15 = 2 ^ 5 * 2 ^ 10" by simp
  then show "f16_sgn (pack16 s e m) = s" "f16_exp (pack16 s e m) = e" "f16_frac (pack16 s e m) = m"
    unfolding f16_sgn_def f16_exp_def f16_frac_def unat_pack(1) [OF assms]
    by (simp_all only: fpack_fields(1-3) [OF assms(2,3)])
qed

lemma f32_fields:
  assumes "s < 2" "e < 2 ^ 8" "m < 2 ^ 23"
  shows "f32_sgn (pack32 s e m) = s" "f32_exp (pack32 s e m) = e" "f32_frac (pack32 s e m) = m"
proof -
  have "(2 :: nat) ^ 31 = 2 ^ 8 * 2 ^ 23" by simp
  then show "f32_sgn (pack32 s e m) = s" "f32_exp (pack32 s e m) = e" "f32_frac (pack32 s e m) = m"
    unfolding f32_sgn_def f32_exp_def f32_frac_def unat_pack(2) [OF assms]
    by (simp_all only: fpack_fields(1-3) [OF assms(2,3)])
qed

lemma f64_fields:
  assumes "s < 2" "e < 2 ^ 11" "m < 2 ^ 52"
  shows "f64_sgn (pack64 s e m) = s" "f64_exp (pack64 s e m) = e" "f64_frac (pack64 s e m) = m"
proof -
  have "(2 :: nat) ^ 63 = 2 ^ 11 * 2 ^ 52" by simp
  then show "f64_sgn (pack64 s e m) = s" "f64_exp (pack64 s e m) = e" "f64_frac (pack64 s e m) = m"
    unfolding f64_sgn_def f64_exp_def f64_frac_def unat_pack(3) [OF assms]
    by (simp_all only: fpack_fields(1-3) [OF assms(2,3)])
qed

lemma word_eq_of_unat: "unat w = n \<Longrightarrow> w = word_of_nat n"
  by (metis of_nat_unat ucast_id)

lemma word_or_of_nat: "word_of_nat a OR word_of_nat b = (word_of_nat (a OR b) :: 'a :: len word)"
  by (simp add: of_nat_or_eq)

lemma pack32_or:
  assumes "e < 2 ^ 8" "m < 2 ^ 23"
  shows "word_of_nat (s * 2 ^ 31) OR word_of_nat (e * 2 ^ 23) OR word_of_nat m = pack32 s e m"
proof -
  have "s * 2 ^ 31 OR (e * 2 ^ 23 OR m) = s * 2 ^ 31 + (e * 2 ^ 23 + m)"
    using assms by (simp add: nat_or_disjoint [of m 23, simplified] nat_or_disjoint [of _ 31, simplified])
  then show ?thesis
    by (simp only: word_or_of_nat or.assoc fpack_def) (simp add: algebra_simps)
qed

lemma pack16_or:
  assumes "e < 2 ^ 5" "m < 2 ^ 10"
  shows "word_of_nat (s * 2 ^ 15) OR word_of_nat (e * 2 ^ 10) OR word_of_nat m = pack16 s e m"
proof -
  have "s * 2 ^ 15 OR (e * 2 ^ 10 OR m) = s * 2 ^ 15 + (e * 2 ^ 10 + m)"
    using assms by (simp add: nat_or_disjoint [of m 10, simplified] nat_or_disjoint [of _ 15, simplified])
  then show ?thesis
    by (simp only: word_or_of_nat or.assoc fpack_def) (simp add: algebra_simps)
qed

text \<open>The three parts of a half-precision pattern as \<open>f16_decode\<close> extracts them.\<close>

lemma f16_parts:
  assumes "s < 2" "e < 2 ^ 5" "m < 2 ^ 10"
  defines "h \<equiv> pack16 s e m"
  shows "push_bit 16 (ucast (h AND 0x8000)) = (word_of_nat (s * 2 ^ 31) :: 32 word)"
    "ucast (drop_bit 10 h) AND 0x1F = (word_of_nat e :: 32 word)"
    "ucast (h AND 0x3FF) = (word_of_nat m :: 32 word)"
proof -
  note u = unat_pack(1) [OF assms(1-3), folded h_def, simplified]
  note f = fpack_fields [OF assms(2,3), of s, simplified]
  have lt16: "fpack 32 1024 s e m mod 65536 = fpack 32 1024 s e m"
    using fpack_less [of s e 32 m 1024] assms(1-3) by simp
  have lt: "fpack 32 1024 s e m mod 4294967296 = fpack 32 1024 s e m"
    using fpack_less [of s e 32 m 1024] assms(1-3) by simp
  have "unat (ucast (h AND 0x8000) :: 32 word) = s * 2 ^ 15"
    using assms(1) lt by (simp add: unsigned_ucast_eq unsigned_and_eq u f nat_masks take_bit_eq_mod)
  then have "unat (push_bit 16 (ucast (h AND 0x8000)) :: 32 word) = s * 2 ^ 31"
    unfolding unsigned_push_bit_eq using assms(1) by (simp add: push_bit_eq_mult take_bit_eq_mod)
  then show "push_bit 16 (ucast (h AND 0x8000)) = (word_of_nat (s * 2 ^ 31) :: 32 word)"
    by (rule word_eq_of_unat)
  have "unat (drop_bit 10 h) = s * 32 + e"
    unfolding unsigned_drop_bit_eq u using lt16 by (simp add: drop_bit_eq_div take_bit_eq_mod f)
  then have "unat (ucast (drop_bit 10 h) AND 0x1F :: 32 word) = e"
    using assms(1,2) by (simp add: unsigned_ucast_eq unsigned_and_eq nat_masks take_bit_eq_mod del: drop_bit_eq_div)
  then show "ucast (drop_bit 10 h) AND 0x1F = (word_of_nat e :: 32 word)"
    by (rule word_eq_of_unat)
  have "unat (ucast (h AND 0x3FF) :: 32 word) = m"
    using assms(3) lt by (simp add: unsigned_ucast_eq unsigned_and_eq u f nat_masks take_bit_eq_mod)
  then show "ucast (h AND 0x3FF) = (word_of_nat m :: 32 word)"
    by (rule word_eq_of_unat)
qed

text \<open>The normalising loop shifts until bit 10 is set.\<close>

lemma bit10: "x < 2048 \<Longrightarrow> (word_of_nat x :: 32 word) AND 0x400 = 0 \<longleftrightarrow> x < 1024"
proof -
  assume x: "x < 2048"
  have "unat ((word_of_nat x :: 32 word) AND 0x400) = x div 1024 * 1024"
    using x by (simp add: unsigned_and_eq unsigned_of_nat take_bit_eq_mod nat_masks)
  then have "(word_of_nat x :: 32 word) AND 0x400 = 0 \<longleftrightarrow> x div 1024 = 0"
    by (metis mult_eq_0_iff unsigned_0 unat_eq_zero zero_neq_numeral)
  then show ?thesis using x by auto
qed

lemma normalise:
  assumes "1024 \<le> x * 2 ^ k" "x * 2 ^ k < 2048"
  shows "while_option (\<lambda>(m :: 32 word, e :: 32 word). m AND 0x400 = 0) (\<lambda>(m, e). (push_bit 1 m, e - 1))
      (word_of_nat x, e) = Some (word_of_nat (x * 2 ^ k), e - word_of_nat k)"
  using assms
proof (induction k arbitrary: x e)
  case 0
  then show ?case by (subst while_option_unfold) (simp add: bit10)
next
  case (Suc k)
  have "x \<le> x * 2 ^ k" by simp
  moreover have "x * 2 ^ k < 1024" using Suc.prems(2) by simp
  ultimately have "x < 1024" by (rule le_less_trans)
  then have c: "(word_of_nat x :: 32 word) AND 0x400 = 0" by (simp add: bit10)
  have p: "push_bit 1 (word_of_nat x :: 32 word) = word_of_nat (x * 2)" by (simp add: push_bit_eq_mult mult.commute)
  have "1024 \<le> x * 2 * 2 ^ k" "x * 2 * 2 ^ k < 2048" using Suc.prems by (simp_all add: mult.assoc)
  from Suc.IH [OF this] show ?case
    by (subst while_option_unfold) (simp add: c p algebra_simps)
qed


lemma norm_shift:
  assumes "0 < m" "m < 1024"
  obtains k where "k \<le> 10" "1024 \<le> m * 2 ^ k" "m * 2 ^ k < (2048 :: nat)"
proof -
  define k where "k = (LEAST k. 1024 \<le> m * 2 ^ k)"
  have ex: "1024 \<le> m * 2 ^ 10" using assms by simp
  have ge: "1024 \<le> m * 2 ^ k" unfolding k_def by (rule LeastI [of _ 10]) (rule ex)
  have "k \<le> 10" unfolding k_def by (rule Least_le) (rule ex)
  moreover have "m * 2 ^ k < 2048"
  proof (cases k)
    case 0
    then show ?thesis using assms by simp
  next
    case (Suc j)
    then have "\<not> 1024 \<le> m * 2 ^ j" using not_less_Least [of j "\<lambda>k. 1024 \<le> m * 2 ^ k"] by (simp add: k_def)
    then show ?thesis using Suc by simp
  qed
  ultimately show thesis using ge that by blast
qed

text \<open>What \<open>f16_decode\<close> returns, by the kind of the pattern.\<close>

lemma f16_decode_special: "s < 2 \<Longrightarrow> m < 2 ^ 10 \<Longrightarrow> f16_decode (pack16 s 31 m) = Some (pack32 s 255 (m * 2 ^ 13))"
  using f16_parts [of s 31 m] pack32_or [of 255 "m * 2 ^ 13" s]
  by (simp add: f16_decode_def Let_def push_bit_eq_mult mult.commute)

lemma f16_decode_normal:
  assumes "s < 2" "0 < e" "e < 31" "m < 2 ^ 10"
  shows "f16_decode (pack16 s e m) = Some (pack32 s (e + 112) (m * 2 ^ 13))"
proof -
  define E where "E = e + 112"
  have e: "(word_of_nat e :: 32 word) - 15 + 127 = word_of_nat E" by (simp add: E_def)
  have "(word_of_nat e :: 32 word) \<noteq> 0" "(word_of_nat e :: 32 word) \<noteq> 31"
    using assms by (auto simp: word_of_nat_eq_0_iff word_of_nat_eq_iff [of _ 31, simplified] take_bit_eq_mod)
  then show ?thesis
    using f16_parts [of s e m] assms pack32_or [of E "m * 2 ^ 13" s]
    by (simp add: f16_decode_def Let_def e push_bit_eq_mult mult.commute flip: E_def) (simp add: E_def)
qed

lemma f16_decode_zero: "s < 2 \<Longrightarrow> f16_decode (pack16 s 0 0) = Some (pack32 s 0 0)"
  using f16_parts [of s 0 0] pack32_or [of 0 0 s] by (simp add: f16_decode_def Let_def)

lemma f16_decode_subnormal:
  assumes "s < 2" "k \<le> 10" "1024 \<le> m * 2 ^ k" "m * 2 ^ k < 2048" "m < 2 ^ 10"
  shows "f16_decode (pack16 s 0 m) = Some (pack32 s (113 - k) ((m * 2 ^ k - 1024) * 2 ^ 13))"
proof -
  have m: "(word_of_nat m :: 32 word) \<noteq> 0"
    using assms by (auto simp: word_of_nat_eq_0_iff take_bit_eq_mod)
  have "unat (word_of_nat (m * 2 ^ k) AND 0x3FF :: 32 word) = m * 2 ^ k - 1024"
    using assms(3,4) by (simp add: unsigned_and_eq unsigned_of_nat take_bit_eq_mod nat_masks del: of_nat_mult) 
       (simp add: mod_if)
  then have f: "word_of_nat (m * 2 ^ k) AND 0x3FF = (word_of_nat (m * 2 ^ k - 1024) :: 32 word)"
    by (rule word_eq_of_unat)
  define E where "E = 113 - k"
  define M where "M = m * 2 ^ k - 1024"
  have M: "M < 1024" using assms(4) by (simp add: M_def)
  have e: "(113 :: 32 word) - word_of_nat k = word_of_nat E" using assms(2) by (simp add: of_nat_diff E_def)
  show ?thesis
    using f16_parts [of s 0 m] assms(1,5) M pack32_or [of E "M * 2 ^ 13" s] m
      normalise [OF assms(3,4), of 113, unfolded e]
    unfolding E_def [symmetric] M_def [symmetric]
    by (simp add: f16_decode_def Let_def f [folded M_def] push_bit_eq_mult mult.commute del: of_nat_mult)
       (simp add: E_def mult.commute)
qed


subsection \<open>Powers of two\<close>

lemma pow2_power_int: "pow2 e = 2 powi e"
  by (simp add: pow2_def power_int_def field_simps)

lemma pow2_add: "pow2 (a + b) = pow2 a * pow2 b"
  by (simp add: pow2_power_int power_int_add)

lemma pow2_less: "pow2 a < pow2 b \<longleftrightarrow> a < b"
proof -
  have "pow2 a < pow2 b" if "a < b" for a b
    using that unfolding pow2_power_int by (intro power_int_strict_increasing) auto
  then show ?thesis by (metis linorder_neqE not_less_iff_gr_or_eq)
qed

lemma pow2_le_iff: "pow2 a \<le> pow2 b \<longleftrightarrow> a \<le> b"
  by (metis linorder_not_less pow2_less)

lemma pow2_nat: "pow2 (int n) = 2 ^ n"
  by (simp add: pow2_def)

lemma pow2_1: "pow2 (a + 1) = 2 * pow2 a"
  by (simp only: pow2_add) (simp add: pow2_def)

lemma ilog2_bounds:
  assumes "0 < q"
  shows "pow2 (ilog2 q) \<le> q \<and> q < pow2 (ilog2 q + 1)"
proof -
  obtain a b where ab: "quotient_of q = (a, b)" by (cases "quotient_of q")
  have b: "0 < b" using quotient_of_denom_pos [OF ab] .
  have q: "q = of_int a / of_int b" using quotient_of_div [OF ab] .
  have a: "0 < a" using assms b unfolding q by (simp add: zero_less_divide_iff)
  define A where "A = floorlog 2 (nat a)"
  define B where "B = floorlog 2 (nat b)"
  have A: "2 ^ (A - 1) \<le> nat a" "nat a < 2 ^ A" "0 < A"
    using a floorlog_bounds [of "nat a" 2] unfolding A_def by (auto simp: floorlog_def)
  have B: "2 ^ (B - 1) \<le> nat b" "nat b < 2 ^ B" "0 < B"
    using b floorlog_bounds [of "nat b" 2] unfolding B_def by (auto simp: floorlog_def)
  have qa: "rat_of_nat (nat a) = of_int a" "rat_of_nat (nat b) = of_int b" using a b by auto
  have la: "pow2 (int A - 1) \<le> of_int a" "of_int a < pow2 (int A)"
    using A pow2_nat [of "A - 1"] pow2_nat [of A] qa
    by (metis of_nat_le_iff of_nat_numeral of_nat_power of_nat_diff One_nat_def Suc_leI of_nat_1)
       (use A(2) qa pow2_nat [of A] in \<open>metis of_nat_less_iff of_nat_numeral of_nat_power\<close>)
  have lb: "pow2 (int B - 1) \<le> of_int b" "of_int b < pow2 (int B)"
    using B pow2_nat [of "B - 1"] pow2_nat [of B] qa
    by (metis of_nat_le_iff of_nat_numeral of_nat_power of_nat_diff One_nat_def Suc_leI of_nat_1)
       (use B(2) qa pow2_nat [of B] in \<open>metis of_nat_less_iff of_nat_numeral of_nat_power\<close>)
  define e where "e = int A - int B"
  have bq: "0 < rat_of_int b" using b by simp
  have "pow2 (e - 1) * of_int b < pow2 (e - 1) * pow2 (int B)"
    using lb by (simp add: pow2_pos)
  also have "\<dots> = pow2 (int A - 1)" by (simp add: e_def flip: pow2_add)
  also have "\<dots> \<le> of_int a" by (rule la)
  finally have lo: "pow2 (e - 1) < q" unfolding q using bq by (simp add: less_divide_eq)
  have "of_int a < pow2 (int A)" by (rule la)
  also have "\<dots> = pow2 (e + 1) * pow2 (int B - 1)" by (simp add: e_def flip: pow2_add)
  also have "\<dots> \<le> pow2 (e + 1) * of_int b" using lb by (simp add: pow2_pos)
  finally have hi: "q < pow2 (e + 1)" unfolding q using bq by (simp add: divide_less_eq)
  have "ilog2 q = (if pow2 e \<le> q then e else e - 1)"
    unfolding ilog2_def ab by (simp add: e_def A_def B_def Let_def)
  then show ?thesis using lo hi by auto
qed

lemma ilog2_eqI:
  assumes "pow2 e \<le> q" "q < pow2 (e + 1)"
  shows "ilog2 q = e"
proof -
  have "0 < q" using assms(1) pow2_pos [of e] by linarith
  from ilog2_bounds [OF this] assms have "pow2 (ilog2 q) < pow2 (e + 1)" "pow2 e < pow2 (ilog2 q + 1)" by auto
  then show ?thesis by (simp add: pow2_less)
qed

text \<open>Rounding a quotient by a power of two in integers.\<close>

definition rne_div :: "nat \<Rightarrow> nat \<Rightarrow> nat" where
  "rne_div n k =
     (let h = n div 2 ^ k; r = n mod 2 ^ k
      in if r > 2 ^ (k - 1) \<or> r = 2 ^ (k - 1) \<and> odd h then h + 1 else h)"

lemma rne_div_round_even:
  assumes "0 < k"
  shows "round_even (of_nat n / 2 ^ k) = int (rne_div n k)"
proof -
  define h where "h = n div 2 ^ k"
  define r where "r = n mod 2 ^ k"
  have n: "n = h * 2 ^ k + r" unfolding h_def r_def by (rule div_mult_mod_eq [symmetric])
  have r: "r < 2 ^ k" by (simp add: r_def)
  have q: "rat_of_nat n / 2 ^ k = of_nat h + of_nat r / 2 ^ k" by (simp add: n add_divide_distrib)
  have r1: "rat_of_nat r / 2 ^ k < 1"
    using r by (metis divide_less_eq_1_pos of_nat_less_iff of_nat_numeral of_nat_power zero_less_numeral zero_less_power)
  have fl: "\<lfloor>rat_of_nat n / 2 ^ k\<rfloor> = int h"
    unfolding q using r1 by (intro floor_unique) auto
  have c: "rat_of_nat r / 2 ^ k < 1 / 2 \<longleftrightarrow> r < 2 ^ (k - 1)"
    "1 / 2 < rat_of_nat r / 2 ^ k \<longleftrightarrow> 2 ^ (k - 1) < r"
  proof -
    have p: "rat_of_nat (2 ^ (k - 1)) / 2 ^ k = 1 / 2"
      using assms by (cases k) auto
    show "rat_of_nat r / 2 ^ k < 1 / 2 \<longleftrightarrow> r < 2 ^ (k - 1)"
      unfolding p [symmetric] by (subst divide_less_cancel) auto
    show "1 / 2 < rat_of_nat r / 2 ^ k \<longleftrightarrow> 2 ^ (k - 1) < r"
      unfolding p [symmetric] by (subst divide_less_cancel) auto
  qed
  show ?thesis
    unfolding round_even_def rne_div_def Let_def fl using c
    by (auto simp: q h_def [symmetric] r_def [symmetric])
qed

lemma round_even_minus: "round_even (- q) = - round_even q"
proof (cases "q \<in> \<int>")
  case True
  then obtain z where "q = of_int z" by (rule Ints_cases)
  then show ?thesis using round_even_of_int [of z] round_even_of_int [of "- z"] by simp
next
  case False
  define f where "f = \<lfloor>q\<rfloor>"
  have "of_int f \<noteq> q" using False by auto
  then have f: "of_int f < q" "q < of_int f + 1"
    unfolding f_def by (metis less_le of_int_floor_le) (rule floor_correct [THEN conjunct2, of q, simplified])
  have fl: "\<lfloor>- q\<rfloor> = - f - 1" using f by (intro floor_unique) auto
  show ?thesis
    unfolding round_even_def Let_def fl f_def [symmetric] using f by (auto simp: field_simps)
qed

lemma round_to_minus: "round_to p l (- q) = - round_to p l q"
  by (simp add: round_to_def Let_def round_even_minus)


subsection \<open>From half to single precision\<close>

lemma rat_mult_pow2: "rat_of_nat (m * 2 ^ k) * pow2 a = rat_of_nat m * pow2 (a + int k)"
  by (simp add: pow2_add pow2_nat)

lemma f16_decode_value:
  "\<exists>u. f16_decode h = Some u \<and> f32_sgn u = f16_sgn h \<and>
     (if f16_exp h = 31 then f32_exp u = 255 \<and> f32_frac u = f16_frac h * 2 ^ 13
      else f32_exp u \<noteq> 255 \<and> f32_val u = f16_val h)"
proof -
  obtain s e m where h: "h = pack16 s e m" and lt: "s < 2" "e < 2 ^ 5" "m < 2 ^ 10"
    by (rule word16_cases [of h]) auto
  note f = f16_fields [OF lt, folded h]
  consider "e = 31" | "0 < e" "e < 31" | "e = 0" "m = 0" | "e = 0" "0 < m"
    using lt by fastforce
  then show ?thesis
  proof cases
    case 1
    with lt show ?thesis
      using f32_fields [of s 255 "m * 2 ^ 13"] f f16_decode_special [of s m] by (simp add: h)
  next
    case 2
    have v: "rat_of_nat (2 ^ 23 + m * 2 ^ 13) * pow2 (int (e + 112) - 150) = rat_of_nat (2 ^ 10 + m) * pow2 (int e - 25)"
      using rat_mult_pow2 [of "2 ^ 10 + m" 13 "int (e + 112) - 150"] by (simp add: algebra_simps)
    show ?thesis
      using 2 lt f32_fields [of s "e + 112" "m * 2 ^ 13"] f v f16_decode_normal [of s e m]
      by (intro exI [of _ "pack32 s (e + 112) (m * 2 ^ 13)"]) (simp add: h f32_val_def f16_val_def)
  next
    case 3
    then show ?thesis
      using lt f32_fields [of s 0 0] f f16_decode_zero [of s]
      by (intro exI [of _ "pack32 s 0 0"]) (simp add: h f32_val_def f16_val_def)
  next
    case 4
    obtain k where k: "k \<le> 10" "1024 \<le> m * 2 ^ k" "m * 2 ^ k < 2048"
      using norm_shift [of m] 4 lt by auto
    have "rat_of_nat (2 ^ 23 + (m * 2 ^ k - 1024) * 2 ^ 13) = rat_of_nat (m * 2 ^ (k + 13))"
      using k(2) by (simp add: of_nat_diff power_add algebra_simps)
    then have v: "rat_of_nat (2 ^ 23 + (m * 2 ^ k - 1024) * 2 ^ 13) * pow2 (int (113 - k) - 150) = rat_of_nat m * pow2 (- 24)"
      using rat_mult_pow2 [of m "k + 13" "int (113 - k) - 150"] k(1) by (simp add: of_nat_diff)
    show ?thesis
      using 4 lt k f32_fields [of s "113 - k" "(m * 2 ^ k - 1024) * 2 ^ 13"] f v f16_decode_subnormal [of s k m]
      by (intro exI [of _ "pack32 s (113 - k) ((m * 2 ^ k - 1024) * 2 ^ 13)"]) (simp add: h f32_val_def f16_val_def)
  qed
qed


subsection \<open>From single to half precision\<close>

text \<open>A half-precision pattern below the sign is a position on the grid of half-precision
  numbers; the position after the last finite one denotes the overflow threshold.\<close>

definition ord_val :: "nat \<Rightarrow> rat" where
  "ord_val n = (if n < 1024 then of_nat n * pow2 (- 24) else of_nat (1024 + n mod 1024) * pow2 (int (n div 1024) - 25))"

lemma ord_fields:
  assumes "s < 2" "n < 32 * 1024"
  defines "h \<equiv> word_of_nat (s * 2 ^ 15 + n) :: 16 word"
  shows "f16_sgn h = s" "f16_exp h = n div 1024" "f16_frac h = n mod 1024" "f16_val h = fsign s * ord_val n"
proof -
  have d: "n = n div 1024 * 1024 + n mod 1024" by simp
  have e: "n div 1024 < 2 ^ 5" using assms(2) by simp
  have "s * 2 ^ 15 + n = fpack (2 ^ 5) (2 ^ 10) s (n div 1024) (n mod 1024)"
    unfolding fpack_def by simp
  then have h: "h = pack16 s (n div 1024) (n mod 1024)" by (simp add: h_def)
  show f: "f16_sgn h = s" "f16_exp h = n div 1024" "f16_frac h = n mod 1024"
    unfolding h using f16_fields [OF assms(1) e, of "n mod 1024"] by auto
  show "f16_val h = fsign s * ord_val n"
    unfolding f16_val_def f ord_val_def by (auto simp: div_eq_0_iff)
qed

lemma ord_val_scaled:
  assumes "1024 \<le> r" "r \<le> 2048"
  shows "ord_val (e * 1024 + r) = of_nat r * pow2 (int e - 24)"
proof (cases "r = 2048")
  case True
  have "ord_val (e * 1024 + 2048) = of_nat 1024 * pow2 (int e - 24 + 1)" by (simp add: ord_val_def algebra_simps)
  also have "\<dots> = of_nat 2048 * pow2 (int e - 24)" unfolding pow2_1 by simp
  finally show ?thesis by (simp add: True)
next
  case False
  define q where "q = r - 1024"
  have q: "r = 1024 + q" "q < 1024" using False assms by (auto simp: q_def)
  then have "e * 1024 + r = (e + 1) * 1024 + q" by simp
  then have "(e * 1024 + r) div 1024 = e + 1" "(e * 1024 + r) mod 1024 = q" "\<not> e * 1024 + r < 1024"
    using q by (simp_all only: div_mult_self3 mod_mult_self3) simp_all
  then show ?thesis unfolding ord_val_def q by (simp add: algebra_simps)
qed

lemma ord_val_small: "n \<le> 1024 \<Longrightarrow> ord_val n = of_nat n * pow2 (- 24)"
  using ord_val_scaled [of 1024 0] by (cases "n = 1024") (auto simp: ord_val_def)

text \<open>The parts of a single-precision pattern.\<close>

lemma f32_parts:
  assumes "s < 2" "e < 2 ^ 8" "m < 2 ^ 23"
  defines "u \<equiv> pack32 s e m"
  shows "drop_bit 16 u AND 0x8000 = word_of_nat (s * 2 ^ 15)"
    "uint (drop_bit 23 u AND 0xFF) - 127 + 15 = int e - 112"
    "u AND 0x7FFFFF = word_of_nat m"
proof -
  note u = unat_pack(2) [OF assms(1-3), folded u_def, simplified]
  note f = fpack_fields [OF assms(2,3), of s, simplified]
  have lt: "fpack 256 8388608 s e m < 2 ^ 32" using fpack_less [of s e 256 m 8388608] assms(1-3) by simp
  have d: "unat (drop_bit k u) = fpack 256 8388608 s e m div 2 ^ k" for k
    unfolding unsigned_drop_bit_eq u using lt by (simp add: drop_bit_eq_div take_bit_eq_mod)
  have "fpack 256 8388608 s e m div 65536 div 32768 = s"
    using f(1) by (simp flip: div_mult2_eq)
  then have "unat (drop_bit 16 u AND 0x8000) = s * 2 ^ 15"
    unfolding unsigned_and_eq d using assms(1) by (simp add: nat_masks)
  then show "drop_bit 16 u AND 0x8000 = word_of_nat (s * 2 ^ 15)"
    by (rule word_eq_of_unat)
  have "unat (drop_bit 23 u AND 0xFF) = e"
    unfolding unsigned_and_eq d using assms(2) by (simp add: nat_masks f)
  then show "uint (drop_bit 23 u AND 0xFF) - 127 + 15 = int e - 112"
    by (simp add: uint_nat)
  have "unat (u AND 0x7FFFFF) = m"
    using assms(3) by (simp add: unsigned_and_eq u f nat_masks)
  then show "u AND 0x7FFFFF = word_of_nat m" by (rule word_eq_of_unat)
qed


lemma ucast_sign_or:
  assumes "s < 2" "n < 2 ^ 15"
  shows "(ucast ((word_of_nat (s * 2 ^ 15) :: 32 word) OR word_of_nat n) :: 16 word) = word_of_nat (s * 2 ^ 15 + n)"
proof -
  have "(word_of_nat (s * 2 ^ 15) :: 32 word) OR word_of_nat n = word_of_nat (s * 2 ^ 15 + n)"
    unfolding word_or_of_nat nat_or_disjoint [OF assms(2)] ..
  moreover have "unat (word_of_nat (s * 2 ^ 15 + n) :: 32 word) = s * 2 ^ 15 + n"
    unfolding unsigned_of_nat take_bit_eq_mod using assms by simp
  ultimately show ?thesis
    by (metis of_nat_unat)
qed

text \<open>The increment that rounds to nearest even.\<close>

lemma word_drop_of_nat: "n < 2 ^ 32 \<Longrightarrow> drop_bit k (word_of_nat n :: 32 word) = word_of_nat (n div 2 ^ k)"
  by (rule word_eq_of_unat, unfold unsigned_drop_bit_eq unsigned_of_nat) (simp add: take_bit_eq_mod drop_bit_eq_div)

lemma word_mask_of_nat: "n < 2 ^ 32 \<Longrightarrow> (word_of_nat n :: 32 word) AND (push_bit k 1 - 1) = word_of_nat (n mod 2 ^ k)"
proof -
  have m: "push_bit k 1 - 1 = (mask k :: 32 word)" by (simp add: mask_eq_exp_minus_1 push_bit_eq_mult)
  assume "n < 2 ^ 32"
  then have "unat (take_bit k (word_of_nat n :: 32 word)) = n mod 2 ^ k"
    unfolding unsigned_take_bit_eq unsigned_of_nat by (simp add: take_bit_eq_mod)
  then show ?thesis unfolding m by (simp only: word_eq_of_unat flip: take_bit_eq_mask)
qed

lemma word_odd_of_nat: "(word_of_nat n :: 32 word) AND 1 \<noteq> 0 \<longleftrightarrow> odd n"
proof -
  have "unat ((word_of_nat n :: 32 word) AND 1) = n mod 2"
    unfolding unsigned_and_eq unsigned_of_nat by (simp add: and_one_eq take_bit_eq_mod mod_mod_cancel)
  then show ?thesis by (metis odd_iff_mod_2_eq_one unat_eq_0 zero_neq_one not_mod_2_eq_0_eq_1)
qed

lemma rne_word:
  assumes "n < 2 ^ 31" "0 < k" "k < 32"
  defines "h \<equiv> drop_bit k (word_of_nat n :: 32 word)" and "r \<equiv> (word_of_nat n :: 32 word) AND (push_bit k 1 - 1)"
  shows "(if r > push_bit (k - 1) 1 \<or> r = push_bit (k - 1) 1 \<and> h AND 1 \<noteq> 0 then h + 1 else h) = word_of_nat (rne_div n k)"
proof -
  have n: "n < 2 ^ 32" using assms by simp
  have h: "h = word_of_nat (n div 2 ^ k)" unfolding h_def by (rule word_drop_of_nat [OF n])
  have r: "r = word_of_nat (n mod 2 ^ k)" unfolding r_def by (rule word_mask_of_nat [OF n])
  have "n mod 2 ^ k < 2 ^ k" by simp
  also have "(2 :: nat) ^ k < 2 ^ 32" using assms(3) by (intro power_strict_increasing) simp_all
  finally have ur: "unat r = n mod 2 ^ k" unfolding r by (simp add: unsigned_of_nat take_bit_eq_mod)
  have up: "unat (push_bit (k - 1) 1 :: 32 word) = 2 ^ (k - 1)"
  proof -
    have "(2 :: nat) ^ (k - 1) < 2 ^ 32" using assms(3) by (intro power_strict_increasing) simp_all
    then show ?thesis unfolding unsigned_push_bit_eq by (simp add: push_bit_eq_mult take_bit_eq_mod)
  qed
  have c: "r > push_bit (k - 1) 1 \<longleftrightarrow> 2 ^ (k - 1) < n mod 2 ^ k" "r = push_bit (k - 1) 1 \<longleftrightarrow> n mod 2 ^ k = 2 ^ (k - 1)"
    unfolding word_less_nat_alt word_unat_eq_iff ur up by auto
  show ?thesis
    unfolding rne_div_def Let_def c h word_odd_of_nat by (simp add: add.commute)
qed


lemma rne_div_add: "0 < k \<Longrightarrow> rne_div (a * 2 ^ (k + 1) + n) k = 2 * a + rne_div n k"
proof -
  assume "0 < k"
  have "a * 2 ^ (k + 1) + n = (2 * a) * 2 ^ k + n" by simp
  then have "(a * 2 ^ (k + 1) + n) div 2 ^ k = 2 * a + n div 2 ^ k" "(a * 2 ^ (k + 1) + n) mod 2 ^ k = n mod 2 ^ k"
    by (simp_all only: div_mult_self3 mod_mult_self3) simp_all
  then show ?thesis by (simp add: rne_div_def Let_def)
qed

lemma rne_div_bounds: "n div 2 ^ k \<le> rne_div n k" "rne_div n k \<le> n div 2 ^ k + 1"
  by (auto simp: rne_div_def Let_def)

lemma soft_tiny:
  assumes "s < 2" "e \<le> 101" "m < 2 ^ 23"
  shows "f32_to_f16_soft (pack32 s e m) = word_of_nat (s * 2 ^ 15)"
  using f32_parts [of s e m] assms ucast_sign_or [of s 0]
  by (simp add: f32_to_f16_soft_def Let_def)

lemma soft_subnormal:
  assumes "s < 2" "101 < e" "e \<le> 112" "m < 2 ^ 23"
  shows "f32_to_f16_soft (pack32 s e m) = word_of_nat (s * 2 ^ 15 + rne_div (2 ^ 23 + m) (126 - e))"
proof -
  have e: "e < 2 ^ 8" using assms by simp
  note p = f32_parts [OF assms(1) e assms(4)]
  have sh: "nat (14 - (int e - 112)) = 126 - e" "int e - 127 + 15 = int e - 112" using assms by auto
  have mo: "word_of_nat m OR 0x800000 = (word_of_nat (2 ^ 23 + m) :: 32 word)"
    using word_or_of_nat [of m "2 ^ 23", where 'a = 32] nat_or_disjoint [OF assms(4), of 1] by (simp add: or.commute)
  define k where "k = 126 - e"
  have k: "0 < k" "k < 32" "14 \<le> k" using assms by (auto simp: k_def)
  have n: "2 ^ 23 + m < (2 :: nat) ^ 31" using assms by simp
  have "(2 ^ 23 + m) div 2 ^ k \<le> (2 ^ 23 + m) div 2 ^ 14"
    using k power_increasing [of 14 k "2 :: nat"] by (intro div_le_mono2) auto
  also have "\<dots> < 2 ^ 10" using assms by simp
  finally have lt: "rne_div (2 ^ 23 + m) k < 2 ^ 15"
    using rne_div_bounds(2) [of "2 ^ 23 + m" k] by simp
  have c: "\<not> (31 \<le> int e - 112)" "int e - 112 \<le> 0" "\<not> (int e - 112 < - 10)" using assms by auto
  show ?thesis
    unfolding f32_to_f16_soft_def Let_def p(2) [unfolded diff_diff_eq] 
    by (simp only: p c sh mo k_def [symmetric] rne_word [OF n k(1,2)] if_False if_True ucast_sign_or [OF assms(1) lt])
qed


lemma soft_normal:
  assumes "s < 2" "112 < e" "e < 143" "m < 2 ^ 23"
  shows "f32_to_f16_soft (pack32 s e m) = word_of_nat (s * 2 ^ 15 + ((e - 113) * 1024 + rne_div (2 ^ 23 + m) 13))"
proof -
  have e: "e < 2 ^ 8" using assms by simp
  note p = f32_parts [OF assms(1) e assms(4)]
  define n where "n = (e - 112) * 2 ^ 23 + m"
  have n: "n < 2 ^ 31"
  proof -
    have "n < (e - 112 + 1) * 2 ^ 23" using assms by (simp add: n_def)
    also have "\<dots> \<le> 31 * 2 ^ 23" using assms by (intro mult_le_mono1) auto
    finally show ?thesis by simp
  qed
  have "n = (e - 112) * 2 ^ 10 * 2 ^ 13 + m" by (simp add: n_def)
  then have nd: "n div 2 ^ 13 = (e - 112) * 2 ^ 10 + m div 2 ^ 13" "n mod 2 ^ 13 = m mod 2 ^ 13"
    by (simp_all only: div_mult_self3 mod_mult_self3) simp_all
  have md: "m div 2 ^ 13 < 2 ^ 10" using assms by simp
  have w: "word_of_int (int e - 112) = (word_of_nat (e - 112) :: 32 word)" using assms by (simp add: of_nat_diff)
  have h: "push_bit 10 (word_of_int (int e - 112)) OR drop_bit 13 (word_of_nat m) = drop_bit 13 (word_of_nat n :: 32 word)"
  proof -
    have "push_bit 10 (word_of_nat (e - 112) :: 32 word) = word_of_nat ((e - 112) * 2 ^ 10)"
      by (simp add: push_bit_eq_mult mult.commute)
    moreover have "drop_bit 13 (word_of_nat m :: 32 word) = word_of_nat (m div 2 ^ 13)"
      using assms by (intro word_drop_of_nat) simp
    moreover have "drop_bit 13 (word_of_nat n :: 32 word) = word_of_nat (n div 2 ^ 13)"
      using n by (intro word_drop_of_nat) simp
    ultimately show ?thesis
      by (simp only: w nd(1) word_or_of_nat nat_or_disjoint [OF md])
  qed
  have rm: "(word_of_nat m :: 32 word) AND 0x1FFF = word_of_nat n AND (push_bit 13 1 - 1)"
    using word_mask_of_nat [of m 13] word_mask_of_nat [of n 13] n assms nd(2) by (simp add: push_bit_eq_mult)
  have half: "(0x1000 :: 32 word) = push_bit (13 - 1) 1" by (simp add: push_bit_eq_mult)
  have rd: "rne_div n 13 = (e - 113) * 1024 + rne_div (2 ^ 23 + m) 13"
  proof -
    have "n = ((e - 113) * 2 ^ 9) * 2 ^ (13 + 1) + (2 ^ 23 + m)"
      using assms by (cases "e - 112") (auto simp: n_def)
    then show ?thesis by (simp only: rne_div_add) simp
  qed
  have lt: "rne_div n 13 < 2 ^ 15"
  proof -
    have "n div 2 ^ 13 \<le> 30 * 2 ^ 10 + m div 2 ^ 13" using assms unfolding nd by simp
    then show ?thesis using rne_div_bounds(2) [of n 13] md by simp
  qed
  have c: "\<not> (31 \<le> int e - 112)" "\<not> (int e - 112 \<le> 0)" using assms by auto
  show ?thesis
    unfolding f32_to_f16_soft_def Let_def rd [symmetric]
    by (simp only: p c if_False h rm half rne_word [OF n, of 13, simplified] zero_less_numeral numeral_less_iff ucast_sign_or [OF assms(1) lt])
       (use rne_word [OF n, of 13] ucast_sign_or [OF assms(1) lt] in simp)
qed

lemma or_512: "a < 1024 \<Longrightarrow> (a OR 512 :: nat) < 1024" "(a OR 512 :: nat) \<noteq> 0"
proof -
  assume "a < 1024"
  then have "take_bit 10 (a OR 512) = a OR 512" by (simp add: take_bit_or take_bit_nat_eq_self)
  moreover have "take_bit 10 (a OR 512 :: nat) < 2 ^ 10" by (rule take_bit_nat_less_exp)
  ultimately show "a OR 512 < 1024" by simp
next
  show "a OR 512 \<noteq> 0" by (metis or_eq_0_iff zero_neq_numeral)
qed

lemma soft_special:
  assumes "s < 2" "143 \<le> e" "e < 2 ^ 8" "m < 2 ^ 23"
  shows "f32_to_f16_soft (pack32 s e m) =
    word_of_nat (s * 2 ^ 15 + (31 * 1024 + (if e = 255 \<and> m \<noteq> 0 then m div 2 ^ 13 OR 512 else 0)))"
proof -
  note p = f32_parts [OF assms(1,3,4)]
  have "unat (word_of_nat m :: 32 word) = m" using assms(4) by (simp add: unsigned_of_nat take_bit_eq_mod)
  then have m0: "(word_of_nat m :: 32 word) \<noteq> 0 \<longleftrightarrow> m \<noteq> 0" by (metis unat_eq_zero unsigned_0)
  have d: "drop_bit 13 (word_of_nat m :: 32 word) = word_of_nat (m div 2 ^ 13)"
    using assms by (intro word_drop_of_nat) simp
  have lt: "(m div 2 ^ 13) OR 512 < 1024" using assms(4) by (intro or_512) simp
  have "(0x7C00 :: 32 word) OR word_of_nat (m div 2 ^ 13) OR 0x200 = word_of_nat (31 * 1024 + (m div 2 ^ 13 OR 512))"
    using word_or_of_nat [of "31 * 1024" "m div 2 ^ 13 OR 512", where 'a = 32]
      word_or_of_nat [of "m div 2 ^ 13" 512, where 'a = 32] nat_or_disjoint [of _ 10 31] lt
    by (simp add: or.assoc)
  then have nan: "word_of_nat (s * 2 ^ 15) OR 0x7C00 OR word_of_nat (m div 2 ^ 13) OR (0x200 :: 32 word) =
      word_of_nat (s * 2 ^ 15) OR word_of_nat (31 * 1024 + (m div 2 ^ 13 OR 512))"
    by (simp only: or.assoc)
  have inf: "(0x7C00 :: 32 word) = word_of_nat (31 * 1024 + 0)" by simp
  have c: "31 \<le> int e - 112" "int e - 112 = 143 \<longleftrightarrow> e = 255" using assms by auto
  have u: "ucast (word_of_nat (s * 2 ^ 15) OR word_of_nat (31 * 1024 + (m div 2 ^ 13 OR 512)) :: 32 word) =
      (word_of_nat (s * 2 ^ 15 + (31 * 1024 + (m div 2 ^ 13 OR 512))) :: 16 word)"
    "ucast (word_of_nat (s * 2 ^ 15) OR word_of_nat (31 * 1024 + 0) :: 32 word) =
      (word_of_nat (s * 2 ^ 15 + (31 * 1024 + 0)) :: 16 word)"
    using lt by (intro ucast_sign_or assms(1); simp)+
  have soft: "f32_to_f16_soft (pack32 s e m) =
    (if e = 255 \<and> m \<noteq> 0 then ucast (word_of_nat (s * 2 ^ 15) OR 0x7C00 OR word_of_nat (m div 2 ^ 13) OR (0x200 :: 32 word))
     else ucast (word_of_nat (s * 2 ^ 15) OR (0x7C00 :: 32 word)))"
    unfolding f32_to_f16_soft_def Let_def by (simp only: p c if_True m0 d)
  show ?thesis
    unfolding soft nan unfolding inf u by simp
qed


text \<open>The reference rounding of a single-precision magnitude.\<close>

lemma round_to_sign: "round_to p l (fsign s * q) = fsign s * round_to p l q"
  by (simp add: fsign_def round_to_minus)

lemma round_to_small:
  assumes "0 \<le> q" "q < pow2 (l - 1)" "0 \<le> p"
  shows "round_to p l q = 0"
proof (cases "q = 0")
  case True
  have "round_even 0 = 0" using round_even_of_int [of 0] by simp
  then show ?thesis using True by (simp add: round_to_def Let_def)
next
  case False
  then have q: "0 < q" using assms by simp
  have "pow2 (ilog2 q) < pow2 (l - 1)" using ilog2_bounds [OF q] assms(2) by linarith
  then have u: "max (ilog2 \<bar>q\<bar> - p) l = l" using q assms(3) by (simp add: pow2_less)
  have h: "pow2 l = 2 * pow2 (l - 1)" using pow2_1 [of "l - 1"] by simp
  have "q / pow2 l < 1 / 2" using assms(2) pow2_pos [of "l - 1"] unfolding h by (simp add: divide_less_eq)
  moreover have "0 \<le> q / pow2 l" using q pow2_pos [of l] by simp
  ultimately have "\<lfloor>q / pow2 l\<rfloor> = 0" by (intro floor_unique; linarith)
  then have "round_even (q / pow2 l) = 0" using \<open>q / pow2 l < 1 / 2\<close> by (simp add: round_even_def)
  then show ?thesis using False u by (simp add: round_to_def Let_def)
qed

lemma ilog2_normal:
  assumes "m < 2 ^ 23"
  shows "ilog2 (of_nat (2 ^ 23 + m) * pow2 a) = a + 23"
proof (rule ilog2_eqI)
  have p: "pow2 (a + 23) = 2 ^ 23 * pow2 a" "pow2 (a + 23 + 1) = 2 ^ 24 * pow2 a"
    using pow2_nat [of 23] pow2_nat [of 24] by (simp_all add: pow2_add [of a] add.assoc)
  show "pow2 (a + 23) \<le> of_nat (2 ^ 23 + m) * pow2 a"
    unfolding p by (rule mult_right_mono) (use pow2_pos [of a] in auto)
  have "rat_of_nat (2 ^ 23 + m) < of_nat (2 ^ 24)" using assms by (subst of_nat_less_iff) simp
  then show "of_nat (2 ^ 23 + m) * pow2 a < pow2 (a + 23 + 1)"
    unfolding p by (intro mult_strict_right_mono) (use pow2_pos [of a] in auto)
qed

lemma round_to_scaled:
  assumes "0 < n" "max (ilog2 (of_nat n * pow2 a) - p) l = a + int k" "0 < k"
  shows "round_to p l (of_nat n * pow2 a) = of_nat (rne_div n k) * pow2 (a + int k)"
proof -
  have pos: "0 < of_nat n * pow2 a" using assms(1) pow2_pos [of a] by simp
  have "of_nat n * pow2 a / pow2 (a + int k) = of_nat n / 2 ^ k"
    using pow2_pos [of a] by (simp add: pow2_add pow2_nat)
  then show ?thesis
    using assms(2) rne_div_round_even [OF assms(3), of n]
    unfolding round_to_def Let_def abs_of_pos [OF pos] if_not_P [OF pos [THEN less_imp_neq, symmetric]] by simp
qed

lemma scaled_threshold:
  assumes "e \<le> 29" "r \<le> 2048"
  shows "rat_of_nat r * pow2 (int e - 24) < 65536 \<longleftrightarrow> \<not> (e = 29 \<and> r = 2048)"
proof (cases "e = 29")
  case True
  then show ?thesis using assms pow2_nat [of 5] by auto
next
  case False
  then have "pow2 (int e - 24) \<le> pow2 (int 4)" using assms by (simp add: pow2_le_iff)
  then have "rat_of_nat r * pow2 (int e - 24) \<le> 2048 * 16"
    using assms(2) pow2_nat [of 4] pow2_pos [of "int e - 24"] by (intro mult_mono) auto
  then show ?thesis using False by simp
qed

lemma soft_rounds:
  fixes u :: "32 word"
  defines "h \<equiv> f32_to_f16_soft u" and "r \<equiv> round_to 10 (- 24) (f32_val u)"
  shows "f16_sgn h = f32_sgn u \<and>
    (if f32_exp u = 255 then f16_exp h = 31 \<and> (f16_frac h = 0 \<longleftrightarrow> f32_frac u = 0)
     else if \<bar>r\<bar> < 65536 then f16_exp h \<noteq> 31 \<and> f16_val h = r
     else f16_exp h = 31 \<and> f16_frac h = 0)"
proof -
  obtain s e m where u: "u = pack32 s e m" and lt: "s < 2" "e < 2 ^ 8" "m < 2 ^ 23"
    by (rule word32_cases [of u]) auto
  note f = f32_fields [OF lt, folded u]
  define v where "v = (if e = 0 then of_nat m * pow2 (- 149) else of_nat (2 ^ 23 + m) * pow2 (int e - 150))"
  have v: "f32_val u = fsign s * v" unfolding f32_val_def f v_def ..
  have r: "r = fsign s * round_to 10 (- 24) v" unfolding r_def v by (rule round_to_sign)
  have ar: "\<bar>fsign s * x\<bar> = \<bar>x\<bar>" for x by (simp add: fsign_def)
  consider "143 \<le> e" | "112 < e" "e < 143" | "101 < e" "e \<le> 112" | "e \<le> 101" by linarith
  then show ?thesis
  proof cases
    case 1
    define x where "x = (if e = 255 \<and> m \<noteq> 0 then m div 2 ^ 13 OR 512 else 0)"
    have x: "x < 1024" "x = 0 \<longleftrightarrow> \<not> (e = 255 \<and> m \<noteq> 0)"
      using or_512 [of "m div 2 ^ 13"] lt(3) unfolding x_def by auto
    have h: "h = word_of_nat (s * 2 ^ 15 + (31 * 1024 + x))"
      unfolding h_def u soft_special [OF lt(1) 1 lt(2,3)] x_def ..
    have d: "(31 * 1024 + x) div 1024 = 31" "(31 * 1024 + x) mod 1024 = x"
      using x(1) by (simp_all only: div_mult_self3 mod_mult_self3) simp_all
    have "31 * 1024 + x < 32 * 1024" using x(1) by simp
    then have o: "f16_sgn h = s" "f16_exp h = 31" "f16_frac h = x"
      unfolding h using ord_fields(1-3) [OF lt(1), of "31 * 1024 + x"] unfolding d by blast+
    have "\<not> \<bar>r\<bar> < 65536" if "e \<noteq> 255"
    proof -
      have "ilog2 v = int e - 127" unfolding v_def using 1 ilog2_normal [OF lt(3), of "int e - 150"] by simp
      then have "round_to 10 (- 24) v = of_nat (rne_div (2 ^ 23 + m) 13) * pow2 (int e - 137)"
        using round_to_scaled [of "2 ^ 23 + m" "int e - 150" 10 "- 24" 13] 1 unfolding v_def by simp
      moreover have "1024 \<le> rne_div (2 ^ 23 + m) 13" using rne_div_bounds(1) [of "2 ^ 23 + m" 13] by simp
      moreover have "pow2 (int 6) \<le> pow2 (int e - 137)" using 1 by (simp add: pow2_le_iff)
      ultimately have "1024 * 64 \<le> round_to 10 (- 24) v"
        using pow2_nat [of 6] by (simp only:) (intro mult_mono; simp)
      then show ?thesis by (simp add: r ar)
    qed
    then show ?thesis using o f x by auto
  next
    case 2
    define k where "k = e - 113"
    define q where "q = rne_div (2 ^ 23 + m) 13"
    have q: "1024 \<le> q" "q \<le> 2048"
      using rne_div_bounds [of "2 ^ 23 + m" 13] lt(3) unfolding q_def by auto
    have k: "k \<le> 29" using 2 by (simp add: k_def)
    have h: "h = word_of_nat (s * 2 ^ 15 + (k * 1024 + q))"
      unfolding h_def u soft_normal [OF lt(1) 2 lt(3)] k_def q_def ..
    have o: "f16_sgn h = s" "f16_exp h = (k * 1024 + q) div 1024" "f16_frac h = (k * 1024 + q) mod 1024"
      "f16_val h = fsign s * (of_nat q * pow2 (int k - 24))"
      unfolding h using ord_fields [OF lt(1), of "k * 1024 + q"] q k ord_val_scaled [OF q, of k] by simp_all
    have "ilog2 v = int e - 127" unfolding v_def using 2 ilog2_normal [OF lt(3), of "int e - 150"] by simp
    then have rv: "round_to 10 (- 24) v = of_nat q * pow2 (int k - 24)"
      using round_to_scaled [of "2 ^ 23 + m" "int e - 150" 10 "- 24" 13] 2
      unfolding v_def q_def k_def by (simp add: of_nat_diff)
    have "\<bar>r\<bar> < 65536 \<longleftrightarrow> \<not> (k = 29 \<and> q = 2048)"
      unfolding r ar rv using scaled_threshold [OF k q(2)] pow2_pos [of "int k - 24"] by (simp add: abs_mult)
    moreover have "(k * 1024 + q) div 1024 = 31 \<longleftrightarrow> k = 29 \<and> q = 2048" using k q by auto
    ultimately show ?thesis using o f 2 rv r by auto
  next
    case 3
    define q where "q = rne_div (2 ^ 23 + m) (126 - e)"
    have "(2 ^ 23 + m) div 2 ^ (126 - e) \<le> (2 ^ 23 + m) div 2 ^ 14"
      using 3 power_increasing [of 14 "126 - e" "2 :: nat"] by (intro div_le_mono2) auto
    also have "\<dots> < 1024" using lt(3) by simp
    finally have q: "q \<le> 1024" using rne_div_bounds(2) [of "2 ^ 23 + m" "126 - e"] unfolding q_def by simp
    have h: "h = word_of_nat (s * 2 ^ 15 + q)"
      unfolding h_def u soft_subnormal [OF lt(1) 3 lt(3)] q_def ..
    have o: "f16_sgn h = s" "f16_exp h = q div 1024" "f16_val h = fsign s * (of_nat q * pow2 (- 24))"
      unfolding h using ord_fields [OF lt(1), of q] q ord_val_small [OF q] by simp_all
    have "ilog2 v = int e - 127" unfolding v_def using 3 ilog2_normal [OF lt(3), of "int e - 150"] by simp
    then have rv: "round_to 10 (- 24) v = of_nat q * pow2 (- 24)"
      using round_to_scaled [of "2 ^ 23 + m" "int e - 150" 10 "- 24" "126 - e"] 3
      unfolding v_def q_def by (simp add: of_nat_diff)
    have "rat_of_nat q * pow2 (- 24) \<le> 1024 * 1"
      using q by (intro mult_mono) (auto simp: pow2_def)
    then have "\<bar>r\<bar> < 65536" unfolding r ar rv using pow2_pos [of "- 24"] by (simp add: abs_mult)
    moreover have "q div 1024 \<noteq> 31" using q by auto
    ultimately show ?thesis using o f 3 rv r by auto
  next
    case 4
    have h: "h = word_of_nat (s * 2 ^ 15 + 0)"
      unfolding h_def u soft_tiny [OF lt(1) 4 lt(3)] by simp
    have o: "f16_sgn h = s" "f16_exp h = 0" "f16_val h = 0"
      unfolding h using ord_fields [OF lt(1), of 0] by (simp_all add: ord_val_def)
    have "0 \<le> v" unfolding v_def using pow2_pos [of "- 149"] pow2_pos [of "int e - 150"] by simp
    moreover have "v < pow2 (- 24 - 1)"
    proof (cases "e = 0")
      case True
      have "rat_of_nat m * pow2 (- 149) < 2 ^ 23 * pow2 (- 149)"
        using lt(3) pow2_pos [of "- 149"] by (intro mult_strict_right_mono) (simp_all add: of_nat_less_iff [of _ "2 ^ 23", simplified])
      also have "\<dots> = pow2 (- 126)" using pow2_nat [of 23] pow2_add [of 23 "- 149"] by simp
      also have "\<dots> < pow2 (- 24 - 1)" by (simp only: pow2_less)
      finally show ?thesis using True by (simp add: v_def)
    next
      case False
      have "v < pow2 (ilog2 v + 1)"
        using ilog2_bounds [of v] pow2_pos [of "int e - 150"] False by (simp add: v_def)
      also have "ilog2 v = int e - 127" unfolding v_def using False ilog2_normal [OF lt(3), of "int e - 150"] by simp
      also have "pow2 (int e - 127 + 1) \<le> pow2 (- 24 - 1)" using 4 by (simp add: pow2_le_iff)
      finally show ?thesis .
    qed
    ultimately have "round_to 10 (- 24) v = 0" by (intro round_to_small) auto
    then show ?thesis using o f 4 r by simp
  qed
qed


subsection \<open>Widening\<close>

lemma f64_of_f32_val:
  assumes "f32_exp u \<noteq> 255"
  shows "f64_val (f64_of_f32 u) = f32_val u" and "f64_exp (f64_of_f32 u) \<noteq> 2047"
    and "f64_sgn (f64_of_f32 u) = f32_sgn u"
proof -
  obtain s e m where u: "u = pack32 s e m" and lt: "s < 2" "e < 2 ^ 8" "m < 2 ^ 23"
    by (rule word32_cases [of u]) auto
  note f = f32_fields [OF lt, folded u]
  define k where "k = floorlog 2 m - 1"
  define E where "E = (if e = 0 then if m = 0 then 0 else k + 874 else e + 896)"
  define M where "M = (if e = 0 then if m = 0 then 0 else (m - 2 ^ k) * 2 ^ (52 - k) else m * 2 ^ 29)"
  have k: "2 ^ k \<le> m" "m < 2 ^ (k + 1)" "k < 23" if "m \<noteq> 0"
  proof -
    have b: "2 ^ (floorlog 2 m - 1) \<le> m" "m < 2 ^ floorlog 2 m"
      using floorlog_bounds [of m 2] that by auto
    moreover have fl: "0 < floorlog 2 m" using that by (simp add: floorlog_def)
    ultimately show kb: "2 ^ k \<le> m" "m < 2 ^ (k + 1)" by (simp_all add: k_def)
    have "(2 :: nat) ^ k < 2 ^ 23" using kb(1) lt(3) by linarith
    then show "k < 23" using power_less_imp_less_exp [of "2 :: nat" k 23] by simp
  qed
  have M: "M < 2 ^ 52"
  proof (cases "e = 0 \<and> m \<noteq> 0")
    case True
    then have "m - 2 ^ k < 2 ^ k" using k by simp
    then have "(m - 2 ^ k) * 2 ^ (52 - k) < 2 ^ k * 2 ^ (52 - k)" by simp
    also have "\<dots> = 2 ^ 52" using k True by (simp flip: power_add)
    finally show ?thesis using True by (simp add: M_def)
  next
    case False
    then show ?thesis using lt(3) by (auto simp: M_def)
  qed
  have E: "E < 2 ^ 11" "E \<noteq> 2047" using k(3) lt(2) assms f by (auto simp: E_def)
  have p: "f64_of_f32 u = pack64 s E M"
    unfolding f64_of_f32_def Let_def f k_def [symmetric] using assms f
    by (intro arg_cong [where f = word_of_nat]) (auto simp: fpack_def E_def M_def add_mult_distrib)
  note g = f64_fields [OF lt(1) E(1) M, folded p]
  show "f64_exp (f64_of_f32 u) \<noteq> 2047" "f64_sgn (f64_of_f32 u) = f32_sgn u" using g f E(2) by auto
  have "(if E = 0 then of_nat M * pow2 (- 1074) else of_nat (2 ^ 52 + M) * pow2 (int E - 1075)) =
      (if e = 0 then of_nat m * pow2 (- 149) else of_nat (2 ^ 23 + m) * pow2 (int e - 150))"
  proof (cases "e = 0")
    case False
    then show ?thesis
      using rat_mult_pow2 [of "2 ^ 23 + m" 29 "int e - 179"] by (simp add: E_def M_def algebra_simps)
  next
    case True
    show ?thesis
    proof (cases "m = 0")
      case True
      then show ?thesis using \<open>e = 0\<close> by (simp add: E_def M_def)
    next
      case False
      have s: "2 ^ k * 2 ^ (52 - k) = (2 :: nat) ^ 52" using k(3) [OF False] by (simp flip: power_add)
      have "2 ^ 52 + (m - 2 ^ k) * 2 ^ (52 - k) = m * 2 ^ (52 - k)"
        unfolding s [symmetric] using k(1) [OF False] by (simp add: diff_mult_distrib)
      then show ?thesis
        using True False rat_mult_pow2 [of m "52 - k" "int k - 201"] k(3) [OF False]
        by (simp add: E_def M_def of_nat_diff algebra_simps)
    qed
  qed
  then show "f64_val (f64_of_f32 u) = f32_val u" unfolding f64_val_def f32_val_def g f by simp
qed


subsection \<open>Properties\<close>

text \<open>
  C21. \<open>f16_decode\<close> always returns (its normalising loop ends) and is exact: a finite half
  becomes a finite single of the same sign and value, infinities and NaNs stay what they are
  with their payload.
\<close>

theorem f16_decode_exact:
  "\<exists>u. f16_decode h = Some u \<and> f32_sgn u = f16_sgn h \<and>
     (if f16_exp h = 31 then f32_exp u = 255 \<and> f32_frac u = f16_frac h * 2 ^ 13
      else f32_exp u \<noteq> 255 \<and> f32_val u = f16_val h)"
  by (rule f16_decode_value)

text \<open>
  C22. The bit manipulation of \<open>f32_to_f16_soft\<close> is IEEE rounding to nearest, ties to even, onto
  the half-precision grid (11 significant bits, last place at least 2^-24): the sign is kept,
  NaN stays NaN, infinity stays infinity, a value that rounds to 65536 or more becomes infinity,
  and every other value becomes exactly its rounded value.
\<close>

theorem f32_to_f16_nearest:
  "f16_sgn (f32_to_f16_soft u) = f32_sgn u \<and>
    (if f32_exp u = 255 then f16_exp (f32_to_f16_soft u) = 31 \<and>
       (f16_frac (f32_to_f16_soft u) = 0 \<longleftrightarrow> f32_frac u = 0)
     else if \<bar>round_to 10 (- 24) (f32_val u)\<bar> < 65536
     then f16_exp (f32_to_f16_soft u) \<noteq> 31 \<and> f16_val (f32_to_f16_soft u) = round_to 10 (- 24) (f32_val u)
     else f16_exp (f32_to_f16_soft u) = 31 \<and> f16_frac (f32_to_f16_soft u) = 0)"
  by (rule soft_rounds)

end
