(* ===== verification/Gguf_Laws.thy ===== *)
theory Gguf_Laws
  imports Gguf Fp16_Laws
begin

text \<open>
  Laws of the GGUF reader: the checked arithmetic is exact, the duplicate check is exact, every
  metadata value satisfies \<open>kv_inv\<close>, every tensor of an opened model lies inside a mapping
  (single file and split model), the header-only reader accepts what the full reader accepts,
  and the integer getters return the number the metadata holds or the default.
\<close>


subsection \<open>Words\<close>

lemma UINT64_MAX_unat [simp]: "unat UINT64_MAX = 2 ^ 64 - 1"
  by (simp add: UINT64_MAX_def unsigned_minus_1_eq_mask mask_eq_exp_minus_1)

lemma checked_add_unat:
  "checked_u64_add a b = Some c \<longleftrightarrow> unat a + unat b < 2 ^ 64 \<and> unat c = unat a + unat b"
proof -
  have m: "unat (UINT64_MAX - a) = 2 ^ 64 - 1 - unat a"
    unfolding UINT64_MAX_unat [symmetric] by (rule unat_sub) (simp add: UINT64_MAX_def)
  have la: "unat a < 2 ^ 64" using unsigned_less [of a, where ?'a = nat] by simp
  have "unat (a + b) = unat a + unat b" if "unat a + unat b < 2 ^ 64"
    using that by (simp add: unat_word_ariths)
  then show ?thesis
    using la by (auto simp: checked_u64_add_def word_less_nat_alt m word_unat_eq_iff not_less)
qed

lemma checked_mul_unat:
  "checked_u64_mul a b = Some c \<longleftrightarrow> unat a * unat b < 2 ^ 64 \<and> unat c = unat a * unat b"
proof -
  have e: "unat (a * b) = unat a * unat b" if "unat a * unat b < 2 ^ 64"
    using that by (simp add: unat_word_ariths)
  have d: "(a \<noteq> 0 \<and> b > UINT64_MAX div a) \<longleftrightarrow> \<not> unat a * unat b < 2 ^ 64"
  proof (cases "unat a = 0")
    case True
    then show ?thesis by (simp add: unat_eq_zero)
  next
    case False
    have "unat (UINT64_MAX div a) = (2 ^ 64 - 1) div unat a" by (simp add: unat_div)
    moreover have "(2 ^ 64 - 1) div unat a < unat b \<longleftrightarrow> 2 ^ 64 - 1 < unat a * unat b"
      using False by (simp add: div_less_iff_less_mult mult.commute)
    ultimately show ?thesis using False by (auto simp: word_less_nat_alt unat_eq_zero)
  qed
  show ?thesis unfolding checked_u64_mul_def d using e by (auto simp: word_unat_eq_iff)
qed

subsection \<open>Duplicates\<close>

lemma adjacent_equal_distinct: "sorted s \<Longrightarrow> adjacent_equal s = None \<longleftrightarrow> distinct s"
proof (induction s rule: adjacent_equal.induct)
  case (1 a b s)
  then show ?case by (cases "a = b") (auto dest: antisym)
qed auto

lemma first_duplicate_distinct: "first_duplicate_inplace s = None \<longleftrightarrow> distinct s"
proof (cases "length s < 2")
  case True
  then show ?thesis by (cases s) (auto simp: first_duplicate_inplace_def)
next
  case False
  then show ?thesis by (simp add: first_duplicate_inplace_def adjacent_equal_distinct)
qed

lemma adjacent_equal_member: "adjacent_equal s = Some d \<Longrightarrow> d \<in> set s"
  by (induction s rule: adjacent_equal.induct) (auto split: if_splits)

subsection \<open>Metadata invariants\<close>

text \<open>What every value the reader built satisfies: an array of scalars lies inside the mapping,
  and the union of a floating-point value holds the number its bits denote.\<close>

definition kv_inv :: "gguf_kv \<Rightarrow> bool" where
  "kv_inv kv \<longleftrightarrow>
     (kv_type kv = GGUF_T_ARR \<longrightarrow>
        (case kv_arr_raw kv of
           None \<Rightarrow> True
         | Some p \<Rightarrow> gguf_scalar_size (kv_arr_type kv) * unat (kv_arr_n kv) < 2 ^ 64 \<and>
             gguf_scalar_size (kv_arr_type kv) * unat (kv_arr_n kv) \<le> length p)) \<and>
     (kv_type kv = GGUF_T_F32 \<longrightarrow> kv_v kv = f64_of_f32 (ucast (kv_raw kv))) \<and>
     (kv_type kv = GGUF_T_F64 \<longrightarrow> kv_v kv = kv_raw kv)"

lemma need_ok: "need c n = (True, c') \<Longrightarrow> c' = c \<and> n \<le> length (c_rest c) \<and> c_ok c"
  by (auto simp: need_def split: if_splits)

lemma rd_arr_inv:
  assumes "rd_arr c kv = Some (kv', c')" "kv_type kv = GGUF_T_ARR" "kv_arr_raw kv = None"
  shows "kv_inv kv'"
proof -
  obtain aty c1 where 1: "rd_u32 c = (aty, c1)" by (cases "rd_u32 c")
  obtain cnt c2 where 2: "rd_u64 c1 = (cnt, c2)" by (cases "rd_u64 c1")
  show ?thesis
  proof (cases "aty = GGUF_T_STR")
    case True
    then show ?thesis using assms 1 2
      by (auto simp: rd_arr_def Let_def kv_inv_def split: if_splits option.splits)
  next
    case False
    define es where "es = gguf_scalar_size aty"
    have es: "es < 2 ^ 64" by (auto simp: es_def gguf_scalar_size_def)
    obtain b c3 where n: "need c2 (es * unat cnt) = (b, c3)" by (cases "need c2 (es * unat cnt)")
    from assms(1) 1 2 False have r: "es \<noteq> 0" "\<not> cnt > UINT64_MAX div word_of_nat es" "b"
      "kv' = kv\<lparr>kv_arr_type := aty, kv_arr_n := cnt, kv_arr_raw := Some (c_rest c3)\<rparr>"
      by (auto simp: rd_arr_def Let_def es_def [symmetric] n split: if_splits bool.splits)
    from n r(3) have nk: "c3 = c2" "es * unat cnt \<le> length (c_rest c2)" using need_ok [of c2 _ c3] by auto
    have ue: "unat (word_of_nat es :: 64 word) = es" using es by (simp add: unsigned_of_nat take_bit_eq_mod)
    then have "unat (UINT64_MAX div word_of_nat es) = (2 ^ 64 - 1) div es" by (simp add: unat_div)
    then have "\<not> (2 ^ 64 - 1) div es < unat cnt" using r(2) by (simp add: word_less_nat_alt)
    then have "\<not> 2 ^ 64 - 1 < unat cnt * es" using r(1) by (simp add: div_less_iff_less_mult)
    then have "es * unat cnt < 2 ^ 64" by (simp add: mult.commute)
    then show ?thesis using r assms(2) nk by (simp add: kv_inv_def es_def)
  qed
qed

lemma ucast_raw: "ucast (ucast (x :: 32 word) :: 64 word) = x"
  by (rule bit_word_eqI) (simp add: bit_ucast_iff)

lemma rd_kv_value_inv:
  assumes "rd_kv_value c kv t = Some (kv', c')" "kv_type kv = t" "kv_arr_raw kv = None"
  shows "kv_inv kv'"
proof (cases "t = GGUF_T_ARR")
  case True
  then show ?thesis using assms rd_arr_inv
    by (auto simp: rd_kv_value_def split: option.splits if_splits)
next
  case False
  then show ?thesis using assms
    by (auto simp: rd_kv_value_def kv_inv_def ucast_raw split: option.splits if_splits prod.splits)
qed

lemma rd_kvs_inv: "rd_kvs n c = Inr (kvs, c') \<Longrightarrow> list_all kv_inv kvs"
proof (induction n arbitrary: c kvs)
  case (Suc n)
  then show ?case
    by (auto split: option.splits prod.splits sum.splits simp: kv_zero_def dest!: rd_kv_value_inv)
qed simp


subsection \<open>What opening one file establishes\<close>

lemma tensor_bytes_exact:
  assumes "tensor_bytes t = Some n"
  shows "unat n = unat (t_ne t ! 0) div ggml_block_size (t_type t) * ggml_type_size (t_type t) *
      (unat (t_ne t ! 1) * unat (t_ne t ! 2) * unat (t_ne t ! 3))"
    and "unat (t_ne t ! 0) mod ggml_block_size (t_type t) = 0"
proof -
  have b: "ggml_block_size (t_type t) < 2 ^ 64" "ggml_type_size (t_type t) < 2 ^ 64"
    by (auto simp: ggml_block_size_def ggml_type_size_def QK_def QK_K_def)
  have u: "unat (word_of_nat (ggml_block_size (t_type t)) :: 64 word) = ggml_block_size (t_type t)"
    "unat (word_of_nat (ggml_type_size (t_type t)) :: 64 word) = ggml_type_size (t_type t)"
    using b by (simp_all add: unsigned_of_nat take_bit_eq_mod)
  from assms obtain r rows rb where
    "checked_u64_mul (t_ne t ! 1) (t_ne t ! 2) = Some r" "checked_u64_mul r (t_ne t ! 3) = Some rows"
    "checked_u64_mul (t_ne t ! 0 div word_of_nat (ggml_block_size (t_type t))) (word_of_nat (ggml_type_size (t_type t))) = Some rb"
    "checked_u64_mul rb rows = Some n" and m: "t_ne t ! 0 mod word_of_nat (ggml_block_size (t_type t)) = 0"
    by (auto simp: tensor_bytes_def Let_def split: if_splits option.splits)
  then show "unat n = unat (t_ne t ! 0) div ggml_block_size (t_type t) * ggml_type_size (t_type t) *
      (unat (t_ne t ! 1) * unat (t_ne t ! 2) * unat (t_ne t ! 3))"
    unfolding checked_mul_unat unat_div u by simp
  show "unat (t_ne t ! 0) mod ggml_block_size (t_type t) = 0"
    using arg_cong [OF m, of unat] unfolding unat_mod u by simp
qed

text \<open>A usable tensor has its data inside a mapped file and its size is the product of its
  dimensions; any other has no data at all.\<close>

definition tensor_in_map :: "(string \<Rightarrow> string option) \<Rightarrow> gguf_tensor \<Rightarrow> string \<Rightarrow> bool" where
  "tensor_in_map fs t p \<longleftrightarrow>
     (\<exists>file off. t_data t = In_map p off \<and> fs p = Some file \<and> unat off + unat (t_nbytes t) \<le> length file) \<and>
     unat (t_ne t ! 0) mod ggml_block_size (t_type t) = 0 \<and>
     unat (t_nbytes t) = unat (t_ne t ! 0) div ggml_block_size (t_type t) * ggml_type_size (t_type t) *
       (unat (t_ne t ! 1) * unat (t_ne t ! 2) * unat (t_ne t ! 3))"

definition tensor_safe :: "(string \<Rightarrow> string option) \<Rightarrow> string set \<Rightarrow> gguf_tensor \<Rightarrow> bool" where
  "tensor_safe fs ps t \<longleftrightarrow>
     (if ggml_type_supported (t_type t) then \<exists>p\<in>ps. tensor_in_map fs t p
      else t_data t = Null \<and> t_nbytes t = 0)"

lemma fix_tensor_safe:
  assumes "fix_tensor False path (word_of_nat (length file)) ds t db = Inr (t', db')" "fs path = Some file"
    "length file < 2 ^ 64" "ds \<le> word_of_nat (length file)"
  shows "tensor_safe fs {path} t' \<and> t_name t' = t_name t"
proof (cases "ggml_type_supported (t_type t)")
  case True
  have ul: "unat (word_of_nat (length file) :: 64 word) = length file"
    using assms(3) by (simp add: unsigned_of_nat take_bit_eq_mod)
  define off where "off = (case t_data t of File_offset x \<Rightarrow> x | _ \<Rightarrow> 0)"
  from assms(1) True obtain n where n: "tensor_bytes t = Some n"
    "off \<le> word_of_nat (length file) - ds" "n \<le> word_of_nat (length file) - ds - off"
    "t' = t\<lparr>t_data := In_map path (ds + off), t_nbytes := n\<rparr>"
    by (auto simp: fix_tensor_def Let_def off_def [symmetric] split: option.splits if_splits)
  have a: "unat (word_of_nat (length file) - ds) = length file - unat ds" using unat_sub [OF assms(4)] ul by simp
  have b: "unat (word_of_nat (length file) - ds - off) = length file - unat ds - unat off" using unat_sub [OF n(2)] a by simp
  have "unat ds \<le> length file" using assms(4) ul by (simp add: word_le_nat_alt)
  moreover have "unat off \<le> length file - unat ds" using n(2) a by (simp add: word_le_nat_alt)
  moreover have "unat n \<le> length file - unat ds - unat off" using n(3) b by (simp add: word_le_nat_alt)
  moreover have "unat (ds + off) \<le> unat ds + unat off" by (simp add: unat_word_ariths)
  ultimately have "unat (ds + off) + unat n \<le> length file" by linarith
  then have "tensor_in_map fs t' path"
    using n(4) assms(2) tensor_bytes_exact [OF n(1)] by (auto simp: tensor_in_map_def)
  then show ?thesis using True n(4) by (simp add: tensor_safe_def)
next
  case False
  then show ?thesis using assms(1) by (auto simp: fix_tensor_def tensor_safe_def)
qed

lemma fix_tensors_safe:
  "fix_tensors False path (word_of_nat (length file)) ds ts db = Inr (ts', db') \<Longrightarrow> fs path = Some file \<Longrightarrow>
    length file < 2 ^ 64 \<Longrightarrow> ds \<le> word_of_nat (length file) \<Longrightarrow>
    list_all (tensor_safe fs {path}) ts' \<and> map t_name ts' = map t_name ts"
proof (induction ts arbitrary: db ts')
  case (Cons t ts)
  then show ?case by (auto split: sum.splits prod.splits dest: fix_tensor_safe)
qed simp

text \<open>The single file.\<close>

definition file_safe :: "(string \<Rightarrow> string option) \<Rightarrow> gguf_file \<Rightarrow> bool" where
  "file_safe fs g \<longleftrightarrow>
     distinct (map kv_key (g_kv g)) \<and> distinct (map t_name (g_tensors g)) \<and>
     list_all kv_inv (g_kv g) \<and>
     list_all (tensor_safe fs (if g_n_maps g = 0 then set_option (g_map g) else set (g_maps g))) (g_tensors g)"

lemma rd_header_inv: "rd_header file = Inr (version, kvs, ts, c) \<Longrightarrow> list_all kv_inv kvs"
  by (auto simp: rd_header_def split: prod.splits if_splits sum.splits dest: rd_kvs_inv)

lemma open_one_safe:
  assumes "gguf_open_one fs path = Inr g" "\<And>p file. fs p = Some file \<Longrightarrow> length file < 2 ^ 64"
  shows "file_safe fs g \<and> g_map g = Some path \<and> g_n_maps g = 0"
proof -
  from assms(1) obtain "file" version kvs ts c ds db ts' where
    f: "fs path = Some file" "rd_header file = Inr (version, kvs, ts, c)"
    "first_duplicate_inplace (map kv_key kvs) = None" "first_duplicate_inplace (map t_name ts) = None"
    "\<not> ds > word_of_nat (length file)"
    "fix_tensors False path (word_of_nat (length file)) ds ts 0 = Inr (ts', db)"
    "g_kv g = kvs" "g_tensors g = ts'" "g_map g = Some path" "g_n_maps g = 0"
    by (auto simp: gguf_open_one_def gguf_open_one_x_def Let_def split: option.splits if_splits sum.splits prod.splits)
  have "list_all (tensor_safe fs {path}) ts' \<and> map t_name ts' = map t_name ts"
    using fix_tensors_safe [where fs = fs, OF f(6,1) assms(2) [OF f(1)]] f(5) by simp
  then show ?thesis
    using f rd_header_inv [OF f(2)] by (simp add: file_safe_def first_duplicate_distinct)
qed


subsection \<open>Split models\<close>

lemma open_parts_opened:
  "open_parts fs first parts expected k i gs tot mapped = Inr (gs', tot', mapped') \<Longrightarrow>
   list_all (\<lambda>g. \<exists>p. gguf_open_one fs p = Inr g) gs \<Longrightarrow>
   list_all (\<lambda>g. \<exists>p. gguf_open_one fs p = Inr g) gs' \<and> length gs' = length gs + k"
proof (induction k arbitrary: i gs tot mapped)
  case (Suc k)
  from Suc.prems(1) obtain part g where
    g: "gguf_open_one fs part = Inr g"
    "open_parts fs first parts expected k (i + 1) (gs @ [g]) (tot + g_n_tensors g) (mapped + g_map_size g) =
       Inr (gs', tot', mapped')"
    by (auto split: option.splits sum.splits if_splits)
  then show ?case using Suc.IH [OF g(2)] Suc.prems(2) by auto
qed simp

lemma tensor_safe_mono: "tensor_safe fs ps t \<Longrightarrow> ps \<subseteq> qs \<Longrightarrow> tensor_safe fs qs t"
  by (auto simp: tensor_safe_def split: if_splits)

lemma gguf_open_file_safe:
  assumes "gguf_open fs path = Inr g" "\<And>p file. fs p = Some file \<Longrightarrow> length file < 2 ^ 64"
  shows "file_safe fs g"
proof -
  from assms(1) obtain probe where pr: "gguf_open_one fs path = Inr probe"
    by (auto simp: gguf_open_def split: sum.splits)
  show ?thesis
  proof (cases "gguf_get_u32 (g_kv probe) ''split.count'' 0 \<le> 1")
    case True
    then show ?thesis using assms pr open_one_safe [OF pr] by (simp add: gguf_open_def Let_def)
  next
    case False
    define parts where "parts = gguf_get_u32 (g_kv probe) ''split.count'' 0"
    have parts: "parts \<noteq> 0" "0 < unat parts" using False by (auto simp: parts_def unat_gt_0)
    from assms(1) pr False obtain first expected gs tot mapped where
      o: "open_parts fs first parts expected (unat parts) 0 [] 0 0 = Inr (gs, tot, mapped)"
      "first_duplicate_inplace (map t_name (g_tensors (merge_parts gs parts tot mapped))) = None"
      "g = merge_parts gs parts tot mapped"
      by (auto simp: gguf_open_def Let_def parts_def [symmetric] split: if_splits option.splits sum.splits)
    from open_parts_opened [OF o(1)] have gs: "list_all (\<lambda>g. \<exists>p. gguf_open_one fs p = Inr g) gs" "length gs = unat parts" by auto
    then have ne: "gs \<noteq> []" using parts by auto
    have each: "file_safe fs h \<and> g_n_maps h = 0 \<and> g_map h \<noteq> None" if "h \<in> set gs" for h
      using that gs(1) open_one_safe [OF _ assms(2)] by (fastforce simp: list_all_iff)
    have hd: "file_safe fs (hd gs)" using each ne by simp
    have maps: "the (g_map h) \<in> set (g_maps g)" "set_option (g_map h) \<subseteq> set (g_maps g)" if "h \<in> set gs" for h
      using each [OF that] that by (auto simp: o(3) merge_parts_def image_iff split: option.splits intro!: bexI [of _ h])
    have "list_all (tensor_safe fs (set (g_maps g))) (g_tensors g)"
    proof (clarsimp simp: list_all_iff)
      fix t assume "t \<in> set (g_tensors g)"
      then obtain h where h: "h \<in> set gs" "t \<in> set (g_tensors h)" by (auto simp: o(3) merge_parts_def)
      then have "tensor_safe fs (set_option (g_map h)) t" using each [OF h(1)] by (auto simp: file_safe_def list_all_iff)
      then show "tensor_safe fs (set (g_maps g)) t" using maps(2) [OF h(1)] by (rule tensor_safe_mono)
    qed
    moreover have "g_kv g = g_kv (hd gs)" "g_n_maps g = parts" by (simp_all add: o(3) merge_parts_def)
    ultimately show ?thesis
      using hd o(2,3) parts by (auto simp: file_safe_def first_duplicate_distinct)
  qed
qed

subsection \<open>The header-only reader agrees\<close>

lemma fix_tensors_header:
  "fix_tensors False path ms ds ts db = Inr (ts', db') \<Longrightarrow> ds \<le> ms \<Longrightarrow> e \<le> ms - ds \<Longrightarrow>
   \<exists>e'. fix_tensors True path ms ds ts e = Inr (map (\<lambda>t. t\<lparr>t_data := Null\<rparr>) ts', e') \<and> e' \<le> ms - ds"
proof (induction ts arbitrary: db ts' e)
  case (Cons t ts)
  from Cons.prems(1) obtain t' db1 ts1 where
    t: "fix_tensor False path ms ds t db = Inr (t', db1)" "fix_tensors False path ms ds ts db1 = Inr (ts1, db')"
    "ts' = t' # ts1"
    by (auto split: sum.splits prod.splits)
  have "\<exists>e1. fix_tensor True path ms ds t e = Inr (t'\<lparr>t_data := Null\<rparr>, e1) \<and> e1 \<le> ms - ds"
  proof (cases "ggml_type_supported (t_type t)")
    case False
    then show ?thesis using t(1) Cons.prems by (auto simp: fix_tensor_def)
  next
    case True
    define off where "off = (case t_data t of File_offset x \<Rightarrow> x | _ \<Rightarrow> 0)"
    from t(1) True obtain n where n: "tensor_bytes t = Some n" "off \<le> ms - ds" "n \<le> ms - ds - off"
      "t' = t\<lparr>t_data := In_map path (ds + off), t_nbytes := n\<rparr>"
      by (auto simp: fix_tensor_def Let_def off_def [symmetric] split: option.splits if_splits)
    have b: "unat (ms - ds - off) = unat (ms - ds) - unat off" by (rule unat_sub [OF n(2)])
    have le: "unat off + unat n \<le> unat (ms - ds)" using n(2,3) b by (simp add: word_le_nat_alt)
    then have "unat off + unat n < 2 ^ 64" using unsigned_less [of "ms - ds", where ?'a = nat] by simp
    then have "checked_u64_add off n = Some (off + n)" "unat (off + n) = unat off + unat n"
      by (simp_all add: checked_add_unat unat_word_ariths)
    then show ?thesis
      using n True Cons.prems le by (auto simp: fix_tensor_def Let_def off_def [symmetric] word_le_nat_alt)
  qed
  then obtain e1 where e1: "fix_tensor True path ms ds t e = Inr (t'\<lparr>t_data := Null\<rparr>, e1)" "e1 \<le> ms - ds" by blast
  from Cons.IH [OF t(2) Cons.prems(2) e1(2)] show ?case using t(3) e1 by auto
qed simp

lemma open_header_agrees:
  assumes "gguf_open_one fs path = Inr g"
  shows "\<exists>h. gguf_open_header fs path = Inr h \<and> g_version h = g_version g \<and> g_kv h = g_kv g \<and>
    g_tensors h = map (\<lambda>t. t\<lparr>t_data := Null\<rparr>) (g_tensors g) \<and> g_header_only h \<and> g_mapped_size h \<le> g_mapped_size g"
proof -
  from assms obtain "file" version kvs ts c ds db ts' where
    f: "fs path = Some file" "\<not> length file < 24" "rd_header file = Inr (version, kvs, ts, c)"
    "first_duplicate_inplace (map kv_key kvs) = None" "first_duplicate_inplace (map t_name ts) = None"
    "align_up (word_of_nat (length file - length (c_rest c))) (alignment kvs) = Some ds"
    "\<not> ds > word_of_nat (length file)"
    "fix_tensors False path (word_of_nat (length file)) ds ts 0 = Inr (ts', db)"
    "g_kv g = kvs" "g_tensors g = ts'" "g_version g = version" "g_mapped_size g = word_of_nat (length file)"
    by (auto simp: gguf_open_one_def gguf_open_one_x_def Let_def split: option.splits if_splits sum.splits prod.splits)
  define ms :: "64 word" where "ms = word_of_nat (length file)"
  have ds: "ds \<le> ms" using f(7) by (simp add: ms_def)
  obtain e where e: "fix_tensors True path ms ds ts 0 = Inr (map (\<lambda>t. t\<lparr>t_data := Null\<rparr>) ts', e)" "e \<le> ms - ds"
    using fix_tensors_header [OF f(8) [folded ms_def] ds, of 0] by auto
  have s: "unat (ms - ds) = unat ms - unat ds" by (rule unat_sub [OF ds])
  then have "unat ds + unat e \<le> unat ms" using e(2) ds by (simp add: word_le_nat_alt)
  moreover then have "unat ds + unat e < 2 ^ 64" using unsigned_less [of ms, where ?'a = nat] by simp
  ultimately have "checked_u64_add ds e = Some (ds + e)" "ds + e \<le> ms"
    by (simp_all add: checked_add_unat unat_word_ariths word_le_nat_alt)
  then show ?thesis
    using f e unfolding gguf_open_header_def gguf_open_one_x_def Let_def
    by (simp add: ms_def [symmetric])
qed


subsection \<open>Numbers in metadata\<close>

lemma nat_and_shift: "(n :: nat) AND (a * 2 ^ k) = (n div 2 ^ k AND a) * 2 ^ k"
proof -
  have "n AND push_bit k a = push_bit k (drop_bit k n AND a)"
    by (rule bit_eqI) (auto simp: bit_and_iff bit_push_bit_iff bit_drop_bit_eq)
  then show ?thesis by (simp add: push_bit_eq_mult drop_bit_eq_div)
qed

lemma raw_f32_finite_iff: "raw_f32_finite u \<longleftrightarrow> f32_exp u \<noteq> 255"
proof -
  have "unat (u AND 0x7f800000) = f32_exp u * 2 ^ 23"
    unfolding unsigned_and_eq using nat_and_shift [of "unat u" 255 23] nat_and_mask [of "unat u div 2 ^ 23" 8]
    by (simp add: f32_exp_def mask_eq_exp_minus_1)
  then have "u AND 0x7f800000 = 0x7f800000 \<longleftrightarrow> f32_exp u * 2 ^ 23 = 255 * 2 ^ 23"
    by (simp add: word_unat_eq_iff)
  then show ?thesis by (simp add: raw_f32_finite_def)
qed

lemma raw_f64_finite_iff: "raw_f64_finite u \<longleftrightarrow> f64_exp u \<noteq> 2047"
proof -
  have "unat (u AND 0x7ff0000000000000) = f64_exp u * 2 ^ 52"
    unfolding unsigned_and_eq using nat_and_shift [of "unat u" 2047 52] nat_and_mask [of "unat u div 2 ^ 52" 11]
    by (simp add: f64_exp_def mask_eq_exp_minus_1)
  then have "u AND 0x7ff0000000000000 = 0x7ff0000000000000 \<longleftrightarrow> f64_exp u * 2 ^ 52 = 2047 * 2 ^ 52"
    by (simp add: word_unat_eq_iff)
  then show ?thesis by (simp add: raw_f64_finite_def)
qed

lemma unat_drop_bit: "unat (drop_bit n w) = unat w div 2 ^ n" for w :: "'a :: len word"
  unfolding unsigned_drop_bit_eq by (simp add: drop_bit_eq_div take_bit_eq_mod)

lemma raw_f32_negative_iff: "raw_f32_negative u \<longleftrightarrow> f32_sgn u \<noteq> 0"
proof -
  have "unat (drop_bit 31 u) = f32_sgn u" by (simp only: unat_drop_bit f32_sgn_def)
  then show ?thesis by (simp add: raw_f32_negative_def word_unat_eq_iff)
qed

lemma raw_f64_negative_iff: "raw_f64_negative u \<longleftrightarrow> f64_sgn u \<noteq> 0"
proof -
  have "unat (drop_bit 63 u) = f64_sgn u" by (simp only: unat_drop_bit f64_sgn_def)
  then show ?thesis by (simp add: raw_f64_negative_def word_unat_eq_iff)
qed

text \<open>The number a scalar value stands for: integers as they are, a float when it is finite and
  its sign bit is clear.\<close>

definition kv_number :: "gguf_kv \<Rightarrow> rat option" where
  "kv_number kv =
     (if kv_is_unsigned (kv_type kv) then Some (of_nat (unat (kv_v kv)))
      else if kv_is_signed (kv_type kv) then Some (of_int (sint (kv_v kv)))
      else if kv_type kv = GGUF_T_F32 then
        (let u = ucast (kv_raw kv) :: 32 word in if f32_exp u \<noteq> 255 \<and> f32_sgn u = 0 then Some (f32_val u) else None)
      else if kv_type kv = GGUF_T_F64 then
        (if f64_exp (kv_raw kv) \<noteq> 2047 \<and> f64_sgn (kv_raw kv) = 0 then Some (f64_val (kv_raw kv)) else None)
      else None)"

definition u32_or :: "32 word \<Rightarrow> rat option \<Rightarrow> 32 word" where
  "u32_or dflt q =
     (case q of
        Some x \<Rightarrow> if x = of_int \<lfloor>x\<rfloor> \<and> 0 \<le> x \<and> x \<le> 2 ^ 32 - 1 then word_of_int \<lfloor>x\<rfloor> else dflt
      | None \<Rightarrow> dflt)"

lemma fsign_0 [simp]: "fsign 0 = 1"
  by (simp add: fsign_def)

lemma f32_val_nonneg: "f32_sgn u = 0 \<Longrightarrow> 0 \<le> f32_val u"
  using pow2_pos [of "- 149"] pow2_pos [of "int (f32_exp u) - 150"] by (simp add: f32_val_def)

lemma f64_val_nonneg: "f64_sgn u = 0 \<Longrightarrow> 0 \<le> f64_val u"
  using pow2_pos [of "- 1074"] pow2_pos [of "int (f64_exp u) - 1075"] by (simp add: f64_val_def)

lemma u32_or_int: "u32_or d (Some (of_int z)) = (if 0 \<le> z \<and> z \<le> 2 ^ 32 - 1 then word_of_int z else d)"
proof -
  have "rat_of_int z \<le> 2 ^ 32 - 1 \<longleftrightarrow> z \<le> 2 ^ 32 - 1"
    using of_int_le_iff [of z 4294967295, where 'a = rat] by simp
  then show ?thesis by (simp add: u32_or_def)
qed

lemma ucast_word_of_int: "ucast (w :: 64 word) = (word_of_int (uint w) :: 32 word)"
  by (simp add: unsigned_ucast_eq)

lemma ucast_sint: "ucast (w :: 64 word) = (word_of_int (sint w) :: 32 word)"
  unfolding ucast_word_of_int sint_uint word_of_int_eq_iff by (subst take_bit_signed_take_bit) simp_all

lemma gguf_get_member: "gguf_get kvs key = Some kv \<Longrightarrow> kv \<in> set kvs"
  by (auto simp: gguf_get_def find_Some_iff)

lemma kv_classes:
  "kv_is_unsigned t \<Longrightarrow> \<not> kv_is_signed t \<and> t \<noteq> GGUF_T_F32 \<and> t \<noteq> GGUF_T_F64 \<and> t \<noteq> GGUF_T_ARR"
  "kv_is_signed t \<Longrightarrow> \<not> kv_is_unsigned t \<and> t \<noteq> GGUF_T_F32 \<and> t \<noteq> GGUF_T_F64 \<and> t \<noteq> GGUF_T_ARR"
  by (auto simp: kv_is_unsigned_def kv_is_signed_def)

lemma gguf_get_u32_number:
  assumes "list_all kv_inv kvs"
  shows "gguf_get_u32 kvs key d = (case gguf_get kvs key of None \<Rightarrow> d | Some kv \<Rightarrow> u32_or d (kv_number kv))"
proof (cases "gguf_get kvs key")
  case (Some kv)
  then have inv: "kv_inv kv" using assms gguf_get_member by (auto simp: list_all_iff)
  consider "kv_is_unsigned (kv_type kv)" | "kv_is_signed (kv_type kv)" | "kv_type kv = GGUF_T_F32" | "kv_type kv = GGUF_T_F64"
    | "\<not> kv_is_unsigned (kv_type kv)" "\<not> kv_is_signed (kv_type kv)" "kv_type kv \<noteq> GGUF_T_F32" "kv_type kv \<noteq> GGUF_T_F64" by blast
  then show ?thesis
  proof cases
    case 1
    define z where "z = uint (kv_v kv)"
    have z: "int (unat (kv_v kv)) = z" by (simp add: z_def)
    have q: "rat_of_nat (unat (kv_v kv)) = of_int z" using z by (metis of_int_of_nat_eq)
    have z0: "0 \<le> z" using z by linarith
    have "unat (kv_v kv) \<le> 2 ^ 32 - 1 \<longleftrightarrow> z \<le> 2 ^ 32 - 1"
    proof -
      have "int (2 ^ 32 - 1) = 2 ^ 32 - 1" by simp
      then show ?thesis unfolding z [symmetric] by (metis of_nat_le_iff)
    qed
    moreover note q
    ultimately show ?thesis
      using 1 Some u32_or_int [of d z]
      by (simp add: gguf_get_u32_def kv_number_def ucast_word_of_int z0 z_def [symmetric])
  next
    case 2
    show ?thesis
      using 2 kv_classes(2) [OF 2] Some u32_or_int [of d "sint (kv_v kv)"]
      by (simp only: gguf_get_u32_def kv_number_def option.case if_True if_False ucast_sint) 
  next
    case 3
    have c: "\<not> kv_is_unsigned (kv_type kv)" "\<not> kv_is_signed (kv_type kv)" using 3 by (auto simp: kv_is_unsigned_def kv_is_signed_def)
    define u where "u = (ucast (kv_raw kv) :: 32 word)"
    have v: "kv_v kv = f64_of_f32 u" using inv 3 by (simp add: kv_inv_def u_def)
    show ?thesis
      using 3 c Some f64_of_f32_val(1) [of u] f32_val_nonneg [of u]
      by (auto simp: gguf_get_u32_def kv_number_def Let_def u_def [symmetric] v raw_f32_finite_iff raw_f32_negative_iff u32_or_def)
  next
    case 4
    have c: "\<not> kv_is_unsigned (kv_type kv)" "\<not> kv_is_signed (kv_type kv)" using 4 by (auto simp: kv_is_unsigned_def kv_is_signed_def)
    have v: "kv_v kv = kv_raw kv" using inv 4 by (simp add: kv_inv_def)
    show ?thesis
      using 4 c Some f64_val_nonneg [of "kv_raw kv"]
      by (auto simp: gguf_get_u32_def kv_number_def Let_def v raw_f64_finite_iff raw_f64_negative_iff u32_or_def)
  next
    case 5
    then show ?thesis using Some by (simp add: gguf_get_u32_def kv_number_def u32_or_def)
  qed
qed (simp add: gguf_get_u32_def)

subsection \<open>Elements of arrays\<close>

text \<open>The \<open>i\<close>-th element of an integer array of type \<open>t\<close>.\<close>

definition elem_number :: "32 word \<Rightarrow> string \<Rightarrow> nat \<Rightarrow> int option" where
  "elem_number t p i =
     (let w = gguf_scalar_size t; n = int (le_val (take w (drop (w * i) p)))
      in if kv_is_unsigned t then Some n
         else if kv_is_signed t then Some (if n < 2 ^ (8 * w - 1) then n else n - 2 ^ (8 * w))
         else None)"

lemma le_val_less: "le_val s < 256 ^ length s"
proof (induction s)
  case (Cons b s)
  have "byte b + 256 * le_val s < 256 * (le_val s + 1)" by simp
  also have "\<dots> \<le> 256 * 256 ^ length s" using Cons by (intro mult_le_mono2) simp
  finally show ?case by simp
qed simp

lemma sint_word_of_nat:
  assumes "n < 2 ^ LENGTH('a :: len)"
  shows "sint (word_of_nat n :: 'a word) = (if n < 2 ^ (LENGTH('a) - 1) then int n else int n - 2 ^ LENGTH('a))"
proof -
  have S: "Suc (LENGTH('a) - 1) = LENGTH('a)" by simp
  have b: "bit (int n) (LENGTH('a) - 1) \<longleftrightarrow> \<not> n < 2 ^ (LENGTH('a) - 1)"
  proof -
    have "n div 2 ^ (LENGTH('a) - 1) < 2" using assms by (simp add: div_less_iff_less_mult flip: power_Suc)
    then have "odd (n div 2 ^ (LENGTH('a) - 1)) \<longleftrightarrow> n div 2 ^ (LENGTH('a) - 1) \<noteq> 0" by (auto simp: less_2_cases_iff)
    moreover have "bit (int n) (LENGTH('a) - 1) \<longleftrightarrow> odd (n div 2 ^ (LENGTH('a) - 1))"
      by (simp add: bit_of_nat_iff flip: bit_iff_odd)
    ultimately show ?thesis by (simp add: div_eq_0_iff)
  qed
  have "sint (word_of_nat n :: 'a word) = signed_take_bit (LENGTH('a) - 1) (int n)"
    by (simp add: signed_of_nat)
  also have "\<dots> = take_bit (Suc (LENGTH('a) - 1)) (int n) - 2 ^ Suc (LENGTH('a) - 1) * of_bool (bit (int n) (LENGTH('a) - 1))"
    by (rule signed_take_bit_eq_take_bit_minus)
  also have "take_bit (Suc (LENGTH('a) - 1)) (int n) = int n"
  proof -
    have "int n < 2 ^ LENGTH('a)" using assms by (metis of_nat_less_iff of_nat_numeral of_nat_power)
    then show ?thesis unfolding S by (intro take_bit_int_eq_self) simp_all
  qed
  finally show ?thesis unfolding b S by simp
qed


lemma arr_read_elem:
  assumes "w * (i + 1) \<le> length p"
  shows "arr_read p (w * i) w = Some (le_val (take w (drop (w * i) p)))" "le_val (take w (drop (w * i) p)) < 256 ^ w"
proof -
  have "length (take w (drop (w * i) p)) = w" using assms by simp
  then show "le_val (take w (drop (w * i) p)) < 256 ^ w" using le_val_less [of "take w (drop (w * i) p)"] by simp
  show "arr_read p (w * i) w = Some (le_val (take w (drop (w * i) p)))"
    using assms by (simp add: arr_read_def algebra_simps)
qed

lemma u32_of_uint:
  assumes "n < 2 ^ LENGTH('a :: len)" "LENGTH('a) \<le> 32"
  shows "word_of_nat n = u32_or d (Some (of_int (int n)))"
proof -
  have "(2 :: nat) ^ LENGTH('a) \<le> 2 ^ 32" using assms(2) by (rule power_increasing) simp
  then show ?thesis using assms(1) unfolding u32_or_int by simp
qed

lemma u32_of_sint:
  fixes v :: "'a :: len word"
  assumes "n < 2 ^ LENGTH('a)" "LENGTH('a) \<le> 32" "v = word_of_nat n"
  shows "(if 0 \<le> sint v then ucast v else d) =
    u32_or d (Some (of_int (if n < 2 ^ (LENGTH('a) - 1) then int n else int n - 2 ^ LENGTH('a))))"
proof (cases "n < 2 ^ (LENGTH('a) - 1)")
  case True
  have "unat v = n" using assms by (simp add: unsigned_of_nat take_bit_nat_eq_self)
  then have "ucast v = (word_of_nat n :: 32 word)" by (metis of_nat_unat)
  then show ?thesis
    using True sint_word_of_nat [OF assms(1)] u32_of_uint [OF assms(1,2), of d] assms(3) by simp
next
  case False
  have "int n < 2 ^ LENGTH('a)" using assms(1) by (metis of_nat_less_iff of_nat_numeral of_nat_power)
  then show ?thesis
    using False sint_word_of_nat [OF assms(1)] assms(3) unfolding u32_or_int by simp
qed

lemma u32_of_u64:
  assumes "n < 2 ^ 64"
  shows "(let v = word_of_nat n :: 64 word in if unat v \<le> 2 ^ 32 - 1 then ucast v else d) = u32_or d (Some (of_int (int n)))"
proof -
  have u: "unat (word_of_nat n :: 64 word) = n" using assms by (simp add: unsigned_of_nat take_bit_eq_mod)
  then have "ucast (word_of_nat n :: 64 word) = (word_of_nat n :: 32 word)" by (metis of_nat_unat)
  then show ?thesis unfolding u32_or_int Let_def u by simp
qed

lemma u32_of_s64:
  assumes "n < 2 ^ 64"
  shows "(let v = word_of_nat n :: 64 word in if 0 \<le> sint v \<and> sint v \<le> 2 ^ 32 - 1 then ucast v else d) =
    u32_or d (Some (of_int (if n < 2 ^ 63 then int n else int n - 2 ^ 64)))"
proof -
  have u: "unat (word_of_nat n :: 64 word) = n" using assms by (simp add: unsigned_of_nat take_bit_eq_mod)
  then have c: "ucast (word_of_nat n :: 64 word) = (word_of_nat n :: 32 word)" by (metis of_nat_unat)
  have s: "sint (word_of_nat n :: 64 word) = (if n < 2 ^ 63 then int n else int n - 2 ^ 64)"
    using sint_word_of_nat [where 'a = 64, of n] assms by simp
  have "int n < 2 ^ 64" using assms by simp
  then show ?thesis unfolding u32_or_int Let_def c s by simp
qed

lemma arr_elem_spec:
  assumes "gguf_get kvs key = Some kv" "kv_type kv = GGUF_T_ARR" "kv_arr_raw kv = Some p" "idx < kv_arr_n kv" "kv_inv kv"
  shows "gguf_get_u32_idx kvs key idx d = Some (u32_or d (map_option of_int (elem_number (kv_arr_type kv) p (unat idx))))"
proof -
  define t where "t = kv_arr_type kv"
  define w where "w = gguf_scalar_size t"
  have inv: "w * unat (kv_arr_n kv) < 2 ^ 64" "w * unat (kv_arr_n kv) \<le> length p"
    using assms(2,3,5) by (auto simp: kv_inv_def w_def t_def)
  have nl: "\<not> kv_arr_n kv \<le> idx" using assms(4) by simp
  have i: "unat idx + 1 \<le> unat (kv_arr_n kv)" using assms(4) by (simp add: word_less_nat_alt)
  have "w * (unat idx + 1) \<le> w * unat (kv_arr_n kv)" using i by (rule mult_le_mono2)
  then have l: "w * (unat idx + 1) \<le> length p" "w * unat idx < 2 ^ 64" using inv by (auto simp: algebra_simps)
  note r = arr_read_elem [OF l(1)]
  have m: "unat (idx * word_of_nat w) = w * unat idx" 
    using l(2) by (simp add: unat_word_ariths unsigned_of_nat take_bit_eq_mod mod_mult_right_eq mult.commute)
  define n where "n = le_val (take w (drop (w * unat idx) p))"
  note r = r [folded n_def]
  have idx: "gguf_get_u32_idx kvs key idx d =
     (if t = GGUF_T_U8 then map_option word_of_nat (arr_read p (unat idx) 1)
      else if t = GGUF_T_I8 then
        map_option (\<lambda>n. let v = word_of_nat n :: 8 word in if 0 \<le> sint v then ucast v else d) (arr_read p (unat idx) 1)
      else if t = GGUF_T_U16 then map_option word_of_nat (arr_read p (unat (idx * 2)) 2)
      else if t = GGUF_T_I16 then
        map_option (\<lambda>n. let v = word_of_nat n :: 16 word in if 0 \<le> sint v then ucast v else d) (arr_read p (unat (idx * 2)) 2)
      else if t = GGUF_T_U32 then map_option word_of_nat (arr_read p (unat (idx * 4)) 4)
      else if t = GGUF_T_I32 then
        map_option (\<lambda>n. let v = word_of_nat n :: 32 word in if 0 \<le> sint v then v else d) (arr_read p (unat (idx * 4)) 4)
      else if t = GGUF_T_U64 then
        map_option (\<lambda>n. let v = word_of_nat n :: 64 word in if unat v \<le> 2 ^ 32 - 1 then ucast v else d) (arr_read p (unat (idx * 8)) 8)
      else if t = GGUF_T_I64 then
        map_option (\<lambda>n. let v = word_of_nat n :: 64 word in if 0 \<le> sint v \<and> sint v \<le> 2 ^ 32 - 1 then ucast v else d) (arr_read p (unat (idx * 8)) 8)
      else Some d)"
    unfolding gguf_get_u32_idx_def using assms(1-3) nl by (simp add: t_def Let_def)
  have el: "elem_number t p (unat idx) =
    (if kv_is_unsigned t then Some (int n)
     else if kv_is_signed t then Some (if int n < 2 ^ (8 * w - 1) then int n else int n - 2 ^ (8 * w)) else None)"
    by (simp add: elem_number_def Let_def w_def [symmetric] n_def)
  consider "t = GGUF_T_U8" | "t = GGUF_T_I8" | "t = GGUF_T_U16" | "t = GGUF_T_I16" | "t = GGUF_T_U32" | "t = GGUF_T_I32"
    | "t = GGUF_T_U64" | "t = GGUF_T_I64" | "\<not> kv_is_unsigned t \<and> \<not> kv_is_signed t"
    unfolding kv_is_unsigned_def kv_is_signed_def by blast
  then have "gguf_get_u32_idx kvs key idx d = Some (u32_or d (map_option of_int (elem_number t p (unat idx))))"
  proof cases
    case 1
    then have w: "w = 1" by (simp add: w_def gguf_scalar_size_def)
    show ?thesis unfolding idx el using r u32_of_uint [where 'a = 8, of n d] by (simp add: 1 w kv_is_unsigned_def)
  next
    case 2
    then have w: "w = 1" by (simp add: w_def gguf_scalar_size_def)
    show ?thesis unfolding idx el using r u32_of_sint [where 'a = 8, of n _ d] by (simp add: 2 w kv_is_unsigned_def kv_is_signed_def Let_def)
  next
    case 3
    then have w: "w = 2" by (simp add: w_def gguf_scalar_size_def)
    show ?thesis unfolding idx el using r m u32_of_uint [where 'a = 16, of n d] by (simp add: 3 w kv_is_unsigned_def)
  next
    case 4
    then have w: "w = 2" by (simp add: w_def gguf_scalar_size_def)
    show ?thesis unfolding idx el using r m u32_of_sint [where 'a = 16, of n _ d] by (simp add: 4 w kv_is_unsigned_def kv_is_signed_def Let_def)
  next
    case 5
    then have w: "w = 4" by (simp add: w_def gguf_scalar_size_def)
    show ?thesis unfolding idx el using r m u32_of_uint [where 'a = 32, of n d] by (simp add: 5 w kv_is_unsigned_def)
  next
    case 6
    then have w: "w = 4" by (simp add: w_def gguf_scalar_size_def)
    show ?thesis unfolding idx el using r m u32_of_sint [where 'a = 32, of n _ d, simplified] by (simp add: ucast_id 6 w kv_is_unsigned_def kv_is_signed_def Let_def split: if_splits)
  next
    case 7
    then have w: "w = 8" by (simp add: w_def gguf_scalar_size_def)
    show ?thesis unfolding idx el using r m u32_of_u64 [of n d] by (simp add: 7 w kv_is_unsigned_def)
  next
    case 8
    then have w: "w = 8" by (simp add: w_def gguf_scalar_size_def)
    show ?thesis unfolding idx el using r m u32_of_s64 [of n d] by (simp add: 8 w kv_is_unsigned_def kv_is_signed_def)
  next
    case 9
    then have "t \<noteq> 0" "t \<noteq> 1" "t \<noteq> 2" "t \<noteq> 3" "t \<noteq> 4" "t \<noteq> 5" "t \<noteq> 10" "t \<noteq> 11"
      by (auto simp: kv_is_unsigned_def kv_is_signed_def)
    then show ?thesis using 9 by (simp add: idx el u32_or_def)
  qed
  then show ?thesis by (simp only: t_def)
qed

subsection \<open>Reading what was written\<close>

lemma length_le_bytes [simp]: "length (le_bytes k n) = k"
  by (induction k arbitrary: n) auto

lemma le_val_bytes [simp]: "le_val (le_bytes k n) = n mod 256 ^ k"
proof (induction k arbitrary: n)
  case (Suc k)
  have "n mod 256 + 256 * (n div 256 mod 256 ^ k) = n mod (256 * 256 ^ k)" by (simp add: mod_mult2_eq)
  then show ?case using Suc by simp
qed simp

abbreviation cur :: "string \<Rightarrow> cursor" where
  "cur s \<equiv> \<lparr>c_rest = s, c_ok = True\<rparr>"

lemma rd_le_bytes: "rd_le k (cur (le_bytes k n @ s)) = (n mod 256 ^ k, cur s)"
  by (simp add: rd_le_def need_def)

lemma word_of_mod: "2 ^ LENGTH('a :: len) = m \<Longrightarrow> (word_of_nat (n mod m) :: 'a word) = word_of_nat n"
  by (rule word_eq_of_unat [symmetric]) (simp add: unsigned_of_nat take_bit_eq_mod)

lemma rd_bytes [simp]:
  "rd_u8 (cur (le_bytes 1 n @ s)) = (word_of_nat n, cur s)"
  "rd_u16 (cur (le_bytes 2 n @ s)) = (word_of_nat n, cur s)"
  "rd_u32 (cur (le_bytes 4 n @ s)) = (word_of_nat n, cur s)"
  "rd_u64 (cur (le_bytes 8 n @ s)) = (word_of_nat n, cur s)"
  unfolding rd_u8_def rd_u16_def rd_u32_def rd_u64_def rd_le_bytes prod.case
  by (simp_all add: word_of_mod)

definition le_str :: "string \<Rightarrow> string" where
  "le_str s = le_bytes 8 (length s) @ s"

lemma rd_str_bytes [simp]: "length t < 2 ^ 64 - 1 \<Longrightarrow> rd_str (cur (le_bytes 8 (length t) @ t @ s)) = Some (t, cur s)"
proof -
  assume a: "length t < 2 ^ 64 - 1"
  then have u: "unat (word_of_nat (length t) :: 64 word) = length t" by (simp add: unsigned_of_nat take_bit_eq_mod)
  have "unat (UINT64_MAX - 1) = unat UINT64_MAX - unat (1 :: 64 word)" by (rule unat_sub) (simp add: UINT64_MAX_def)
  then have "\<not> word_of_nat (length t) > UINT64_MAX - 1" using a u by (simp add: word_less_nat_alt)
  then show ?thesis by (simp add: rd_str_def need_def u)
qed


lemma rd_str_sized [simp]: "length t = n \<Longrightarrow> n < 2 ^ 64 - 1 \<Longrightarrow> rd_str (cur (le_bytes 8 n @ t @ s)) = Some (t, cur s)"
  using rd_str_bytes by blast

definition sample_dir :: string where
  "sample_dir = le_bytes 8 1 @ ''t'' @ le_bytes 4 1 @ le_bytes 8 2 @ le_bytes 4 0 @ le_bytes 8 0 @
     replicate 27 CHR 0x00 @ replicate 8 CHR ''x''"

definition sample_model :: string where
  "sample_model =
     le_bytes 4 0x46554747 @ le_bytes 4 3 @ le_bytes 8 1 @ le_bytes 8 2 @
     le_bytes 8 1 @ ''n'' @ le_bytes 4 4 @ le_bytes 4 7 @
     le_bytes 8 1 @ ''a'' @ le_bytes 4 9 @ le_bytes 4 0 @ le_bytes 8 2 @ [CHR 0x05, CHR 0x09] @ sample_dir"

definition sample_fs :: "string \<Rightarrow> string option" where
  "sample_fs p = (if p = ''m'' then Some sample_model else None)"




lemma reps: "rd_kvs 2 c = rd_kvs (Suc (Suc 0)) c" "rd_tensors 1 c = rd_tensors (Suc 0) c" "rd_dims 1 c = rd_dims (Suc 0) c"
  "replicate 3 x = [x, x, x]" "take 2 xs = take (Suc (Suc 0)) xs" 
  by (simp_all add: numeral_2_eq_2 numeral_3_eq_3)


definition sample_kvs :: "gguf_kv list" where
  "sample_kvs =
     [kv_zero\<lparr>kv_key := ''n'', kv_type := 4, kv_v := 7\<rparr>,
      kv_zero\<lparr>kv_key := ''a'', kv_type := 9, kv_arr_n := 2, kv_arr_raw := Some ([CHR 0x05, CHR 0x09] @ sample_dir)\<rparr>]"

definition sample_tensor :: gguf_tensor where
  "sample_tensor = \<lparr>t_name = ''t'', t_type = 0, t_n_dims = 1, t_ne = [2, 1, 1, 1], t_data = File_offset 0, t_nbytes = 0\<rparr>"

lemma sample_tensors: "rd_tensors 1 (cur sample_dir) = Inr ([sample_tensor], cur (replicate 27 CHR 0x00 @ replicate 8 CHR ''x''))"
  unfolding sample_dir_def sample_tensor_def
  by (simp add: reps rd_tensor_def Let_def cstr_def del: replicate.simps append_Cons One_nat_def)
    
lemma sample_header: "rd_header sample_model = Inr (3, sample_kvs, [sample_tensor], cur (replicate 27 CHR 0x00 @ replicate 8 CHR ''x''))" 
  unfolding rd_header_def sample_model_def
  by (simp add: reps(1) append_Nil UINT64_MAX_def sample_tensors sample_kvs_def rd_kv_value_def rd_arr_def Let_def gguf_scalar_size_def need_def cstr_def kv_zero_def
      del: replicate.simps append_Cons One_nat_def)

lemma sample_opened_one:
  "gguf_open_one sample_fs ''m'' = Inr \<lparr>g_map = Some ''m'', g_map_size = 136, g_maps = [], g_map_sizes = [], g_n_maps = 0,
     g_mapped_size = 136, g_version = 3, g_n_tensors = 1, g_n_kv = 2, g_kv = sample_kvs,
     g_tensors = [sample_tensor\<lparr>t_data := In_map ''m'' 128, t_nbytes := 8\<rparr>], g_header_only = False, g_data_bytes = 0\<rparr>"
proof -
  have l: "length sample_model = 136" by (simp add: sample_model_def sample_dir_def)
  have k: "first_duplicate_inplace (map kv_key sample_kvs) = None" "first_duplicate_inplace [t_name sample_tensor] = None"
    by (simp_all add: first_duplicate_distinct sample_kvs_def kv_zero_def)
  have g: "gguf_get_u32 sample_kvs ''split.count'' 0 = 0" "gguf_get_u32 sample_kvs ''general.alignment'' 32 = 32"
    by (simp_all add: gguf_get_u32_def gguf_get_def sample_kvs_def kv_zero_def)
  have a: "alignment sample_kvs = 32" by (simp add: alignment_def g)
  have u: "align_up 101 32 = Some 128" by (simp add: align_up_def checked_u64_add_def UINT64_MAX_def)
  have b: "tensor_bytes sample_tensor = Some 8"
    by (simp add: tensor_bytes_def sample_tensor_def checked_u64_mul_def UINT64_MAX_def ggml_block_size_def ggml_type_size_def)
  have f: "fix_tensor False ''m'' 136 128 sample_tensor 0 = Inr (sample_tensor\<lparr>t_data := In_map ''m'' 128, t_nbytes := 8\<rparr>, 0)"
    by (simp add: fix_tensor_def b) (simp add: sample_tensor_def ggml_type_supported_def)
  show ?thesis
    unfolding gguf_open_one_def gguf_open_one_x_def
    by (simp add: sample_fs_def l sample_header k a u f g Let_def) (simp add: sample_kvs_def)
qed

lemma sample_opened:
  "gguf_open sample_fs ''m'' = Inr \<lparr>g_map = Some ''m'', g_map_size = 136, g_maps = [], g_map_sizes = [], g_n_maps = 0,
     g_mapped_size = 136, g_version = 3, g_n_tensors = 1, g_n_kv = 2, g_kv = sample_kvs,
     g_tensors = [sample_tensor\<lparr>t_data := In_map ''m'' 128, t_nbytes := 8\<rparr>], g_header_only = False, g_data_bytes = 0\<rparr>"
proof -
  have g: "gguf_get_u32 sample_kvs ''split.count'' 0 = 0"
    by (simp add: gguf_get_u32_def gguf_get_def sample_kvs_def kv_zero_def)
  show ?thesis by (simp add: gguf_open_def sample_opened_one Let_def g)
qed

lemma sample_small: "sample_fs p = Some s \<Longrightarrow> length s < 2 ^ 64"
  by (auto simp: sample_fs_def sample_model_def sample_dir_def split: if_splits)

subsection \<open>Properties\<close>

abbreviation gguf_maps :: "gguf_file \<Rightarrow> string set" where
  "gguf_maps g \<equiv> (if g_n_maps g = 0 then set_option (g_map g) else set (g_maps g))"

text \<open>
  C23. Memory safety of loading a model, single file or split, whatever the files contain: the
  metadata keys and the tensor names of an opened model are distinct, and every tensor whose
  type the build knows has its data inside one of the mappings the model owns, with a size that
  is the exact product of its dimensions (no overflow); a tensor of an unknown type has a NULL
  data pointer. A file is smaller than the address space.
\<close>

theorem gguf_open_safe:
  assumes "gguf_open fs path = Inr g" "\<forall>p s. fs p = Some s \<longrightarrow> length s < 2 ^ 64"
  shows "distinct (map kv_key (g_kv g)) \<and> distinct (map t_name (g_tensors g)) \<and>
    (\<forall>t \<in> set (g_tensors g).
       if ggml_type_supported (t_type t) then
         (\<exists>p \<in> gguf_maps g. \<exists>s off. t_data t = In_map p off \<and> fs p = Some s \<and>
            unat off + unat (t_nbytes t) \<le> length s) \<and>
         unat (t_ne t ! 0) mod ggml_block_size (t_type t) = 0 \<and>
         unat (t_nbytes t) = unat (t_ne t ! 0) div ggml_block_size (t_type t) * ggml_type_size (t_type t) *
           (unat (t_ne t ! 1) * unat (t_ne t ! 2) * unat (t_ne t ! 3))
       else t_data t = Null \<and> t_nbytes t = 0)"
proof -
  have "file_safe fs g" using gguf_open_file_safe [where fs = fs, OF assms(1)] assms(2) by blast
  then show ?thesis
    unfolding file_safe_def list_all_iff tensor_safe_def tensor_in_map_def by (auto split: if_splits)
qed

lemma gguf_open_safe_witness:
  "\<exists>g t. gguf_open sample_fs ''m'' = Inr g \<and> set (g_tensors g) = {t} \<and> t_data t = In_map ''m'' 128 \<and>
     distinct (map kv_key (g_kv g)) \<and>
     (\<exists>p \<in> gguf_maps g. \<exists>s off. t_data t = In_map p off \<and> sample_fs p = Some s \<and> unat off + unat (t_nbytes t) \<le> length s)"
proof -
  define t where "t = sample_tensor\<lparr>t_data := In_map ''m'' 128, t_nbytes := 8\<rparr>"
  obtain g where g: "gguf_open sample_fs ''m'' = Inr g" "g_tensors g = [t]" using sample_opened by (simp add: t_def)
  have m: "ggml_type_supported (t_type t)" by (simp add: t_def sample_tensor_def ggml_type_supported_def)
  have d: "t_data t = In_map ''m'' 128" by (simp add: t_def)
  have "\<forall>p s. sample_fs p = Some s \<longrightarrow> length s < 2 ^ 64" using sample_small by blast
  from gguf_open_safe [OF g(1) this] have x: "distinct (map kv_key (g_kv g))"
    "\<exists>p \<in> gguf_maps g. \<exists>s off. t_data t = In_map p off \<and> sample_fs p = Some s \<and> unat off + unat (t_nbytes t) \<le> length s"
    using m g(2) by auto
  have "set (g_tensors g) = {t}" using g(2) by simp
  with g(1) d x show ?thesis by blast
qed

text \<open>
  C24. The header-only reader: its result never carries a data pointer, and whenever the full
  reader accepts a file, so does it, with the same version, metadata and tensor descriptors, and
  the size it computes for the whole file is at most the size of the file.
\<close>

lemma fix_tensors_null:
  "fix_tensors True path ms ds ts db = Inr (ts', db') \<Longrightarrow> t \<in> set ts' \<Longrightarrow> t_data t = Null"
proof (induction ts arbitrary: db ts')
  case (Cons a ts)
  then show ?case by (auto simp: fix_tensor_def Let_def split: sum.splits prod.splits if_splits option.splits)
qed simp

lemma open_header_null:
  "gguf_open_header fs path = Inr h \<Longrightarrow> t \<in> set (g_tensors h) \<Longrightarrow> t_data t = Null"
  by (auto simp: gguf_open_header_def gguf_open_one_x_def Let_def split: option.splits if_splits sum.splits prod.splits
      dest: fix_tensors_null)

theorem gguf_open_header_agrees:
  "(gguf_open_header fs path = Inr h \<and> t \<in> set (g_tensors h) \<longrightarrow> t_data t = Null) \<and>
   (gguf_open_one fs path = Inr g \<longrightarrow>
     (\<exists>h. gguf_open_header fs path = Inr h \<and> g_version h = g_version g \<and> g_kv h = g_kv g \<and>
        g_tensors h = map (\<lambda>t. t\<lparr>t_data := Null\<rparr>) (g_tensors g) \<and> g_mapped_size h \<le> g_mapped_size g))"
  using open_header_null [of fs path h t] open_header_agrees [of fs path g] by blast


lemma gguf_open_header_agrees_witness:
  "\<exists>h. gguf_open_header sample_fs ''m'' = Inr h \<and> g_kv h = sample_kvs"
proof -
  obtain g where g: "gguf_open_one sample_fs ''m'' = Inr g" "g_kv g = sample_kvs"
    using sample_opened_one by simp
  then show ?thesis using gguf_open_header_agrees [of sample_fs "''m''" undefined undefined g] by auto
qed



text \<open>
  C26. On the metadata of an opened model, \<open>gguf_get_u32_idx\<close> never reads outside the mapping
  (the result is never \<open>None\<close>), whatever the index. On a scalar it is \<open>gguf_get_u32\<close>; on an array
  of integers it is the element at that index when there is one and it fits in \<open>uint32_t\<close>, and
  otherwise the default.
\<close>

theorem gguf_get_u32_idx_exact:
  assumes "gguf_open fs path = Inr g" "\<forall>p s. fs p = Some s \<longrightarrow> length s < 2 ^ 64"
  shows "gguf_get_u32_idx (g_kv g) key idx d = Some
    (case gguf_get (g_kv g) key of
       None \<Rightarrow> d
     | Some kv \<Rightarrow>
         if kv_type kv \<noteq> GGUF_T_ARR then gguf_get_u32 (g_kv g) key d
         else (case kv_arr_raw kv of
           Some p \<Rightarrow> if idx < kv_arr_n kv then u32_or d (map_option of_int (elem_number (kv_arr_type kv) p (unat idx))) else d
         | None \<Rightarrow> d))"
proof (cases "gguf_get (g_kv g) key")
  case None
  then show ?thesis by (simp add: gguf_get_u32_idx_def)
next
  case (Some kv)
  have "file_safe fs g" using gguf_open_file_safe [where fs = fs, OF assms(1)] assms(2) by blast
  then have inv: "kv_inv kv" using gguf_get_member [OF Some] by (simp add: file_safe_def list_all_iff)
  show ?thesis
    using Some inv arr_elem_spec [OF Some, of _ idx d]
    by (cases "kv_type kv = GGUF_T_ARR"; cases "kv_arr_raw kv"; cases "idx < kv_arr_n kv") (auto simp: gguf_get_u32_idx_def not_less)
qed

lemma gguf_get_u32_idx_exact_witness:
  "\<exists>g. gguf_open sample_fs ''m'' = Inr g \<and> gguf_get_u32_idx (g_kv g) ''a'' 1 0 = Some 9 \<and>
     gguf_get_u32_idx (g_kv g) ''a'' 2 0 = Some 0"
proof -
  obtain g where g: "gguf_open sample_fs ''m'' = Inr g" "g_kv g = sample_kvs" using sample_opened by simp
  have s: "\<forall>p s. sample_fs p = Some s \<longrightarrow> length s < 2 ^ 64" using sample_small by blast
  show ?thesis
    using gguf_get_u32_idx_exact [OF g(1) s, of "''a''" 1 0] gguf_get_u32_idx_exact [OF g(1) s, of "''a''" 2 0] g(1)
    unfolding g(2)
    by (intro exI [of _ g]) (simp add: g(2) gguf_get_def sample_kvs_def kv_zero_def elem_number_def gguf_scalar_size_def
        kv_is_unsigned_def kv_is_signed_def u32_or_def)
qed

end
