(* ===== verification/Compat.thy ===== *)
theory Compat
  imports Gguf_Laws
begin

text \<open>
  The strict number parsers of \<open>src/compat.c\<close>, shared by the command line, the environment
  overrides and the plan files. A C string has no NUL inside. \<open>strtoll\<close> and \<open>strtoull\<close> in base 10
  are those of the C standard in the "C" locale: they skip white space, take an optional sign and
  digits, and saturate with \<open>errno = ERANGE\<close> when the number does not fit.
\<close>

definition c_space :: "char \<Rightarrow> bool" where
  "c_space c \<longleftrightarrow> c = CHR '' '' \<or> c = CHR 0x09 \<or> c = CHR 0x0A \<or> c = CHR 0x0B \<or> c = CHR 0x0C \<or> c = CHR 0x0D"

text \<open>The number, where it ends (\<open>None\<close> when there are no digits: \<open>end == s\<close>), and whether it
  overflowed; \<open>LLONG_MIN\<close> and \<open>LLONG_MAX\<close> bound it.\<close>

definition llong_min :: int where "llong_min = - (2 ^ 63)"
definition llong_max :: int where "llong_max = 2 ^ 63 - 1"

definition scan_sign :: "string \<Rightarrow> bool \<times> string" where
  "scan_sign s =
     (case s of c # r \<Rightarrow> if c = CHR ''-'' then (True, r) else if c = CHR ''+'' then (False, r) else (False, s)
      | [] \<Rightarrow> (False, s))"

definition strtoll :: "string \<Rightarrow> int \<times> string option \<times> bool" where
  "strtoll s =
     (case scan_sign (dropWhile c_space s) of
        (neg, t) \<Rightarrow>
          (let ds = takeWhile is_digit t
           in if ds = [] then (0, None, False)
              else
                (let v = (if neg then - int (dec_digits ds) else int (dec_digits ds));
                     rest = Some (dropWhile is_digit t)
                 in if v < llong_min then (llong_min, rest, True)
                    else if v > llong_max then (llong_max, rest, True)
                    else (v, rest, False))))"

definition strtoull :: "string \<Rightarrow> 64 word \<times> string option \<times> bool" where
  "strtoull s =
     (case scan_sign (dropWhile c_space s) of
        (neg, t) \<Rightarrow>
          (let ds = takeWhile is_digit t
           in if ds = [] then (0, None, False)
              else
                (let n = dec_digits ds; rest = Some (dropWhile is_digit t)
                 in if n > unat UINT64_MAX then (UINT64_MAX, rest, True)
                    else (if neg then - word_of_nat n else word_of_nat n, rest, False))))"

text \<open>The string is \<open>None\<close> when the pointer is NULL.\<close>

definition parse_i64 :: "string option \<Rightarrow> int \<Rightarrow> int \<Rightarrow> int option" where
  "parse_i64 s lo hi =
     (case s of
        None \<Rightarrow> None
      | Some t \<Rightarrow>
          if t = [] then None
          else (case strtoll t of
            (v, e, erange) \<Rightarrow>
              if erange \<or> e = None \<or> e \<noteq> Some [] \<or> v < lo \<or> v > hi then None else Some v))"

definition parse_u64 :: "string option \<Rightarrow> 64 word \<Rightarrow> 64 word \<Rightarrow> 64 word option" where
  "parse_u64 s lo hi =
     (case s of
        None \<Rightarrow> None
      | Some t \<Rightarrow>
          if t = [] \<or> hd t = CHR ''-'' then None
          else (case strtoull t of
            (v, e, erange) \<Rightarrow>
              if erange \<or> e = None \<or> e \<noteq> Some [] \<or> v < lo \<or> v > hi then None else Some v))"

text \<open>An environment override: an absent or invalid variable keeps the current value.\<close>

definition env_i64 :: "(string \<Rightarrow> string option) \<Rightarrow> string \<Rightarrow> int \<Rightarrow> int \<Rightarrow> int \<Rightarrow> int" where
  "env_i64 env name lo hi current =
     (case env name of
        None \<Rightarrow> current
      | Some s \<Rightarrow> (case parse_i64 (Some s) lo hi of None \<Rightarrow> current | Some v \<Rightarrow> v))"

definition env_u64 :: "(string \<Rightarrow> string option) \<Rightarrow> string \<Rightarrow> 64 word \<Rightarrow> 64 word \<Rightarrow> 64 word \<Rightarrow> 64 word" where
  "env_u64 env name lo hi current =
     (case env name of
        None \<Rightarrow> current
      | Some s \<Rightarrow> (case parse_u64 (Some s) lo hi of None \<Rightarrow> current | Some v \<Rightarrow> v))"

subsection \<open>What they accept\<close>

text \<open>The decimal integers: white space, a sign, and digits to the end.\<close>

definition int_text :: "string \<Rightarrow> int option" where
  "int_text s =
     (case scan_sign (dropWhile c_space s) of
        (neg, ds) \<Rightarrow>
          if ds \<noteq> [] \<and> list_all is_digit ds
          then Some (if neg then - int (dec_digits ds) else int (dec_digits ds)) else None)"

lemma digits_to_end: "dropWhile is_digit t = [] \<longleftrightarrow> list_all is_digit t"
  by (simp add: dropWhile_eq_Nil_conv list_all_iff)

lemma int_text_nil: "int_text [] = None"
  by (simp add: int_text_def scan_sign_def)

lemma strtoll_end:
  "scan_sign (dropWhile c_space s) = (neg, t) \<Longrightarrow>
     fst (snd (strtoll s)) = (if takeWhile is_digit t = [] then None else Some (dropWhile is_digit t))"
  by (simp add: strtoll_def Let_def)

lemma strtoull_end:
  "scan_sign (dropWhile c_space s) = (neg, t) \<Longrightarrow>
     fst (snd (strtoull s)) = (if takeWhile is_digit t = [] then None else Some (dropWhile is_digit t))"
  by (simp add: strtoull_def Let_def)

lemma scan_all_digits:
  assumes "list_all is_digit t"
  shows "takeWhile is_digit t = t" "dropWhile is_digit t = []"
  using assms digits_to_end by (auto simp: takeWhile_eq_all_conv list_all_iff)

lemma parse_i64_text:
  "parse_i64 (Some s) lo hi =
     (case int_text s of
        None \<Rightarrow> None
      | Some v \<Rightarrow> if lo \<le> v \<and> v \<le> hi \<and> llong_min \<le> v \<and> v \<le> llong_max then Some v else None)"
proof (cases "s = []")
  case True
  then show ?thesis by (simp add: parse_i64_def int_text_nil)
next
  case ne: False
  obtain neg t where t: "scan_sign (dropWhile c_space s) = (neg, t)" by (cases "scan_sign (dropWhile c_space s)")
  show ?thesis
  proof (cases "list_all is_digit t")
    case True
    note d = scan_all_digits [OF True]
    show ?thesis
      using ne by (simp add: parse_i64_def strtoll_def t d True int_text_def Let_def cong: if_cong)
  next
    case False
    then have "fst (snd (strtoll s)) \<noteq> Some []" using digits_to_end [of t] strtoll_end [OF t] by simp
    then show ?thesis using ne False by (auto simp: parse_i64_def t int_text_def split: prod.splits)
  qed
qed

text \<open>\<open>parse_u64\<close> refuses a minus sign only as the very first character: after white space it
  is let through, and \<open>strtoull\<close> negates the number.\<close>

lemma parse_u64_negates:
  "parse_u64 (Some '' -1'') 0 UINT64_MAX = Some UINT64_MAX"
proof -
  have "strtoull '' -1'' = (- 1, Some [], False)"
    by (simp add: strtoull_def scan_sign_def c_space_def is_digit_def dec_digits_def Let_def)
  then show ?thesis by (simp add: parse_u64_def UINT64_MAX_def)
qed

end
