(* ===== verification/Gguf_Write.thy ===== *)
theory Gguf_Write
  imports Compat
begin

text \<open>
  The GGUF writer of \<open>src/quantize.c\<close>: a file that is written front to back, whose \<open>ok\<close> flag latches the first
  failure, the scalar and metadata writers, and padding. The file system takes \<open>w_room\<close> more bytes; a
  write that does not fit is cut short, and \<open>fwrite\<close> reports it. \<open>w_fault\<close> records a read beyond the
  memory that is to be written.
\<close>

subsection \<open>The writer\<close>

record writer =
  w_out :: string
  w_room :: nat
  w_ok :: bool
  w_fault :: bool

text \<open>\<open>wr(w, p, n)\<close>, with \<open>p\<close> the bytes from the pointer to the end of its memory.\<close>

definition wr :: "writer \<Rightarrow> string \<Rightarrow> nat \<Rightarrow> writer" where
  "wr w p n =
     (if w_ok w \<and> n > 0 then
        (let k = min n (w_room w)
         in w\<lparr>w_out := w_out w @ take k p, w_room := w_room w - k, w_ok := (k = n),
              w_fault := w_fault w \<or> n > length p\<rparr>)
      else w)"

definition wr_u32 :: "writer \<Rightarrow> 32 word \<Rightarrow> writer" where
  "wr_u32 w v = wr w (le_bytes 4 (unat v)) 4"

definition wr_u64 :: "writer \<Rightarrow> 64 word \<Rightarrow> writer" where
  "wr_u64 w v = wr w (le_bytes 8 (unat v)) 8"

text \<open>\<open>n > SIZE_MAX\<close> is impossible where \<open>size_t\<close> has 64 bits.\<close>

definition wr_str :: "writer \<Rightarrow> string \<Rightarrow> 64 word \<Rightarrow> writer" where
  "wr_str w s n = wr (wr_u64 w n) s (unat n)"

text \<open>\<open>None\<close> is -1. \<open>ftello\<close> fails on a position that no \<open>off_t\<close> holds.\<close>

definition wr_tell :: "writer \<Rightarrow> 64 word option \<times> writer" where
  "wr_tell w =
     (if \<not> w_ok w then (None, w)
      else if length (w_out w) \<ge> 2 ^ 63 then (None, w\<lparr>w_ok := False\<rparr>)
      else (Some (word_of_nat (length (w_out w))), w))"

text \<open>The loop of \<open>wr_pad_to\<close>, \<open>k\<close> bytes before its end.\<close>

function pad_loop :: "nat \<Rightarrow> writer \<Rightarrow> writer" where
  "pad_loop k w =
     (if w_ok w \<and> 0 < k then
        (let n = min k 4096 in pad_loop (k - n) (wr w (replicate n CHR 0x00) n))
      else w)"
  by pat_completeness auto
termination
  by (relation "measure fst") auto

declare pad_loop.simps [simp del]

definition wr_pad_to :: "writer \<Rightarrow> 64 word \<Rightarrow> writer" where
  "wr_pad_to w target =
     (case wr_tell w of
        (None, w') \<Rightarrow> w'
      | (Some pos, w') \<Rightarrow>
          if pos > target then w'\<lparr>w_ok := False\<rparr> else pad_loop (unat (target - pos)) w')"

text \<open>\<open>wr_close\<close>; whether \<open>fclose\<close> succeeds is the environment's choice.\<close>

definition wr_close :: "bool \<Rightarrow> writer \<Rightarrow> bool" where
  "wr_close closes w = (w_ok w \<and> closes)"

subsection \<open>Metadata\<close>

definition kv_scalar_size :: "32 word \<Rightarrow> nat" where
  "kv_scalar_size t =
     (if t = GGUF_T_U8 \<or> t = GGUF_T_I8 \<or> t = GGUF_T_BOOL then 1
      else if t = GGUF_T_U16 \<or> t = GGUF_T_I16 then 2
      else if t = GGUF_T_U32 \<or> t = GGUF_T_I32 \<or> t = GGUF_T_F32 then 4
      else if t = GGUF_T_U64 \<or> t = GGUF_T_I64 \<or> t = GGUF_T_F64 then 8
      else 0)"

definition wr_scalar :: "writer \<Rightarrow> gguf_kv \<Rightarrow> 32 word \<Rightarrow> writer" where
  "wr_scalar w kv t =
     (if t = GGUF_T_U8 then wr w (le_bytes 1 (unat (ucast (kv_v kv) :: 8 word))) 1
      else if t = GGUF_T_I8 then wr w (le_bytes 1 (unat (ucast (kv_v kv) :: 8 word))) 1
      else if t = GGUF_T_BOOL then wr w (le_bytes 1 (if (ucast (kv_v kv) :: 8 word) \<noteq> 0 then 1 else 0)) 1
      else if t = GGUF_T_U16 then wr w (le_bytes 2 (unat (ucast (kv_v kv) :: 16 word))) 2
      else if t = GGUF_T_I16 then wr w (le_bytes 2 (unat (ucast (kv_v kv) :: 16 word))) 2
      else if t = GGUF_T_U32 then wr w (le_bytes 4 (unat (ucast (kv_v kv) :: 32 word))) 4
      else if t = GGUF_T_I32 then wr w (le_bytes 4 (unat (ucast (kv_v kv) :: 32 word))) 4
      else if t = GGUF_T_F32 then wr w (le_bytes 4 (unat (ucast (kv_raw kv) :: 32 word))) 4
      else if t = GGUF_T_U64 then wr w (le_bytes 8 (unat (kv_v kv))) 8
      else if t = GGUF_T_I64 then wr w (le_bytes 8 (unat (kv_v kv))) 8
      else if t = GGUF_T_F64 then wr w (le_bytes 8 (unat (kv_raw kv))) 8
      else w)"

fun wr_strs :: "writer \<Rightarrow> string list \<Rightarrow> writer" where
  "wr_strs w [] = w"
| "wr_strs w (s # ss) = wr_strs (wr_str w s (word_of_nat (length s))) ss"

text \<open>\<open>arr_raw\<close> is never NULL for an array that is not one of strings.\<close>

definition wr_kv :: "writer \<Rightarrow> gguf_kv \<Rightarrow> writer" where
  "wr_kv w kv =
     (let w1 = wr_u32 (wr_str w (kv_key kv) (word_of_nat (length (kv_key kv)))) (kv_type kv)
      in if kv_type kv = GGUF_T_STR then wr_str w1 (kv_str kv) (word_of_nat (length (kv_str kv)))
         else if kv_type kv = GGUF_T_ARR then
           (let w2 = wr_u64 (wr_u32 w1 (kv_arr_type kv)) (kv_arr_n kv)
            in if kv_arr_type kv = GGUF_T_STR then wr_strs w2 (kv_arr_str kv)
               else (case checked_u64_mul (word_of_nat (kv_scalar_size (kv_arr_type kv))) (kv_arr_n kv) of
                 None \<Rightarrow> w2\<lparr>w_ok := False\<rparr>
               | Some bytes \<Rightarrow>
                   (case kv_arr_raw kv of
                      None \<Rightarrow> wr w2 [] (unat bytes)
                    | Some raw \<Rightarrow> wr w2 raw (unat bytes))))
         else wr_scalar w1 kv (kv_type kv))"

subsection \<open>What a writer has written\<close>

text \<open>From \<open>w\<close> to \<open>w'\<close> the text \<open>s\<close> was written, unless a write failed; reading it was in bounds.\<close>

definition wrote :: "writer \<Rightarrow> string \<Rightarrow> writer \<Rightarrow> bool" where
  "wrote w s w' \<longleftrightarrow>
     (w_ok w' \<longrightarrow> w_ok w \<and> w_out w' = w_out w @ s \<and> w_room w = length s + w_room w') \<and>
     w_fault w' = w_fault w"

named_theorems wrotes \<open>what the writing functions write\<close>

lemma wrote_refl [wrotes]: "wrote w [] w"
  by (simp add: wrote_def)

lemma wrote_trans: "wrote w s w1 \<Longrightarrow> wrote w1 t w2 \<Longrightarrow> wrote w (s @ t) w2"
  by (auto simp: wrote_def)

lemma wrote_failed: "wrote w s w' \<Longrightarrow> wrote w t (w'\<lparr>w_ok := False\<rparr>)"
  by (simp add: wrote_def)

lemma wr_wrote: "n \<le> length p \<Longrightarrow> wrote w (take n p) (wr w p n)"
  by (auto simp: wr_def wrote_def Let_def)

lemma wr_whole [wrotes]: "n = length p \<Longrightarrow> wrote w p (wr w p n)"
  using wr_wrote [of n p w] by simp

lemma wr_u32_wrote [wrotes]: "wrote w (le_bytes 4 (unat v)) (wr_u32 w v)"
  by (simp add: wr_u32_def wr_whole)

lemma wr_u64_wrote [wrotes]: "wrote w (le_bytes 8 (unat v)) (wr_u64 w v)"
  by (simp add: wr_u64_def wr_whole)

lemma unat_length: "length s < 2 ^ 64 \<Longrightarrow> unat (word_of_nat (length s) :: 64 word) = length s"
  by (simp add: unsigned_of_nat take_bit_eq_mod)

lemma wr_str_wrote [wrotes]:
  "length s < 2 ^ 64 \<Longrightarrow> wrote w (le_str s) (wr_str w s (word_of_nat (length s)))"
  unfolding wr_str_def le_str_def
  using wrote_trans [OF wr_u64_wrote [of w "word_of_nat (length s)"] wr_whole [OF refl, of _ s]] by (simp add: unat_length)

lemma wr_strs_wrote [wrotes]:
  "\<forall>s \<in> set ss. length s < 2 ^ 64 \<Longrightarrow> wrote w (concat (map le_str ss)) (wr_strs w ss)"
proof (induction ss arbitrary: w)
  case (Cons s ss)
  then show ?case
    using wrote_trans [OF wr_str_wrote [of s w] Cons.IH [of "wr_str w s (word_of_nat (length s))"]] by simp
qed (simp add: wrote_refl)

lemma pad_loop_wrote: "wrote w (replicate k CHR 0x00) (pad_loop k w)"
proof (induction k w rule: pad_loop.induct)
  case (1 k w)
  show ?case
  proof (cases "w_ok w \<and> 0 < k")
    case True
    let ?n = "min k 4096"
    have "replicate k CHR 0x00 = replicate ?n CHR 0x00 @ replicate (k - ?n) CHR 0x00"
      by (simp flip: replicate_add)
    moreover have "wrote w (replicate ?n CHR 0x00) (wr w (replicate ?n CHR 0x00) ?n)" by (rule wr_whole) simp
    ultimately show ?thesis
      using "1" [OF True refl] True wrote_trans by (simp add: pad_loop.simps [of k w] Let_def)
  next
    case False
    then have "pad_loop k w = w" by (subst pad_loop.simps) auto
    then show ?thesis using False by (auto simp: wrote_def)
  qed
qed

text \<open>Padding up to \<open>target\<close>; a target that is already behind fails.\<close>

lemma wr_pad_to_wrote:
  "wrote w (replicate (unat target - length (w_out w)) CHR 0x00) (wr_pad_to w target) \<and>
   (w_ok (wr_pad_to w target) \<longrightarrow> length (w_out w) \<le> unat target \<and> length (w_out w) < 2 ^ 63)"
proof (cases "w_ok w \<and> length (w_out w) < 2 ^ 63")
  case True
  define pos where "pos = (word_of_nat (length (w_out w)) :: 64 word)"
  have p: "unat pos = length (w_out w)" using True by (simp add: pos_def unat_length)
  have t: "wr_tell w = (Some pos, w)" using True by (simp add: wr_tell_def pos_def)
  show ?thesis
  proof (cases "pos > target")
    case True
    then show ?thesis using t by (simp add: wr_pad_to_def wrote_def)
  next
    case le: False
    then have "unat (target - pos) = unat target - length (w_out w)" "length (w_out w) \<le> unat target"
      using p by (simp_all add: unat_sub word_le_nat_alt not_less)
    then show ?thesis using t le True pad_loop_wrote by (simp add: wr_pad_to_def)
  qed
next
  case False
  then have "\<not> w_ok (wr_pad_to w target)" "w_fault (wr_pad_to w target) = w_fault w"
    by (auto simp: wr_pad_to_def wr_tell_def)
  then show ?thesis by (simp add: wrote_def)
qed

end
