(* ===== verification/Quantize.thy ===== *)
theory Quantize
  imports Gguf_Write
begin

text \<open>
  The requantiser of \<open>src/quantize.c\<close>: type plans and prune plans, the choice of every tensor's output type, and the
  rewriting of the file (\<open>quantize_gguf_plan\<close> with no adapter to merge: \<open>ms\<close> is NULL). The row kernels of the
  block formats are floating-point code of \<open>quantize.c\<close> and \<open>quants.c\<close> that is not modelled; they are the
  parameters \<open>kq\<close> (a row of floats to bytes) and \<open>kd\<close> (a block of bytes to floats). Floats are their
  bit patterns. Tensor types are the 32 bits of the C \<open>int\<close>. Messages on stderr are not modelled.
\<close>

subsection \<open>Rows\<close>

definition T_KEEP :: "32 word" where "T_KEEP = - 1"

definition bytes16 :: "16 word list \<Rightarrow> string" where
  "bytes16 xs = concat (map (\<lambda>x. le_bytes 2 (unat x)) xs)"

definition bytes32 :: "32 word list \<Rightarrow> string" where
  "bytes32 xs = concat (map (\<lambda>x. le_bytes 4 (unat x)) xs)"

definition block_type :: "32 word \<Rightarrow> bool" where
  "block_type t \<longleftrightarrow> t = T_Q8_0 \<or> t = T_Q4_0 \<or> t = T_Q3_K \<or> t = T_Q4_K \<or> t = T_Q6_K"

definition quantize_row_any :: "(32 word \<Rightarrow> 32 word list \<Rightarrow> string) \<Rightarrow> 32 word \<Rightarrow> 32 word list \<Rightarrow> string" where
  "quantize_row_any kq t rowf =
     (if block_type t then kq t rowf
      else if t = T_F16 then bytes16 (quantize_row_f16 rowf)
      else if t = T_BF16 then bytes16 (quantize_row_bf16 rowf)
      else bytes32 rowf)"

definition quantize_row_writable :: "32 word \<Rightarrow> bool" where
  "quantize_row_writable t \<longleftrightarrow>
     t = T_F32 \<or> t = T_F16 \<or> t = T_BF16 \<or> t = T_Q8_0 \<or> t = T_Q4_0 \<or> t = T_Q3_K \<or> t = T_Q4_K \<or> t = T_Q6_K"

text \<open>\<open>dequant_row\<close>: \<open>k\<close> numbers of \<open>n\<close> bytes each, from byte \<open>i\<close> on.\<close>

definition numbers_at :: "nat \<Rightarrow> nat \<Rightarrow> string \<Rightarrow> nat list" where
  "numbers_at k n p = map (\<lambda>i. le_val (take n (drop (i * n) p))) [0..<k]"

definition dequant_row :: "(32 word \<Rightarrow> string \<Rightarrow> 32 word list) \<Rightarrow> 32 word \<Rightarrow> string \<Rightarrow> nat \<Rightarrow> 32 word list" where
  "dequant_row kd t p n =
     (if t = T_F32 then map word_of_nat (numbers_at n 4 p)
      else if t = T_F16 then
        map (\<lambda>h. case f16_to_f32 (word_of_nat h) of Some u \<Rightarrow> u | None \<Rightarrow> 0) (numbers_at n 2 p)
      else if t = T_BF16 then map (\<lambda>h. bf16_to_f32 (word_of_nat h)) (numbers_at n 2 p)
      else (let bs = ggml_block_size t; ts = ggml_type_size t
            in concat (map (\<lambda>i. kd t (take ts (drop (i * ts) p))) [0..<(n + bs - 1) div bs])))"

subsection \<open>Type plans\<close>

definition type_from_name :: "string option \<Rightarrow> 32 word" where
  "type_from_name s =
     (case s of
        None \<Rightarrow> - 2
      | Some n \<Rightarrow>
          if n = ''keep'' then T_KEEP
          else if n = ''q8_0'' then T_Q8_0
          else if n = ''q4_0'' then T_Q4_0
          else if n = ''q3_k'' then T_Q3_K
          else if n = ''q4_k'' then T_Q4_K
          else if n = ''q6_k'' then T_Q6_K
          else if n = ''f16'' then T_F16
          else if n = ''bf16'' then T_BF16
          else - 2)"

definition quantize_type_from_name :: "string option \<Rightarrow> 32 word" where
  "quantize_type_from_name s = type_from_name s"

record type_plan =
  tp_rules :: "(string \<times> 32 word) list"
  tp_dflt :: "32 word"

definition load_rule :: "jv \<Rightarrow> (string \<times> 32 word) option" where
  "load_rule r =
     (case (jv_get (Some r) ''match'', jv_get (Some r) ''type'') of
        (Some (JStr m), Some (JStr t)) \<Rightarrow>
          (let ty = type_from_name (Some (cstr t)) in if ty = - 2 then None else Some (cstr m, ty))
      | _ \<Rightarrow> None)"

fun load_rules :: "jv list \<Rightarrow> (string \<times> 32 word) list option" where
  "load_rules [] = Some []"
| "load_rules (r # rs) =
     (case load_rule r of
        None \<Rightarrow> None
      | Some x \<Rightarrow> (case load_rules rs of None \<Rightarrow> None | Some xs \<Rightarrow> Some (x # xs)))"

definition type_plan_load :: "(string \<Rightarrow> string option) \<Rightarrow> string \<Rightarrow> type_plan option" where
  "type_plan_load fs path =
     (case fs path of
        None \<Rightarrow> None
      | Some buf \<Rightarrow>
          if length buf > 8 * 1024 * 1024 then None
          else (case json_parse buf of
            Some (JObj ms) \<Rightarrow>
              (let dflt = (case jv_get (Some (JObj ms)) ''default'' of
                             Some (JStr d) \<Rightarrow> type_from_name (Some (cstr d))
                           | _ \<Rightarrow> T_KEEP)
               in if dflt = - 2 then None
                  else (case jv_get (Some (JObj ms)) ''rules'' of
                    Some (JArr rs) \<Rightarrow> map_option (\<lambda>xs. \<lparr>tp_rules = xs, tp_dflt = dflt\<rparr>) (load_rules rs)
                  | _ \<Rightarrow> Some \<lparr>tp_rules = [], tp_dflt = dflt\<rparr>))
          | _ \<Rightarrow> None))"

text \<open>\<open>strstr(s, t) != NULL\<close>.\<close>

fun contains :: "string \<Rightarrow> string \<Rightarrow> bool" where
  "contains s t = (take (length t) s = t \<or> (case s of [] \<Rightarrow> False | _ # r \<Rightarrow> contains r t))"

declare contains.simps [simp del]

definition type_plan_pick :: "type_plan \<Rightarrow> string \<Rightarrow> 32 word" where
  "type_plan_pick plan name =
     (case find (\<lambda>(m, _). contains name m) (tp_rules plan) of Some (_, t) \<Rightarrow> t | None \<Rightarrow> tp_dflt plan)"

subsection \<open>Prune plans\<close>

record prune_layer =
  pl_layer :: int
  pl_ids :: "int list"

definition INT_MAX :: int where "INT_MAX = 2147483647"

definition load_id :: "jv \<Rightarrow> int option" where
  "load_id v =
     (case v of
        JNum d \<Rightarrow> if d < 0 \<or> d > of_int INT_MAX \<or> of_int \<lfloor>d\<rfloor> \<noteq> d then None else Some \<lfloor>d\<rfloor>
      | _ \<Rightarrow> None)"

fun load_ids :: "jv list \<Rightarrow> int list option" where
  "load_ids [] = Some []"
| "load_ids (v # vs) =
     (case load_id v of
        None \<Rightarrow> None
      | Some i \<Rightarrow> (case load_ids vs of None \<Rightarrow> None | Some is \<Rightarrow> Some (i # is)))"

definition load_layer :: "string \<Rightarrow> jv \<Rightarrow> prune_layer option" where
  "load_layer key v =
     (if take 6 key \<noteq> ''layer_'' \<or> length key \<le> 6 \<or> \<not> is_digit (key ! 6) then None
      else (case parse_i64 (Some (drop 6 key)) 0 INT_MAX of
        None \<Rightarrow> None
      | Some layer \<Rightarrow>
          (case v of
             JArr arr \<Rightarrow>
               if length arr < 1 then None
               else (case load_ids arr of
                 None \<Rightarrow> None
               | Some ids \<Rightarrow> if distinct ids then Some \<lparr>pl_layer = layer, pl_ids = ids\<rparr> else None)
           | _ \<Rightarrow> None)))"

fun load_layers :: "(string \<times> jv) list \<Rightarrow> prune_layer list option" where
  "load_layers [] = Some []"
| "load_layers ((k, v) # ms) =
     (case load_layer k v of
        None \<Rightarrow> None
      | Some l \<Rightarrow> (case load_layers ms of None \<Rightarrow> None | Some ls \<Rightarrow> Some (l # ls)))"

definition prune_plan_load :: "(string \<Rightarrow> string option) \<Rightarrow> string \<Rightarrow> prune_layer list option" where
  "prune_plan_load fs path =
     (case fs path of
        None \<Rightarrow> None
      | Some buf \<Rightarrow>
          if length buf > 64 * 1024 * 1024 then None
          else (case json_parse buf of Some (JObj ms) \<Rightarrow> load_layers ms | _ \<Rightarrow> None))"

definition prune_plan_find :: "prune_layer list \<Rightarrow> int \<Rightarrow> prune_layer option" where
  "prune_plan_find plan layer = find (\<lambda>l. pl_layer l = layer) plan"

definition is_expert_tensor_suffix :: "string \<Rightarrow> bool" where
  "is_expert_tensor_suffix suffix \<longleftrightarrow>
     suffix \<in> {''ffn_gate_inp.weight'', ''ffn_gate_inp.bias'',
               ''ffn_gate_exps.weight'', ''ffn_gate_exps.bias'',
               ''ffn_up_exps.weight'', ''ffn_up_exps.bias'',
               ''ffn_down_exps.weight'', ''ffn_down_exps.bias'',
               ''ffn_gate_up_exps.weight'',
               ''ffn_down_exps.scale'',
               ''exp_probs_b.weight'', ''exp_probs_b.bias''}"

text \<open>\<open>long\<close> has 64 bits.\<close>

definition parse_blk_name :: "string \<Rightarrow> (int \<times> string) option" where
  "parse_blk_name name =
     (if take 4 name \<noteq> ''blk.'' then None
      else (case strtoll (drop 4 name) of
        (v, Some (c # suffix), _) \<Rightarrow> if c \<noteq> CHR ''.'' \<or> v < 0 \<or> v > INT_MAX then None else Some (v, suffix)
      | _ \<Rightarrow> None))"

definition expert_block_geometry :: "gguf_tensor \<Rightarrow> 64 word \<times> 64 word" where
  "expert_block_geometry t =
     (if t_n_dims t \<ge> 2 then t_ne t ! 0 else 1, if t_n_dims t \<ge> 3 then t_ne t ! 1 else 1)"

definition resolve_prune :: "gguf_tensor \<Rightarrow> prune_layer list \<Rightarrow> prune_layer option" where
  "resolve_prune t plan =
     (if plan = [] then None
      else (case parse_blk_name (t_name t) of
        None \<Rightarrow> None
      | Some (layer, suffix) \<Rightarrow>
          if \<not> is_expert_tensor_suffix suffix then None else prune_plan_find plan layer))"

text \<open>The pre-pass over the routers: how many there are, how many the plan covers, whether any loses experts, whether all end up
  with one count, and the first count.\<close>

record prune_scan =
  ps_layers :: int
  ps_seen :: int
  ps_any :: bool
  ps_equal :: bool
  ps_first :: int

definition last_dim :: "gguf_tensor \<Rightarrow> int" where
  "last_dim t = sint (t_ne t ! (unat (t_n_dims t) - 1))"

definition same_axis :: "gguf_tensor list \<Rightarrow> int \<Rightarrow> int \<Rightarrow> bool" where
  "same_axis ts layer n \<longleftrightarrow>
     list_all (\<lambda>t. case parse_blk_name (t_name t) of
         Some (l, suffix) \<Rightarrow> l = layer \<and> is_expert_tensor_suffix suffix \<longrightarrow> last_dim t = n
       | None \<Rightarrow> True) ts"

fun prune_scan_loop :: "gguf_tensor list \<Rightarrow> prune_layer list \<Rightarrow> gguf_tensor list \<Rightarrow> prune_scan \<Rightarrow> prune_scan option" where
  "prune_scan_loop all_ts plan [] s = Some s"
| "prune_scan_loop all_ts plan (t # ts) s =
     (case parse_blk_name (t_name t) of
        None \<Rightarrow> prune_scan_loop all_ts plan ts s
      | Some (layer, suffix) \<Rightarrow>
          if suffix \<noteq> ''ffn_gate_inp.weight'' then prune_scan_loop all_ts plan ts s
          else if t_n_dims t < 2 then None
          else
            (let orig_n = last_dim t;
                 step = (\<lambda>seen pruned fin.
                   prune_scan_loop all_ts plan ts
                     \<lparr>ps_layers = ps_layers s + 1, ps_seen = seen, ps_any = pruned,
                      ps_equal = (if ps_first s < 0 then ps_equal s else ps_equal s \<and> fin = ps_first s),
                      ps_first = (if ps_first s < 0 then fin else ps_first s)\<rparr>)
             in case prune_plan_find plan layer of
                  None \<Rightarrow> step (ps_seen s) (ps_any s) orig_n
                | Some pl \<Rightarrow>
                    if list_ex (\<lambda>i. i \<ge> orig_n) (pl_ids pl) \<or> \<not> same_axis all_ts layer orig_n then None
                    else step (ps_seen s + 1) (ps_any s \<or> int (length (pl_ids pl)) < orig_n) (int (length (pl_ids pl)))))"

text \<open>\<open>Some None\<close>: the plan is valid; \<open>Some (Some n)\<close>: and every layer ends up with \<open>n\<close> experts.\<close>

definition prune_prepass :: "gguf_tensor list \<Rightarrow> prune_layer list \<Rightarrow> int option option" where
  "prune_prepass ts plan =
     (if plan = [] then Some None
      else (case prune_scan_loop ts plan ts \<lparr>ps_layers = 0, ps_seen = 0, ps_any = False, ps_equal = True, ps_first = - 1\<rparr> of
        None \<Rightarrow> None
      | Some s \<Rightarrow>
          if ps_seen s < int (length plan) then None
          else if ps_any s \<and> ps_equal s \<and> ps_seen s = ps_layers s then Some (Some (ps_first s))
          else Some None))"

text \<open>\<open>snprintf(ec_key, 128, ...)\<close> cuts the key short.\<close>

definition rewrite_count :: "gguf_kv list \<Rightarrow> int \<Rightarrow> gguf_kv list" where
  "rewrite_count kvs n =
     (let arch = (case gguf_get_str kvs ''general.architecture'' (Some []) of Some a \<Rightarrow> a | None \<Rightarrow> []);
          key = take 127 (arch @ ''.expert_count'');
          hits = takeWhile (\<lambda>kv. kv_key kv \<noteq> key) kvs;
          k = length hits
      in if k < length kvs \<and> kv_type (kvs ! k) = GGUF_T_U32 then kvs[k := (kvs ! k)\<lparr>kv_v := word_of_int n\<rparr>] else kvs)"

subsection \<open>Output types\<close>

definition should_quantize :: "gguf_tensor \<Rightarrow> bool" where
  "should_quantize t =
     (if t_n_dims t < 2 then False
      else if t_ne t ! 0 mod 32 \<noteq> 0 then False
      else if length (t_name t) < 7 \<or> drop (length (t_name t) - 7) (t_name t) \<noteq> ''.weight'' then False
      else if contains (t_name t) ''_norm.'' then False
      else if contains (t_name t) ''rope_freqs'' then False
      else True)"

definition keep_source_type :: "gguf_tensor \<Rightarrow> bool" where
  "keep_source_type t = contains (t_name t) ''ffn_gate_inp''"

definition type_fits_row :: "32 word \<Rightarrow> int \<Rightarrow> bool" where
  "type_fits_row ty n \<longleftrightarrow> n mod int (ggml_block_size ty) = 0"

definition row_len0 :: "gguf_tensor \<Rightarrow> int" where
  "row_len0 t = sint (t_ne t ! 0)"

definition plan_out_type :: "type_plan \<Rightarrow> gguf_tensor \<Rightarrow> 32 word" where
  "plan_out_type tplan t =
     (let want = type_plan_pick tplan (t_name t)
      in if keep_source_type t \<or> want = T_KEEP then t_type t
         else if \<not> should_quantize t then (if t_type t = T_F16 then T_F16 else T_F32)
         else if \<not> type_fits_row want (row_len0 t) then t_type t
         else if ggml_row_size (t_type t) (row_len0 t) \<le> ggml_row_size want (row_len0 t) then t_type t
         else want)"

text \<open>\<open>only\<close> and \<open>force\<close> are the variables \<open>RUNNER_REQUANT_ONLY\<close> and \<open>RUNNER_FORCE_REQUANT\<close>.\<close>

definition target_out_type :: "string option \<Rightarrow> bool \<Rightarrow> 32 word \<Rightarrow> gguf_tensor \<Rightarrow> 32 word" where
  "target_out_type only force target t =
     (if target = T_KEEP then t_type t
      else
        (let filtered = (keep_source_type t \<or>
               (case only of Some s \<Rightarrow> s \<noteq> [] \<and> \<not> contains (t_name t) s | None \<Rightarrow> False));
             misfit = (should_quantize t \<and> \<not> type_fits_row target (row_len0 t));
             ty = (if filtered then t_type t
                   else if misfit then t_type t
                   else if should_quantize t then target
                   else (if t_type t = T_F16 then T_F16 else T_F32))
         in if \<not> (filtered \<or> misfit) \<and> should_quantize t \<and> \<not> force \<and>
               ggml_row_size (t_type t) (row_len0 t) \<le> ggml_row_size target (row_len0 t)
            then t_type t else ty))"

text \<open>\<open>general.file_type\<close> of the output: the code of the most frequent type that is not F32; the first
  of several in the order of the table.\<close>

definition FT :: "(32 word \<times> 32 word) list" where
  "FT = [(T_F16, 1), (T_BF16, 32), (T_Q4_0, 2), (T_Q4_1, 3), (T_Q5_0, 8), (T_Q5_1, 9), (T_Q8_0, 7),
     (T_Q2_K, 10), (T_Q3_K, 12), (T_Q4_K, 15), (T_Q5_K, 17), (T_Q6_K, 18),
     (T_IQ2_XXS, 19), (T_IQ2_XS, 20), (T_IQ2_S, 28), (T_IQ3_XXS, 23), (T_IQ3_S, 26), (T_IQ1_S, 24),
     (T_IQ1_M, 31), (T_IQ4_NL, 25), (T_IQ4_XS, 30), (T_MXFP4, 38)]"

fun dominant :: "32 word list \<Rightarrow> (32 word \<times> 32 word) list \<Rightarrow> nat \<Rightarrow> 32 word \<Rightarrow> 32 word" where
  "dominant tys [] best code = code"
| "dominant tys ((t, c) # ft) best code =
     (let k = length (filter (\<lambda>x. x = t) tys)
      in if k > best then dominant tys ft k c else dominant tys ft best code)"

definition file_type_out :: "32 word list \<Rightarrow> 32 word" where
  "file_type_out tys = dominant tys FT 0 0"

subsection \<open>Writing the file\<close>

definition wr_header :: "gguf_file \<Rightarrow> gguf_kv list \<Rightarrow> 32 word \<Rightarrow> writer \<Rightarrow> writer" where
  "wr_header g kvs ftype w =
     (let had = (gguf_get kvs ''general.file_type'' \<noteq> None);
          w1 = wr_u32 (wr_u32 w 0x46554747) 3;
          w2 = wr_u64 (wr_u64 w1 (g_n_tensors g)) (g_n_kv g - (if had then 1 else 0) + 1);
          w3 = fold (\<lambda>kv w. if kv_key kv = ''general.file_type'' then w else wr_kv w kv) kvs w2
      in wr_u32 (wr_u32 (wr_str w3 ''general.file_type'' 17) 4) ftype)"

text \<open>The dimensions a tensor is written with: pruning shortens the last one.\<close>

definition eff_ne :: "prune_layer list \<Rightarrow> gguf_tensor \<Rightarrow> 64 word list" where
  "eff_ne plan t =
     (case resolve_prune t plan of
        None \<Rightarrow> t_ne t
      | Some pl \<Rightarrow> (t_ne t)[unat (t_n_dims t) - 1 := word_of_nat (length (pl_ids pl))])"

text \<open>The offset after a tensor at \<open>off\<close>.\<close>

definition next_offset :: "64 word \<Rightarrow> 32 word \<Rightarrow> 64 word list \<Rightarrow> 64 word \<Rightarrow> 64 word option" where
  "next_offset amask ty ne off =
     (case checked_u64_mul (ne ! 1) (ne ! 2) of
        None \<Rightarrow> None
      | Some r \<Rightarrow>
          (case checked_u64_mul r (ne ! 3) of
             None \<Rightarrow> None
           | Some rows \<Rightarrow>
               (case checked_u64_mul (ggml_row_size ty (sint (ne ! 0))) rows of
                  None \<Rightarrow> None
                | Some bytes \<Rightarrow>
                    (case checked_u64_add off bytes of
                       None \<Rightarrow> None
                     | Some e \<Rightarrow> map_option (\<lambda>e. e AND NOT amask) (checked_u64_add e amask)))))"

fun wr_dims :: "64 word list \<Rightarrow> writer \<Rightarrow> writer" where
  "wr_dims [] w = w"
| "wr_dims (d # ds) w = wr_dims ds (wr_u64 w d)"

definition wr_entry :: "gguf_tensor \<Rightarrow> 32 word \<Rightarrow> 64 word list \<Rightarrow> 64 word \<Rightarrow> writer \<Rightarrow> writer" where
  "wr_entry t ty ne off w =
     (let w1 = wr_u32 (wr_str w (t_name t) (word_of_nat (length (t_name t)))) (t_n_dims t)
      in wr_u64 (wr_u32 (wr_dims (take (unat (t_n_dims t)) ne) w1) ty) off)"

fun wr_table :: "prune_layer list \<Rightarrow> 64 word \<Rightarrow> (gguf_tensor \<times> 32 word) list \<Rightarrow> 64 word \<Rightarrow> writer \<Rightarrow>
    writer \<times> 64 word list" where
  "wr_table plan amask [] off w = (w, [])"
| "wr_table plan amask ((t, ty) # ts) off w =
     (if \<not> w_ok w then (w, [])
      else
        (let ne = eff_ne plan t
         in case next_offset amask ty ne off of
              None \<Rightarrow> (w\<lparr>w_ok := False\<rparr>, [])
            | Some off' \<Rightarrow>
                (case wr_table plan amask ts off' (wr_entry t ty ne off w) of (w', offs) \<Rightarrow> (w', off # offs))))"

text \<open>The end of the header rounded up, and the padding to it.\<close>

definition wr_pad_header :: "64 word \<Rightarrow> writer \<Rightarrow> writer \<times> 64 word" where
  "wr_pad_header amask w =
     (case wr_tell w of
        (hdr, w1) \<Rightarrow>
          (let data_start = (case hdr of Some e \<Rightarrow> (e + amask) AND NOT amask | None \<Rightarrow> 0);
               w2 = (case hdr of Some e \<Rightarrow> if data_start < e then w1\<lparr>w_ok := False\<rparr> else w1 | None \<Rightarrow> w1)
           in (wr_pad_to w2 data_start, data_start)))"

subsection \<open>Tensor data\<close>

text \<open>The bytes from a tensor's data to the end of its mapping.\<close>

definition tensor_mem :: "(string \<Rightarrow> string option) \<Rightarrow> gguf_tensor \<Rightarrow> string" where
  "tensor_mem fs t =
     (case t_data t of
        In_map p o' \<Rightarrow> (case fs p of Some f \<Rightarrow> drop (unat o') f | None \<Rightarrow> [])
      | _ \<Rightarrow> [])"

text \<open>One row from \<open>mem\<close> through the buffers \<open>rowf\<close> (of \<open>max_row\<close> floats) and \<open>rowq\<close>.\<close>

definition convert_row :: "(32 word \<Rightarrow> 32 word list \<Rightarrow> string) \<Rightarrow> (32 word \<Rightarrow> string \<Rightarrow> 32 word list) \<Rightarrow> nat \<Rightarrow>
    32 word \<Rightarrow> 32 word \<Rightarrow> 64 word \<Rightarrow> string \<Rightarrow> writer \<Rightarrow> writer" where
  "convert_row kq kd max_row ty_in ty_out n mem w =
     (let rowq = quantize_row_any kq ty_out (dequant_row kd ty_in mem (unat n));
          fault = (unat (ggml_row_size ty_in (sint n)) > length mem \<or> unat n > max_row \<or>
                   length rowq > 4 * max_row + 64)
      in wr (w\<lparr>w_fault := w_fault w \<or> fault\<rparr>) rowq (unat (ggml_row_size ty_out (sint n))))"

fun convert_rows :: "(64 word \<Rightarrow> writer \<Rightarrow> writer) \<Rightarrow> nat \<Rightarrow> 64 word \<Rightarrow> writer \<Rightarrow> writer" where
  "convert_rows row 0 r w = w"
| "convert_rows row (Suc k) r w = convert_rows row k (r + 1) (row r w)"

definition wr_pruned :: "(32 word \<Rightarrow> 32 word list \<Rightarrow> string) \<Rightarrow> (32 word \<Rightarrow> string \<Rightarrow> 32 word list) \<Rightarrow> nat \<Rightarrow>
    string \<Rightarrow> gguf_tensor \<Rightarrow> 32 word \<Rightarrow> int list \<Rightarrow> writer \<Rightarrow> writer" where
  "wr_pruned kq kd max_row mem t ty ids w =
     (case expert_block_geometry t of
        (row_len, exp_rows) \<Rightarrow>
          (let in_row = ggml_row_size (t_type t) (sint row_len);
               per_expert = in_row * exp_rows
           in if ty = t_type t then
                fold (\<lambda>i w. wr w (drop (unat (word_of_int i * per_expert)) mem) (unat per_expert)) ids w
              else
                fold (\<lambda>i w. if \<not> w_ok w then w
                  else convert_rows (\<lambda>r. convert_row kq kd max_row (t_type t) ty row_len
                    (drop (unat ((word_of_int i * exp_rows + r) * in_row)) mem)) (unat exp_rows) 0 w) ids w))"

definition wr_unpruned :: "(32 word \<Rightarrow> 32 word list \<Rightarrow> string) \<Rightarrow> (32 word \<Rightarrow> string \<Rightarrow> 32 word list) \<Rightarrow> nat \<Rightarrow>
    string \<Rightarrow> gguf_tensor \<Rightarrow> 32 word \<Rightarrow> writer \<Rightarrow> writer" where
  "wr_unpruned kq kd max_row mem t ty w =
     (let rows = t_ne t ! 1 * t_ne t ! 2 * t_ne t ! 3;
          in_rs = ggml_row_size (t_type t) (row_len0 t)
      in if ty = t_type t then
           (case checked_u64_mul in_rs rows of
              None \<Rightarrow> w\<lparr>w_ok := False\<rparr>
            | Some bytes \<Rightarrow> wr w mem (unat bytes))
         else convert_rows (\<lambda>r. convert_row kq kd max_row (t_type t) ty (t_ne t ! 0) (drop (unat (r * in_rs)) mem))
                (unat rows) 0 w)"

text \<open>The loop over the tensors, with their types and offsets.\<close>

fun wr_data :: "(32 word \<Rightarrow> 32 word list \<Rightarrow> string) \<Rightarrow> (32 word \<Rightarrow> string \<Rightarrow> 32 word list) \<Rightarrow>
    (string \<Rightarrow> string option) \<Rightarrow> prune_layer list \<Rightarrow> nat \<Rightarrow> 64 word \<Rightarrow> (gguf_tensor \<times> 32 word \<times> 64 word) list \<Rightarrow>
    writer \<Rightarrow> writer" where
  "wr_data kq kd fs plan max_row data_start [] w = w"
| "wr_data kq kd fs plan max_row data_start ((t, ty, off) # ts) w =
     (if \<not> w_ok w then w
      else (case checked_u64_add data_start off of
        None \<Rightarrow> w\<lparr>w_ok := False\<rparr>
      | Some want \<Rightarrow>
          (let w1 = wr_pad_to w want; mem = tensor_mem fs t;
               w2 = (case resolve_prune t plan of
                       Some pl \<Rightarrow> wr_pruned kq kd max_row mem t ty (pl_ids pl) w1
                     | None \<Rightarrow> wr_unpruned kq kd max_row mem t ty w1)
           in wr_data kq kd fs plan max_row data_start ts w2)))"

text \<open>The text of the whole output file, as a run of the writer.\<close>

definition wr_file :: "(32 word \<Rightarrow> 32 word list \<Rightarrow> string) \<Rightarrow> (32 word \<Rightarrow> string \<Rightarrow> 32 word list) \<Rightarrow>
    (string \<Rightarrow> string option) \<Rightarrow> prune_layer list \<Rightarrow> 64 word \<Rightarrow> gguf_file \<Rightarrow> gguf_kv list \<Rightarrow> 32 word list \<Rightarrow>
    writer \<Rightarrow> writer" where
  "wr_file kq kd fs plan amask g kvs tys w =
     (let ts = g_tensors g;
          w1 = wr_header g kvs (file_type_out tys) w
      in case wr_table plan amask (zip ts tys) 0 w1 of
           (w2, offs) \<Rightarrow>
             (case wr_pad_header amask w2 of
                (w3, data_start) \<Rightarrow>
                  wr_data kq kd fs plan (foldr (\<lambda>t m. max (unat (t_ne t ! 0)) m) ts 0) data_start
                    (zip ts (zip tys offs)) w3))"

subsection \<open>The whole run\<close>

text \<open>What the run finds: the files, the environment variables (\<open>None\<close> when unset), and whether the temporary file opens,
  closes and can be renamed; \<open>e_room\<close> is how many bytes it can hold.\<close>

record env =
  e_fs :: "string \<Rightarrow> string option"
  e_getenv :: "string \<Rightarrow> string option"
  e_opens :: bool
  e_room :: nat
  e_closes :: bool
  e_renames :: bool

definition quantize_install_injected :: "env \<Rightarrow> bool" where
  "quantize_install_injected e =
     (case e_getenv e ''RUNNER_QUANTIZE_INSTALL_FAIL'' of Some s \<Rightarrow> s \<noteq> [] \<and> s \<noteq> ''0'' | None \<Rightarrow> False)"

text \<open>\<open>install_finished_file\<close>: 0 or -1, and the files after it; \<open>rename\<close> replaces the destination at once.\<close>

definition install_finished_file :: "env \<Rightarrow> (string \<Rightarrow> string option) \<Rightarrow> string \<Rightarrow> string \<Rightarrow>
    int \<times> (string \<Rightarrow> string option)" where
  "install_finished_file e fs tmp out =
     (if quantize_install_injected e \<or> \<not> e_renames e then (- 1, fs)
      else (0, fs(out := fs tmp, tmp := None)))"

definition out_types :: "env \<Rightarrow> type_plan option \<Rightarrow> 32 word \<Rightarrow> gguf_tensor list \<Rightarrow> 32 word list" where
  "out_types e tplan target ts =
     map (case tplan of
            Some tp \<Rightarrow> plan_out_type tp
          | None \<Rightarrow> target_out_type (e_getenv e ''RUNNER_REQUANT_ONLY'')
              (e_getenv e ''RUNNER_FORCE_REQUANT'' \<noteq> None) target) ts"

text \<open>An optional plan: \<open>None\<close> when it is named and cannot be loaded.\<close>

definition load_plan :: "(string \<Rightarrow> 'p option) \<Rightarrow> 'p option \<Rightarrow> string option \<Rightarrow> 'p option option" where
  "load_plan load absent path =
     (case path of None \<Rightarrow> Some absent | Some p \<Rightarrow> map_option Some (load p))"

text \<open>Everything that is decided before the output is touched: the plans, the model, the common expert count, and
  the alignment mask.\<close>

definition load_inputs :: "env \<Rightarrow> string \<Rightarrow> 32 word \<Rightarrow> string option \<Rightarrow> string option \<Rightarrow>
    (prune_layer list \<times> type_plan option \<times> gguf_file \<times> int option \<times> 64 word) option" where
  "load_inputs e in_path target prune_path type_plan_path =
     (let fs = e_fs e in
      if target \<noteq> T_KEEP \<and> \<not> quantize_row_writable target then None
      else (case (load_plan (prune_plan_load fs) (Some []) prune_path, load_plan (type_plan_load fs) None type_plan_path) of
        (Some (Some plan), Some tplan) \<Rightarrow>
          (case gguf_open fs in_path of
             Inl _ \<Rightarrow> None
           | Inr g \<Rightarrow>
               if \<not> list_all (\<lambda>t. ggml_type_supported (t_type t)) (g_tensors g) then None
               else (case prune_prepass (g_tensors g) plan of
                 None \<Rightarrow> None
               | Some uniform \<Rightarrow>
                   (let align = ucast (gguf_get_u32 (g_kv g) ''general.alignment'' 32) :: 64 word
                    in if align = 0 \<or> align AND (align - 1) \<noteq> 0 then None
                       else Some (plan, tplan, g, uniform, align - 1))))
      | _ \<Rightarrow> None))"

text \<open>The end of the run: the temporary file becomes the destination, or is removed.\<close>

definition finish_file :: "env \<Rightarrow> string \<Rightarrow> string \<Rightarrow> writer \<Rightarrow> int \<times> (string \<Rightarrow> string option)" where
  "finish_file e tmp out_path w =
     (if \<not> wr_close (e_closes e) w then (1, (e_fs e)(tmp := None))
      else (case install_finished_file e ((e_fs e)(tmp := Some (w_out w))) tmp out_path of
        (rc, fs') \<Rightarrow> if rc \<noteq> 0 then (1, fs'(tmp := None)) else (0, fs')))"

text \<open>The exit status and the files afterwards.\<close>

definition quantize_gguf_plan :: "(32 word \<Rightarrow> 32 word list \<Rightarrow> string) \<Rightarrow> (32 word \<Rightarrow> string \<Rightarrow> 32 word list) \<Rightarrow>
    env \<Rightarrow> string \<Rightarrow> string \<Rightarrow> 32 word \<Rightarrow> string option \<Rightarrow> string option \<Rightarrow> int \<times> (string \<Rightarrow> string option)" where
  "quantize_gguf_plan kq kd e in_path out_path target prune_path type_plan_path =
     (case load_inputs e in_path target prune_path type_plan_path of
        None \<Rightarrow> (1, e_fs e)
      | Some (plan, tplan, g, uniform, amask) \<Rightarrow>
          if \<not> e_opens e then (1, e_fs e)
          else
            (let kvs = (case uniform of None \<Rightarrow> g_kv g | Some n \<Rightarrow> rewrite_count (g_kv g) n);
                 tys = out_types e tplan target (g_tensors g);
                 w = wr_file kq kd (e_fs e) plan amask g kvs tys
                       \<lparr>w_out = [], w_room = e_room e, w_ok = True, w_fault = False\<rparr>
             in finish_file e (out_path @ ''.partial'') out_path w))"

definition quantize_gguf :: "(32 word \<Rightarrow> 32 word list \<Rightarrow> string) \<Rightarrow> (32 word \<Rightarrow> string \<Rightarrow> 32 word list) \<Rightarrow>
    env \<Rightarrow> string \<Rightarrow> string \<Rightarrow> 32 word \<Rightarrow> string option \<Rightarrow> int \<times> (string \<Rightarrow> string option)" where
  "quantize_gguf kq kd e in_path out_path target prune_path =
     quantize_gguf_plan kq kd e in_path out_path target prune_path None"

end
