(* ===== verification/Gguf_Codec.thy ===== *)
theory Gguf_Codec
  imports Quantize
begin

text \<open>
  What the writer of \<open>quantize.c\<close> writes, the reader of \<open>gguf.c\<close> reads: metadata values and tensor
  entries. A value that was read, written out and read again is the same one, up to where the bytes of an array of
  scalars lie.
\<close>

subsection \<open>Metadata values\<close>

text \<open>The value was built by the reader, from a file of less than 2^63 bytes.\<close>

definition kv_read :: "gguf_kv \<Rightarrow> bool" where
  "kv_read kv \<longleftrightarrow>
     (\<exists>c c'. rd_kv_value c (kv_zero\<lparr>kv_key := kv_key kv, kv_type := kv_type kv\<rparr>) (kv_type kv) = Some (kv, c') \<and>
        length (c_rest c) < 2 ^ 63) \<and>
     CHR 0x00 \<notin> set (kv_key kv) \<and> length (kv_key kv) < 2 ^ 63"

definition arr_bytes :: "gguf_kv \<Rightarrow> nat" where
  "arr_bytes kv = gguf_scalar_size (kv_arr_type kv) * unat (kv_arr_n kv)"

definition kv_same :: "gguf_kv \<Rightarrow> gguf_kv \<Rightarrow> bool" where
  "kv_same kv kv' \<longleftrightarrow>
     kv'\<lparr>kv_arr_raw := kv_arr_raw kv\<rparr> = kv \<and>
     (case (kv_arr_raw kv, kv_arr_raw kv') of
        (None, None) \<Rightarrow> True
      | (Some p, Some p') \<Rightarrow> arr_bytes kv \<le> length p \<and> arr_bytes kv \<le> length p' \<and>
          take (arr_bytes kv) p' = take (arr_bytes kv) p
      | _ \<Rightarrow> False)"

lemma kv_same_refl: "kv_arr_raw kv = None \<Longrightarrow> kv_same kv kv"
  by (simp add: kv_same_def)

lemma kv_same_fields:
  assumes "kv_same kv kv'"
  shows "kv_key kv' = kv_key kv" "kv_type kv' = kv_type kv" "kv_v kv' = kv_v kv" "kv_raw kv' = kv_raw kv"
    "kv_str kv' = kv_str kv" "kv_arr_type kv' = kv_arr_type kv" "kv_arr_n kv' = kv_arr_n kv"
    "kv_arr_str kv' = kv_arr_str kv"
  using assms unfolding kv_same_def by (cases kv; cases kv'; simp)+

lemma kv_scalar_size_eq: "kv_scalar_size t = gguf_scalar_size t"
  by (simp add: kv_scalar_size_def gguf_scalar_size_def)

subsection \<open>Scalars\<close>

definition scalar_bytes :: "gguf_kv \<Rightarrow> 32 word \<Rightarrow> string" where
  "scalar_bytes kv t = w_out (wr_scalar \<lparr>w_out = [], w_room = 8, w_ok = True, w_fault = False\<rparr> kv t)"

lemma wr_fresh: "length s = n \<Longrightarrow> n \<le> 8 \<Longrightarrow> w_out (wr \<lparr>w_out = [], w_room = 8, w_ok = True, w_fault = False\<rparr> s n) = s"
  by (auto simp: wr_def)

lemma wr_scalar_wrote: "wrote w (scalar_bytes kv t) (wr_scalar w kv t)"
  by (simp add: scalar_bytes_def wr_scalar_def wr_fresh wr_whole wrote_refl del: le_bytes.simps One_nat_def)

lemma ucast_back: "ucast (ucast (x :: 'a :: len word) :: 'b :: len word) = x" if "LENGTH('a) \<le> LENGTH('b)"
  using that by (intro bit_word_eqI) (auto simp: bit_ucast_iff)

lemma ucast_scast_back: "ucast (scast (x :: 'a :: len word) :: 'b :: len word) = x" if "LENGTH('a) \<le> LENGTH('b)"
  using that by (intro bit_word_eqI) (auto simp: bit_simps)

lemma kv_value_scalar:
  assumes "rd_kv_value c z t = Some (kv, c')" "t \<noteq> GGUF_T_STR" "t \<noteq> GGUF_T_ARR"
  obtains x where "t = GGUF_T_U8" "kv = z\<lparr>kv_v := ucast (x :: 8 word)\<rparr>"
  | x where "t = GGUF_T_I8" "kv = z\<lparr>kv_v := scast (x :: 8 word)\<rparr>"
  | x where "t = GGUF_T_U16" "kv = z\<lparr>kv_v := ucast (x :: 16 word)\<rparr>"
  | x where "t = GGUF_T_I16" "kv = z\<lparr>kv_v := scast (x :: 16 word)\<rparr>"
  | x where "t = GGUF_T_U32" "kv = z\<lparr>kv_v := ucast (x :: 32 word)\<rparr>"
  | x where "t = GGUF_T_I32" "kv = z\<lparr>kv_v := scast (x :: 32 word)\<rparr>"
  | x where "t = GGUF_T_F32" "kv = z\<lparr>kv_raw := ucast (x :: 32 word), kv_v := f64_of_f32 x\<rparr>"
  | x where "t = GGUF_T_BOOL" "kv = z\<lparr>kv_v := x\<rparr>" "x = 0 \<or> x = 1"
  | x where "t = GGUF_T_U64" "kv = z\<lparr>kv_v := x\<rparr>"
  | x where "t = GGUF_T_I64" "kv = z\<lparr>kv_v := x\<rparr>"
  | x where "t = GGUF_T_F64" "kv = z\<lparr>kv_raw := x, kv_v := x\<rparr>"
  using assms unfolding rd_kv_value_def
  by (simp split: if_splits prod.splits; blast dest: sym)

lemma scalar_codec:
  assumes "rd_kv_value c z t = Some (kv, c')" "t \<noteq> GGUF_T_STR" "t \<noteq> GGUF_T_ARR"
  shows "rd_kv_value (cur (scalar_bytes kv t @ s)) z t = Some (kv, cur s)"
  by (rule kv_value_scalar [OF assms];
      auto simp add: rd_kv_value_def scalar_bytes_def wr_scalar_def wr_fresh ucast_back ucast_scast_back
        simp del: le_bytes.simps One_nat_def)

subsection \<open>Strings and arrays\<close>

lemma need_True: "need c n = (True, c') \<longleftrightarrow> c' = c \<and> c_ok c \<and> n \<le> length (c_rest c)"
  by (auto simp: need_def)

lemma rd_le_shrinks: "rd_le n c = (v, c') \<Longrightarrow> length (c_rest c') \<le> length (c_rest c)"
  by (auto simp: rd_le_def need_def split: prod.splits bool.splits if_splits)

lemma rd_word_shrinks:
  "rd_u32 c = (x, c') \<Longrightarrow> length (c_rest c') \<le> length (c_rest c)"
  "rd_u64 c = (y, c') \<Longrightarrow> length (c_rest c') \<le> length (c_rest c)"
  by (auto simp: rd_u32_def rd_u64_def split: prod.splits dest: rd_le_shrinks)

lemma rd_str_shrinks:
  assumes "rd_str c = Some (s, c')"
  shows "length s \<le> length (c_rest c) \<and> length (c_rest c') \<le> length (c_rest c)"
  using assms
  by (auto simp: rd_str_def need_True split: prod.splits if_splits bool.splits dest!: rd_word_shrinks(2))

lemma rd_strs_shrinks:
  "rd_strs n c = Some (ss, c') \<Longrightarrow> length ss = n \<and> (\<forall>s \<in> set ss. length s \<le> length (c_rest c))"
proof (induction n arbitrary: c ss)
  case (Suc n)
  then obtain s c1 ss' where s: "rd_str c = Some (s, c1)" "rd_strs n c1 = Some (ss', c')" "ss = s # ss'"
    by (auto split: option.splits)
  with Suc.IH [OF s(2)] rd_str_shrinks [OF s(1)] show ?case by auto
qed simp

lemma strs_codec:
  "\<forall>s \<in> set ss. length s < 2 ^ 63 \<Longrightarrow> rd_strs (length ss) (cur (concat (map le_str ss) @ r)) = Some (ss, cur r)"
  by (induction ss) (auto simp: le_str_def)

lemma le_strs_length: "8 * length ss \<le> length (concat (map le_str ss))"
  by (induction ss) (auto simp: le_str_def)

text \<open>An array that was read: of strings, or of scalars that end inside the file.\<close>

lemma rd_arr_cases:
  assumes "rd_arr c z = Some (kv, c')"
  obtains (strs) ss cnt where "kv = z\<lparr>kv_arr_type := GGUF_T_STR, kv_arr_n := cnt, kv_arr_str := ss\<rparr>" "length ss = unat cnt"
      "\<forall>s \<in> set ss. length s \<le> length (c_rest c)"
  | (scalars) aty cnt p where "kv = z\<lparr>kv_arr_type := aty, kv_arr_n := cnt, kv_arr_raw := Some p\<rparr>" "aty \<noteq> GGUF_T_STR"
      "aty < GGUF_T_F64 + 1" "aty \<noteq> GGUF_T_ARR" "gguf_scalar_size aty \<noteq> 0"
      "\<not> cnt > UINT64_MAX div word_of_nat (gguf_scalar_size aty)" "gguf_scalar_size aty * unat cnt \<le> length p"
proof -
  obtain aty ca where a: "rd_u32 c = (aty, ca)" by (cases "rd_u32 c")
  obtain cnt cb where b: "rd_u64 ca = (cnt, cb)" by (cases "rd_u64 ca")
  have l: "length (c_rest cb) \<le> length (c_rest c)" using rd_word_shrinks(1) [OF a] rd_word_shrinks(2) [OF b] by linarith
  show ?thesis
  proof (cases "aty = GGUF_T_STR")
    case True
    then obtain ss c3 where "rd_strs (unat cnt) cb = Some (ss, c3)"
      "kv = z\<lparr>kv_arr_type := GGUF_T_STR, kv_arr_n := cnt, kv_arr_str := ss\<rparr>"
      using assms a b by (auto simp: rd_arr_def Let_def split: if_splits option.splits)
    then show ?thesis using strs [of ss cnt] rd_strs_shrinks [of "unat cnt" cb ss c3] l by force
  next
    case False
    obtain ok c3 where n: "need cb (gguf_scalar_size aty * unat cnt) = (ok, c3)" by (cases "need cb (gguf_scalar_size aty * unat cnt)")
    show ?thesis
      using assms a b False n scalars [of "c_rest c3" cnt aty]
      by (auto simp: rd_arr_def Let_def need_True split: if_splits bool.splits)
  qed
qed

definition arr_text :: "gguf_kv \<Rightarrow> string" where
  "arr_text kv =
     le_bytes 4 (unat (kv_arr_type kv)) @ le_bytes 8 (unat (kv_arr_n kv)) @
     (if kv_arr_type kv = GGUF_T_STR then concat (map le_str (kv_arr_str kv))
      else take (arr_bytes kv) (case kv_arr_raw kv of Some p \<Rightarrow> p | None \<Rightarrow> []))"

definition val_text :: "gguf_kv \<Rightarrow> string" where
  "val_text kv =
     (if kv_type kv = GGUF_T_STR then le_str (kv_str kv)
      else if kv_type kv = GGUF_T_ARR then arr_text kv
      else scalar_bytes kv (kv_type kv))"

definition kv_text :: "gguf_kv \<Rightarrow> string" where
  "kv_text kv = le_str (kv_key kv) @ le_bytes 4 (unat (kv_type kv)) @ val_text kv"

lemma scalar_size_less: "gguf_scalar_size t < 2 ^ 64"
  by (simp add: gguf_scalar_size_def)

lemma arr_bytes_word:
  assumes "\<not> cnt > UINT64_MAX div word_of_nat (gguf_scalar_size t)" "gguf_scalar_size t \<noteq> 0"
  obtains b where "checked_u64_mul (word_of_nat (gguf_scalar_size t)) cnt = Some b" "unat b = gguf_scalar_size t * unat cnt"
proof -
  let ?s = "word_of_nat (gguf_scalar_size t) :: 64 word"
  have "checked_u64_mul ?s cnt = Some (?s * cnt)" using assms(1) by (simp add: checked_u64_mul_def)
  moreover have "unat ?s = gguf_scalar_size t" using scalar_size_less [of t] by (simp add: unsigned_of_nat take_bit_eq_mod)
  ultimately show ?thesis using checked_mul_unat that by metis
qed

lemma arr_codec:
  assumes "rd_arr c z = Some (kv, c')" "length (c_rest c) < 2 ^ 63" "kv_type z = GGUF_T_ARR" "kv_arr_raw z = None"
  shows "\<exists>kv'. rd_arr (cur (arr_text kv @ s)) z = Some (kv', cur s) \<and> kv_same kv kv'"
  using assms(1)
proof (cases rule: rd_arr_cases)
  case (strs ss cnt)
  have "\<forall>t \<in> set ss. length t < 2 ^ 63" using strs(3) assms(2) by auto
  from strs_codec [OF this, of s] strs(2) le_strs_length [of ss] strs(1) assms(4) show ?thesis
    by (simp add: rd_arr_def arr_text_def Let_def kv_same_def)
next
  case (scalars aty cnt p)
  define n where "n = gguf_scalar_size aty * unat cnt"
  have "length (take n p) = n" using scalars(7) by (simp add: n_def)
  then show ?thesis using scalars assms(4)
    by (simp add: rd_arr_def arr_text_def Let_def kv_same_def need_True arr_bytes_def n_def [symmetric] need_def)
qed

lemma kv_value_codec:
  assumes "rd_kv_value c z (kv_type z) = Some (kv, c')" "length (c_rest c) < 2 ^ 63" "kv_arr_raw z = None"
  shows "\<exists>kv'. rd_kv_value (cur (val_text kv @ s)) z (kv_type z) = Some (kv', cur s) \<and> kv_same kv kv' \<and> kv_type kv = kv_type z"
proof -
  consider (str) "kv_type z = GGUF_T_STR" | (arr) "kv_type z = GGUF_T_ARR"
    | (scalar) "kv_type z \<noteq> GGUF_T_STR" "kv_type z \<noteq> GGUF_T_ARR" by blast
  then show ?thesis
  proof cases
    case str
    then obtain t c1 where "rd_str c = Some (t, c1)" "kv = z\<lparr>kv_str := t\<rparr>"
      using assms(1) by (auto simp: rd_kv_value_def split: option.splits if_splits)
    then show ?thesis using rd_str_shrinks [of c t c1] assms str
      by (simp add: val_text_def rd_kv_value_def le_str_def kv_same_def)
  next
    case arr
    then obtain c1 where "rd_arr c z = Some (kv, c1)"
      using assms(1) by (auto simp: rd_kv_value_def split: option.splits if_splits)
    moreover from this have "kv_type kv = GGUF_T_ARR" by (cases rule: rd_arr_cases) (simp_all add: arr)
    ultimately show ?thesis using arr_codec [of c z kv c1 s] assms arr
      by (auto simp: val_text_def rd_kv_value_def)
  next
    case scalar
    have k: "kv_type kv = kv_type z" "kv_arr_raw kv = None"
      by (rule kv_value_scalar [OF assms(1) scalar]; simp add: assms(3))+
    with scalar_codec [OF assms(1) scalar, of s] show ?thesis using scalar by (simp add: val_text_def kv_same_refl)
  qed
qed

lemma wr_val_wrote:
  assumes "rd_kv_value c z (kv_type z) = Some (kv, c')" "length (c_rest c) < 2 ^ 63" "length (kv_key kv) < 2 ^ 63"
    "kv_arr_raw z = None" "kv_type kv = kv_type z"
  shows "wrote w (kv_text kv) (wr_kv w kv)"
proof -
  define wa where "wa = wr_u32 (wr_str w (kv_key kv) (word_of_nat (length (kv_key kv)))) (kv_type kv)"
  have "wrote w (le_str (kv_key kv) @ le_bytes 4 (unat (kv_type kv))) wa"
    unfolding wa_def by (rule wrote_trans [OF wr_str_wrote wr_u32_wrote]) (use assms(3) in simp)
  moreover have "wrote wa (val_text kv) (wr_kv w kv)"
  proof -
    consider (str) "kv_type z = GGUF_T_STR" | (arr) "kv_type z = GGUF_T_ARR"
      | (scalar) "kv_type z \<noteq> GGUF_T_STR" "kv_type z \<noteq> GGUF_T_ARR" by blast
    then show ?thesis
    proof cases
      case str
      then obtain t c1 where "rd_str c = Some (t, c1)" "kv = z\<lparr>kv_str := t\<rparr>"
        using assms(1) by (auto simp: rd_kv_value_def split: option.splits if_splits)
      then have "length (kv_str kv) < 2 ^ 64" using rd_str_shrinks [of c t c1] assms(2) by simp
      then show ?thesis using str assms(5) by (simp add: wr_kv_def Let_def val_text_def wa_def wr_str_wrote)
    next
      case scalar
      then show ?thesis using assms(5) by (simp add: wr_kv_def Let_def val_text_def wa_def wr_scalar_wrote)
    next
      case arr
      then obtain c1 where r: "rd_arr c z = Some (kv, c1)"
        using assms(1) by (auto simp: rd_kv_value_def split: option.splits if_splits)
      define wb where "wb = wr_u64 (wr_u32 wa (kv_arr_type kv)) (kv_arr_n kv)"
      have h: "wrote wa (le_bytes 4 (unat (kv_arr_type kv)) @ le_bytes 8 (unat (kv_arr_n kv))) wb"
        unfolding wb_def by (rule wrote_trans [OF wr_u32_wrote wr_u64_wrote])
      from r show ?thesis
      proof (cases rule: rd_arr_cases)
        case (strs ss cnt)
        then have "\<forall>t \<in> set ss. length t < 2 ^ 64" using assms(2) by auto
        note wrote_trans [OF h wr_strs_wrote [OF this]]
        moreover have "wr_kv w kv = wr_strs wb ss" using strs(1) arr by (simp add: wr_kv_def Let_def wa_def wb_def)
        ultimately show ?thesis using strs(1) arr by (simp add: val_text_def arr_text_def)
      next
        case (scalars aty cnt p)
        obtain b where b: "checked_u64_mul (word_of_nat (gguf_scalar_size aty)) cnt = Some b" "unat b = gguf_scalar_size aty * unat cnt"
          using arr_bytes_word scalars(5,6) by metis
        have "wrote wb (take (unat b) p) (wr wb p (unat b))" using scalars(7) b(2) by (intro wr_wrote) simp
        note wrote_trans [OF h this]
        moreover have "wr_kv w kv = wr wb p (unat b)"
          using scalars arr b(1) by (simp add: wr_kv_def Let_def wa_def wb_def kv_scalar_size_eq)
        ultimately show ?thesis using scalars(1,2) arr b(2) by (simp add: val_text_def arr_text_def arr_bytes_def)
      qed
    qed
  qed
  ultimately show ?thesis unfolding kv_text_def using wrote_trans by fastforce
qed

lemma cstr_id: "CHR 0x00 \<notin> set s \<Longrightarrow> cstr s = s"
  by (induction s) (auto simp: cstr_def)

lemma kv_zero_simps: "kv_arr_raw (kv_zero\<lparr>kv_key := k, kv_type := t\<rparr>) = None" "kv_type (kv_zero\<lparr>kv_key := k, kv_type := t\<rparr>) = t"
  by (simp_all add: kv_zero_def)

text \<open>A run of values, as the two loops write and read it.\<close>

lemma kvs_codec:
  "list_all kv_read kvs \<Longrightarrow>
   \<exists>kvs'. rd_kvs (length kvs) (cur (concat (map kv_text kvs) @ s)) = Inr (kvs', cur s) \<and> list_all2 kv_same kvs kvs'"
proof (induction kvs)
  case (Cons kv kvs)
  define z where "z = kv_zero\<lparr>kv_key := kv_key kv, kv_type := kv_type kv\<rparr>"
  obtain c c' where c: "rd_kv_value c z (kv_type z) = Some (kv, c')" "length (c_rest c) < 2 ^ 63"
    using Cons.prems by (auto simp: kv_read_def z_def kv_zero_simps)
  obtain kvs' where k: "rd_kvs (length kvs) (cur (concat (map kv_text kvs) @ s)) = Inr (kvs', cur s)" "list_all2 kv_same kvs kvs'"
    using Cons by auto
  obtain kv' where v: "rd_kv_value (cur (val_text kv @ concat (map kv_text kvs) @ s)) z (kv_type z) =
      Some (kv', cur (concat (map kv_text kvs) @ s))" "kv_same kv kv'"
    using kv_value_codec [OF c, of "concat (map kv_text kvs) @ s"] by (auto simp: z_def kv_zero_simps)
  have z: "kv_type z = kv_type kv" "kv_zero\<lparr>kv_key := kv_key kv, kv_type := kv_type kv\<rparr> = z" by (simp_all add: z_def)
  have key: "cstr (kv_key kv) = kv_key kv" "length (kv_key kv) < 2 ^ 64 - 1" using Cons.prems by (simp_all add: kv_read_def cstr_id)
  have tx: "concat (map kv_text (kv # kvs)) @ s = le_bytes 8 (length (kv_key kv)) @ kv_key kv @ le_bytes 4 (unat (kv_type kv)) @
      val_text kv @ concat (map kv_text kvs) @ s"
    by (simp add: kv_text_def le_str_def)
  show ?case unfolding tx using k v key z by simp
qed simp

lemma wr_kv_wrote: "kv_read kv \<Longrightarrow> wrote w (kv_text kv) (wr_kv w kv)"
  unfolding kv_read_def using wr_val_wrote kv_zero_simps by metis

subsection \<open>What the reader built\<close>

lemma rd_le_shrinks8: "rd_u8 c = (x, c') \<Longrightarrow> length (c_rest c') \<le> length (c_rest c)"
  "rd_u16 c = (y, c') \<Longrightarrow> length (c_rest c') \<le> length (c_rest c)"
  by (auto simp: rd_u8_def rd_u16_def split: prod.splits dest: rd_le_shrinks)

lemma rd_strs_rest: "rd_strs n c = Some (ss, c') \<Longrightarrow> length (c_rest c') \<le> length (c_rest c)"
proof (induction n arbitrary: c ss)
  case (Suc n)
  then obtain s c1 ss' where s: "rd_str c = Some (s, c1)" "rd_strs n c1 = Some (ss', c')"
    by (auto split: option.splits)
  with Suc.IH [OF s(2)] rd_str_shrinks [OF s(1)] show ?case by auto
qed simp

lemma rd_arr_rest:
  assumes "rd_arr c z = Some (kv, c')"
  shows "length (c_rest c') \<le> length (c_rest c) \<and> kv_key kv = kv_key z \<and> kv_type kv = kv_type z"
proof -
  obtain aty ca where a: "rd_u32 c = (aty, ca)" by (cases "rd_u32 c")
  obtain cnt cb where b: "rd_u64 ca = (cnt, cb)" by (cases "rd_u64 ca")
  have l: "length (c_rest cb) \<le> length (c_rest c)" using rd_word_shrinks(1) [OF a] rd_word_shrinks(2) [OF b] by linarith
  have "length (c_rest c') \<le> length (c_rest cb)"
    using assms a b by (auto simp: rd_arr_def Let_def need_True split: if_splits option.splits prod.splits bool.splits dest: rd_strs_rest)
  moreover have "kv_key kv = kv_key z \<and> kv_type kv = kv_type z"
    using assms by (cases rule: rd_arr_cases) simp_all
  ultimately show ?thesis using l by simp
qed

lemma rd_kv_value_rest:
  assumes "rd_kv_value c z t = Some (kv, c')"
  shows "length (c_rest c') \<le> length (c_rest c) \<and> kv_key kv = kv_key z \<and> kv_type kv = kv_type z"
  using assms unfolding rd_kv_value_def
  by (auto split: if_splits option.splits prod.splits
      dest: rd_word_shrinks rd_le_shrinks8 rd_str_shrinks rd_arr_rest)

lemma cstr_no_nul: "CHR 0x00 \<notin> set (cstr s)"
  unfolding cstr_def using set_takeWhileD by metis

lemma length_cstr: "length (cstr s) \<le> length s"
  unfolding cstr_def by (rule length_takeWhile_le)

lemma rd_kvs_read:
  "rd_kvs n c = Inr (kvs, c') \<Longrightarrow> length (c_rest c) < 2 ^ 63 \<Longrightarrow> list_all kv_read kvs \<and> length kvs = n"
proof (induction n arbitrary: c kvs)
  case (Suc n)
  obtain k c1 where k: "rd_str c = Some (k, c1)" using Suc.prems(1) by (auto split: option.splits)
  obtain ty c2 where ty: "rd_u32 c1 = (ty, c2)" by (cases "rd_u32 c1")
  define z where "z = kv_zero\<lparr>kv_key := cstr k, kv_type := ty\<rparr>"
  obtain kv c3 kvs' where r: "rd_kv_value c2 z ty = Some (kv, c3)" "rd_kvs n c3 = Inr (kvs', c')" "kvs = kv # kvs'"
    using Suc.prems(1) k ty by (auto simp: z_def split: option.splits sum.splits)
  have l: "length (c_rest c2) \<le> length (c_rest c)" "length k \<le> length (c_rest c)"
    using rd_str_shrinks [OF k] rd_word_shrinks(1) [OF ty] by simp_all
  have m: "length (c_rest c3) \<le> length (c_rest c2)" "kv_key kv = cstr k" "kv_type kv = ty"
    using rd_kv_value_rest [OF r(1)] by (simp_all add: z_def)
  have "kv_read kv"
    unfolding kv_read_def m(2,3) using r(1) l Suc.prems(2) cstr_no_nul length_cstr [of k] by (auto simp: z_def)
  moreover have "list_all kv_read kvs' \<and> length kvs' = n" using Suc.IH [OF r(2)] l m(1) Suc.prems(2) by simp
  ultimately show ?case by (simp add: r(3))
qed simp

subsection \<open>Tensor entries\<close>

text \<open>The shape every entry of the directory has.\<close>

definition tensor_read :: "gguf_tensor \<Rightarrow> bool" where
  "tensor_read t \<longleftrightarrow>
     CHR 0x00 \<notin> set (t_name t) \<and> length (t_name t) < 128 \<and> 0 < unat (t_n_dims t) \<and> unat (t_n_dims t) \<le> 4 \<and>
     t_ne t = take (unat (t_n_dims t)) (t_ne t) @ replicate (4 - unat (t_n_dims t)) 1 \<and> length (t_ne t) = 4"

definition dims_text :: "64 word list \<Rightarrow> string" where
  "dims_text ds = concat (map (\<lambda>d. le_bytes 8 (unat d)) ds)"

definition entry_text :: "gguf_tensor \<Rightarrow> 32 word \<Rightarrow> 64 word \<Rightarrow> string" where
  "entry_text t ty off =
     le_str (t_name t) @ le_bytes 4 (unat (t_n_dims t)) @ dims_text (take (unat (t_n_dims t)) (t_ne t)) @
     le_bytes 4 (unat ty) @ le_bytes 8 (unat off)"

lemma rd_dims_length: "length (fst (rd_dims n c)) = n"
  by (induction n arbitrary: c) (simp_all add: case_prod_unfold)

lemma rd_tensor_read:
  assumes "rd_tensor c = Inr (t, c')"
  shows "tensor_read t"
proof -
  obtain name ca where a: "rd_str c = Some (name, ca)" using assms by (auto simp: rd_tensor_def split: option.splits)
  obtain nd cb where b: "rd_u32 ca = (nd, cb)" by (cases "rd_u32 ca")
  obtain ds cc where d: "rd_dims (unat nd) cb = (ds, cc)" by (cases "rd_dims (unat nd) cb")
  have l: "length ds = unat nd" using rd_dims_length [of "unat nd" cb] d by simp
  have n: "length name < 128" "nd \<noteq> 0" "\<not> nd > 4"
    using assms a b by (auto simp: rd_tensor_def split: if_splits)
  have t: "t_name t = cstr name" "t_n_dims t = nd" "t_ne t = ds @ replicate (4 - unat nd) 1"
    using assms a b d n by (auto simp: rd_tensor_def split: if_splits prod.splits)
  have "0 < unat nd" "unat nd \<le> 4" using n(2,3) by (simp_all add: unat_gt_0 word_less_nat_alt)
  then show ?thesis using t n(1) l cstr_no_nul length_cstr [of name] by (simp add: tensor_read_def)
qed

lemma rd_tensors_read: "rd_tensors n c = Inr (ts, c') \<Longrightarrow> list_all tensor_read ts \<and> length ts = n"
proof (induction n arbitrary: c ts)
  case (Suc n)
  then obtain t c1 ts' where "rd_tensor c = Inr (t, c1)" "rd_tensors n c1 = Inr (ts', c')" "ts = t # ts'"
    by (auto split: sum.splits)
  then show ?case using Suc.IH rd_tensor_read by simp
qed simp

lemma dims_codec: "rd_dims (length ds) (cur (dims_text ds @ s)) = (ds, cur s)"
  by (induction ds) (simp_all add: dims_text_def)

lemma wr_dims_wrote: "wrote w (dims_text ds) (wr_dims ds w)"
proof (induction ds arbitrary: w)
  case (Cons d ds)
  then show ?case using wrote_trans [OF wr_u64_wrote Cons.IH] by (simp add: dims_text_def)
qed (simp add: dims_text_def wrote_refl)

lemma tensor_codec:
  assumes "tensor_read t"
  shows "rd_tensor (cur (entry_text t ty off @ s)) =
    Inr (t\<lparr>t_type := ty, t_data := File_offset off, t_nbytes := 0\<rparr>, cur s)"
proof -
  let ?n = "unat (t_n_dims t)"
  have n: "t_n_dims t \<noteq> 0" "\<not> t_n_dims t > 4" "cstr (t_name t) = t_name t" "length (take ?n (t_ne t)) = ?n"
    using assms by (auto simp: tensor_read_def word_less_nat_alt cstr_id)
  have "rd_dims ?n (cur (dims_text (take ?n (t_ne t)) @ r)) = (take ?n (t_ne t), cur r)" for r
    using dims_codec [of "take ?n (t_ne t)"] n(4) by simp
  moreover have "take ?n (t_ne t) @ replicate (4 - ?n) 1 = t_ne t" "length (t_name t) < 128"
    using assms by (simp_all add: tensor_read_def)
  ultimately show ?thesis using n
    by (simp add: rd_tensor_def entry_text_def le_str_def del: append_take_drop_id)
qed

lemma wr_entry_wrote:
  assumes "tensor_read t"
  shows "wrote w (entry_text t ty off) (wr_entry t ty (t_ne t) off w)"
proof -
  have "length (t_name t) < 2 ^ 64" using assms by (simp add: tensor_read_def)
  from wrote_trans [OF wrote_trans [OF wrote_trans [OF wrote_trans [OF wr_str_wrote [OF this] wr_u32_wrote] wr_dims_wrote] wr_u32_wrote] wr_u64_wrote]
  show ?thesis by (simp add: wr_entry_def entry_text_def Let_def)
qed

end
