(* ===== verification/Quantize_Rows.thy ===== *)
theory Quantize_Rows
  imports Gguf_Codec
begin

text \<open>
  The requantiser reads inside the mapped model and writes exactly the bytes that the header announces: sizes of
  rows and tensors, the types that are chosen, the conversion of rows.
\<close>

subsection \<open>Sizes\<close>

definition tensor_rows :: "gguf_tensor \<Rightarrow> nat" where
  "tensor_rows t = unat (t_ne t ! 1) * unat (t_ne t ! 2) * unat (t_ne t ! 3)"

definition row_bytes :: "32 word \<Rightarrow> nat \<Rightarrow> nat" where
  "row_bytes ty n = n div ggml_block_size ty * ggml_type_size ty"

definition tensor_size :: "gguf_tensor \<Rightarrow> 32 word \<Rightarrow> nat" where
  "tensor_size t ty = row_bytes ty (unat (t_ne t ! 0)) * tensor_rows t"

definition dims_ok :: "gguf_tensor \<Rightarrow> bool" where
  "dims_ok t \<longleftrightarrow> (\<forall>i < 4. 0 < unat (t_ne t ! i) \<and> unat (t_ne t ! i) \<le> 2147483647)"

lemma block_size_pos [simp]: "0 < ggml_block_size t"
  by (simp add: ggml_block_size_def QK_def QK_K_def)

lemma type_size_pos [simp]: "0 < ggml_type_size t"
  by (simp add: ggml_type_size_def QK_def QK_K_def)

lemma type_sizes_less: "ggml_block_size t \<le> 256" "ggml_type_size t < 1024"
  by (simp_all add: ggml_block_size_def ggml_type_size_def QK_def QK_K_def)

lemma unat_word_of_nat: "n < 2 ^ 64 \<Longrightarrow> unat (word_of_nat n :: 64 word) = n"
  by (simp add: unsigned_of_nat take_bit_eq_mod)

lemma unat_block_size: "unat (word_of_nat (ggml_block_size t) :: 64 word) = ggml_block_size t"
  using type_sizes_less(1) [of t] by (intro unat_word_of_nat) simp

lemma unat_type_size: "unat (word_of_nat (ggml_type_size t) :: 64 word) = ggml_type_size t"
  using type_sizes_less(2) [of t] by (intro unat_word_of_nat) simp

lemma row_bytes_less: "n \<le> 2147483647 \<Longrightarrow> row_bytes ty n < 2 ^ 41"
proof -
  assume n: "n \<le> 2147483647"
  have "n div ggml_block_size ty * ggml_type_size ty \<le> 2147483647 * 1023"
    using type_sizes_less(2) [of ty] div_le_dividend [of n "ggml_block_size ty"] n by (intro mult_mono) linarith+
  then show ?thesis by (simp add: row_bytes_def)
qed

lemma sint_small: "unat (n :: 64 word) \<le> 2147483647 \<Longrightarrow> sint n = int (unat n)"
  using sint_word_of_nat [where 'a = 64, of "unat n"] by simp

lemma row_size_unat:
  assumes "unat (n :: 64 word) \<le> 2147483647"
  shows "unat (ggml_row_size ty (sint n)) = row_bytes ty (unat n)"
proof -
  have "ggml_row_size ty (sint n) = word_of_nat (unat n div ggml_block_size ty) * word_of_nat (ggml_type_size ty)"
    unfolding ggml_row_size_def sint_small [OF assms] Let_def
    by (simp only: of_nat_less_0_iff if_False zdiv_int [symmetric] of_int_of_nat_eq)
  then have "ggml_row_size ty (sint n) = word_of_nat (row_bytes ty (unat n))" by (simp add: row_bytes_def)
  then show ?thesis using row_bytes_less [OF assms, of ty] by (simp add: unat_word_of_nat)
qed

lemma tensor_bytes_dims:
  assumes "tensor_bytes t = Some n"
  shows "dims_ok t"
proof -
  have *: "t_ne t ! i \<noteq> 0 \<and> \<not> t_ne t ! i > 2147483647" if "i \<in> {0, 1, 2, 3}" for i
    using assms that by (auto simp: tensor_bytes_def Let_def split: if_splits)
  have "0 < unat (t_ne t ! i) \<and> unat (t_ne t ! i) \<le> 2147483647" if "i < 4" for i
  proof -
    have "i \<in> {0, 1, 2, 3}" using that by (simp; linarith)
    from * [OF this] show ?thesis by (simp add: word_less_nat_alt unat_gt_0)
  qed
  then show ?thesis by (simp add: dims_ok_def)
qed

lemma tensor_bytes_size: "tensor_bytes t = Some n \<Longrightarrow> unat n = tensor_size t (t_type t)"
  using tensor_bytes_exact(1) by (simp add: tensor_size_def row_bytes_def tensor_rows_def)

lemma checked_mul_Some: "unat a * unat b < 2 ^ 64 \<Longrightarrow> checked_u64_mul a b = Some (a * b)"
  using checked_mul_unat [of a b "a * b"] by (simp add: unat_word_ariths)

lemma dims_pos: "dims_ok t \<Longrightarrow> i < 4 \<Longrightarrow> Suc 0 \<le> unat (t_ne t ! i)"
  by (simp add: dims_ok_def Suc_le_eq)

lemma dims_nth: "dims_ok t \<Longrightarrow> i < 4 \<Longrightarrow> t_ne t ! i \<noteq> 0 \<and> \<not> t_ne t ! i > 2147483647"
  by (auto simp: dims_ok_def word_less_nat_alt unat_gt_0)

lemma row_bytes_pos: "0 < n \<Longrightarrow> n mod ggml_block_size ty = 0 \<Longrightarrow> 0 < row_bytes ty n"
  by (auto simp: row_bytes_def div_greater_zero_iff dvd_eq_mod_eq_0 dvd_imp_le)

lemma tensor_rows_le:
  assumes "dims_ok t" "unat (t_ne t ! 0) mod ggml_block_size ty = 0"
  shows "tensor_rows t \<le> tensor_size t ty"
  using assms row_bytes_pos [of "unat (t_ne t ! 0)" ty] by (simp add: tensor_size_def dims_ok_def)

lemma checked_rows:
  assumes "dims_ok t" "tensor_rows t < 2 ^ 64"
  shows "checked_u64_mul (t_ne t ! 1) (t_ne t ! 2) = Some (t_ne t ! 1 * t_ne t ! 2)"
    "checked_u64_mul (t_ne t ! 1 * t_ne t ! 2) (t_ne t ! 3) = Some (t_ne t ! 1 * t_ne t ! 2 * t_ne t ! 3)"
    "unat (t_ne t ! 1 * t_ne t ! 2 * t_ne t ! 3) = tensor_rows t"
proof -
  have "unat (t_ne t ! 1) * unat (t_ne t ! 2) \<le> tensor_rows t"
    using dims_pos [OF assms(1), of 3] by (simp add: tensor_rows_def)
  then have a: "unat (t_ne t ! 1) * unat (t_ne t ! 2) < 2 ^ 64" using assms(2) by simp
  then have b: "unat (t_ne t ! 1 * t_ne t ! 2) = unat (t_ne t ! 1) * unat (t_ne t ! 2)" by (simp add: unat_word_ariths)
  show "checked_u64_mul (t_ne t ! 1) (t_ne t ! 2) = Some (t_ne t ! 1 * t_ne t ! 2)" using a by (rule checked_mul_Some)
  show "checked_u64_mul (t_ne t ! 1 * t_ne t ! 2) (t_ne t ! 3) = Some (t_ne t ! 1 * t_ne t ! 2 * t_ne t ! 3)"
    using assms(2) b by (intro checked_mul_Some) (simp add: tensor_rows_def)
  then show "unat (t_ne t ! 1 * t_ne t ! 2 * t_ne t ! 3) = tensor_rows t"
    unfolding checked_mul_unat b by (simp add: tensor_rows_def)
qed

text \<open>A type that divides the rows is accepted by the reader.\<close>

lemma tensor_bytes_retype:
  assumes "dims_ok t" "unat (t_ne t ! 0) mod ggml_block_size ty = 0" "tensor_size t ty < 2 ^ 64"
  shows "tensor_bytes (t\<lparr>t_type := ty\<rparr>) = Some (word_of_nat (tensor_size t ty))"
proof -
  let ?n = "t_ne t ! 0" and ?b = "word_of_nat (ggml_block_size ty) :: 64 word" and ?s = "word_of_nat (ggml_type_size ty) :: 64 word"
  have d: "unat (?n div ?b) = unat ?n div ggml_block_size ty" by (simp add: unat_div unat_block_size)
  have m: "?n mod ?b = 0" using assms(2) by (simp add: word_unat_eq_iff unat_mod unat_block_size)
  have n: "unat ?n \<le> 2147483647" using assms(1) by (simp add: dims_ok_def)
  have r: "unat (?n div ?b) * unat ?s = row_bytes ty (unat ?n)" by (simp add: d unat_type_size row_bytes_def)
  have "unat (?n div ?b) * unat ?s < 2 ^ 64" using row_bytes_less [OF n, of ty] r by simp
  then have rb: "checked_u64_mul (?n div ?b) ?s = Some (?n div ?b * ?s)" by (rule checked_mul_Some)
  then have ru: "unat (?n div ?b * ?s) = row_bytes ty (unat ?n)" unfolding checked_mul_unat r by simp
  have rows: "tensor_rows t < 2 ^ 64" using tensor_rows_le [OF assms(1,2)] assms(3) by simp
  note c = checked_rows [OF assms(1) rows]
  have "checked_u64_mul (?n div ?b * ?s) (t_ne t ! 1 * t_ne t ! 2 * t_ne t ! 3) = Some (word_of_nat (tensor_size t ty))"
    unfolding checked_mul_unat ru c(3) using assms(3) by (simp add: tensor_size_def unat_word_of_nat del: of_nat_mult)
  then show ?thesis using dims_nth [OF assms(1)] m c rb by (simp add: tensor_bytes_def Let_def)
qed

subsection \<open>Rows\<close>

text \<open>The row kernels honour the block formats: a block decodes to as many numbers as it holds, and a row of whole blocks
  is encoded in as many bytes as its blocks take.\<close>

definition kernels_ok :: "(32 word \<Rightarrow> 32 word list \<Rightarrow> string) \<Rightarrow> (32 word \<Rightarrow> string \<Rightarrow> 32 word list) \<Rightarrow> bool" where
  "kernels_ok kq kd \<longleftrightarrow>
     (\<forall>t xs. length xs mod ggml_block_size t = 0 \<longrightarrow> length (kq t xs) = row_bytes t (length xs)) \<and>
     (\<forall>t b. length (kd t b) = ggml_block_size t)"

lemma length_numbers_at [simp]: "length (numbers_at k n p) = k"
  by (simp add: numbers_at_def)

lemma length_concat_same: "\<forall>x \<in> set xs. length (f x) = k \<Longrightarrow> length (concat (map f xs)) = length xs * k"
  by (induction xs) auto

lemma blocks_up: "n mod b = 0 \<Longrightarrow> 0 < b \<Longrightarrow> (n + b - Suc 0) div b = n div b" for n b :: nat
proof -
  assume a: "n mod b = 0" "0 < b"
  then obtain k where "n = b * k" by (auto simp: dvd_def mod_eq_0_iff_dvd)
  moreover have "(b * k + (b - Suc 0)) div b = k" using a(2) by (subst div_mult_self4) simp_all
  ultimately show ?thesis using a(2) by simp
qed

lemma length_dequant_row:
  assumes "kernels_ok kq kd" "n mod ggml_block_size t = 0"
  shows "length (dequant_row kd t p n) = n"
proof -
  have "(n + ggml_block_size t - Suc 0) div ggml_block_size t * ggml_block_size t = n"
    using assms(2) by (simp add: blocks_up dvd_eq_mod_eq_0 dvd_div_mult_self)
  moreover have "length (concat (map (\<lambda>i. kd t (take (ggml_type_size t) (drop (i * ggml_type_size t) p)))
      [0..<(n + ggml_block_size t - Suc 0) div ggml_block_size t])) =
      (n + ggml_block_size t - Suc 0) div ggml_block_size t * ggml_block_size t"
    using assms(1) by (subst length_concat_same [where k = "ggml_block_size t"]) (simp_all add: kernels_ok_def)
  ultimately show ?thesis by (simp add: dequant_row_def Let_def)
qed

lemma length_bytes: "length (bytes16 xs) = length xs * 2" "length (bytes32 ys) = length ys * 4"
  unfolding bytes16_def bytes32_def by (rule length_concat_same, simp)+

lemma row_bytes_flat: "row_bytes T_F32 n = n * 4" "row_bytes T_F16 n = n * 2" "row_bytes T_BF16 n = n * 2"
  by (simp_all add: row_bytes_def ggml_block_size_def ggml_type_size_def)

lemma length_f16_rows: "length (quantize_row_f16 xs) = length xs" "length (quantize_row_bf16 xs) = length xs"
  by (simp_all add: quantize_row_f16_def quantize_row_bf16_def)

lemma length_quantize_row:
  assumes "kernels_ok kq kd" "quantize_row_writable t" "length xs mod ggml_block_size t = 0"
  shows "length (quantize_row_any kq t xs) = row_bytes t (length xs)"
  using assms
  by (auto simp: quantize_row_any_def quantize_row_writable_def kernels_ok_def length_bytes row_bytes_flat length_f16_rows
      block_type_def)

lemma writable_compact: "quantize_row_writable t \<Longrightarrow> row_bytes t n \<le> 4 * n"
proof -
  assume "quantize_row_writable t"
  then have "ggml_type_size t \<le> 4 * ggml_block_size t"
    by (auto simp: quantize_row_writable_def ggml_type_size_def ggml_block_size_def QK_def QK_K_def)
  then have "n div ggml_block_size t * ggml_type_size t \<le> n div ggml_block_size t * (4 * ggml_block_size t)"
    by (rule mult_le_mono2)
  also have "\<dots> \<le> 4 * n" by (simp add: mult.left_commute)
  finally show ?thesis by (simp add: row_bytes_def)
qed

text \<open>Decoding a row looks only at the bytes of the row.\<close>

lemma take_inside: "k + n \<le> m \<Longrightarrow> take n (drop k (take m p)) = take n (drop k p)"
  by (simp add: drop_take min_def)

lemma numbers_at_take: "k * n \<le> m \<Longrightarrow> numbers_at k n (take m p) = numbers_at k n p"
proof -
  assume a: "k * n \<le> m"
  have "i * n + n \<le> m" if "i < k" for i
    using mult_le_mono1 [of "Suc i" k n] that a by (simp add: Suc_le_eq)
  then show ?thesis by (simp add: numbers_at_def take_inside)
qed

lemma dequant_row_take:
  assumes "n mod ggml_block_size t = 0" "row_bytes t n \<le> m"
  shows "dequant_row kd t (take m p) n = dequant_row kd t p n"
proof -
  let ?b = "ggml_block_size t" and ?s = "ggml_type_size t"
  note q = blocks_up [OF assms(1) block_size_pos]
  have "i * ?s + ?s \<le> m" if "i < n div ?b" for i
    using mult_le_mono1 [of "Suc i" "n div ?b" ?s] that assms(2) by (simp add: Suc_le_eq row_bytes_def)
  then have k: "take ?s (drop (i * ?s) (take m p)) = take ?s (drop (i * ?s) p)" if "i < n div ?b" for i
    using that by (simp add: take_inside)
  show ?thesis
    using assms(2)
    by (auto simp: dequant_row_def Let_def q k numbers_at_take row_bytes_flat intro!: arg_cong [where f = concat])
qed

subsection \<open>The data of a tensor\<close>

definition tensor_data :: "(string \<Rightarrow> string option) \<Rightarrow> gguf_tensor \<Rightarrow> string" where
  "tensor_data fs t = take (unat (t_nbytes t)) (tensor_mem fs t)"

definition row_text :: "(32 word \<Rightarrow> 32 word list \<Rightarrow> string) \<Rightarrow> (32 word \<Rightarrow> string \<Rightarrow> 32 word list) \<Rightarrow>
    32 word \<Rightarrow> 32 word \<Rightarrow> nat \<Rightarrow> string \<Rightarrow> string" where
  "row_text kq kd tin tout n p = quantize_row_any kq tout (dequant_row kd tin p n)"

text \<open>What the data of a tensor becomes: the same bytes, or its rows one by one.\<close>

definition tensor_text :: "(32 word \<Rightarrow> 32 word list \<Rightarrow> string) \<Rightarrow> (32 word \<Rightarrow> string \<Rightarrow> 32 word list) \<Rightarrow>
    gguf_tensor \<Rightarrow> 32 word \<Rightarrow> string \<Rightarrow> string" where
  "tensor_text kq kd t ty data =
     (if ty = t_type t then data
      else concat (map (\<lambda>r. row_text kq kd (t_type t) ty (unat (t_ne t ! 0))
              (drop (r * row_bytes (t_type t) (unat (t_ne t ! 0))) data)) [0..<tensor_rows t]))"

definition tensor_usable :: "(string \<Rightarrow> string option) \<Rightarrow> gguf_tensor \<Rightarrow> bool" where
  "tensor_usable fs t \<longleftrightarrow>
     dims_ok t \<and> tensor_read t \<and> unat (t_ne t ! 0) mod ggml_block_size (t_type t) = 0 \<and>
     unat (t_nbytes t) = tensor_size t (t_type t) \<and> unat (t_nbytes t) \<le> length (tensor_mem fs t)"

definition retype_ok :: "gguf_tensor \<Rightarrow> 32 word \<Rightarrow> bool" where
  "retype_ok t ty \<longleftrightarrow>
     ty = t_type t \<or> (quantize_row_writable ty \<and> unat (t_ne t ! 0) mod ggml_block_size ty = 0)"

lemma usable_rows:
  assumes "tensor_usable fs t"
  shows "tensor_rows t < 2 ^ 64" "unat (t_ne t ! 1 * t_ne t ! 2 * t_ne t ! 3) = tensor_rows t"
    "unat (t_ne t ! 0) \<le> 2147483647" "row_bytes (t_type t) (unat (t_ne t ! 0)) * tensor_rows t < 2 ^ 64"
proof -
  have s: "tensor_size t (t_type t) < 2 ^ 64"
    using assms unsigned_less [of "t_nbytes t", where ?'a = nat] by (simp add: tensor_usable_def)
  show r: "tensor_rows t < 2 ^ 64" using tensor_rows_le [of t "t_type t"] assms s by (simp add: tensor_usable_def)
  show "unat (t_ne t ! 1 * t_ne t ! 2 * t_ne t ! 3) = tensor_rows t"
    using checked_rows(3) [OF _ r] assms by (simp add: tensor_usable_def)
  show "unat (t_ne t ! 0) \<le> 2147483647" using assms by (simp add: tensor_usable_def dims_ok_def)
  show "row_bytes (t_type t) (unat (t_ne t ! 0)) * tensor_rows t < 2 ^ 64" using s by (simp add: tensor_size_def)
qed

lemma length_row_text:
  assumes "kernels_ok kq kd" "quantize_row_writable tout" "n mod ggml_block_size tin = 0" "n mod ggml_block_size tout = 0"
  shows "length (row_text kq kd tin tout n p) = row_bytes tout n"
  using assms by (simp add: row_text_def length_quantize_row length_dequant_row)

lemma convert_row_wrote:
  assumes "kernels_ok kq kd" "quantize_row_writable tout" "unat n mod ggml_block_size tin = 0"
    "unat n mod ggml_block_size tout = 0" "unat n \<le> 2147483647" "row_bytes tin (unat n) \<le> length mem" "unat n \<le> max_row"
  shows "wrote w (row_text kq kd tin tout (unat n) mem) (convert_row kq kd max_row tin tout n mem w)"
proof -
  have l: "length (row_text kq kd tin tout (unat n) mem) = row_bytes tout (unat n)"
    by (rule length_row_text [OF assms(1-4)])
  have "row_bytes tout (unat n) \<le> 4 * max_row + 64" using writable_compact [OF assms(2), of "unat n"] assms(7) by simp
  then have "convert_row kq kd max_row tin tout n mem w = wr w (row_text kq kd tin tout (unat n) mem) (row_bytes tout (unat n))"
    using assms(6,7) l by (simp add: convert_row_def Let_def row_size_unat [OF assms(5)] flip: row_text_def)
  then show ?thesis using wr_whole [OF l [symmetric], of w] by simp
qed

lemma convert_rows_wrote:
  "(\<And>i w. r \<le> i \<Longrightarrow> i < r + k \<Longrightarrow> wrote w (tx i) (row (word_of_nat i) w)) \<Longrightarrow>
   wrote w (concat (map tx [r..<r + k])) (convert_rows row k (word_of_nat r) w)"
proof (induction k arbitrary: r w)
  case (Suc k)
  have "wrote w (tx r) (row (word_of_nat r) w)" using Suc.prems by simp
  moreover have "wrote (row (word_of_nat r) w) (concat (map tx [Suc r..<Suc r + k]))
      (convert_rows row k (word_of_nat (Suc r)) (row (word_of_nat r) w))"
    using Suc.prems by (intro Suc.IH) simp
  ultimately show ?case using wrote_trans upt_conv_Cons [of r "r + Suc k"] by (simp add: add.commute)
qed (simp add: wrote_refl)

lemma wr_unpruned_wrote:
  assumes "kernels_ok kq kd" "tensor_usable fs t" "retype_ok t ty" "unat (t_ne t ! 0) \<le> max_row"
  shows "wrote w (tensor_text kq kd t ty (tensor_data fs t)) (wr_unpruned kq kd max_row (tensor_mem fs t) t ty w)"
proof -
  let ?mem = "tensor_mem fs t" and ?n = "t_ne t ! 0" and ?rows = "t_ne t ! 1 * t_ne t ! 2 * t_ne t ! 3"
  let ?in = "ggml_row_size (t_type t) (sint ?n)"
  note u = usable_rows [OF assms(2)]
  have l: "row_bytes (t_type t) (unat ?n) * tensor_rows t = unat (t_nbytes t)" "unat (t_nbytes t) \<le> length ?mem"
    using assms(2) by (simp_all add: tensor_usable_def tensor_size_def)
  note rs = row_size_unat [OF u(3), of "t_type t"]
  show ?thesis
  proof (cases "ty = t_type t")
    case True
    have "checked_u64_mul ?in ?rows = Some (t_nbytes t)" unfolding checked_mul_unat rs u(2) using u(4) l(1) by simp
    then have "wr_unpruned kq kd max_row ?mem t ty w = wr w ?mem (unat (t_nbytes t))"
      using True by (simp add: wr_unpruned_def row_len0_def)
    then show ?thesis using wr_wrote [OF l(2), of w] True by (simp add: tensor_text_def tensor_data_def)
  next
    case False
    define p where "p = (\<lambda>r. drop (r * row_bytes (t_type t) (unat ?n)) (tensor_data fs t))"
    have w: "quantize_row_writable ty" "unat ?n mod ggml_block_size ty = 0" "unat ?n mod ggml_block_size (t_type t) = 0"
      using assms(2,3) False by (simp_all add: retype_ok_def tensor_usable_def)
    have step: "wrote w (row_text kq kd (t_type t) ty (unat ?n) (p i))
        (convert_row kq kd max_row (t_type t) ty ?n (drop (unat (word_of_nat i * ?in)) ?mem) w)"
      if "i < 0 + tensor_rows t" for i w
    proof -
      let ?b = "row_bytes (t_type t) (unat ?n)"
      have b: "i * ?b + ?b \<le> unat (t_nbytes t)"
        using mult_le_mono1 [of "Suc i" "tensor_rows t" ?b] that l(1) by (simp add: mult.commute Suc_le_eq)
      have ub: "unat (t_nbytes t) < 2 ^ 64" using unsigned_less [of "t_nbytes t", where ?'a = nat] by simp
      have "word_of_nat i * ?in = word_of_nat (i * ?b)" by (simp flip: rs)
      then have o: "unat (word_of_nat i * ?in) = i * ?b" using b ub by (simp add: unat_word_of_nat del: of_nat_mult)
      have "p i = take (unat (t_nbytes t) - i * ?b) (drop (i * ?b) ?mem)" by (simp add: p_def tensor_data_def drop_take)
      then have "row_text kq kd (t_type t) ty (unat ?n) (p i) = row_text kq kd (t_type t) ty (unat ?n) (drop (i * ?b) ?mem)"
        using dequant_row_take [OF w(3)] b by (simp add: row_text_def)
      then show ?thesis unfolding o
        using convert_row_wrote [OF assms(1) w(1,3,2) u(3) _ assms(4), of "drop (i * ?b) ?mem" w] b l(2) by simp
    qed
    have "wrote w (concat (map (\<lambda>i. row_text kq kd (t_type t) ty (unat ?n) (p i)) [0..<0 + tensor_rows t]))
       (convert_rows (\<lambda>r. convert_row kq kd max_row (t_type t) ty ?n (drop (unat (r * ?in)) ?mem)) (tensor_rows t) (word_of_nat 0) w)"
      by (rule convert_rows_wrote) (use step in simp)
    then show ?thesis using False u(2) by (simp add: wr_unpruned_def row_len0_def Let_def tensor_text_def p_def)
  qed
qed

lemma length_tensor_text:
  assumes "kernels_ok kq kd" "tensor_usable fs t" "retype_ok t ty"
  shows "length (tensor_text kq kd t ty (tensor_data fs t)) = tensor_size t ty"
proof (cases "ty = t_type t")
  case True
  then show ?thesis using assms(2) by (simp add: tensor_text_def tensor_data_def tensor_usable_def)
next
  case False
  then show ?thesis using assms
    by (simp add: tensor_text_def tensor_size_def length_row_text retype_ok_def tensor_usable_def mult.commute
        length_concat_same [where k = "row_bytes ty (unat (t_ne t ! 0))"])
qed

end
