(* ===== verification/Quantize_Laws.thy ===== *)
theory Quantize_Laws
  imports Quantize_Rows
begin

text \<open>
  The requantiser: the destination is replaced only by a whole file, the source is read in bounds, and the file
  that was written opens again as the same model in the chosen types.
\<close>

subsection \<open>Tensors of an opened model\<close>

lemma in_map_mem: "tensor_in_map fs t p \<Longrightarrow> unat (t_nbytes t) \<le> length (tensor_mem fs t)"
  by (auto simp: tensor_in_map_def tensor_mem_def)

lemma fix_tensor_usable:
  assumes "fix_tensor False path (word_of_nat (length s)) ds t db = Inr (t', db')" "fs path = Some s" "length s < 2 ^ 64"
    "ds \<le> word_of_nat (length s)" "tensor_read t" "ggml_type_supported (t_type t')"
  shows "tensor_usable fs t'"
proof -
  have supp: "ggml_type_supported (t_type t)"
    using assms(1,6) by (auto simp: fix_tensor_def Let_def split: if_splits option.splits)
  then obtain n p where n: "tensor_bytes t = Some n" "t' = t\<lparr>t_data := p, t_nbytes := n\<rparr>"
    using assms(1) by (auto simp: fix_tensor_def Let_def split: if_splits option.splits)
  have "tensor_safe fs {path} t'" using fix_tensor_safe [where fs = fs, OF assms(1-4)] by simp
  then have "unat (t_nbytes t') \<le> length (tensor_mem fs t')" using assms(6) in_map_mem by (auto simp: tensor_safe_def)
  then show ?thesis using n tensor_bytes_dims [OF n(1)] tensor_bytes_size [OF n(1)] tensor_bytes_exact(2) [OF n(1)] assms(5)
    by (simp add: tensor_usable_def dims_ok_def tensor_read_def tensor_size_def tensor_rows_def)
qed

definition usable_tensors :: "(string \<Rightarrow> string option) \<Rightarrow> gguf_tensor list \<Rightarrow> bool" where
  "usable_tensors fs ts \<longleftrightarrow> list_all (\<lambda>t. ggml_type_supported (t_type t) \<longrightarrow> tensor_usable fs t) ts"

lemma fix_tensors_usable:
  "fix_tensors False path (word_of_nat (length s)) ds ts db = Inr (ts', db') \<Longrightarrow> fs path = Some s \<Longrightarrow> length s < 2 ^ 64 \<Longrightarrow>
   ds \<le> word_of_nat (length s) \<Longrightarrow> list_all tensor_read ts \<Longrightarrow> usable_tensors fs ts' \<and> length ts' = length ts"
proof (induction ts arbitrary: db ts')
  case (Cons t ts)
  then show ?case using fix_tensor_usable [where fs = fs]
    by (fastforce simp: usable_tensors_def split: sum.splits prod.splits)
qed (simp add: usable_tensors_def)

lemma rd_header_read:
  assumes "rd_header s = Inr (version, kvs, ts, c)" "length s < 2 ^ 63"
  shows "list_all kv_read kvs" "list_all tensor_read ts" "length kvs \<le> 100000" "length ts \<le> 100000"
proof -
  obtain magic c1 where a: "rd_u32 \<lparr>c_rest = s, c_ok = True\<rparr> = (magic, c1)" by (cases "rd_u32 \<lparr>c_rest = s, c_ok = True\<rparr>")
  obtain ver c2 where b: "rd_u32 c1 = (ver, c2)" by (cases "rd_u32 c1")
  obtain nt c3 where d: "rd_u64 c2 = (nt, c3)" by (cases "rd_u64 c2")
  obtain nk c4 where e: "rd_u64 c3 = (nk, c4)" by (cases "rd_u64 c3")
  from assms(1) a b d e obtain c5 where r: "rd_kvs (unat nk) c4 = Inr (kvs, c5)" "rd_tensors (unat nt) c5 = Inr (ts, c)"
    "\<not> nt > 100000" "\<not> nk > 100000"
    by (auto simp: rd_header_def split: if_splits sum.splits)
  have "length (c_rest c4) \<le> length s"
    using rd_word_shrinks(1) [OF a] rd_word_shrinks(1) [OF b] rd_word_shrinks(2) [OF d] rd_word_shrinks(2) [OF e] by simp
  then show "list_all kv_read kvs" "length kvs \<le> 100000"
    using rd_kvs_read [OF r(1)] assms(2) r(4) by (simp_all add: word_less_nat_alt)
  show "list_all tensor_read ts" "length ts \<le> 100000"
    using rd_tensors_read [OF r(2)] r(3) by (simp_all add: word_less_nat_alt)
qed

text \<open>What opening one file gives.\<close>

lemma open_one_read:
  assumes "gguf_open_one fs path = Inr g" "\<forall>p s. fs p = Some s \<longrightarrow> length s < 2 ^ 63"
  shows "usable_tensors fs (g_tensors g)" "list_all kv_read (g_kv g)" "g_n_kv g = word_of_nat (length (g_kv g))"
    "g_n_tensors g = word_of_nat (length (g_tensors g))" "length (g_kv g) \<le> 100000" "length (g_tensors g) \<le> 100000"
proof -
  from assms(1) obtain s version kvs ts c ds db ts' where
    f: "fs path = Some s" "rd_header s = Inr (version, kvs, ts, c)" "\<not> ds > word_of_nat (length s)"
    "fix_tensors False path (word_of_nat (length s)) ds ts 0 = Inr (ts', db)"
    "g_kv g = kvs" "g_tensors g = ts'" "g_n_kv g = word_of_nat (length kvs)" "g_n_tensors g = word_of_nat (length ts)"
    by (auto simp: gguf_open_one_def gguf_open_one_x_def Let_def split: option.splits if_splits sum.splits prod.splits)
  have l: "length s < 2 ^ 63" using assms(2) f(1) by simp
  note h = rd_header_read [OF f(2) l]
  have "usable_tensors fs ts' \<and> length ts' = length ts"
    using fix_tensors_usable [OF f(4), where fs = fs] f(1,3) l h(2) by simp
  then show "usable_tensors fs (g_tensors g)" "g_n_tensors g = word_of_nat (length (g_tensors g))" "length (g_tensors g) \<le> 100000"
    using f(6,8) h(4) by simp_all
  show "list_all kv_read (g_kv g)" "g_n_kv g = word_of_nat (length (g_kv g))" "length (g_kv g) \<le> 100000"
    using f(5,7) h(1,3) by simp_all
qed

lemma open_usable:
  assumes "gguf_open fs path = Inr g" "\<forall>p s. fs p = Some s \<longrightarrow> length s < 2 ^ 63"
  shows "usable_tensors fs (g_tensors g)"
proof (cases "gguf_open_one fs path")
  case (Inr probe)
  define parts where "parts = gguf_get_u32 (g_kv probe) ''split.count'' 0"
  show ?thesis
  proof (cases "parts \<le> 1")
    case True
    then show ?thesis using assms Inr open_one_read(1) [OF Inr assms(2)] by (simp add: gguf_open_def parts_def)
  next
    case False
    then obtain first expected gs tot mapped where
      p: "open_parts fs first parts expected (unat parts) 0 [] 0 0 = Inr (gs, tot, mapped)" and g: "g = merge_parts gs parts tot mapped"
      using assms(1) Inr by (auto simp: gguf_open_def parts_def [symmetric] Let_def split: if_splits option.splits sum.splits prod.splits)
    from open_parts_opened [OF p] have "list_all (\<lambda>g. \<exists>p. gguf_open_one fs p = Inr g) gs" by simp
    then have "list_all (\<lambda>g. usable_tensors fs (g_tensors g)) gs"
      by (rule list.pred_mono_strong) (use open_one_read(1) [OF _ assms(2)] in blast)
    then show ?thesis by (auto simp: g merge_parts_def usable_tensors_def list_all_iff)
  qed
qed (use assms in \<open>simp add: gguf_open_def\<close>)

subsection \<open>The types that are chosen\<close>

definition named_type :: "32 word \<Rightarrow> bool" where
  "named_type t \<longleftrightarrow> t = T_KEEP \<or> quantize_row_writable t"

lemma type_from_name_named: "type_from_name s \<noteq> - 2 \<Longrightarrow> named_type (type_from_name s)"
  by (auto simp: type_from_name_def named_type_def quantize_row_writable_def split: option.splits)

lemma load_rule_named: "load_rule r = Some (m, t) \<Longrightarrow> named_type t"
  using type_from_name_named by (auto simp: load_rule_def Let_def split: option.splits jv.splits if_splits)

lemma load_rules_named: "load_rules rs = Some xs \<Longrightarrow> (m, t) \<in> set xs \<Longrightarrow> named_type t"
proof (induction rs arbitrary: xs)
  case (Cons r rs)
  then show ?case using load_rule_named by (auto split: option.splits)
qed simp

lemma type_plan_named:
  assumes "type_plan_load fs path = Some tp"
  shows "named_type (type_plan_pick tp name)"
proof -
  have "named_type (tp_dflt tp) \<and> (\<forall>(m, t) \<in> set (tp_rules tp). named_type t)"
  proof -
    have k: "named_type T_KEEP" by (simp add: named_type_def)
    from assms show ?thesis
      by (auto simp: type_plan_load_def Let_def k type_from_name_named split: option.splits jv.splits if_splits
          intro: load_rules_named)
  qed
  then show ?thesis by (fastforce simp: type_plan_pick_def find_Some_iff split: option.splits dest: nth_mem)
qed

lemma fits_row_nat:
  "dims_ok t \<Longrightarrow> type_fits_row ty (row_len0 t) \<longleftrightarrow> unat (t_ne t ! 0) mod ggml_block_size ty = 0"
  by (simp add: type_fits_row_def row_len0_def sint_small dims_ok_def del: of_nat_unat) (metis of_nat_0_eq_iff zmod_int)

lemma retype_flat: "retype_ok t T_F32" "retype_ok t T_F16"
  by (simp_all add: retype_ok_def quantize_row_writable_def ggml_block_size_def)

lemma plan_out_ok:
  "type_plan_load fs path = Some tp \<Longrightarrow> dims_ok t \<Longrightarrow> retype_ok t (plan_out_type tp t)"
  using type_plan_named [of fs path tp "t_name t"]
  by (auto simp: plan_out_type_def Let_def retype_flat fits_row_nat named_type_def) (auto simp: retype_ok_def)

lemma target_out_ok:
  "named_type target \<Longrightarrow> dims_ok t \<Longrightarrow> retype_ok t (target_out_type only force target t)"
  by (auto simp: target_out_type_def Let_def retype_flat fits_row_nat named_type_def) (auto simp: retype_ok_def)

subsection \<open>The directory\<close>

lemma eff_ne_unpruned: "eff_ne [] t = t_ne t"
  by (simp add: eff_ne_def resolve_prune_def)

definition dir_text :: "(gguf_tensor \<times> 32 word \<times> 64 word) list \<Rightarrow> string" where
  "dir_text l = concat (map (\<lambda>(t, ty, off). entry_text t ty off) l)"

lemma wr_table_wrote:
  "length tys = length ts \<Longrightarrow> list_all tensor_read ts \<Longrightarrow> wr_table [] amask (zip ts tys) off w = (w', offs) \<Longrightarrow>
   w_fault w' = w_fault w \<and>
   (w_ok w' \<longrightarrow> length offs = length ts \<and> wrote w (dir_text (zip ts (zip tys offs))) w')"
proof (induction tys ts arbitrary: off w offs rule: list_induct2)
  case Nil
  then show ?case by (auto simp: dir_text_def wrote_refl)
next
  case (Cons ty tys t ts)
  have e: "wrote w (entry_text t ty off) (wr_entry t ty (t_ne t) off w)" using Cons.prems(1) by (intro wr_entry_wrote) simp
  show ?case
  proof (cases "w_ok w \<and> next_offset amask ty (t_ne t) off \<noteq> None")
    case True
    then obtain off' wa offs' where n: "next_offset amask ty (t_ne t) off = Some off'"
      "wr_table [] amask (zip ts tys) off' (wr_entry t ty (t_ne t) off w) = (wa, offs')"
      by (cases "wr_table [] amask (zip ts tys) (the (next_offset amask ty (t_ne t) off)) (wr_entry t ty (t_ne t) off w)") auto
    then have w: "w' = wa" "offs = off # offs'" using Cons.prems(2) True by (simp_all add: eff_ne_unpruned Let_def)
    note ih = Cons.IH [OF _ n(2) [folded w(1)]]
    show ?thesis using ih Cons.prems(1) e wrote_trans [OF e] by (auto simp: w dir_text_def wrote_def)
  next
    case False
    then show ?thesis using Cons.prems(2) by (auto simp: eff_ne_unpruned Let_def split: if_splits)
  qed
qed

lemma dir_codec:
  "list_all (\<lambda>(t, ty, off). tensor_read t) l \<Longrightarrow>
   rd_tensors (length l) (cur (dir_text l @ s)) =
     Inr (map (\<lambda>(t, ty, off). t\<lparr>t_type := ty, t_data := File_offset off, t_nbytes := 0\<rparr>) l, cur s)"
proof (induction l)
  case (Cons a l)
  obtain t ty off where a: "a = (t, ty, off)" by (cases a) auto
  have "dir_text (a # l) @ s = entry_text t ty off @ (dir_text l @ s)" by (simp add: a dir_text_def)
  then show ?case using Cons tensor_codec [of t ty off "dir_text l @ s"] by (simp add: a)
qed (simp add: dir_text_def)

subsection \<open>The data section\<close>

text \<open>The data of a tensor stands where its entry says.\<close>

definition placed :: "(32 word \<Rightarrow> 32 word list \<Rightarrow> string) \<Rightarrow> (32 word \<Rightarrow> string \<Rightarrow> 32 word list) \<Rightarrow>
    (string \<Rightarrow> string option) \<Rightarrow> 64 word \<Rightarrow> string \<Rightarrow> gguf_tensor \<times> 32 word \<times> 64 word \<Rightarrow> bool" where
  "placed kq kd fs ds out = (\<lambda>(t, ty, off).
     unat ds + unat off + tensor_size t ty \<le> length out \<and>
     take (tensor_size t ty) (drop (unat ds + unat off) out) = tensor_text kq kd t ty (tensor_data fs t))"

lemma wr_data_wrote:
  assumes "kernels_ok kq kd"
  shows "list_all (\<lambda>(t, ty, off). tensor_usable fs t \<and> retype_ok t ty \<and> unat (t_ne t ! 0) \<le> max_row) l \<Longrightarrow>
   w' = wr_data kq kd fs [] max_row ds l w \<Longrightarrow>
   \<exists>s. wrote w s w' \<and> (w_ok w' \<longrightarrow> list_all (placed kq kd fs ds (w_out w')) l)"
proof (induction l arbitrary: w)
  case Nil
  then show ?case using wrote_refl by auto
next
  case (Cons a l)
  obtain t ty off where a: "a = (t, ty, off)" by (cases a) auto
  have t: "tensor_usable fs t" "retype_ok t ty" "unat (t_ne t ! 0) \<le> max_row" using Cons.prems(1) by (simp_all add: a)
  show ?case
  proof (cases "w_ok w \<and> checked_u64_add ds off \<noteq> None")
    case False
    then have "w_fault w' = w_fault w \<and> \<not> w_ok w'" using Cons.prems(2) by (auto simp: a)
    then show ?thesis by (auto simp: wrote_def)
  next
    case True
    then obtain want where want: "checked_u64_add ds off = Some want" by blast
    define wa where "wa = wr_pad_to w want"
    define wb where "wb = wr_unpruned kq kd max_row (tensor_mem fs t) t ty wa"
    define tx where "tx = tensor_text kq kd t ty (tensor_data fs t)"
    have w': "w' = wr_data kq kd fs [] max_row ds l wb"
      using True want Cons.prems(2) by (simp add: a wa_def wb_def resolve_prune_def Let_def)
    define sa where "sa = unat want - length (w_out w)"
    have pad: "wrote w (replicate sa CHR 0x00) wa" "w_ok wa \<longrightarrow> length (w_out wa) = unat want"
      using wr_pad_to_wrote [of w want] by (auto simp: wa_def sa_def wrote_def)
    have dat: "wrote wa tx wb" unfolding wb_def tx_def by (rule wr_unpruned_wrote [OF assms t])
    obtain s where rest: "wrote wb s w'" "w_ok w' \<longrightarrow> list_all (placed kq kd fs ds (w_out w')) l"
      using Cons.IH [OF _ w'] Cons.prems(1) by auto
    have all: "wrote w ((replicate sa CHR 0x00 @ tx) @ s) w'" by (rule wrote_trans [OF wrote_trans [OF pad(1) dat] rest(1)])
    have "placed kq kd fs ds (w_out w') a" if ok: "w_ok w'"
    proof -
      have "w_ok wb" "w_ok wa" "w_out w' = w_out wa @ tx @ s" using ok rest(1) dat by (auto simp: wrote_def)
      moreover have "unat want = unat ds + unat off" using want checked_add_unat by blast
      moreover have "length tx = tensor_size t ty" unfolding tx_def by (rule length_tensor_text [OF assms t(1,2)])
      ultimately show ?thesis using pad(2) by (simp add: placed_def a tx_def)
    qed
    then show ?thesis using all rest(2) by auto
  qed
qed

subsection \<open>The header\<close>

definition file_type_kv :: "32 word \<Rightarrow> gguf_kv" where
  "file_type_kv v = kv_zero\<lparr>kv_key := ''general.file_type'', kv_type := GGUF_T_U32, kv_v := ucast v\<rparr>"

text \<open>The metadata of the output.\<close>

definition out_kvs :: "gguf_kv list \<Rightarrow> 32 word \<Rightarrow> gguf_kv list" where
  "out_kvs kvs v = filter (\<lambda>kv. kv_key kv \<noteq> ''general.file_type'') kvs @ [file_type_kv v]"

lemma file_type_kv_read: "kv_read (file_type_kv v)"
proof -
  have "rd_kv_value (cur (le_bytes 4 (unat v))) (kv_zero\<lparr>kv_key := ''general.file_type'', kv_type := GGUF_T_U32\<rparr>) GGUF_T_U32 =
     Some (file_type_kv v, cur [])"
    using rd_bytes(3) [of "unat v" "[]"] by (simp add: rd_kv_value_def file_type_kv_def del: le_bytes.simps)
  moreover have "length (c_rest (cur (le_bytes 4 (unat v)))) < 2 ^ 63" by simp
  ultimately show ?thesis unfolding kv_read_def by (auto simp: file_type_kv_def kv_zero_def)
qed

lemma fold_kvs_wrote:
  "list_all kv_read kvs \<Longrightarrow>
   wrote w (concat (map kv_text (filter (\<lambda>kv. kv_key kv \<noteq> k) kvs))) (fold (\<lambda>kv w. if kv_key kv = k then w else wr_kv w kv) kvs w)"
proof (induction kvs arbitrary: w)
  case (Cons kv kvs)
  then show ?case using wrote_trans [OF wr_kv_wrote Cons.IH] by auto
qed (simp add: wrote_refl)

lemma out_kvs_count:
  assumes "distinct (map kv_key kvs)"
  shows "length (out_kvs kvs v) = length kvs - (if gguf_get kvs ''general.file_type'' \<noteq> None then 1 else 0) + 1"
  using assms
proof (induction kvs)
  case (Cons kv kvs)
  have "kv_key x \<noteq> kv_key kv" if "x \<in> set kvs" for x
    using Cons.prems imageI [OF that, of kv_key] by (auto simp del: image_eqI)
  then have "length (filter (\<lambda>x. kv_key x \<noteq> kv_key kv) kvs) = length kvs" by (subst filter_True) auto
  moreover have "gguf_get kvs k = None \<longleftrightarrow> k \<notin> set (map kv_key kvs)" for k by (auto simp: gguf_get_def find_None_iff)
  moreover have "kvs \<noteq> []" if "gguf_get kvs k \<noteq> None" for k using that by (auto simp: gguf_get_def)
  ultimately show ?case using Cons by (cases kvs) (auto simp: out_kvs_def gguf_get_def)
qed (simp add: out_kvs_def gguf_get_def)

definition header_text :: "gguf_file \<Rightarrow> gguf_kv list \<Rightarrow> string" where
  "header_text g kvs =
     le_bytes 4 0x46554747 @ le_bytes 4 3 @ le_bytes 8 (length (g_tensors g)) @ le_bytes 8 (length kvs) @ concat (map kv_text kvs)"

lemma file_type_text: "kv_text (file_type_kv v) = le_str ''general.file_type'' @ le_bytes 4 4 @ le_bytes 4 (unat v)"
proof -
  have "scalar_bytes (file_type_kv v) GGUF_T_U32 = le_bytes 4 (unat v)"
    by (simp add: scalar_bytes_def wr_scalar_def wr_fresh file_type_kv_def ucast_back del: le_bytes.simps)
  then show ?thesis by (simp add: kv_text_def val_text_def file_type_kv_def del: le_bytes.simps)
qed

lemma wr_header_wrote:
  assumes "list_all kv_read kvs" "distinct (map kv_key kvs)" "g_n_kv g = word_of_nat (length kvs)" "length kvs < 100000"
    "g_n_tensors g = word_of_nat (length (g_tensors g))" "length (g_tensors g) \<le> 100000"
  shows "wrote w (header_text g (out_kvs kvs v)) (wr_header g kvs v w)"
proof -
  define had where "had = (gguf_get kvs ''general.file_type'' \<noteq> None)"
  have pos: "0 < length kvs" if had using that by (cases kvs) (simp_all add: had_def gguf_get_def)
  have n: "length (out_kvs kvs v) = length kvs - (if had then 1 else 0) + 1"
    unfolding had_def by (rule out_kvs_count [OF assms(2)])
  have e: "g_n_kv g - (if had then 1 else 0) + 1 = word_of_nat (length (out_kvs kvs v))"
    using n pos by (cases had) (simp_all add: assms(3) of_nat_diff)
  have "length (out_kvs kvs v) < 2 ^ 64" using n assms(4) by simp
  then have u: "unat (g_n_kv g - (if had then 1 else 0) + 1) = length (out_kvs kvs v)" unfolding e by (rule unat_word_of_nat)
  have ut: "unat (g_n_tensors g) = length (g_tensors g)" using assms(5,6) by (simp add: unat_word_of_nat)
  define wa where "wa = wr_u32 (wr_u32 w 0x46554747) 3"
  define wb where "wb = wr_u64 (wr_u64 wa (g_n_tensors g)) (g_n_kv g - (if had then 1 else 0) + 1)"
  define wc where "wc = fold (\<lambda>kv w. if kv_key kv = ''general.file_type'' then w else wr_kv w kv) kvs wb"
  define wd where "wd = wr_str wc ''general.file_type'' 17"
  have a: "wrote w (le_bytes 4 0x46554747 @ le_bytes 4 3) wa"
    unfolding wa_def using wrote_trans [OF wr_u32_wrote [where v = "0x46554747"] wr_u32_wrote [where v = 3]] by simp
  have b: "wrote wa (le_bytes 8 (length (g_tensors g)) @ le_bytes 8 (length (out_kvs kvs v))) wb"
    unfolding wb_def ut [symmetric] u [symmetric] by (rule wrote_trans [OF wr_u64_wrote wr_u64_wrote])
  have c: "wrote wb (concat (map kv_text (filter (\<lambda>kv. kv_key kv \<noteq> ''general.file_type'') kvs))) wc"
    unfolding wc_def by (rule fold_kvs_wrote [OF assms(1)])
  have d: "wrote wc (le_str ''general.file_type'') wd"
    unfolding wd_def using wr_str_wrote [where s = "''general.file_type''" and w = wc] by simp
  have "wrote wd (le_bytes 4 4 @ le_bytes 4 (unat v)) (wr_u32 (wr_u32 wd 4) v)"
    using wrote_trans [OF wr_u32_wrote [where v = 4] wr_u32_wrote [where v = v]] by simp
  from wrote_trans [OF wrote_trans [OF wrote_trans [OF wrote_trans [OF a b] c] d] this]
  have "wrote w (header_text g (out_kvs kvs v)) (wr_u32 (wr_u32 wd 4) v)"
    by (simp add: header_text_def out_kvs_def file_type_text del: le_bytes.simps)
  then show ?thesis by (simp add: wr_header_def Let_def wa_def wb_def wc_def wd_def had_def)
qed

lemma header_codec:
  assumes "list_all kv_read kvs" "length kvs \<le> 100000" "length (g_tensors g) = length l" "length l \<le> 100000"
    "list_all (\<lambda>(t, ty, off). tensor_read t) l"
  shows "\<exists>kvs'. list_all2 kv_same kvs kvs' \<and>
    rd_header (header_text g kvs @ dir_text l @ s) =
      Inr (3, kvs', map (\<lambda>(t, ty, off). t\<lparr>t_type := ty, t_data := File_offset off, t_nbytes := 0\<rparr>) l, cur s)"
proof -
  obtain kvs' where k: "rd_kvs (length kvs) (cur (concat (map kv_text kvs) @ dir_text l @ s)) = Inr (kvs', cur (dir_text l @ s))"
    "list_all2 kv_same kvs kvs'" using kvs_codec [OF assms(1)] by blast
  have u: "unat (word_of_nat (length kvs) :: 64 word) = length kvs" "unat (word_of_nat (length l) :: 64 word) = length l"
    "\<not> (word_of_nat (length kvs) :: 64 word) > 100000" "\<not> (word_of_nat (length l) :: 64 word) > 100000"
    using assms(2,4) by (simp_all add: unat_word_of_nat word_less_nat_alt)
  show ?thesis using k dir_codec [OF assms(5), of s] u
    by (simp add: rd_header_def header_text_def assms(3) del: le_bytes.simps)
qed

text \<open>The getters do not see where an array lies.\<close>

lemma gguf_get_same:
  assumes "list_all2 kv_same kvs kvs'"
  shows "rel_option kv_same (gguf_get kvs key) (gguf_get kvs' key)"
  using assms by induction (auto simp: gguf_get_def kv_same_fields)

lemma gguf_get_out:
  "key \<noteq> ''general.file_type'' \<Longrightarrow> gguf_get (out_kvs kvs v) key = gguf_get kvs key"
  by (induction kvs) (auto simp: out_kvs_def gguf_get_def file_type_kv_def)

lemma gguf_get_u32_same:
  "rel_option kv_same (gguf_get kvs key) (gguf_get kvs' key) \<Longrightarrow> gguf_get_u32 kvs' key d = gguf_get_u32 kvs key d"
  by (cases "gguf_get kvs key"; cases "gguf_get kvs' key") (simp_all add: gguf_get_u32_def kv_same_fields)

subsection \<open>Reading the directory back\<close>

definition placed_tensor :: "string \<Rightarrow> 64 word \<Rightarrow> gguf_tensor \<times> 32 word \<times> 64 word \<Rightarrow> gguf_tensor" where
  "placed_tensor path ds = (\<lambda>(t, ty, off).
     t\<lparr>t_type := ty, t_data := In_map path (ds + off), t_nbytes := word_of_nat (tensor_size t ty)\<rparr>)"

lemma retype_supported: "retype_ok t ty \<Longrightarrow> ggml_type_supported (t_type t) \<Longrightarrow> ggml_type_supported ty"
  by (auto simp: retype_ok_def quantize_row_writable_def ggml_type_supported_def)

lemma tensor_bytes_cong:
  assumes "t_ne t = t_ne t'" "t_type t = t_type t'"
  shows "tensor_bytes t = tensor_bytes t'"
  unfolding tensor_bytes_def assms ..

lemma fix_placed:
  assumes "placed kq kd fs ds out (t, ty, off)" "tensor_usable fs t" "retype_ok t ty" "ggml_type_supported (t_type t)"
    "length out < 2 ^ 64"
  shows "fix_tensor False path (word_of_nat (length out)) ds (t\<lparr>t_type := ty, t_data := File_offset off, t_nbytes := 0\<rparr>) db =
    Inr (placed_tensor path ds (t, ty, off), db)"
proof -
  let ?n = "tensor_size t ty" and ?m = "word_of_nat (length out) :: 64 word"
  have p: "unat ds + unat off + ?n \<le> length out" using assms(1) by (simp add: placed_def)
  have um: "unat ?m = length out" using assms(5) by (simp add: unat_word_of_nat)
  have un: "unat (word_of_nat ?n :: 64 word) = ?n" using p assms(5) by (simp add: unat_word_of_nat)
  have a: "unat (?m - ds) = length out - unat ds" using um p by (subst unat_sub) (simp_all add: word_le_nat_alt)
  then have b: "unat (?m - ds - off) = length out - unat ds - unat off" using p by (subst unat_sub) (simp_all add: word_le_nat_alt)
  have "tensor_bytes (t\<lparr>t_type := ty\<rparr>) = Some (word_of_nat ?n)"
    using assms(2,3) p assms(5) by (intro tensor_bytes_retype) (auto simp: tensor_usable_def retype_ok_def)
  then have "tensor_bytes (t\<lparr>t_type := ty, t_data := File_offset off, t_nbytes := 0\<rparr>) = Some (word_of_nat ?n)"
    using tensor_bytes_cong [of "t\<lparr>t_type := ty\<rparr>" "t\<lparr>t_type := ty, t_data := File_offset off, t_nbytes := 0\<rparr>"] by simp
  moreover have "\<not> off > ?m - ds" "\<not> word_of_nat ?n > ?m - ds - off"
    using p by (simp_all add: word_less_nat_alt a b un)
  ultimately show ?thesis using retype_supported [OF assms(3,4)] by (simp add: fix_tensor_def placed_tensor_def)
qed

lemma fix_placed_all:
  "list_all (placed kq kd fs ds out) l \<Longrightarrow> length out < 2 ^ 64 \<Longrightarrow>
   list_all (\<lambda>(t, ty, off). tensor_usable fs t \<and> retype_ok t ty \<and> ggml_type_supported (t_type t)) l \<Longrightarrow>
   fix_tensors False path (word_of_nat (length out)) ds
     (map (\<lambda>(t, ty, off). t\<lparr>t_type := ty, t_data := File_offset off, t_nbytes := 0\<rparr>) l) db = Inr (map (placed_tensor path ds) l, db)"
proof (induction l)
  case (Cons a l)
  obtain t ty off where a: "a = (t, ty, off)" by (cases a) auto
  show ?case using Cons fix_placed [of kq kd fs ds out t ty off path db] by (simp add: a)
qed simp

subsection \<open>The whole file\<close>

lemma max_row_ge: "t \<in> set ts \<Longrightarrow> unat (t_ne t ! 0) \<le> foldr (\<lambda>t m. max (unat (t_ne t ! 0)) m) ts 0"
  by (induction ts) auto

lemma wr_pad_header_wrote:
  assumes "wr_pad_header amask w = (w', ds)"
  shows "\<exists>k. wrote w (replicate k CHR 0x00) w' \<and>
    (w_ok w' \<longrightarrow> length (w_out w) < 2 ^ 63 \<and> ds = (word_of_nat (length (w_out w)) + amask) AND NOT amask \<and>
       unat ds = length (w_out w) + k)"
proof (cases "w_ok w \<and> length (w_out w) < 2 ^ 63")
  case True
  define h where "h = (word_of_nat (length (w_out w)) :: 64 word)"
  define d where "d = (h + amask) AND NOT amask"
  have t: "wr_tell w = (Some h, w)" using True by (simp add: wr_tell_def h_def)
  define wa where "wa = (if d < h then w\<lparr>w_ok := False\<rparr> else w)"
  have w': "w' = wr_pad_to wa d" "ds = d" using assms t by (auto simp: wr_pad_header_def Let_def d_def wa_def split: if_splits)
  define k where "k = unat d - length (w_out w)"
  have k: "wrote wa (replicate k CHR 0x00) w'" "w_ok w' \<longrightarrow> length (w_out w) \<le> unat d"
    using wr_pad_to_wrote [of wa d] by (auto simp: w'(1) k_def wa_def)
  have "wrote w (replicate k CHR 0x00) w' \<and> (w_ok w' \<longrightarrow> unat ds = length (w_out w) + k)"
    using k w'(2) by (auto simp: wrote_def wa_def k_def split: if_splits)
  then show ?thesis using True w'(2) by (auto simp: d_def h_def)
next
  case False
  then have "\<not> w_ok w' \<and> w_fault w' = w_fault w"
    using assms wr_pad_to_wrote [of w 0]
    by (cases "w_ok w") (auto simp: wr_pad_header_def wr_tell_def wr_pad_to_def Let_def split: if_splits)
  then show ?thesis by (auto simp: wrote_def)
qed

text \<open>The run after the header: directory, padding, data.\<close>

lemma wr_file_wrote:
  assumes "kernels_ok kq kd" "list_all (tensor_usable fs) (g_tensors g)" "list_all2 retype_ok (g_tensors g) tys"
    "w1 = wr_header g kvs (file_type_out tys) w" "w' = wr_file kq kd fs [] amask g kvs tys w"
  obtains offs k s ds where "w_fault w' = w_fault w1"
    "w_ok w' \<longrightarrow> wrote w1 (dir_text (zip (g_tensors g) (zip tys offs)) @ replicate k CHR 0x00 @ s) w' \<and> length offs = length (g_tensors g) \<and>
       (let h = length (w_out w1) + length (dir_text (zip (g_tensors g) (zip tys offs)))
        in h < 2 ^ 63 \<and> ds = (word_of_nat h + amask) AND NOT amask \<and> unat ds = h + k) \<and>
       list_all (placed kq kd fs ds (w_out w')) (zip (g_tensors g) (zip tys offs))"
proof -
  let ?ts = "g_tensors g"
  obtain w2 offs where b: "wr_table [] amask (zip ?ts tys) 0 w1 = (w2, offs)" by (cases "wr_table [] amask (zip ?ts tys) 0 w1")
  obtain w3 ds where c: "wr_pad_header amask w2 = (w3, ds)" by (cases "wr_pad_header amask w2")
  define l where "l = zip ?ts (zip tys offs)"
  have w': "w' = wr_data kq kd fs [] (foldr (\<lambda>t m. max (unat (t_ne t ! 0)) m) ?ts 0) ds l w3"
    using b c assms(4,5) by (simp add: wr_file_def Let_def l_def)
  have r: "list_all tensor_read ?ts" using assms(2) by (rule list.pred_mono_strong) (simp add: tensor_usable_def)
  note t = wr_table_wrote [OF list_all2_lengthD [OF assms(3), symmetric] r b]
  obtain k where k: "wrote w2 (replicate k CHR 0x00) w3" "w_ok w3 \<longrightarrow> length (w_out w2) < 2 ^ 63 \<and>
      ds = (word_of_nat (length (w_out w2)) + amask) AND NOT amask \<and> unat ds = length (w_out w2) + k"
    using wr_pad_header_wrote [OF c] by blast
  have "tensor_usable fs t \<and> retype_ok t ty \<and> unat (t_ne t ! 0) \<le> foldr (\<lambda>t m. max (unat (t_ne t ! 0)) m) ?ts 0"
    if "(t, ty, off) \<in> set l" for t ty off
  proof -
    from that have "t \<in> set ?ts" "(t, ty) \<in> set (zip ?ts tys)"
      by (auto simp: l_def set_zip)
    then show ?thesis using assms(2,3) max_row_ge by (auto simp: list_all_iff list_all2_iff)
  qed
  then have "list_all (\<lambda>(t, ty, off). tensor_usable fs t \<and> retype_ok t ty \<and>
      unat (t_ne t ! 0) \<le> foldr (\<lambda>t m. max (unat (t_ne t ! 0)) m) ?ts 0) l"
    by (auto simp: list_all_iff)
  from wr_data_wrote [OF assms(1) this w'] obtain s where
    s: "wrote w3 s w'" "w_ok w' \<longrightarrow> list_all (placed kq kd fs ds (w_out w')) l" by blast
  have "wrote w1 (dir_text (zip ?ts (zip tys offs)) @ replicate k CHR 0x00 @ s) w' \<and> length offs = length ?ts \<and>
       (let h = length (w_out w1) + length (dir_text (zip ?ts (zip tys offs)))
        in h < 2 ^ 63 \<and> ds = (word_of_nat h + amask) AND NOT amask \<and> unat ds = h + k) \<and>
       list_all (placed kq kd fs ds (w_out w')) (zip ?ts (zip tys offs))" if ok: "w_ok w'"
  proof -
    have "w_ok w3" "w_ok w2" using ok s(1) k(1) by (auto simp: wrote_def)
    then have d: "length offs = length ?ts" "wrote w1 (dir_text l) w2" using t by (simp_all add: l_def)
    have h: "length (w_out w2) = length (w_out w1) + length (dir_text l)" using d(2) \<open>w_ok w2\<close> by (simp add: wrote_def)
    have "wrote w1 (dir_text l @ replicate k CHR 0x00 @ s) w'"
      using wrote_trans [OF wrote_trans [OF d(2) k(1)] s(1)] by simp
    then show ?thesis
      unfolding Let_def l_def [symmetric] h [symmetric] using d(1) k(2) s(2) ok \<open>w_ok w3\<close> by blast
  qed
  moreover have "w_fault w' = w_fault w1" using t k(1) s(1) by (simp add: wrote_def)
  ultimately show ?thesis by (intro that [of offs k s ds]) blast+
qed

lemma wr_file_written:
  assumes "kernels_ok kq kd" "list_all (tensor_usable fs) (g_tensors g)" "list_all2 retype_ok (g_tensors g) tys"
    "w1 = wr_header g kvs (file_type_out tys) w" "w' = wr_file kq kd fs [] amask g kvs tys w" "w_ok w'"
  obtains offs k s ds where
    "wrote w1 (dir_text (zip (g_tensors g) (zip tys offs)) @ replicate k CHR 0x00 @ s) w'" "length offs = length (g_tensors g)"
    "length (w_out w1) + length (dir_text (zip (g_tensors g) (zip tys offs))) < 2 ^ 63"
    "ds = (word_of_nat (length (w_out w1) + length (dir_text (zip (g_tensors g) (zip tys offs)))) + amask) AND NOT amask"
    "unat ds = length (w_out w1) + length (dir_text (zip (g_tensors g) (zip tys offs))) + k"
    "list_all (placed kq kd fs ds (w_out w')) (zip (g_tensors g) (zip tys offs))"
proof -
  obtain offs k s ds where "w_fault w' = w_fault w1" and
    a: "w_ok w' \<longrightarrow> wrote w1 (dir_text (zip (g_tensors g) (zip tys offs)) @ replicate k CHR 0x00 @ s) w' \<and> length offs = length (g_tensors g) \<and>
       (let h = length (w_out w1) + length (dir_text (zip (g_tensors g) (zip tys offs)))
        in h < 2 ^ 63 \<and> ds = (word_of_nat h + amask) AND NOT amask \<and> unat ds = h + k) \<and>
       list_all (placed kq kd fs ds (w_out w')) (zip (g_tensors g) (zip tys offs))"
    by (rule wr_file_wrote [OF assms(1-5)])
  note b = a [THEN mp, OF assms(6), unfolded Let_def]
  show ?thesis by (rule that [of offs k s ds]) (use b in \<open>blast\<close>)+
qed

text \<open>Reading the header of a model reads in bounds.\<close>

lemma open_kv_read:
  assumes "gguf_open fs path = Inr g" "\<forall>p s. fs p = Some s \<longrightarrow> length s < 2 ^ 63"
  shows "list_all kv_read (g_kv g)"
proof (cases "gguf_open_one fs path")
  case (Inr probe)
  define parts where "parts = gguf_get_u32 (g_kv probe) ''split.count'' 0"
  show ?thesis
  proof (cases "parts \<le> 1")
    case True
    then show ?thesis using assms Inr open_one_read(2) [OF Inr assms(2)] by (simp add: gguf_open_def parts_def)
  next
    case False
    then obtain first expected gs tot mapped where
      p: "open_parts fs first parts expected (unat parts) 0 [] 0 0 = Inr (gs, tot, mapped)" and g: "g = merge_parts gs parts tot mapped"
      using assms(1) Inr by (auto simp: gguf_open_def parts_def [symmetric] Let_def split: if_splits option.splits sum.splits prod.splits)
    from open_parts_opened [OF p] have o: "list_all (\<lambda>g. \<exists>p. gguf_open_one fs p = Inr g) gs" "length gs = unat parts" by simp_all
    have "unat parts \<noteq> 0" using False by (auto simp: word_le_nat_alt)
    then have "hd gs \<in> set gs" using o(2) by (intro hd_in_set) auto
    then obtain q where "gguf_open_one fs q = Inr (hd gs)" using o(1) by (auto simp: list_all_iff)
    from open_one_read(2) [OF this assms(2)] show ?thesis by (simp add: g merge_parts_def)
  qed
qed (use assms in \<open>simp add: gguf_open_def\<close>)

lemma wr_header_fault:
  assumes "list_all kv_read kvs"
  shows "w_fault (wr_header g kvs v w) = w_fault w"
proof -
  have f: "w_fault (fold (\<lambda>kv w. if kv_key kv = k then w else wr_kv w kv) kvs w) = w_fault w" for k w
    using fold_kvs_wrote [OF assms, of w k] by (simp add: wrote_def)
  have n: "w_fault (wr_u32 w x) = w_fault w" "w_fault (wr_u64 w y) = w_fault w" for w x y
    using wr_u32_wrote [of w x] wr_u64_wrote [of w y] by (simp_all add: wrote_def)
  have s: "w_fault (wr_str w ''general.file_type'' 17) = w_fault w" for w
    using wr_str_wrote [where s = "''general.file_type''" and w = w] by (simp add: wrote_def)
  show ?thesis by (simp add: wr_header_def Let_def n f s)
qed

subsection \<open>The run\<close>

lemma load_inputs_unpruned:
  assumes "load_inputs e inp target None tp = Some (plan, tplan, g, uniform, amask)"
  shows "plan = []" "uniform = None" "gguf_open (e_fs e) inp = Inr g" "load_plan (type_plan_load (e_fs e)) None tp = Some tplan"
    "named_type target" "list_all (\<lambda>t. ggml_type_supported (t_type t)) (g_tensors g)"
    "let align = ucast (gguf_get_u32 (g_kv g) ''general.alignment'' 32) in
       align \<noteq> 0 \<and> align AND (align - 1) = 0 \<and> amask = align - 1"
proof -
  obtain tpl where t: "load_plan (type_plan_load (e_fs e)) None tp = Some tpl"
    using assms by (auto simp: load_inputs_def Let_def split: if_splits option.splits)
  have n: "named_type target" using assms by (auto simp: load_inputs_def Let_def named_type_def split: if_splits)
  have o: "load_plan (prune_plan_load (e_fs e)) (Some []) None = Some (Some [])" by (simp add: load_plan_def)
  show "plan = []" "uniform = None" "gguf_open (e_fs e) inp = Inr g" "load_plan (type_plan_load (e_fs e)) None tp = Some tplan"
    "named_type target" "list_all (\<lambda>t. ggml_type_supported (t_type t)) (g_tensors g)"
    "let align = ucast (gguf_get_u32 (g_kv g) ''general.alignment'' 32) in
       align \<noteq> 0 \<and> align AND (align - 1) = 0 \<and> amask = align - 1"
    using assms t n o by (auto simp: load_inputs_def Let_def prune_prepass_def split: if_splits sum.splits option.splits)
qed

lemma out_types_ok:
  assumes "load_plan (type_plan_load fs) None tp = Some tplan" "named_type target" "list_all dims_ok ts"
  shows "list_all2 retype_ok ts (out_types e tplan target ts)"
proof -
  have "retype_ok t ((case tplan of Some tp \<Rightarrow> plan_out_type tp | None \<Rightarrow> target_out_type only force target) t)"
    if "dims_ok t" for t only force
    using assms(1,2) plan_out_ok target_out_ok that by (auto simp: load_plan_def split: option.splits)
  then show ?thesis using assms(3) by (simp add: out_types_def list_all2_map2 list_all2_same list_all_iff)
qed

lemma usable_all:
  assumes "usable_tensors fs ts" "list_all (\<lambda>t. ggml_type_supported (t_type t)) ts"
  shows "list_all (tensor_usable fs) ts" "list_all dims_ok ts"
  using assms by (auto simp: usable_tensors_def list_all_iff tensor_usable_def)

abbreviation fresh_writer :: "nat \<Rightarrow> writer" where
  "fresh_writer room \<equiv> \<lparr>w_out = [], w_room = room, w_ok = True, w_fault = False\<rparr>"

lemma align_small:
  assumes "align = (ucast (v :: 32 word) :: 64 word)" "align \<noteq> 0"
  shows "unat (align - 1) < 2 ^ 32"
proof -
  have v: "unat v < 2 ^ 32" using unsigned_less [of v, where ?'a = nat] by simp
  have "take_bit 64 (unat v) = unat v" by (rule take_bit_nat_eq_self) (use v in simp)
  then have "unat align < 2 ^ 32" using v by (simp add: assms(1) unsigned_ucast_eq)
  moreover have "unat (align - 1) \<le> unat align" using assms(2) by (simp add: unat_minus_one)
  ultimately show ?thesis by simp
qed

text \<open>What was written, as the reader finds it.\<close>

lemma reopen_one:
  assumes "fs path = Some out" "out = header_text g kvs @ dir_text l @ replicate k CHR 0x00 @ s" "length out < 2 ^ 63"
    "list_all kv_read kvs" "length kvs \<le> 100000" "length (g_tensors g) = length l" "length l \<le> 100000"
    "distinct (map kv_key kvs)" "distinct (map (t_name \<circ> fst) l)"
    "align \<noteq> 0" "align AND (align - 1) = 0" "align = ucast (gguf_get_u32 kvs ''general.alignment'' 32)"
    "h = length (header_text g kvs) + length (dir_text l)" "ds = (word_of_nat h + (align - 1)) AND NOT (align - 1)" "unat ds = h + k"
    "list_all (placed kq kd gs ds out) l"
    "list_all (\<lambda>(t, ty, off). tensor_usable gs t \<and> retype_ok t ty \<and> ggml_type_supported (t_type t)) l"
  shows "\<exists>g'. gguf_open_one fs path = Inr g' \<and> list_all2 kv_same kvs (g_kv g') \<and> g_tensors g' = map (placed_tensor path ds) l"
proof -
  have r: "list_all (\<lambda>(t, ty, off). tensor_read t) l"
    using assms(17) by (auto simp: list_all_iff tensor_usable_def)
  obtain kvs' where k: "list_all2 kv_same kvs kvs'" "rd_header out =
      Inr (3, kvs', map (\<lambda>(t, ty, off). t\<lparr>t_type := ty, t_data := File_offset off, t_nbytes := 0\<rparr>) l, cur (replicate k CHR 0x00 @ s))"
    using header_codec [OF assms(4-7) r, of "replicate k CHR 0x00 @ s"] assms(2) by auto
  have len: "24 \<le> length out" by (simp add: assms(2) header_text_def)
  have keys: "map kv_key kvs' = map kv_key kvs"
    using k(1) by induction (auto simp: kv_same_fields)
  have names: "map (t_name \<circ> (\<lambda>(t, ty, off). t\<lparr>t_type := ty, t_data := File_offset off, t_nbytes := 0\<rparr>)) l = map (t_name \<circ> fst) l"
    by (simp add: case_prod_unfold)
  have hend: "length out - (k + length s) = h" using assms(2,13) by simp
  have al: "alignment kvs' = align"
    using assms(10-12) gguf_get_u32_same [OF gguf_get_same [OF k(1)]] by (simp add: alignment_def Let_def)
  have "h < 2 ^ 63" using hend assms(3) by simp
  then have "unat (word_of_nat h :: 64 word) + unat (align - 1) < 2 ^ 64"
    using align_small [OF assms(12,10)] by (simp add: unat_word_of_nat)
  then have "checked_u64_add (word_of_nat h) (align - 1) = Some (word_of_nat h + (align - 1))"
    unfolding checked_add_unat by (simp add: unat_word_ariths)
  then have up: "align_up (word_of_nat h) align = Some ds" by (simp add: align_up_def assms(14))
  have m: "unat (word_of_nat (length out) :: 64 word) = length out" using assms(3) by (simp add: unat_word_of_nat)
  have dsm: "\<not> ds > word_of_nat (length out)" using m assms(15) hend by (simp add: word_less_nat_alt not_less) (use assms(2,13) in simp)
  have "fix_tensors False path (word_of_nat (length out)) ds
     (map (\<lambda>(t, ty, off). t\<lparr>t_type := ty, t_data := File_offset off, t_nbytes := 0\<rparr>) l) 0 = Inr (map (placed_tensor path ds) l, 0)"
    by (rule fix_placed_all [OF assms(16) _ assms(17)]) (use assms(3) in simp)
  moreover have "first_duplicate_inplace (map kv_key kvs') = None"
    by (simp add: first_duplicate_distinct keys assms(8))
  moreover have "first_duplicate_inplace (map t_name
      (map (\<lambda>(t, ty, off). t\<lparr>t_type := ty, t_data := File_offset off, t_nbytes := 0\<rparr>) l)) = None"
    unfolding first_duplicate_distinct map_map names by (rule assms(9))
  moreover have "\<not> length out < 24" using len by simp
  ultimately show ?thesis
    using k hend up dsm unfolding gguf_open_one_def gguf_open_one_x_def assms(1) by (simp add: Let_def al)
qed

end
