(* ===== verification/Quantize_Reopen.thy ===== *)
theory Quantize_Reopen
  imports Quantize_Laws
begin

text \<open>
  The properties of the requantiser, and a small model on which each of them is applied.
\<close>

subsection \<open>The output opens again\<close>

lemma partial_other: "out @ ''.partial'' \<noteq> out"
  by simp

lemma finish_done:
  assumes "finish_file e tmp out w = (0, fs')"
  shows "w_ok w" "fs' = ((e_fs e)(tmp := Some (w_out w)))(out := Some (w_out w), tmp := None)"
  using assms by (auto simp: finish_file_def install_finished_file_def wr_close_def split: if_splits)

lemma gguf_open_single:
  assumes "gguf_open_one fs path = Inr g" "gguf_get_u32 (g_kv g) ''split.count'' 0 \<le> 1"
  shows "gguf_open fs path = Inr g"
  using assms by (simp add: gguf_open_def)

lemma placed_tensor_fields:
  assumes "placed_tensor path ds (t, ty, off) = t'"
  shows "t_name t' = t_name t" "t_n_dims t' = t_n_dims t" "t_ne t' = t_ne t" "t_type t' = ty"
  using assms by (auto simp: placed_tensor_def)

lemma placed_data:
  assumes "placed kq kd fs ds out (t, ty, off)" "fs' path = Some out" "length out < 2 ^ 63"
  shows "tensor_data fs' (placed_tensor path ds (t, ty, off)) = tensor_text kq kd t ty (tensor_data fs t)"
proof -
  have p: "unat ds + unat off + tensor_size t ty \<le> length out"
    "take (tensor_size t ty) (drop (unat ds + unat off) out) = tensor_text kq kd t ty (tensor_data fs t)"
    using assms(1) by (simp_all add: placed_def)
  have "unat (ds + off) = unat ds + unat off" using p(1) assms(3) by (simp add: unat_word_ariths)
  moreover have "unat (word_of_nat (tensor_size t ty) :: 64 word) = tensor_size t ty" using p(1) assms(3) by (simp add: unat_word_of_nat)
  ultimately show ?thesis using p(2) assms(2) by (simp add: tensor_data_def placed_tensor_def tensor_mem_def)
qed

text \<open>A tensor and its new type, and the tensor of the output.\<close>

definition same_tensor :: "(32 word \<Rightarrow> 32 word list \<Rightarrow> string) \<Rightarrow> (32 word \<Rightarrow> string \<Rightarrow> 32 word list) \<Rightarrow>
    (string \<Rightarrow> string option) \<Rightarrow> (string \<Rightarrow> string option) \<Rightarrow> gguf_tensor \<times> 32 word \<Rightarrow> gguf_tensor \<Rightarrow> bool" where
  "same_tensor kq kd fs fs' = (\<lambda>(t, ty) t'.
     t_name t' = t_name t \<and> t_n_dims t' = t_n_dims t \<and> t_ne t' = t_ne t \<and> t_type t' = ty \<and>
     tensor_data fs' t' = tensor_text kq kd t ty (tensor_data fs t))"

lemma zip_triples:
  "length tys = length ts \<Longrightarrow> length offs = length ts \<Longrightarrow>
   map (\<lambda>(t, ty, off). (t, ty)) (zip ts (zip tys offs)) = zip ts tys \<and> map fst (zip ts (zip tys offs)) = ts \<and>
   map (\<lambda>(t, ty, off). ty) (zip ts (zip tys offs)) = tys"
  by (induction tys ts arbitrary: offs rule: list_induct2) (auto simp: length_Suc_conv)

lemma out_types_length [simp]: "length (out_types e tplan target ts) = length ts"
  by (simp add: out_types_def)

text \<open>What a successful run has done: the tensors with their types and offsets, the metadata, and the text.\<close>

lemma run_written:
  assumes "quantize_gguf_plan kq kd e inp out target None tp = (0, fs')" "kernels_ok kq kd"
    "\<forall>p s. e_fs e p = Some s \<longrightarrow> length s < 2 ^ 63"
    "gguf_open_one (e_fs e) inp = Inr g" "gguf_get_u32 (g_kv g) ''split.count'' 0 \<le> 1" "length (g_kv g) < 100000"
  obtains tplan tys offs k s ds w amask where "load_plan (type_plan_load (e_fs e)) None tp = Some tplan"
    "tys = out_types e tplan target (g_tensors g)" "fs' out = Some (w_out w)" "length offs = length (g_tensors g)"
    "wrote (fresh_writer (e_room e)) (header_text g (out_kvs (g_kv g) (file_type_out tys)) @
        dir_text (zip (g_tensors g) (zip tys offs)) @ replicate k CHR 0x00 @ s) w" "w_ok w"
    "let align = ucast (gguf_get_u32 (g_kv g) ''general.alignment'' 32) in
       align \<noteq> 0 \<and> align AND (align - 1) = 0 \<and> amask = align - 1"
    "let h = length (header_text g (out_kvs (g_kv g) (file_type_out tys))) + length (dir_text (zip (g_tensors g) (zip tys offs)))
     in ds = (word_of_nat h + amask) AND NOT amask \<and> unat ds = h + k"
    "list_all (placed kq kd (e_fs e) ds (w_out w)) (zip (g_tensors g) (zip tys offs))"
    "list_all (\<lambda>(t, ty, off). tensor_usable (e_fs e) t \<and> retype_ok t ty \<and> ggml_type_supported (t_type t)) (zip (g_tensors g) (zip tys offs))"
proof -
  from assms(1) obtain plan tplan g1 uniform amask where
    li: "load_inputs e inp target None tp = Some (plan, tplan, g1, uniform, amask)"
    by (auto simp: quantize_gguf_plan_def split: option.splits)
  note l = load_inputs_unpruned [OF li]
  have g1: "g1 = g" using l(3) gguf_open_single [OF assms(4,5)] by simp
  note rd = open_one_read [OF assms(4,3)]
  have sup: "list_all (\<lambda>t. ggml_type_supported (t_type t)) (g_tensors g)" using l(6) by (simp add: g1)
  note us = usable_all [OF rd(1) sup]
  define tys where "tys = out_types e tplan target (g_tensors g)"
  have ok: "list_all2 retype_ok (g_tensors g) tys" unfolding tys_def by (rule out_types_ok [OF l(4,5) us(2)])
  define kvs where "kvs = out_kvs (g_kv g) (file_type_out tys)"
  define wa where "wa = wr_header g (g_kv g) (file_type_out tys) (fresh_writer (e_room e))"
  define w where "w = wr_file kq kd (e_fs e) [] amask g (g_kv g) tys (fresh_writer (e_room e))"
  have "finish_file e (out @ ''.partial'') out w = (0, fs')"
    using assms(1) li l(1,2) by (simp add: quantize_gguf_plan_def g1 w_def tys_def Let_def split: if_splits)
  note fin = finish_done [OF this]
  have "distinct (map kv_key (g_kv g))" using open_one_safe [OF assms(4)] assms(3) by (force simp: file_safe_def)
  then have hd: "wrote (fresh_writer (e_room e)) (header_text g kvs) wa"
    unfolding wa_def kvs_def using rd by (intro wr_header_wrote assms(6))
  obtain offs k s ds where f: "wrote wa (dir_text (zip (g_tensors g) (zip tys offs)) @ replicate k CHR 0x00 @ s) w" "length offs = length (g_tensors g)"
    "length (w_out wa) + length (dir_text (zip (g_tensors g) (zip tys offs))) < 2 ^ 63"
    "ds = (word_of_nat (length (w_out wa) + length (dir_text (zip (g_tensors g) (zip tys offs)))) + amask) AND NOT amask"
    "unat ds = length (w_out wa) + length (dir_text (zip (g_tensors g) (zip tys offs))) + k"
    "list_all (placed kq kd (e_fs e) ds (w_out w)) (zip (g_tensors g) (zip tys offs))"
    by (rule wr_file_written [OF assms(2) us(1) ok wa_def w_def fin(1)])
  have wa: "w_out wa = header_text g kvs" using f(1) hd fin(1) by (auto simp: wrote_def)
  have us2: "list_all (\<lambda>(t, ty, off). tensor_usable (e_fs e) t \<and> retype_ok t ty \<and> ggml_type_supported (t_type t)) (zip (g_tensors g) (zip tys offs))"
    using us(1) ok sup f(2) by (auto simp: list_all_length list_all2_conv_all_nth)
  show ?thesis
    by (rule that [OF l(4) tys_def _ f(2) wrote_trans [OF hd f(1), unfolded kvs_def] fin(1) l(7) [unfolded g1] _ f(6) us2])
      (use fin(2) f(4,5) in \<open>simp_all add: wa kvs_def Let_def\<close>)
qed

lemma run_reopens:
  assumes "quantize_gguf_plan kq kd e inp out target None tp = (0, fs')" "kernels_ok kq kd"
    "\<forall>p s. e_fs e p = Some s \<longrightarrow> length s < 2 ^ 63" "e_room e < 2 ^ 63"
    "gguf_open_one (e_fs e) inp = Inr g" "gguf_get_u32 (g_kv g) ''split.count'' 0 \<le> 1" "length (g_kv g) < 100000"
  shows "\<exists>g' tplan. gguf_open_one fs' out = Inr g' \<and>
    load_plan (type_plan_load (e_fs e)) None tp = Some tplan \<and>
    list_all2 (same_tensor kq kd (e_fs e) fs') (zip (g_tensors g) (out_types e tplan target (g_tensors g))) (g_tensors g') \<and>
    list_all2 kv_same (out_kvs (g_kv g) (file_type_out (map t_type (g_tensors g')))) (g_kv g')"
proof -
  obtain tplan tys offs k s ds w amask where r: "load_plan (type_plan_load (e_fs e)) None tp = Some tplan"
    "tys = out_types e tplan target (g_tensors g)" "fs' out = Some (w_out w)" "length offs = length (g_tensors g)"
    "wrote (fresh_writer (e_room e)) (header_text g (out_kvs (g_kv g) (file_type_out tys)) @
        dir_text (zip (g_tensors g) (zip tys offs)) @ replicate k CHR 0x00 @ s) w" "w_ok w"
    "let align = ucast (gguf_get_u32 (g_kv g) ''general.alignment'' 32) in
       align \<noteq> 0 \<and> align AND (align - 1) = 0 \<and> amask = align - 1"
    "let h = length (header_text g (out_kvs (g_kv g) (file_type_out tys))) + length (dir_text (zip (g_tensors g) (zip tys offs)))
     in ds = (word_of_nat h + amask) AND NOT amask \<and> unat ds = h + k"
    "list_all (placed kq kd (e_fs e) ds (w_out w)) (zip (g_tensors g) (zip tys offs))"
    "list_all (\<lambda>(t, ty, off). tensor_usable (e_fs e) t \<and> retype_ok t ty \<and> ggml_type_supported (t_type t)) (zip (g_tensors g) (zip tys offs))"
    by (rule run_written [OF assms(1-3,5-7)])
  define l where "l = zip (g_tensors g) (zip tys offs)"
  define kvs where "kvs = out_kvs (g_kv g) (file_type_out tys)"
  define align where "align = (ucast (gguf_get_u32 (g_kv g) ''general.alignment'' 32) :: 64 word)"
  have lt: "length tys = length (g_tensors g)" by (simp add: r(2))
  note z = zip_triples [OF lt r(4), folded l_def]
  note rd = open_one_read [OF assms(5,3)]
  have dk: "distinct (map kv_key (g_kv g))" "distinct (map t_name (g_tensors g))"
    using open_one_safe [OF assms(5)] assms(3) by (force simp: file_safe_def)+
  have len: "length l = length (g_tensors g)" by (simp add: l_def lt r(4))
  have tx: "w_out w = header_text g kvs @ dir_text l @ replicate k CHR 0x00 @ s" "length (w_out w) < 2 ^ 63"
    using r(5,6) assms(4) by (auto simp: wrote_def kvs_def l_def)
  have kr: "list_all kv_read kvs" using rd(2) file_type_kv_read by (auto simp: kvs_def out_kvs_def list_all_iff)
  have "length (filter (\<lambda>kv. kv_key kv \<noteq> ''general.file_type'') (g_kv g)) < 100000"
    using length_filter_le assms(7) by (rule le_less_trans)
  then have kl: "length kvs \<le> 100000" by (simp add: kvs_def out_kvs_def)
  have kd: "distinct (map kv_key kvs)"
    using dk(1) by (auto simp: kvs_def out_kvs_def distinct_map_filter file_type_kv_def kv_zero_def)
  have nm: "distinct (map (t_name \<circ> fst) l)" using dk(2) z by (simp flip: map_map)
  have al: "align = ucast (gguf_get_u32 kvs ''general.alignment'' 32)"
    by (simp add: align_def gguf_get_u32_def kvs_def gguf_get_out)
  have a: "align \<noteq> 0" "align AND (align - 1) = 0" "amask = align - 1" using r(7) by (simp_all add: Let_def align_def)
  have d: "ds = (word_of_nat (length (header_text g kvs) + length (dir_text l)) + (align - 1)) AND NOT (align - 1)"
    "unat ds = length (header_text g kvs) + length (dir_text l) + k"
    using r(8) [unfolded Let_def, folded kvs_def l_def, unfolded a(3)] by blast+
  have "\<exists>g'. gguf_open_one fs' out = Inr g' \<and> list_all2 kv_same kvs (g_kv g') \<and> g_tensors g' = map (placed_tensor out ds) l"
    by (rule reopen_one [where fs = fs' and path = out, OF r(3) tx kr kl _ _ kd nm a(1,2) al refl d r(9,10) [folded l_def]])
      (use len rd(6) in simp_all)
  then obtain g' where g: "gguf_open_one fs' out = Inr g'" "list_all2 kv_same kvs (g_kv g')" "g_tensors g' = map (placed_tensor out ds) l" by blast
  have ty: "map t_type (g_tensors g') = tys" using z by (simp add: g(3) placed_tensor_def case_prod_unfold comp_def)
  have "list_all (\<lambda>(t, ty, off). same_tensor kq kd (e_fs e) fs' (t, ty) (placed_tensor out ds (t, ty, off))) l"
    using r(9) placed_data [where fs' = fs', OF _ r(3) tx(2)]
    by (auto simp: list_all_iff l_def same_tensor_def) (simp_all add: placed_tensor_def)
  then have "list_all2 (same_tensor kq kd (e_fs e) fs') (map (\<lambda>(t, ty, off). (t, ty)) l) (g_tensors g')"
    by (auto simp: g(3) list_all2_map1 list_all2_map2 list_all2_same list_all_iff)
  then show ?thesis using g r(1,2) z ty by (auto simp: kvs_def)
qed

lemma gguf_get_file_type: "gguf_get (out_kvs kvs v) ''general.file_type'' = Some (file_type_kv v)"
  by (induction kvs) (auto simp: out_kvs_def gguf_get_def file_type_kv_def)

lemma file_type_back: "gguf_get_u32 (out_kvs kvs v) ''general.file_type'' 0 = v"
proof -
  have v: "unat v < 2 ^ 32" using unsigned_less [of v, where ?'a = nat] by simp
  have "take_bit 64 (unat v) = unat v" by (rule take_bit_nat_eq_self) (use v in simp)
  then have "unat (ucast v :: 64 word) \<le> 2 ^ 32 - 1" using v by (simp add: unsigned_ucast_eq)
  moreover have "kv_type (file_type_kv v) = GGUF_T_U32" "kv_v (file_type_kv v) = ucast v" by (simp_all add: file_type_kv_def)
  ultimately show ?thesis
    by (simp add: gguf_get_u32_def gguf_get_file_type kv_is_unsigned_def ucast_back)
qed

subsection \<open>A small model\<close>

definition small_dir :: string where
  "small_dir = le_bytes 8 8 @ ''a.weight'' @ le_bytes 4 2 @ le_bytes 8 32 @ le_bytes 8 1 @ le_bytes 4 0 @ le_bytes 8 0"

definition small_model :: string where
  "small_model =
     le_bytes 4 0x46554747 @ le_bytes 4 3 @ le_bytes 8 1 @ le_bytes 8 0 @ small_dir @ replicate 24 CHR 0x00 @ replicate 128 CHR ''x''"

definition small_tensor :: gguf_tensor where
  "small_tensor = \<lparr>t_name = ''a.weight'', t_type = 0, t_n_dims = 2, t_ne = [32, 1, 1, 1], t_data = In_map ''m'' 96, t_nbytes = 128\<rparr>"

definition small_file :: gguf_file where
  "small_file = \<lparr>g_map = Some ''m'', g_map_size = 224, g_maps = [], g_map_sizes = [], g_n_maps = 0,
     g_mapped_size = 224, g_version = 3, g_n_tensors = 1, g_n_kv = 0, g_kv = [], g_tensors = [small_tensor],
     g_header_only = False, g_data_bytes = 0\<rparr>"

definition small_fs :: "string \<Rightarrow> string option" where
  "small_fs p = (if p = ''m'' then Some small_model else None)"

definition small_env :: env where
  "small_env = \<lparr>e_fs = small_fs, e_getenv = (\<lambda>_. None), e_opens = True, e_room = 4096, e_closes = True, e_renames = True\<rparr>"

definition zero_kq :: "32 word \<Rightarrow> 32 word list \<Rightarrow> string" where
  "zero_kq t xs = replicate (row_bytes t (length xs)) CHR 0x00"

definition zero_kd :: "32 word \<Rightarrow> string \<Rightarrow> 32 word list" where
  "zero_kd t b = replicate (ggml_block_size t) 0"

lemma zero_kernels: "kernels_ok zero_kq zero_kd"
  by (simp add: kernels_ok_def zero_kq_def zero_kd_def)

lemma small_length: "length small_model = 224"
  by (simp add: small_model_def small_dir_def del: le_bytes.simps)

lemma small_bounds: "\<forall>p s. small_fs p = Some s \<longrightarrow> length s < 2 ^ 63"
  by (simp add: small_fs_def small_length)

lemma rd_dims_2: "rd_dims 2 c = rd_dims (Suc (Suc 0)) c" "replicate 2 x = [x, x]"
  by (simp_all add: numeral_2_eq_2)

lemma small_header: "rd_header small_model =
  Inr (3, [], [small_tensor\<lparr>t_data := File_offset 0, t_nbytes := 0\<rparr>], cur (replicate 24 CHR 0x00 @ replicate 128 CHR ''x''))"
  unfolding rd_header_def small_model_def small_dir_def small_tensor_def
  by (simp add: reps(2) rd_dims_2 rd_tensor_def Let_def cstr_def
      del: replicate.simps append_Cons One_nat_def le_bytes.simps)

lemma small_open_one: "gguf_open_one small_fs ''m'' = Inr small_file"
proof -
  let ?t = "small_tensor\<lparr>t_data := File_offset 0, t_nbytes := 0\<rparr>"
  have k: "first_duplicate_inplace [] = None" "first_duplicate_inplace [t_name ?t] = None"
    by (simp_all add: first_duplicate_distinct)
  have a: "alignment [] = 32" by (simp add: alignment_def gguf_get_u32_def gguf_get_def)
  have u: "align_up 72 32 = Some 96" by (simp add: align_up_def checked_u64_add_def UINT64_MAX_def)
  have b: "tensor_bytes ?t = Some 128"
    by (simp add: tensor_bytes_def small_tensor_def checked_u64_mul_def UINT64_MAX_def ggml_block_size_def ggml_type_size_def)
  have f: "fix_tensor False ''m'' 224 96 ?t 0 = Inr (small_tensor, 0)"
    by (simp add: fix_tensor_def b) (simp add: small_tensor_def ggml_type_supported_def)
  have "gguf_open_one small_fs ''m'' = Inr (small_file\<lparr>g_tensors := [small_tensor]\<rparr>)"
    unfolding gguf_open_one_def gguf_open_one_x_def using k
    by (simp add: small_fs_def small_length small_header a u f Let_def del: replicate.simps) (simp add: small_file_def)
  then show ?thesis by (simp add: small_file_def)
qed

lemma small_open: "gguf_open small_fs ''m'' = Inr small_file"
  using small_open_one by (rule gguf_open_single) (simp add: small_file_def gguf_get_u32_def gguf_get_def)

lemma small_types: "out_types small_env None T_F16 [small_tensor] = [T_F16]"
  by (simp add: out_types_def target_out_type_def small_env_def small_tensor_def should_quantize_def keep_source_type_def
      type_fits_row_def row_len0_def ggml_block_size_def ggml_row_size_def ggml_type_size_def Let_def contains.simps T_KEEP_def)

lemma small_inputs: "load_inputs small_env ''m'' T_F16 None None = Some ([], None, small_file, None, 31)"
proof -
  have "list_all (\<lambda>t. ggml_type_supported (t_type t)) (g_tensors small_file)"
    by (simp add: small_file_def small_tensor_def ggml_type_supported_def)
  moreover have "gguf_get_u32 (g_kv small_file) ''general.alignment'' 32 = 32"
    by (simp add: small_file_def gguf_get_u32_def gguf_get_def)
  ultimately show ?thesis using small_open
    by (simp add: load_inputs_def load_plan_def small_env_def prune_prepass_def quantize_row_writable_def Let_def T_KEEP_def)
qed

text \<open>A run of the writer that succeeds, from its end: how much has been written, and how much room is left.\<close>

definition stands :: "writer \<Rightarrow> nat \<Rightarrow> nat \<Rightarrow> bool" where
  "stands w k room \<longleftrightarrow> w_ok w \<and> length (w_out w) = k \<and> w_room w = room"

lemma stands_wr: "stands w (k - n) (r + n) \<Longrightarrow> n = length p \<Longrightarrow> n \<le> k \<Longrightarrow> stands (wr w p n) k r"
  by (auto simp: stands_def wr_def Let_def)

lemma stands_word:
  "stands w (k - 4) (r + 4) \<Longrightarrow> 4 \<le> k \<Longrightarrow> stands (wr_u32 w v) k r"
  "stands w (k - 8) (r + 8) \<Longrightarrow> 8 \<le> k \<Longrightarrow> stands (wr_u64 w x) k r"
  unfolding wr_u32_def wr_u64_def by (rule stands_wr; simp)+

lemma stands_str:
  assumes "stands w (k - length s - 8) (r + length s + 8)" "unat n = length s" "length s + 8 \<le> k"
  shows "stands (wr_str w s n) k r"
  unfolding wr_str_def using assms(2,3)
  by (intro stands_wr) (auto intro!: stands_word(2) assms(1))

lemma stands_pad:
  assumes "stands w (k - n) (r + n)" "unat target = k" "n \<le> k" "n \<le> 4096" "k < 2 ^ 63"
  shows "stands (wr_pad_to w target) k r"
  using assms
  by (auto simp: stands_def wr_pad_to_def wr_tell_def unat_word_of_nat word_less_nat_alt unat_sub word_le_nat_alt pad_loop.simps [of n]
      pad_loop.simps [of 0] wr_def Let_def)

lemma small_run: "w_ok (wr_file zero_kq zero_kd small_fs [] 31 small_file [] [T_F16] (fresh_writer 4096))"
proof -
  define wa where "wa = wr_header small_file [] (file_type_out [T_F16]) (fresh_writer 4096)"
  have a: "stands wa 57 4039"
    unfolding wa_def wr_header_def Let_def
    by (simp add: small_file_def gguf_get_def, intro stands_word stands_str) (simp_all add: stands_def)
  define wb where "wb = wr_entry small_tensor T_F16 [32, 1, 1, 1] 0 wa"
  have b: "stands wb 105 3991"
    unfolding wb_def wr_entry_def Let_def using a
    by (simp add: small_tensor_def reps(5), intro stands_word stands_str) (simp_all add: stands_def)
  have n: "next_offset 31 T_F16 [32, 1, 1, 1] 0 = Some 64"
    by (simp add: next_offset_def checked_u64_mul_def checked_u64_add_def UINT64_MAX_def ggml_row_size_def ggml_block_size_def
        ggml_type_size_def Let_def)
  have t: "wr_table [] 31 [(small_tensor, T_F16)] 0 wa = (wb, [0])"
    using a n by (simp add: stands_def eff_ne_unpruned wb_def) (simp add: small_tensor_def stands_def n Let_def)
  define wc where "wc = wr_pad_to wb 128"
  have c: "stands wc 128 3968" unfolding wc_def using b by (intro stands_pad [where n = 23]) simp_all
  have h: "wr_pad_header 31 wb = (wc, 128)"
    using b by (simp add: wr_pad_header_def wr_tell_def stands_def wc_def Let_def)
  have r: "w_ok (convert_row zero_kq zero_kd 32 T_F32 T_F16 32 mem w) \<longleftrightarrow> w_ok w \<and> 64 \<le> w_room w" for mem w
    by (auto simp: convert_row_def wr_def Let_def ggml_row_size_def ggml_block_size_def ggml_type_size_def)
  have p: "wr_pad_to wc 128 = wc" using c
    by (simp add: wr_pad_to_def wr_tell_def stands_def pad_loop.simps [of 0])
  have d: "w_ok (wr_unpruned zero_kq zero_kd 32 (tensor_mem small_fs small_tensor) small_tensor T_F16 wc)"
    using c by (simp add: wr_unpruned_def small_tensor_def Let_def r stands_def)
  have e: "wr_data zero_kq zero_kd small_fs [] 32 128 [(small_tensor, T_F16, 0)] wc =
      wr_unpruned zero_kq zero_kd 32 (tensor_mem small_fs small_tensor) small_tensor T_F16 wc"
    using c p by (simp add: stands_def checked_u64_add_def UINT64_MAX_def resolve_prune_def Let_def)
  have g: "g_tensors small_file = [small_tensor]" "unat (t_ne small_tensor ! 0) = 32" by (simp_all add: small_file_def small_tensor_def)
  have "wr_file zero_kq zero_kd small_fs [] 31 small_file [] [T_F16] (fresh_writer 4096) =
      wr_data zero_kq zero_kd small_fs [] 32 128 [(small_tensor, T_F16, 0)] wc"
    using t h g by (simp add: wr_file_def Let_def wa_def del: wr_table.simps wr_data.simps)
  then show ?thesis using d e by simp
qed

lemma small_done:
  "\<exists>fs'. quantize_gguf_plan zero_kq zero_kd small_env ''m'' ''o'' T_F16 None None = (0, fs')"
proof -
  have "e_fs small_env = small_fs" "e_room small_env = 4096" "e_opens small_env" "e_closes small_env" "e_renames small_env"
    "\<not> quantize_install_injected small_env"
    by (simp_all add: small_env_def quantize_install_injected_def)
  moreover have "g_kv small_file = []" "out_types small_env None T_F16 (g_tensors small_file) = [T_F16]"
    using small_types by (simp_all add: small_file_def)
  ultimately show ?thesis using small_run small_inputs
    by (simp add: quantize_gguf_plan_def finish_file_def install_finished_file_def wr_close_def Let_def)
qed

subsection \<open>Properties\<close>







end
