(* ===== verification/Http.thy ===== *)
theory Http
  imports Json_Laws
begin

text \<open>
  HTTP framing of \<open>src/http.c\<close>: the request line, the two header fields that decide framing,
  the loopback check on \<open>Host\<close> and \<open>Origin\<close>, and the response writers. A pointer into the
  request buffer is the list of the bytes from it up to the terminating NUL; \<open>header_end\<close> is
  its offset from the first header line (negative when there is no header line). What a
  \<open>sock_send\<close> call returns is a parameter. The socket calls themselves, the timeouts and the
  Winsock variants are not modelled.
\<close>

subsection \<open>Scanning\<close>

text \<open>\<open>strstr(line, "\r\n")\<close>: the bytes before it and after it.\<close>

fun find_crlf :: "string \<Rightarrow> (string \<times> string) option" where
  "find_crlf [] = None"
| "find_crlf (c # s) =
     (if c = CHR 0x0D \<and> s \<noteq> [] \<and> hd s = CHR 0x0A then Some ([], tl s)
      else (case find_crlf s of None \<Rightarrow> None | Some (l, r) \<Rightarrow> Some (c # l, r)))"

text \<open>\<open>memchr\<close> and \<open>strchr\<close>: the bytes before the first \<open>d\<close> and after it.\<close>

fun split_at :: "char \<Rightarrow> string \<Rightarrow> (string \<times> string) option" where
  "split_at d [] = None"
| "split_at d (c # s) =
     (if c = d then Some ([], s)
      else (case split_at d s of None \<Rightarrow> None | Some (l, r) \<Rightarrow> Some (c # l, r)))"

definition ci_char :: "char \<Rightarrow> nat" where
  "ci_char c = (if byte CHR ''A'' \<le> byte c \<and> byte c \<le> byte CHR ''Z'' then byte c + 32 else byte c)"

text \<open>Past its end a C string holds the NUL byte.\<close>

fun ci_ncmp :: "string \<Rightarrow> string \<Rightarrow> nat \<Rightarrow> int" where
  "ci_ncmp a b 0 = 0"
| "ci_ncmp a b (Suc n) =
     (let ca = (case a of [] \<Rightarrow> 0 | c # _ \<Rightarrow> ci_char c);
          cb = (case b of [] \<Rightarrow> 0 | c # _ \<Rightarrow> ci_char c)
      in if ca \<noteq> cb then int ca - int cb
         else if ca = 0 then 0
         else ci_ncmp (tl a) (tl b) n)"

definition blank :: "char \<Rightarrow> bool" where
  "blank c \<longleftrightarrow> c = CHR '' '' \<or> c = CHR 0x09"

definition trim_left :: "string \<Rightarrow> string" where
  "trim_left s = dropWhile blank s"

definition trim_right :: "string \<Rightarrow> string" where
  "trim_right s = rev (dropWhile blank (rev s))"

subsection \<open>Loopback authorities\<close>

text \<open>\<open>unsigned\<close> does not overflow on at most five digits.\<close>

definition port_value :: "string \<Rightarrow> nat option" where
  "port_value port =
     (if list_all is_digit port
      then Some (foldl (\<lambda>v c. v * 10 + (byte c - byte CHR ''0'')) 0 port) else None)"

definition port_ok :: "string option \<Rightarrow> bool" where
  "port_ok port =
     (case port of
        None \<Rightarrow> True
      | Some p \<Rightarrow>
          if p = [] \<or> 5 < length p then False
          else (case port_value p of None \<Rightarrow> False | Some v \<Rightarrow> 1 \<le> v \<and> v \<le> 65535))"

text \<open>Host and port of a trimmed authority, or \<open>None\<close> where the code returns false.\<close>

definition split_authority :: "string \<Rightarrow> (string \<times> string option) option" where
  "split_authority s =
     (if s \<noteq> [] \<and> hd s = CHR ''['' then
        (case split_at CHR '']'' s of
           None \<Rightarrow> None
         | Some (l, r) \<Rightarrow>
             if r = [] then Some (l @ '']'', None)
             else if hd r \<noteq> CHR '':'' then None
             else Some (l @ '']'', Some (tl r)))
      else
        (case split_at CHR '':'' s of
           None \<Rightarrow> Some (s, None)
         | Some (l, r) \<Rightarrow> Some (l, Some r)))"

definition local_host :: "string \<Rightarrow> bool" where
  "local_host h \<longleftrightarrow>
     length h = 9 \<and> ci_ncmp h ''localhost'' 9 = 0 \<or>
     length h = 9 \<and> h = ''127.0.0.1'' \<or>
     length h = 5 \<and> h = ''[::1]''"

definition local_authority :: "string \<Rightarrow> bool" where
  "local_authority s =
     (case split_authority (trim_right (trim_left s)) of
        None \<Rightarrow> False
      | Some (host, port) \<Rightarrow> local_host host \<and> port_ok port)"

subsection \<open>Header fields\<close>

text \<open>One header line of \<open>validate_request_authority\<close> on the counters (hosts, origins).\<close>

definition scheme_length :: "string \<Rightarrow> nat" where
  "scheme_length v =
     (if 7 \<le> length v \<and> ci_ncmp v ''http://'' 7 = 0 then 7
      else if 8 \<le> length v \<and> ci_ncmp v ''https://'' 8 = 0 then 8 else 0)"

definition origin_ok :: "string \<Rightarrow> bool" where
  "origin_ok value =
     (let v = trim_right (trim_left value); n = scheme_length v
      in n \<noteq> 0 \<and> local_authority (drop n v))"

definition authority_line :: "string \<Rightarrow> nat \<times> nat \<Rightarrow> (nat \<times> nat) option" where
  "authority_line l st =
     (case st of (hosts, origins) \<Rightarrow>
        (case split_at CHR '':'' l of
           None \<Rightarrow> Some (hosts, origins)
         | Some (name, value) \<Rightarrow>
             if length name = 4 \<and> ci_ncmp l ''Host'' 4 = 0 then
               (if hosts + 1 \<noteq> 1 \<or> \<not> local_authority value then None else Some (hosts + 1, origins))
             else if length name = 6 \<and> ci_ncmp l ''Origin'' 6 = 0 then
               (if origins + 1 \<noteq> 1 then None
                else if \<not> origin_ok value then None else Some (hosts, origins + 1))
             else Some (hosts, origins)))"

text \<open>The value of a \<open>Content-Length\<close> field; \<open>size_t\<close> overflow is refused.\<close>

fun length_digits :: "nat \<Rightarrow> string \<Rightarrow> (nat \<times> string) option" where
  "length_digits v [] = Some (v, [])"
| "length_digits v (c # s) =
     (if is_digit c then
        (let d = byte c - byte CHR ''0''
         in if (SIZE_MAX - d) div 10 < v then None else length_digits (v * 10 + d) s)
      else Some (v, c # s))"

definition content_value :: "string \<Rightarrow> nat option" where
  "content_value value =
     (let p = trim_left value in
      case length_digits 0 p of
        None \<Rightarrow> None
      | Some (v, q) \<Rightarrow> if length q = length p then None else if trim_left q \<noteq> [] then None else Some v)"

text \<open>One header line of \<open>parse_request_framing\<close> on (\<open>saw_length\<close>, \<open>content_length\<close>).\<close>

definition framing_line :: "string \<Rightarrow> bool \<times> nat \<Rightarrow> (bool \<times> nat) option" where
  "framing_line l st =
     (case st of (saw, len) \<Rightarrow>
        (case split_at CHR '':'' l of
           None \<Rightarrow> Some (saw, len)
         | Some (name, value) \<Rightarrow>
             if length name = 17 \<and> ci_ncmp l ''Transfer-Encoding'' 17 = 0 then None
             else if length name = 14 \<and> ci_ncmp l ''Content-Length'' 14 = 0 then
               (if saw then None
                else (case content_value value of None \<Rightarrow> None | Some v \<Rightarrow> Some (True, v)))
             else Some (saw, len)))"

text \<open>The line loop both functions share: \<open>step\<close> is the body, \<open>he\<close> the distance to
  \<open>header_end\<close>.\<close>

lemma find_crlf_length: "find_crlf s = Some (l, r) \<Longrightarrow> length s = length l + 2 + length r"
  by (induction s arbitrary: l) (auto split: if_splits option.splits simp: neq_Nil_conv)

function header_loop :: "(string \<Rightarrow> 's \<Rightarrow> 's option) \<Rightarrow> string \<Rightarrow> int \<Rightarrow> 's \<Rightarrow> 's option" where
  "header_loop step line he st =
     (if he \<le> 0 then Some st
      else (case find_crlf line of
        None \<Rightarrow> None
      | Some (l, r) \<Rightarrow>
          if he < int (length l) then None
          else (case step l st of
            None \<Rightarrow> None
          | Some st' \<Rightarrow> header_loop step r (he - int (length l) - 2) st')))"
  by pat_completeness auto
termination
  by (relation "measure (\<lambda>(step, line, he, st). length line)") (auto dest: find_crlf_length)

declare header_loop.simps [simp del]

definition validate_request_authority :: "string \<Rightarrow> int \<Rightarrow> bool" where
  "validate_request_authority first_header he =
     (case header_loop authority_line first_header he (0, 0) of
        None \<Rightarrow> False
      | Some (hosts, origins) \<Rightarrow> hosts = 1)"

definition parse_request_framing :: "string \<Rightarrow> int \<Rightarrow> nat option" where
  "parse_request_framing first_header he =
     (case header_loop framing_line first_header he (False, 0) of
        None \<Rightarrow> None
      | Some (saw, len) \<Rightarrow> Some len)"

subsection \<open>The request line\<close>

text \<open>The result: method and path when valid, and the first header line when there is a line
  end.\<close>

definition parse_request_line :: "string \<Rightarrow> (string \<times> string) option \<times> string option" where
  "parse_request_line hdr =
     (case find_crlf hdr of
        None \<Rightarrow> (None, None)
      | Some (l, rest) \<Rightarrow>
          (case split_at CHR '' '' l of
             None \<Rightarrow> (None, Some rest)
           | Some (method, r1) \<Rightarrow>
               (case split_at CHR '' '' r1 of
                  None \<Rightarrow> (None, Some rest)
                | Some (path, version) \<Rightarrow>
                    if method \<noteq> [] \<and> path \<noteq> [] \<and> version \<noteq> [] \<and> CHR '' '' \<notin> set version \<and>
                       length method < 8 \<and> length path < 256 \<and>
                       (version = ''HTTP/1.1'' \<or> version = ''HTTP/1.0'')
                    then (Some (method, path), Some rest) else (None, Some rest))))"

subsection \<open>Responses\<close>

text \<open>\<open>send\<close> is the socket: what the \<open>i\<close>-th call returns for the bytes it is given. The result
  is the return value, the bytes the peer was sent, and the number of the next call.\<close>

function send_all :: "(nat \<Rightarrow> string \<Rightarrow> int) \<Rightarrow> nat \<Rightarrow> string \<Rightarrow> bool \<times> string \<times> nat" where
  "send_all send i s =
     (if s = [] then (True, [], i)
      else
        (let w = send i s in
         if w \<le> 0 then (False, [], i + 1)
         else (case send_all send (i + 1) (drop (nat w) s) of
           (ok, sent, j) \<Rightarrow> (ok, take (nat w) s @ sent, j))))"
  by pat_completeness auto
termination
  by (relation "measure (\<lambda>(send, i, s). length s)") auto

declare send_all.simps [simp del]

definition reason_phrase :: "int \<Rightarrow> string" where
  "reason_phrase code =
     (if code = 200 then ''OK''
      else if code = 400 then ''Bad Request''
      else if code = 403 then ''Forbidden''
      else if code = 404 then ''Not Found''
      else if code = 405 then ''Method Not Allowed''
      else if code = 408 then ''Request Timeout''
      else if code = 409 then ''Conflict''
      else if code = 500 then ''Internal Server Error''
      else if code = 503 then ''Service Unavailable''
      else ''Internal Server Error'')"

definition CRLF :: string where
  "CRLF = [CHR 0x0D, CHR 0x0A]"

text \<open>\<open>snprintf\<close> into a buffer of \<open>cap\<close> bytes: the buffer's text and the length the whole text
  has.\<close>

definition snprintf_to :: "nat \<Rightarrow> string \<Rightarrow> string \<times> nat" where
  "snprintf_to cap text = (take (cap - 1) text, length text)"

definition response_header :: "int \<Rightarrow> string \<Rightarrow> nat \<Rightarrow> string" where
  "response_header code ctype blen =
     ''HTTP/1.1 '' @ fmt_lld code @ '' '' @ reason_phrase code @ CRLF @
     ''Content-Type: '' @ ctype @ CRLF @
     ''Content-Length: '' @ nat_str blen @ CRLF @ ''Connection: close'' @ CRLF @ CRLF"

text \<open>The bytes a send of \<open>n\<close> bytes from a buffer reads: beyond what was written they are
  unspecified, \<open>None\<close>.\<close>

definition buffer_bytes :: "string \<Rightarrow> nat \<Rightarrow> string option" where
  "buffer_bytes buf n = (if n \<le> length buf then Some (take n buf) else None)"

definition send_response :: "(nat \<Rightarrow> string \<Rightarrow> int) \<Rightarrow> nat \<Rightarrow> int \<Rightarrow> string \<Rightarrow> string \<Rightarrow> nat \<Rightarrow>
    (string \<times> nat) option" where
  "send_response send i code ctype body blen =
     (case snprintf_to 256 (response_header code ctype blen) of
        (hdr, hn) \<Rightarrow>
          (case buffer_bytes hdr hn of
             None \<Rightarrow> None
           | Some h \<Rightarrow>
               (case send_all send i h of
                  (ok, sent, j) \<Rightarrow>
                    if ok then
                      (case buffer_bytes body blen of
                         None \<Rightarrow> None
                       | Some b \<Rightarrow>
                           (case send_all send j b of (_, sent2, k) \<Rightarrow> Some (sent @ sent2, k)))
                    else Some (sent, j))))"

definition quoted_or_null :: "string option \<Rightarrow> string" where
  "quoted_or_null t = (case t of None \<Rightarrow> ''null'' | Some s \<Rightarrow> [CHR 0x22] @ s @ [CHR 0x22])"

text \<open>The text the format of \<open>send_error_detail\<close> expands to, from the three escaped buffers.\<close>

definition error_text :: "int \<Rightarrow> string \<Rightarrow> string option \<Rightarrow> string option \<Rightarrow> string" where
  "error_text code esc ep ec =
     ''{'' @ [CHR 0x22] @ ''error'' @ [CHR 0x22] @ '':{'' @ [CHR 0x22] @ ''message'' @ [CHR 0x22] @ '':'' @
     [CHR 0x22] @ esc @ [CHR 0x22] @ '','' @ [CHR 0x22] @ ''type'' @ [CHR 0x22] @ '':'' @ [CHR 0x22] @
     (if 500 \<le> code then ''server_error'' else ''invalid_request_error'') @ [CHR 0x22] @ '','' @
     [CHR 0x22] @ ''param'' @ [CHR 0x22] @ '':'' @ quoted_or_null ep @ '','' @
     [CHR 0x22] @ ''code'' @ [CHR 0x22] @ '':'' @ quoted_or_null ec @ ''}}''"

definition send_error_detail :: "(nat \<Rightarrow> string \<Rightarrow> int) \<Rightarrow> nat \<Rightarrow> int \<Rightarrow> string \<Rightarrow> string option \<Rightarrow>
    string option \<Rightarrow> (string \<times> nat) option" where
  "send_error_detail send i code message param error_code =
     (let esc = json_escape message 384;
          ep = (case param of None \<Rightarrow> None | Some p \<Rightarrow> Some (json_escape p 128));
          ec = (case error_code of None \<Rightarrow> None | Some c \<Rightarrow> Some (json_escape c 128))
      in case snprintf_to 768 (error_text code esc ep ec) of
           (body, n) \<Rightarrow> send_response send i code ''application/json'' body n)"

definition send_error :: "(nat \<Rightarrow> string \<Rightarrow> int) \<Rightarrow> nat \<Rightarrow> int \<Rightarrow> string \<Rightarrow> (string \<times> nat) option" where
  "send_error send i code message = send_error_detail send i code message None None"

definition send_built :: "(nat \<Rightarrow> string \<Rightarrow> int) \<Rightarrow> nat \<Rightarrow> sbuf \<Rightarrow> (string \<times> nat) option" where
  "send_built send i b =
     (if b_failed b then send_error send i 500 ''out of memory building response''
      else send_response send i 200 ''application/json'' (b_s b) (length (b_s b)))"

end
