(* ===== verification/Vramreg.thy ===== *)
theory Vramreg
  imports Http Compat
begin

text \<open>
  The cross-process ledger of GPU memory, \<open>src/vramreg.c\<close>: its file format, the reaping of dead owners, the decision on a
  claim with the refusal message, commit and release, and the yield sentinel. What the platform reports
  (processes alive and their start times, the wall clock, the free memory of the device) is the record \<open>world\<close>;
  \<open>plat_file_rmw\<close> is a read-modify-write of one file under a lock, which may fail. A text that is read is a C string.
  Memory allocation is assumed to succeed except for the lease.
\<close>

subsection \<open>Entries\<close>

definition REG_MAX_ENTRIES :: nat where "REG_MAX_ENTRIES = 256"
definition REG_LINE_MAX :: nat where "REG_LINE_MAX = 1024"

record reg_entry =
  r_pid :: int
  r_seq :: int
  r_procstart :: "64 word"
  r_since :: "64 word"
  r_state :: char
  r_bytes :: "64 word"
  r_model :: string
  r_priority :: int

abbreviation "TAB \<equiv> CHR 0x09"
abbreviation "NL \<equiv> CHR 0x0A"

record world =
  w_alive :: "int \<Rightarrow> bool"
  w_start :: "int \<Rightarrow> 64 word option"
  w_now :: "64 word"
  w_free :: "64 word"

subsection \<open>Formatting\<close>

text \<open>\<open>%.1f\<close> and \<open>%.0f\<close> of a double: the exact value rounded to \<open>k\<close> decimals, ties to even.\<close>

definition fmt_fixed1 :: "rat \<Rightarrow> string" where
  "fmt_fixed1 q = (let n = nat (round_even (q * 10)) in nat_str (n div 10) @ ''.'' @ nat_str (n mod 10))"

definition fmt_fixed0 :: "rat \<Rightarrow> string" where
  "fmt_fixed0 q = nat_str (nat (round_even q))"

definition fmt_bytes :: "64 word \<Rightarrow> string" where
  "fmt_bytes b =
     (let n = unat b; d = round_double (of_nat n)
      in if n \<ge> 1000000000 then fmt_fixed1 (round_double (d / 1000000000)) @ ''GB''
         else if n \<ge> 1000000 then fmt_fixed0 (round_double (d / 1000000)) @ ''MB''
         else nat_str n @ ''B'')"

text \<open>The message so far and \<open>off\<close>.\<close>

definition err_add :: "nat \<Rightarrow> string \<times> nat \<Rightarrow> string \<Rightarrow> string \<times> nat" where
  "err_add cap err t =
     (case err of (s, off) \<Rightarrow>
        if off \<ge> cap then (s, cap)
        else (take off s @ take (cap - off - 1) t, if off + length t > cap then cap else off + length t))"

definition two_digits :: "nat \<Rightarrow> string" where
  "two_digits n = (if n < 10 then ''0'' @ nat_str n else nat_str n)"

definition fmt_uptime :: "64 word \<Rightarrow> string" where
  "fmt_uptime secs =
     (let s = unat secs
      in if s \<ge> 3600 then nat_str (s div 3600) @ ''h'' @ two_digits (s mod 3600 div 60) @ ''m''
         else if s \<ge> 60 then nat_str (s div 60) @ ''m''
         else nat_str s @ ''s'')"

text \<open>\<open>base\<close>: after the last slash of either kind.\<close>

fun base_name :: "string \<Rightarrow> string \<Rightarrow> string" where
  "base_name [] b = b"
| "base_name (c # s) b = (if c = CHR ''/'' \<or> c = CHR 0x5C then base_name s s else base_name s b)"

definition model_label :: "string option \<Rightarrow> nat \<Rightarrow> string" where
  "model_label path cap =
     (case path of
        None \<Rightarrow> take (cap - 1) ''(unnamed)''
      | Some p \<Rightarrow>
          if p = [] then take (cap - 1) ''(unnamed)''
          else
            (let out = take (cap - 1) (base_name p p); n = length out
             in if n > 5 \<and> drop (n - 5) out = ''.gguf'' then take (n - 5) out else out))"

subsection \<open>The file\<close>

definition id_char :: "char \<Rightarrow> char" where
  "id_char c =
     (if byte CHR ''A'' \<le> byte c \<and> byte c \<le> byte CHR ''Z'' \<or> byte CHR ''a'' \<le> byte c \<and> byte c \<le> byte CHR ''z'' \<or>
         is_digit c \<or> c = CHR ''.'' \<or> c = CHR ''-'' \<or> c = CHR ''_''
      then c else CHR ''_'')"

text \<open>\<open>registry_dir\<close> is the variable \<open>RUNNER_VRAM_REGISTRY_DIR\<close>, \<open>runtime_dir\<close> the result of
  \<open>plat_runtime_dir\<close>.\<close>

definition registry_path :: "string option \<Rightarrow> string \<Rightarrow> string option \<Rightarrow> nat \<Rightarrow> string" where
  "registry_path registry_dir runtime_dir gpu_id cap =
     (let dir = (case registry_dir of Some d \<Rightarrow> if d = [] then runtime_dir else d | None \<Rightarrow> runtime_dir);
          g = (case gpu_id of Some s \<Rightarrow> if s = [] then ''unknown'' else s | None \<Rightarrow> ''unknown'')
      in take (cap - 1) (dir @ ''/xyntetik-vram-'' @ map id_char (take 127 g) @ ''.reg''))"

text \<open>Up to \<open>k\<close> fields between tabs; what follows the last is dropped.\<close>

fun split_fields :: "nat \<Rightarrow> string \<Rightarrow> string list" where
  "split_fields 0 s = []"
| "split_fields (Suc k) s =
     (case split_at TAB s of None \<Rightarrow> [s] | Some (f, r) \<Rightarrow> f # split_fields k r)"

definition strtol :: "string \<Rightarrow> int" where
  "strtol s = fst (strtoll s)"

text \<open>The conversion of a \<open>long\<close> to \<open>int\<close>.\<close>

definition int_of_long :: "int \<Rightarrow> int" where
  "int_of_long v = sint (word_of_int v :: 32 word)"

definition parse_line :: "string \<Rightarrow> reg_entry option" where
  "parse_line line =
     (let f = split_fields 8 line; nf = length f
      in if nf = 7 \<or> nf = 8 then
           (let e = \<lparr>r_pid = strtol (f ! 0), r_seq = strtol (f ! 1),
                     r_procstart = fst (strtoull (f ! 2)), r_since = fst (strtoull (f ! 3)),
                     r_state = (case f ! 4 of [] \<Rightarrow> CHR ''P''
                       | c # _ \<Rightarrow> if c = CHR ''C'' then CHR ''C'' else if c = CHR ''W'' then CHR ''W'' else CHR ''P''),
                     r_bytes = fst (strtoull (f ! 5)), r_model = take 255 (f ! 6),
                     r_priority = (if nf = 8 then int_of_long (strtol (f ! 7)) else 0)\<rparr>
            in if r_pid e > 0 then Some e else None)
         else None)"

lemma split_at_shorter: "split_at d s = Some (l, r) \<Longrightarrow> length r < length s"
  by (induction s arbitrary: l) (auto split: if_splits option.splits)

function parse :: "string \<Rightarrow> nat \<Rightarrow> reg_entry list" where
  "parse s cap =
     (if s = [] \<or> cap = 0 then []
      else
        (let eol = split_at NL s;
             line = (case eol of None \<Rightarrow> s | Some (l, _) \<Rightarrow> l);
             e = (if 0 < length line \<and> length line < REG_LINE_MAX \<and> hd line \<noteq> CHR ''#'' then parse_line line else None)
         in case eol of
              None \<Rightarrow> (case e of None \<Rightarrow> [] | Some x \<Rightarrow> [x])
            | Some (_, r) \<Rightarrow>
                (case e of None \<Rightarrow> parse r cap | Some x \<Rightarrow> x # parse r (cap - 1))))"
  by pat_completeness auto
termination
  by (relation "measure (\<lambda>(s, cap). length s)") (auto dest: split_at_shorter [OF sym])

declare parse.simps [simp del]

text \<open>Entries whose owner is dead, is another process under the same pid, or has no start time and has
  been pending for more than an hour.\<close>

definition gone :: "world \<Rightarrow> reg_entry \<Rightarrow> bool" where
  "gone w e \<longleftrightarrow>
     (if \<not> w_alive w (r_pid e) then True
      else if r_procstart e \<noteq> 0 \<and> (case w_start w (r_pid e) of Some start \<Rightarrow> start \<noteq> r_procstart e | None \<Rightarrow> False) then True
      else r_procstart e = 0 \<and> (r_state e = CHR ''P'' \<or> r_state e = CHR ''W'') \<and>
        w_now w > r_since e \<and> w_now w - r_since e > 3600)"

definition reap :: "world \<Rightarrow> reg_entry list \<Rightarrow> reg_entry list" where
  "reap w es = filter (\<lambda>e. \<not> gone w e) es"

definition entry_line :: "reg_entry \<Rightarrow> string" where
  "entry_line e =
     fmt_lld (r_pid e) @ [TAB] @ fmt_lld (r_seq e) @ [TAB] @ nat_str (unat (r_procstart e)) @ [TAB] @
     nat_str (unat (r_since e)) @ [TAB] @ [r_state e] @ [TAB] @ nat_str (unat (r_bytes e)) @ [TAB] @
     r_model e @ [TAB] @ fmt_lld (r_priority e) @ [NL]"

fun serialise_loop :: "nat \<Rightarrow> string \<Rightarrow> nat \<Rightarrow> reg_entry list \<Rightarrow> string" where
  "serialise_loop cap out off [] = take off out"
| "serialise_loop cap out off (e # es) =
     (if off + REG_LINE_MAX < cap
      then serialise_loop cap (take off out @ take (cap - off - 1) (entry_line e)) (off + length (entry_line e)) es
      else take off out)"

definition serialise :: "reg_entry list \<Rightarrow> string" where
  "serialise es = serialise_loop ((length es + 1) * REG_LINE_MAX) [] 0 es"

subsection \<open>Claims\<close>

record claim_ctx =
  cl_gpu_id :: "string option"
  cl_model :: "string option"
  cl_need :: "64 word"
  cl_priority :: int
  cl_waiting :: bool
  cl_pid :: int
  cl_seq :: int
  cl_procstart :: "64 word"
  cl_err_cap :: nat

record vram_status =
  vs_holders :: nat
  vs_held_bytes :: "64 word"
  vs_available :: "64 word"

definition clean_model :: "string option \<Rightarrow> string" where
  "clean_model m =
     map (\<lambda>c. if c = TAB \<or> c = NL then CHR '' '' else c) (take 255 (case m of Some s \<Rightarrow> s | None \<Rightarrow> []))"

definition own_marker :: "claim_ctx \<Rightarrow> reg_entry \<Rightarrow> bool" where
  "own_marker c e \<longleftrightarrow> r_state e = CHR ''W'' \<and> r_pid e = cl_pid c \<and> r_seq e = cl_seq c"

definition pending_bytes :: "reg_entry list \<Rightarrow> 64 word" where
  "pending_bytes es = sum_list (map r_bytes (filter (\<lambda>e. r_state e = CHR ''P'') es))"

definition available :: "world \<Rightarrow> reg_entry list \<Rightarrow> 64 word" where
  "available w es = (if w_free w > pending_bytes es then w_free w - pending_bytes es else 0)"

definition claim_status :: "claim_ctx \<Rightarrow> world \<Rightarrow> reg_entry list \<Rightarrow> vram_status" where
  "claim_status c w es =
     (let hs = filter (\<lambda>e. r_state e \<noteq> CHR ''W'' \<and> r_pid e \<noteq> cl_pid c) es
      in \<lparr>vs_holders = length hs, vs_held_bytes = sum_list (map r_bytes hs), vs_available = available w es\<rparr>)"

definition outranked :: "claim_ctx \<Rightarrow> 64 word \<Rightarrow> reg_entry list \<Rightarrow> bool" where
  "outranked c avail es \<longleftrightarrow>
     cl_waiting c \<and> cl_need c \<le> avail \<and>
     list_ex (\<lambda>e. r_state e = CHR ''W'' \<and> r_priority e > cl_priority c \<and> r_bytes e \<le> avail) es"

definition claim_entry :: "claim_ctx \<Rightarrow> world \<Rightarrow> char \<Rightarrow> reg_entry" where
  "claim_entry c w st =
     \<lparr>r_pid = cl_pid c, r_seq = cl_seq c, r_procstart = cl_procstart c, r_since = w_now w, r_state = st,
      r_bytes = cl_need c, r_model = clean_model (cl_model c), r_priority = cl_priority c\<rparr>"

text \<open>The refusal: the sentence, what is claimed but not allocated, and every holder.\<close>

fun refusal_holders :: "nat \<Rightarrow> 64 word \<Rightarrow> reg_entry list \<Rightarrow> string \<times> nat \<Rightarrow> string \<times> nat" where
  "refusal_holders cap now [] err = err"
| "refusal_holders cap now (e # es) err =
     (if snd err + 128 < cap then
        (if r_state e = CHR ''W'' then refusal_holders cap now es err
         else refusal_holders cap now es
           (err_add cap err
             (NL # ''  pid '' @ fmt_lld (r_pid e) @ '' holding '' @ fmt_bytes (r_bytes e) @ '' for '' @
              model_label (Some (r_model e)) 256 @ '', up '' @
              fmt_uptime (if now > r_since e then now - r_since e else 0) @
              '', priority '' @ fmt_lld (r_priority e) @ (if r_state e = CHR ''P'' then '' (loading)'' else []))))
      else err)"

definition refusal :: "claim_ctx \<Rightarrow> world \<Rightarrow> 64 word \<Rightarrow> 64 word \<Rightarrow> reg_entry list \<Rightarrow> string \<times> nat" where
  "refusal c w pending avail es =
     (let cap = cl_err_cap c;
          have = take 31 (fmt_bytes avail);
          e1 = err_add cap ([], 0)
                 (take 31 (fmt_bytes (cl_need c)) @ '' of VRAM requested on '' @
                  (case cl_gpu_id c of Some g \<Rightarrow> g | None \<Rightarrow> ''the GPU'') @ '', but only '' @ have @ '' is available'');
          e2 = (if pending \<noteq> 0 then
                  err_add cap e1 ('' ('' @ have @ '' free, '' @ take 31 (fmt_bytes pending) @ '' claimed but not yet allocated)'')
                else e1);
          e3 = (if list_all (\<lambda>e. r_state e = CHR ''W'') es then
                  err_add cap e2 (''.'' @ [NL] @ ''  No other runner is registered on this GPU '' @ [CHR 0xE2, CHR 0x80, CHR 0x94] @
                    '' the memory is held by something outside runner'' @ [CHR 0x27] @ ''s accounting.'')
                else e2);
          e4 = refusal_holders cap (w_now w) es e3
      in if snd e4 + 96 < cap then
           err_add cap e4 (NL # ''  pass --wait-for-vram [SECONDS] to queue instead of failing'')
         else e4)"

text \<open>The decision on the entries: whether the claim is admitted, the entries afterwards, the status, and the
  message (\<open>None\<close> when none is written).\<close>

definition claim_entries :: "claim_ctx \<Rightarrow> world \<Rightarrow> reg_entry list \<Rightarrow>
    bool \<times> reg_entry list \<times> vram_status \<times> string option" where
  "claim_entries c w read =
     (let live = reap w read;
          es = (if cl_waiting c then filter (\<lambda>e. \<not> own_marker c e) live else live);
          avail = available w es;
          st = claim_status c w es;
          room = length es < REG_MAX_ENTRIES
      in if cl_need c \<le> avail \<and> \<not> outranked c avail es then
           (True, if room then es @ [claim_entry c w CHR ''P''] else es, st, None)
         else
           (let es' = (if cl_waiting c \<and> room then es @ [claim_entry c w CHR ''W''] else es)
            in (False, es', st,
                if cl_err_cap c > 0 then Some (fst (refusal c w (pending_bytes es) avail es')) else None)))"

definition claim_rmw :: "claim_ctx \<Rightarrow> world \<Rightarrow> string \<Rightarrow> bool \<times> string \<times> vram_status \<times> string option" where
  "claim_rmw c w text =
     (case claim_entries c w (parse (cstr text) REG_MAX_ENTRIES) of
        (admitted, es, st, err) \<Rightarrow> (admitted, serialise es, st, err))"

subsection \<open>Commit and release\<close>

record edit_ctx =
  ed_pid :: int
  ed_seq :: int
  ed_bytes :: "64 word"
  ed_remove :: bool

definition edit_entries :: "edit_ctx \<Rightarrow> reg_entry list \<Rightarrow> reg_entry list" where
  "edit_entries x es =
     concat (map (\<lambda>e.
       (let mine = (r_pid e = ed_pid x \<and> r_seq e = ed_seq x)
        in if mine \<and> ed_remove x then []
           else if mine then [e\<lparr>r_state := CHR ''C'', r_bytes := ed_bytes x\<rparr>] else [e])) es)"

definition edit_rmw :: "edit_ctx \<Rightarrow> world \<Rightarrow> string \<Rightarrow> string" where
  "edit_rmw x w text = serialise (edit_entries x (reap w (parse (cstr text) REG_MAX_ENTRIES)))"

record vram_lease =
  ls_path :: string
  ls_pid :: int
  ls_seq :: int
  ls_bytes :: "64 word"

text \<open>On the text of the registry; the second component of \<open>vram_commit\<close> is the lease afterwards.\<close>

definition vram_commit :: "vram_lease \<Rightarrow> 64 word \<Rightarrow> world \<Rightarrow> string \<Rightarrow> string \<times> vram_lease" where
  "vram_commit l actual_bytes w text =
     (edit_rmw \<lparr>ed_pid = ls_pid l, ed_seq = ls_seq l, ed_bytes = actual_bytes, ed_remove = False\<rparr> w text,
      l\<lparr>ls_bytes := actual_bytes\<rparr>)"

definition registry_rollback :: "int \<Rightarrow> int \<Rightarrow> world \<Rightarrow> string \<Rightarrow> string" where
  "registry_rollback pid seq w text =
     edit_rmw \<lparr>ed_pid = pid, ed_seq = seq, ed_bytes = 0, ed_remove = True\<rparr> w text"

definition vram_release :: "vram_lease \<Rightarrow> world \<Rightarrow> string \<Rightarrow> string" where
  "vram_release l w text = registry_rollback (ls_pid l) (ls_seq l) w text"

text \<open>One turn of the loop of \<open>vram_claim\<close>: what it finds in the file (\<open>None\<close> when the
  read-modify-write fails), in the world, and in the flags it looks at afterwards. The text after the
  rollback, when there is one, is that of the file at that moment.\<close>

record poll =
  po_text :: "string option"
  po_world :: world
  po_cancel :: bool
  po_late :: bool
  po_lease :: bool
  po_text_after :: string

datatype claim_result = Lease vram_lease | Cancelled | Refused "string option" | No_memory | Still_waiting

text \<open>The result and the texts that were written, one after another.\<close>

fun claim_loop :: "claim_ctx \<Rightarrow> string \<Rightarrow> poll list \<Rightarrow> claim_result \<times> string list" where
  "claim_loop c path [] = (Still_waiting, [])"
| "claim_loop c path (p # ps) =
     (let admit = (\<lambda>written.
            if po_lease p then
              (Lease \<lparr>ls_path = take 511 path, ls_pid = cl_pid c, ls_seq = cl_seq c, ls_bytes = cl_need c\<rparr>, written)
            else (No_memory, written @ [registry_rollback (cl_pid c) (cl_seq c) (po_world p) (po_text_after p)]));
          undo = (\<lambda>written. written @
            (if cl_waiting c then [registry_rollback (cl_pid c) (cl_seq c) (po_world p) (po_text_after p)] else []))
      in case po_text p of
           None \<Rightarrow> admit []
         | Some text \<Rightarrow>
             (case claim_rmw c (po_world p) text of
                (admitted, out, st, err) \<Rightarrow>
                  if admitted then admit [out]
                  else if po_cancel p then (Cancelled, undo [out])
                  else if po_late p then (Refused err, undo [out])
                  else (case claim_loop c path ps of (res, written) \<Rightarrow> (res, out # written))))"

text \<open>\<open>vram_claim\<close> by process \<open>pid\<close>: \<open>next_seq\<close> is the counter of the process, which every call takes
  one number from.\<close>

definition vram_claim :: "string option \<Rightarrow> string \<Rightarrow> string option \<Rightarrow> string option \<Rightarrow> 64 word \<Rightarrow> int \<Rightarrow> int \<Rightarrow>
    int \<Rightarrow> 64 word option \<Rightarrow> int \<Rightarrow> nat \<Rightarrow> poll list \<Rightarrow> (claim_result \<times> string list) \<times> int" where
  "vram_claim registry_dir runtime_dir gpu_id model need_bytes priority wait_secs pid start next_seq err_cap polls =
     (claim_loop
        \<lparr>cl_gpu_id = gpu_id, cl_model = model, cl_need = need_bytes, cl_priority = priority, cl_waiting = (wait_secs > 0),
         cl_pid = pid, cl_seq = next_seq, cl_procstart = (case start of Some t \<Rightarrow> t | None \<Rightarrow> 0), cl_err_cap = err_cap\<rparr>
        (registry_path registry_dir runtime_dir gpu_id 512) polls,
      next_seq + 1)"

subsection \<open>The yield sentinel\<close>

definition yield_sentinel_path :: "string \<Rightarrow> int \<Rightarrow> nat \<Rightarrow> string" where
  "yield_sentinel_path reg_path pid cap =
     (let b = take 511 reg_path; n = length b;
          base = (if n > 4 \<and> drop (n - 4) b = ''.reg'' then take (n - 4) b else b)
      in take (cap - 1) (base @ ''.yield.'' @ fmt_lld pid))"

definition touch_rmw :: "string \<Rightarrow> string" where
  "touch_rmw text = ''1''"

text \<open>On the files that exist.\<close>

definition vram_request_yield :: "string \<Rightarrow> int \<Rightarrow> (string \<Rightarrow> string option) \<Rightarrow> (string \<Rightarrow> string option)" where
  "vram_request_yield reg pid files =
     (let p = yield_sentinel_path reg pid 560
      in files(p \<mapsto> touch_rmw (case files p of Some t \<Rightarrow> t | None \<Rightarrow> [])))"

definition vram_yield_requested :: "vram_lease option \<Rightarrow> (string \<Rightarrow> string option) \<Rightarrow> bool" where
  "vram_yield_requested l files =
     (case l of None \<Rightarrow> False | Some l \<Rightarrow> files (yield_sentinel_path (ls_path l) (ls_pid l) 560) \<noteq> None)"

definition vram_yield_clear :: "vram_lease option \<Rightarrow> (string \<Rightarrow> string option) \<Rightarrow> (string \<Rightarrow> string option)" where
  "vram_yield_clear l files =
     (case l of None \<Rightarrow> files | Some l \<Rightarrow> files(yield_sentinel_path (ls_path l) (ls_pid l) 560 := None))"

end
