(* ===== verification/Http_Laws.thy ===== *)
theory Http_Laws
  imports Http
begin

text \<open>
  The laws of the HTTP layer: the line loop over a header block is a fold over its lines, the
  framing fields and the loopback check equal their specifications, a request line is accepted
  exactly when it has the right shape, the writer sends everything or a prefix, and an error
  response always fits its buffers.
\<close>

subsection \<open>Lines\<close>

definition is_line :: "string \<Rightarrow> bool" where
  "is_line l \<longleftrightarrow> find_crlf l = None \<and> l \<noteq> []"

lemma find_crlf_line: "find_crlf l = None \<Longrightarrow> find_crlf (l @ CRLF @ r) = Some (l, r)"
proof (induction l)
  case Nil
  then show ?case by (simp add: CRLF_def)
next
  case (Cons c l)
  have n: "\<not> (c = CHR 0x0D \<and> l \<noteq> [] \<and> hd l = CHR 0x0A)" and l: "find_crlf l = None"
    using Cons.prems by (auto split: if_splits option.splits)
  then have "\<not> (c = CHR 0x0D \<and> hd (l @ CRLF @ r) = CHR 0x0A)"
    by (cases l) (auto simp: CRLF_def)
  then show ?case using Cons.IH [OF l] by (auto simp: CRLF_def)
qed

lemma split_at_None: "split_at d s = None \<longleftrightarrow> d \<notin> set s"
  by (induction s) (auto split: option.splits)

lemma split_at_first: "d \<notin> set l \<Longrightarrow> split_at d (l @ d # r) = Some (l, r)"
  by (induction l) auto

lemma split_at_Some: "split_at d s = Some (l, r) \<Longrightarrow> s = l @ d # r \<and> d \<notin> set l"
  by (induction s arbitrary: l) (force split: if_splits option.splits)+

text \<open>A header block: its lines, each ended by CRLF.\<close>

definition block :: "string list \<Rightarrow> string" where
  "block lines = concat (map (\<lambda>l. l @ CRLF) lines)"

fun steps :: "('l \<Rightarrow> 's \<Rightarrow> 's option) \<Rightarrow> 'l list \<Rightarrow> 's \<Rightarrow> 's option" where
  "steps f [] st = Some st"
| "steps f (l # ls) st = (case f l st of None \<Rightarrow> None | Some st' \<Rightarrow> steps f ls st')"

lemma header_loop_block:
  "list_all is_line lines \<Longrightarrow>
   header_loop step (block lines @ rest) (int (length (block lines)) - 2) st = steps step lines st"
proof (induction lines arbitrary: st)
  case Nil
  then show ?case by (simp add: block_def header_loop.simps)
next
  case (Cons l ls)
  have f: "find_crlf (block (l # ls) @ rest) = Some (l, block ls @ rest)"
    using find_crlf_line [of l "block ls @ rest"] Cons.prems by (simp add: block_def is_line_def)
  have n: "int (length (block (l # ls))) - 2 = int (length l) + int (length (block ls))"
    by (simp add: block_def CRLF_def)
  have "0 < int (length l)" using Cons.prems by (simp add: is_line_def)
  then have "\<not> int (length l) + int (length (block ls)) \<le> 0" by linarith
  then show ?case
    using Cons f n by (simp add: header_loop.simps [of step "block (l # ls) @ rest"] split: option.split)
qed

subsection \<open>Comparing names\<close>

lemma ci_ncmp_eq:
  "n \<le> length a \<Longrightarrow> n \<le> length b \<Longrightarrow> CHR 0x00 \<notin> set (take n b) \<Longrightarrow>
   ci_ncmp a b n = 0 \<longleftrightarrow> map ci_char (take n a) = map ci_char (take n b)"
proof (induction n arbitrary: a b)
  case 0
  then show ?case by simp
next
  case (Suc n)
  obtain x a' y b' where ab: "a = x # a'" "b = y # b'" using Suc.prems by (cases a; cases b) auto
  have "byte y \<noteq> 0" using Suc.prems(3) byte_inject [of y "CHR 0x00"] by (auto simp: ab)
  then have "ci_char y \<noteq> 0" by (simp add: ci_char_def)
  then show ?case using Suc by (auto simp: ab Let_def)
qed

text \<open>The specification: a field is named \<open>nm\<close> in any case.\<close>

definition same_name :: "string \<Rightarrow> string \<Rightarrow> bool" where
  "same_name a nm \<longleftrightarrow> map ci_char a = map ci_char nm"

definition field_named :: "string \<Rightarrow> string \<Rightarrow> bool" where
  "field_named nm l \<longleftrightarrow> (case split_at CHR '':'' l of None \<Rightarrow> False | Some (name, _) \<Rightarrow> same_name name nm)"

definition field_value :: "string \<Rightarrow> string" where
  "field_value l = (case split_at CHR '':'' l of None \<Rightarrow> [] | Some (_, value) \<Rightarrow> value)"

lemma name_test:
  assumes "split_at CHR '':'' l = Some (name, value)" "length nm = n" "CHR 0x00 \<notin> set nm"
  shows "length name = n \<and> ci_ncmp l nm n = 0 \<longleftrightarrow> same_name name nm"
proof -
  have l: "l = name @ CHR '':'' # value" using split_at_Some [OF assms(1)] by simp
  show ?thesis
  proof (cases "length name = n")
    case True
    then show ?thesis
      using ci_ncmp_eq [of n l nm] assms(2,3) by (simp add: l same_name_def)
  next
    case False
    then show ?thesis using assms(2) by (auto simp: same_name_def dest: map_eq_imp_length_eq)
  qed
qed

lemma name_tests:
  assumes "split_at CHR '':'' l = Some (name, value)"
  shows "length name = 4 \<and> ci_ncmp l ''Host'' 4 = 0 \<longleftrightarrow> same_name name ''Host''"
    "length name = 6 \<and> ci_ncmp l ''Origin'' 6 = 0 \<longleftrightarrow> same_name name ''Origin''"
    "length name = 14 \<and> ci_ncmp l ''Content-Length'' 14 = 0 \<longleftrightarrow> same_name name ''Content-Length''"
    "length name = 17 \<and> ci_ncmp l ''Transfer-Encoding'' 17 = 0 \<longleftrightarrow> same_name name ''Transfer-Encoding''"
  by (rule name_test [OF assms]; simp)+

lemma same_name_trans: "same_name a nm \<Longrightarrow> same_name a nm' \<Longrightarrow> map ci_char nm = map ci_char nm'"
  by (simp add: same_name_def)

subsection \<open>Framing\<close>

text \<open>What a request means: no transfer coding, at most one \<open>Content-Length\<close>, and its value.\<close>

definition framing_spec :: "string list \<Rightarrow> nat option" where
  "framing_spec lines =
     (if filter (field_named ''Transfer-Encoding'') lines \<noteq> [] then None
      else (case filter (field_named ''Content-Length'') lines of
        [] \<Rightarrow> Some 0
      | [l] \<Rightarrow> content_value (field_value l)
      | _ \<Rightarrow> None))"

definition framing_step :: "string \<Rightarrow> bool \<times> nat \<Rightarrow> (bool \<times> nat) option" where
  "framing_step l st =
     (if field_named ''Transfer-Encoding'' l then None
      else if field_named ''Content-Length'' l then
        (if fst st then None
         else (case content_value (field_value l) of None \<Rightarrow> None | Some v \<Rightarrow> Some (True, v)))
      else Some st)"

lemma framing_line_step: "framing_line l st = framing_step l st"
proof (cases "split_at CHR '':'' l")
  case None
  then show ?thesis by (cases st) (simp add: framing_line_def framing_step_def field_named_def)
next
  case (Some nv)
  then obtain name val where s: "split_at CHR '':'' l = Some (name, val)" by (cases nv) auto
  show ?thesis
    by (cases st) (simp add: framing_line_def framing_step_def field_named_def field_value_def s name_tests [OF s])
qed

lemma framing_step_cases:
  "field_named ''Transfer-Encoding'' l \<Longrightarrow> framing_step l st = None"
  "\<not> field_named ''Transfer-Encoding'' l \<Longrightarrow> field_named ''Content-Length'' l \<Longrightarrow> framing_step l (True, n) = None"
  "\<not> field_named ''Transfer-Encoding'' l \<Longrightarrow> field_named ''Content-Length'' l \<Longrightarrow> framing_step l (False, n) =
     (case content_value (field_value l) of None \<Rightarrow> None | Some v \<Rightarrow> Some (True, v))"
  "\<not> field_named ''Transfer-Encoding'' l \<Longrightarrow> \<not> field_named ''Content-Length'' l \<Longrightarrow> framing_step l st = Some st"
  by (simp_all add: framing_step_def)

lemma framing_steps_seen:
  "steps framing_step lines (True, n) =
    (if filter (field_named ''Transfer-Encoding'') lines = [] \<and> filter (field_named ''Content-Length'') lines = []
     then Some (True, n) else None)"
proof (induction lines)
  case (Cons l ls)
  then show ?case
    by (cases "field_named ''Transfer-Encoding'' l"; cases "field_named ''Content-Length'' l")
      (simp_all add: framing_step_cases)
qed simp

lemma framing_steps:
  "(case steps framing_step lines (False, 0) of None \<Rightarrow> None | Some (saw, len) \<Rightarrow> Some len) = framing_spec lines"
proof (induction lines)
  case Nil
  then show ?case by (simp add: framing_spec_def)
next
  case (Cons l ls)
  consider (te) "field_named ''Transfer-Encoding'' l"
    | (cl) "\<not> field_named ''Transfer-Encoding'' l" "field_named ''Content-Length'' l"
    | (other) "\<not> field_named ''Transfer-Encoding'' l" "\<not> field_named ''Content-Length'' l" by blast
  then show ?case
  proof cases
    case te
    then show ?thesis by (simp add: framing_spec_def framing_step_cases)
  next
    case cl
    then show ?thesis
      by (cases "content_value (field_value l)"; cases "filter (field_named ''Content-Length'') ls")
        (simp_all add: framing_spec_def framing_step_cases framing_steps_seen)
  next
    case other
    then show ?thesis using Cons by (simp add: framing_spec_def framing_step_cases)
  qed
qed

lemma framing_correct:
  assumes "list_all is_line lines"
  shows "parse_request_framing (block lines @ rest) (int (length (block lines)) - 2) = framing_spec lines"
proof -
  have "framing_line = framing_step" by (intro ext) (rule framing_line_step)
  then show ?thesis
    using header_loop_block [OF assms, of framing_line rest "(False, 0)"] framing_steps [of lines]
    by (simp add: parse_request_framing_def)
qed

subsection \<open>Authority\<close>

definition authority_step :: "string \<Rightarrow> nat \<times> nat \<Rightarrow> (nat \<times> nat) option" where
  "authority_step l st =
     (if field_named ''Host'' l then
        (if fst st \<noteq> 0 \<or> \<not> local_authority (field_value l) then None else Some (fst st + 1, snd st))
      else if field_named ''Origin'' l then
        (if snd st \<noteq> 0 \<or> \<not> origin_ok (field_value l) then None else Some (fst st, snd st + 1))
      else Some st)"

lemma authority_line_step: "authority_line l st = authority_step l st"
proof (cases "split_at CHR '':'' l")
  case None
  then show ?thesis by (cases st) (simp add: authority_line_def authority_step_def field_named_def)
next
  case (Some nv)
  then obtain name val where s: "split_at CHR '':'' l = Some (name, val)" by (cases nv) auto
  show ?thesis
    by (cases st) (simp add: authority_line_def authority_step_def field_named_def field_value_def s name_tests [OF s])
qed

text \<open>A request may come from the local machine only: one loopback \<open>Host\<close>, at most one
  \<open>Origin\<close>, and that one loopback too.\<close>

definition authority_spec :: "string list \<Rightarrow> bool" where
  "authority_spec lines \<longleftrightarrow>
     length (filter (field_named ''Host'') lines) = 1 \<and> length (filter (field_named ''Origin'') lines) \<le> 1 \<and>
     (\<forall>l \<in> set lines. (field_named ''Host'' l \<longrightarrow> local_authority (field_value l)) \<and>
        (field_named ''Origin'' l \<longrightarrow> origin_ok (field_value l)))"

lemma not_both: "field_named ''Host'' l \<Longrightarrow> \<not> field_named ''Origin'' l"
  by (auto simp: field_named_def split: option.splits dest: same_name_trans)

lemma authority_steps:
  "h \<le> 1 \<Longrightarrow> og \<le> 1 \<Longrightarrow> steps authority_step lines (h, og) =
    (if h + length (filter (field_named ''Host'') lines) \<le> 1 \<and>
        og + length (filter (field_named ''Origin'') lines) \<le> 1 \<and>
        (\<forall>l \<in> set lines. (field_named ''Host'' l \<longrightarrow> local_authority (field_value l)) \<and>
           (field_named ''Origin'' l \<longrightarrow> origin_ok (field_value l)))
     then Some (h + length (filter (field_named ''Host'') lines), og + length (filter (field_named ''Origin'') lines))
     else None)"
proof (induction lines arbitrary: h og)
  case Nil
  then show ?case by simp
next
  case (Cons l ls)
  consider (host) "field_named ''Host'' l" "\<not> field_named ''Origin'' l"
    | (origin) "\<not> field_named ''Host'' l" "field_named ''Origin'' l"
    | (other) "\<not> field_named ''Host'' l" "\<not> field_named ''Origin'' l" using not_both by blast
  then show ?case
  proof cases
    case host
    then show ?thesis using Cons.IH [of 1 og] Cons.prems by (auto simp: authority_step_def)
  next
    case origin
    then show ?thesis using Cons.IH [of h 1] Cons.prems by (auto simp: authority_step_def)
  next
    case other
    then show ?thesis using Cons by (simp add: authority_step_def)
  qed
qed

lemma authority_correct:
  assumes "list_all is_line lines"
  shows "validate_request_authority (block lines @ rest) (int (length (block lines)) - 2) = authority_spec lines"
proof -
  have "authority_line = authority_step" by (intro ext) (rule authority_line_step)
  then show ?thesis
    using header_loop_block [OF assms, of authority_line rest "(0, 0)"] authority_steps [of 0 0 lines]
    by (auto simp: validate_request_authority_def authority_spec_def)
qed

text \<open>What a local authority is.\<close>

lemma host_names: "local_host h \<longleftrightarrow> same_name h ''localhost'' \<or> h = ''127.0.0.1'' \<or> h = ''[::1]''"
proof -
  have "length h = 9 \<and> ci_ncmp h ''localhost'' 9 = 0 \<longleftrightarrow> same_name h ''localhost''"
    using ci_ncmp_eq [of 9 h "''localhost''"] by (auto simp: same_name_def dest: map_eq_imp_length_eq)
  then show ?thesis by (auto simp: local_host_def)
qed

definition authority_text :: "string \<Rightarrow> string option \<Rightarrow> string" where
  "authority_text host port = host @ (case port of None \<Rightarrow> [] | Some p \<Rightarrow> CHR '':'' # p)"

lemma split_authority_text: "split_authority s = Some (host, port) \<Longrightarrow> s = authority_text host port"
  by (auto simp: split_authority_def authority_text_def neq_Nil_conv split: if_splits option.splits
      dest!: split_at_Some)

lemma local_authority_only:
  assumes "local_authority s"
  shows "\<exists>host port. trim_right (trim_left s) = authority_text host port \<and>
    (same_name host ''localhost'' \<or> host = ''127.0.0.1'' \<or> host = ''[::1]'') \<and> port_ok port"
  using assms host_names by (auto simp: local_authority_def dest!: split_authority_text split: option.splits)

lemma same_name_no_colon: "same_name h ''localhost'' \<Longrightarrow> CHR '':'' \<notin> set h \<and> h \<noteq> [] \<and> hd h \<noteq> CHR ''[''"
proof -
  assume s: "same_name h ''localhost''"
  have "ci_char CHR '':'' \<notin> set (map ci_char h)" "ci_char CHR ''['' \<notin> set (map ci_char h)"
    using s unfolding same_name_def by (simp_all add: ci_char_def)
  moreover have "h \<noteq> []" using s by (auto simp: same_name_def)
  ultimately show ?thesis by (cases h) auto
qed

lemma split_authority_local:
  assumes "same_name host ''localhost'' \<or> host = ''127.0.0.1'' \<or> host = ''[::1]''"
  shows "split_authority (authority_text host port) = Some (host, port)"
proof (cases "host = ''[::1]''")
  case True
  have "split_at CHR '']'' (''[::1'' @ CHR '']'' # r) = Some (''[::1'', r)" for r by (rule split_at_first) simp
  then show ?thesis using True by (auto simp: split_authority_def authority_text_def split: option.splits)
next
  case False
  then have h: "CHR '':'' \<notin> set host" "host \<noteq> []" "hd host \<noteq> CHR ''[''"
    using assms same_name_no_colon by auto
  then show ?thesis
    using split_at_None [THEN iffD2, OF h(1)]
    by (simp add: split_authority_def authority_text_def split_at_first hd_append split: option.split)
qed

lemma local_authority_iff:
  "local_authority s \<longleftrightarrow> (\<exists>host port. trim_right (trim_left s) = authority_text host port \<and>
    (same_name host ''localhost'' \<or> host = ''127.0.0.1'' \<or> host = ''[::1]'') \<and> port_ok port)"
  using local_authority_only split_authority_local host_names by (auto simp: local_authority_def)

subsection \<open>Content lengths\<close>

definition dec_from :: "nat \<Rightarrow> string \<Rightarrow> nat" where
  "dec_from v s = foldl (\<lambda>n c. n * 10 + (byte c - byte CHR ''0'')) v s"

lemma dec_from_0: "dec_from 0 s = dec_digits s"
  by (simp add: dec_from_def dec_digits_def)

lemma dec_from_mono: "v \<le> dec_from v s"
proof (induction s arbitrary: v)
  case (Cons c s)
  have "v \<le> v * 10 + (byte c - byte CHR ''0'')" by simp
  also have "\<dots> \<le> dec_from (v * 10 + (byte c - byte CHR ''0'')) s" by (rule Cons)
  finally show ?case by (simp add: dec_from_def)
qed (simp add: dec_from_def)

lemma digit_room:
  assumes "is_digit c"
  shows "(SIZE_MAX - (byte c - byte CHR ''0'')) div 10 < v \<longleftrightarrow> SIZE_MAX < v * 10 + (byte c - byte CHR ''0'')"
proof -
  have "byte c - byte CHR ''0'' \<le> 9" using assms by (auto simp: is_digit_def)
  then have "byte c - byte CHR ''0'' \<le> SIZE_MAX" by (simp add: SIZE_MAX_def)
  then show ?thesis by (simp add: div_less_iff_less_mult not_less) linarith
qed

lemma length_digits_sound:
  "length_digits v s = Some (n, q) \<Longrightarrow> v \<le> SIZE_MAX \<Longrightarrow>
   \<exists>ds. s = ds @ q \<and> list_all is_digit ds \<and> n = dec_from v ds \<and> n \<le> SIZE_MAX \<and> (q = [] \<or> \<not> is_digit (hd q))"
proof (induction v s rule: length_digits.induct)
  case (1 v)
  then show ?case by (simp add: dec_from_def)
next
  case (2 v c s)
  show ?case
  proof (cases "is_digit c")
    case True
    let ?d = "byte c - byte CHR ''0''"
    have fit: "\<not> (SIZE_MAX - ?d) div 10 < v" "length_digits (v * 10 + ?d) s = Some (n, q)"
      using 2(2) True by (auto simp: Let_def split: if_splits)
    have le: "v * 10 + ?d \<le> SIZE_MAX" using fit(1) digit_room [OF True, of v] by simp
    obtain ds where "s = ds @ q" "list_all is_digit ds" "n = dec_from (v * 10 + ?d) ds" "n \<le> SIZE_MAX"
      "q = [] \<or> \<not> is_digit (hd q)"
      using 2(1) [OF True refl fit le] by blast
    then show ?thesis using True by (intro exI [of _ "c # ds"]) (simp add: dec_from_def)
  next
    case False
    then show ?thesis using 2(2,3) by (intro exI [of _ "[]"]) (auto simp: dec_from_def)
  qed
qed

lemma length_digits_complete:
  "list_all is_digit ds \<Longrightarrow> q = [] \<or> \<not> is_digit (hd q) \<Longrightarrow> dec_from v ds \<le> SIZE_MAX \<Longrightarrow>
   length_digits v (ds @ q) = Some (dec_from v ds, q)"
proof (induction ds arbitrary: v)
  case Nil
  then show ?case by (cases q) (auto simp: dec_from_def)
next
  case (Cons c ds)
  let ?d = "byte c - byte CHR ''0''"
  have e: "dec_from v (c # ds) = dec_from (v * 10 + ?d) ds" by (simp add: dec_from_def)
  have "v * 10 + ?d \<le> SIZE_MAX" using dec_from_mono [of "v * 10 + ?d" ds] Cons.prems(3) e by simp
  then have "\<not> (SIZE_MAX - ?d) div 10 < v" using digit_room [of c v] Cons.prems(1) by simp
  then show ?case using Cons e by (simp add: Let_def)
qed

lemma dropWhile_blanks: "list_all blank a \<Longrightarrow> dropWhile blank (a @ s) = dropWhile blank s"
  by (simp add: list_all_iff dropWhile_append2)

lemma dropWhile_empty: "dropWhile blank s = [] \<longleftrightarrow> list_all blank s"
  by (simp add: list_all_iff)

lemma digit_not_blank: "is_digit c \<Longrightarrow> \<not> blank c"
  by (auto simp: blank_def is_digit_def)

lemma content_value_iff:
  "content_value val = Some n \<longleftrightarrow>
    (\<exists>a ds b. val = a @ ds @ b \<and> list_all blank a \<and> list_all blank b \<and> ds \<noteq> [] \<and> list_all is_digit ds \<and>
       n = dec_digits ds \<and> n \<le> SIZE_MAX)"
proof
  assume c: "content_value val = Some n"
  obtain q where q: "length_digits 0 (trim_left val) = Some (n, q)" "length q \<noteq> length (trim_left val)"
    "dropWhile blank q = []"
    using c by (auto simp: content_value_def Let_def trim_left_def simp del: dropWhile_eq_Nil_conv split: option.splits if_splits)
  obtain ds where ds: "trim_left val = ds @ q" "list_all is_digit ds" "n = dec_from 0 ds" "n \<le> SIZE_MAX"
    using length_digits_sound [OF q(1)] by auto
  have "val = takeWhile blank val @ ds @ q"
    using ds(1) by (metis takeWhile_dropWhile_id trim_left_def)
  moreover have "list_all blank (takeWhile blank val)" by (auto simp: list_all_iff dest: set_takeWhileD)
  ultimately show "\<exists>a ds b. val = a @ ds @ b \<and> list_all blank a \<and> list_all blank b \<and> ds \<noteq> [] \<and>
      list_all is_digit ds \<and> n = dec_digits ds \<and> n \<le> SIZE_MAX"
    using ds q(2) q(3) [unfolded dropWhile_empty] dec_from_0
    by (intro exI [of _ "takeWhile blank val"] exI [of _ ds] exI [of _ q]) auto
next
  assume "\<exists>a ds b. val = a @ ds @ b \<and> list_all blank a \<and> list_all blank b \<and> ds \<noteq> [] \<and> list_all is_digit ds \<and>
       n = dec_digits ds \<and> n \<le> SIZE_MAX"
  then obtain a ds b where v: "val = a @ ds @ b" "list_all blank a" "list_all blank b" "ds \<noteq> []"
    "list_all is_digit ds" "n = dec_digits ds" "n \<le> SIZE_MAX" by blast
  have "trim_left val = ds @ b"
    using v digit_not_blank by (cases ds) (simp_all add: trim_left_def dropWhile_blanks)
  moreover have "b = [] \<or> \<not> is_digit (hd b)" using v(3) digit_not_blank by (cases b) auto
  then have "length_digits 0 (ds @ b) = Some (n, b)"
    using length_digits_complete [of ds b 0] v by (simp add: dec_from_0)
  ultimately show "content_value val = Some n"
    using v by (simp add: content_value_def Let_def trim_left_def list_all_iff)
qed

subsection \<open>Request lines\<close>

lemma request_line_sound:
  assumes "parse_request_line hdr = (Some (meth, target), h)"
  shows "\<exists>version rest. hdr = meth @ '' '' @ target @ '' '' @ version @ CRLF @ rest \<and> h = Some rest \<and>
    (version = ''HTTP/1.1'' \<or> version = ''HTTP/1.0'') \<and> meth \<noteq> [] \<and> target \<noteq> [] \<and>
    CHR '' '' \<notin> set meth \<and> CHR '' '' \<notin> set target \<and> length meth < 8 \<and> length target < 256"
proof -
  have crlf: "find_crlf s = Some (l, r) \<Longrightarrow> s = l @ CRLF @ r" for s l r
    by (induction s arbitrary: l) (auto simp: CRLF_def neq_Nil_conv split: if_splits option.splits)
  obtain l rest where l: "find_crlf hdr = Some (l, rest)"
    using assms by (auto simp: parse_request_line_def split: option.splits)
  obtain m r1 where m: "split_at CHR '' '' l = Some (m, r1)"
    using assms l by (auto simp: parse_request_line_def split: option.splits)
  obtain p version where p: "split_at CHR '' '' r1 = Some (p, version)"
    using assms l m by (auto simp: parse_request_line_def split: option.splits)
  have r: "m = meth" "p = target" "h = Some rest" "meth \<noteq> []" "target \<noteq> []" "length meth < 8" "length target < 256"
    "version = ''HTTP/1.1'' \<or> version = ''HTTP/1.0''"
    using assms l m p by (auto simp: parse_request_line_def split: if_splits)
  have "hdr = meth @ '' '' @ target @ '' '' @ version @ CRLF @ rest"
    using crlf [OF l] split_at_Some [OF m] split_at_Some [OF p] r by simp
  then show ?thesis using r split_at_Some [OF m] split_at_Some [OF p] by (intro exI) auto
qed

lemma request_line_complete:
  assumes "find_crlf (meth @ '' '' @ target @ '' '' @ version) = None" "version = ''HTTP/1.1'' \<or> version = ''HTTP/1.0''"
    "meth \<noteq> []" "target \<noteq> []" "CHR '' '' \<notin> set meth" "CHR '' '' \<notin> set target" "length meth < 8" "length target < 256"
  shows "parse_request_line (meth @ '' '' @ target @ '' '' @ version @ CRLF @ rest) = (Some (meth, target), Some rest)"
proof -
  have "find_crlf (meth @ '' '' @ target @ '' '' @ version @ CRLF @ rest) = Some (meth @ '' '' @ target @ '' '' @ version, rest)"
    using find_crlf_line [OF assms(1), of rest] by simp
  moreover have "split_at CHR '' '' (meth @ '' '' @ target @ '' '' @ version) = Some (meth, target @ '' '' @ version)"
    using split_at_first [OF assms(5)] by simp
  moreover have "split_at CHR '' '' (target @ '' '' @ version) = Some (target, version)"
    using split_at_first [OF assms(6)] by simp
  moreover have "CHR '' '' \<notin> set version" using assms(2) by auto
  ultimately show ?thesis using assms(2-8) by (auto simp: parse_request_line_def)
qed

subsection \<open>Writing\<close>

lemma send_all_prefix:
  "send_all send i s = (ok, sent, j) \<Longrightarrow> (\<exists>r. s = sent @ r \<and> (ok \<longleftrightarrow> r = []))"
proof (induction send i s arbitrary: ok sent j rule: send_all.induct)
  case (1 send i s)
  show ?case
  proof (cases "s = [] \<or> send i s \<le> 0")
    case True
    then show ?thesis using 1(2) by (auto simp: send_all.simps [of send i s] Let_def split: if_splits)
  next
    case False
    obtain ok1 sent1 j1 where r: "send_all send (i + 1) (drop (nat (send i s)) s) = (ok1, sent1, j1)"
      by (cases "send_all send (i + 1) (drop (nat (send i s)) s)") auto
    obtain t where t: "drop (nat (send i s)) s = sent1 @ t" "ok1 \<longleftrightarrow> t = []"
      using 1(1) [OF _ refl _ r] False by auto
    have "s = take (nat (send i s)) s @ sent1 @ t" using t(1) by (metis append_take_drop_id)
    moreover have "ok = ok1" "sent = take (nat (send i s)) s @ sent1"
      using 1(2) False r by (auto simp: send_all.simps [of send i s] Let_def)
    ultimately show ?thesis using t(2) by (intro exI [of _ t]) simp
  qed
qed

lemma length_nat_str_small: "n < 10 ^ k \<Longrightarrow> 0 < k \<Longrightarrow> length (nat_str n) \<le> k"
proof (induction k arbitrary: n)
  case (Suc k)
  show ?case
  proof (cases "n < 10")
    case True
    then show ?thesis by (simp add: nat_str.simps [of n])
  next
    case False
    then have "0 < k" using Suc.prems(1) by (cases k) auto
    moreover have "n div 10 < 10 ^ k" using Suc.prems(1) by (simp add: less_mult_imp_div_less mult.commute)
    ultimately show ?thesis using Suc.IH [of "n div 10"] False by (simp add: nat_str.simps [of n])
  qed
qed simp

lemma length_escape: "length (json_escape s (Suc cap)) \<le> cap"
  using json_escape_loop_le [of "[]" "Suc cap" s] by (simp add: json_escape_def)

lemma error_text_fits:
  assumes "length esc \<le> 383" "\<forall>p. ep = Some p \<longrightarrow> length p \<le> 127" "\<forall>c. ec = Some c \<longrightarrow> length c \<le> 127"
  shows "length (error_text code esc ep ec) \<le> 767"
proof -
  have "length (quoted_or_null ep) \<le> 129" "length (quoted_or_null ec) \<le> 129"
    using assms(2,3) by (auto simp: quoted_or_null_def split: option.splits)
  then show ?thesis using assms(1) by (simp add: error_text_def)
qed

lemma response_header_fits:
  assumes "100 \<le> code" "code < 1000" "length ctype \<le> 64" "blen < 10 ^ 20"
  shows "length (response_header code ctype blen) \<le> 255"
proof -
  have "nat code < 10 ^ 3" using assms by simp
  then have "length (fmt_lld code) \<le> 3" using assms length_nat_str_small [of "nat code" 3] by (simp add: fmt_lld_def)
  moreover have "length (nat_str blen) \<le> 20" using assms(4) length_nat_str_small [of blen 20] by simp
  moreover have "length (reason_phrase code) \<le> 21" by (simp add: reason_phrase_def)
  ultimately show ?thesis using assms(3) by (simp add: response_header_def CRLF_def)
qed

lemma send_response_defined:
  assumes "length (response_header code ctype n) \<le> 255" "n \<le> length body"
  shows "\<exists>sent j. send_response send i code ctype body n = Some (sent, j) \<and>
    (\<exists>r. response_header code ctype n @ take n body = sent @ r)"
proof -
  obtain ok sent j where h: "send_all send i (response_header code ctype n) = (ok, sent, j)"
    by (cases "send_all send i (response_header code ctype n)") auto
  obtain r where r: "response_header code ctype n = sent @ r" "ok \<longleftrightarrow> r = []" using send_all_prefix [OF h] by blast
  have b: "buffer_bytes (take 255 (response_header code ctype n)) (length (response_header code ctype n)) =
      Some (response_header code ctype n)"
    using assms(1) by (simp add: buffer_bytes_def)
  show ?thesis
  proof (cases ok)
    case True
    obtain ok2 sent2 k where s: "send_all send j (take n body) = (ok2, sent2, k)"
      by (cases "send_all send j (take n body)") auto
    obtain r2 where "take n body = sent2 @ r2" using send_all_prefix [OF s] by blast
    then show ?thesis using h s b True r assms(2)
      by (simp add: send_response_def snprintf_to_def) (simp add: buffer_bytes_def)
  next
    case False
    then show ?thesis using h b r by (simp add: send_response_def snprintf_to_def)
  qed
qed

subsection \<open>Properties\<close>

text \<open>
  C15. Request framing has one meaning. On a header block of non-empty lines,
  \<open>parse_request_framing\<close> answers \<open>n\<close> exactly when no line is a \<open>Transfer-Encoding\<close> field and
  either no line is a \<open>Content-Length\<close> field and \<open>n\<close> is 0, or exactly one is and its value is
  digits, surrounded by blanks at most, denoting \<open>n\<close> without overflowing \<open>size_t\<close>. Field names
  are whole, line-anchored and compared in any case.
\<close>

theorem framing_unambiguous:
  assumes "list_all is_line lines"
  shows "parse_request_framing (block lines @ rest) (int (length (block lines)) - 2) = Some n \<longleftrightarrow>
    filter (field_named ''Transfer-Encoding'') lines = [] \<and>
    (filter (field_named ''Content-Length'') lines = [] \<and> n = 0 \<or>
     (\<exists>l a ds b. filter (field_named ''Content-Length'') lines = [l] \<and> field_value l = a @ ds @ b \<and>
        list_all blank a \<and> list_all blank b \<and> ds \<noteq> [] \<and> list_all is_digit ds \<and>
        n = dec_digits ds \<and> n \<le> SIZE_MAX))"
  unfolding framing_correct [OF assms] framing_spec_def
  by (auto simp: content_value_iff split: list.split)

lemma framing_unambiguous_witness:
  "parse_request_framing (block [''Content-Length: 12'', ''X: y''] @ CRLF)
     (int (length (block [''Content-Length: 12'', ''X: y''])) - 2) = Some 12"
proof -
  have l: "list_all is_line [''Content-Length: 12'', ''X: y'']" by (simp add: is_line_def)
  have "filter (field_named ''Content-Length'') [''Content-Length: 12'', ''X: y''] = [''Content-Length: 12''] \<and>
    filter (field_named ''Transfer-Encoding'') [''Content-Length: 12'', ''X: y''] = [] \<and>
    field_value ''Content-Length: 12'' = '' '' @ ''12'' @ []"
    by (simp add: field_named_def same_name_def ci_char_def field_value_def)
  moreover have "dec_digits ''12'' = 12" "list_all is_digit ''12''" "list_all blank '' ''"
    by (simp_all add: dec_digits_def is_digit_def blank_def)
  moreover have "(12 :: nat) \<le> SIZE_MAX" by (simp add: SIZE_MAX_def)
  ultimately show ?thesis
    unfolding framing_unambiguous [OF l]
    by (intro conjI disjI2 exI [of _ "''Content-Length: 12''"] exI [of _ "'' ''"] exI [of _ "''12''"]
        exI [of _ "[]"]) simp_all
qed






text \<open>
  \<open>send_all\<close> is all or a prefix: whatever the socket accepts per call, it ends, the bytes
  sent are a prefix of the buffer in order, and it reports success exactly when all were sent.
\<close>

theorem send_all_complete:
  "case send_all send i s of (ok, sent, j) \<Rightarrow> (\<exists>r. s = sent @ r \<and> (ok \<longleftrightarrow> r = []))"
  using send_all_prefix [of send i s] by (cases "send_all send i s") auto

text \<open>
  Error responses never read past their buffers: for every message, parameter name and
  error code, however long and with whatever bytes, the formatted body fits the 768-byte
  array and the header its 256 bytes, so \<open>send_error_detail\<close> sends exactly a prefix of the
  response and never bytes that were not written.
\<close>

theorem send_error_detail_safe:
  assumes "100 \<le> code" "code < 1000"
  shows "\<exists>sent j body r. send_error_detail send i code message param error_code = Some (sent, j) \<and>
    length body \<le> 767 \<and> response_header code ''application/json'' (length body) @ body = sent @ r"
proof -
  define body where "body = error_text code (json_escape message 384)
    (case param of None \<Rightarrow> None | Some p \<Rightarrow> Some (json_escape p 128))
    (case error_code of None \<Rightarrow> None | Some c \<Rightarrow> Some (json_escape c 128))"
  have l: "length body \<le> 767"
    unfolding body_def
    by (rule error_text_fits) (use length_escape [of _ 383] length_escape [of _ 127] in \<open>auto split: option.splits\<close>)
  have h: "length (response_header code ''application/json'' (length body)) \<le> 255"
    using assms l by (intro response_header_fits) auto
  have "send_error_detail send i code message param error_code =
      send_response send i code ''application/json'' body (length body)"
    using l by (simp add: send_error_detail_def snprintf_to_def body_def [symmetric])
  then show ?thesis using send_response_defined [OF h, of body send i] l by auto
qed

lemma send_error_detail_safe_witness:
  "\<exists>sent j body r. send_error_detail (\<lambda>i s. 1) 0 400 (replicate 5000 CHR 0x01) (Some ''x'') None = Some (sent, j) \<and>
    length body \<le> 767 \<and> response_header 400 ''application/json'' (length body) @ body = sent @ r"
  by (rule send_error_detail_safe) simp_all

end
