(* ===== verification/Vramreg_Laws.thy ===== *)
theory Vramreg_Laws
  imports Vramreg Http_Laws
begin

text \<open>
  Laws of the VRAM ledger: what is written is read back, an admitted claim leaves the pending claims within the
  device's free memory, commit and release touch exactly the lease's own entry, and the refusal message
  stays inside its buffer.
\<close>

subsection \<open>Numbers as text\<close>

lemma digit_not_space: "is_digit c \<Longrightarrow> \<not> c_space c"
  by (auto simp: is_digit_def c_space_def)

lemma skip_space_nat_str [simp]: "dropWhile c_space (nat_str n) = nat_str n"
  using nat_str_nonempty [of n] nat_str_hd_digit [of n] digit_not_space by (cases "nat_str n") auto

lemma scan_sign_nat_str: "scan_sign (nat_str n) = (False, nat_str n)"
proof (cases "nat_str n")
  case (Cons c s)
  then have "is_digit c" using nat_str_hd_digit [of n] by simp
  then show ?thesis using Cons by (auto simp: scan_sign_def is_digit_def)
qed (simp add: scan_sign_def)

lemma skip_space_lld [simp]: "dropWhile c_space (fmt_lld v) = fmt_lld v"
  by (simp add: fmt_lld_def c_space_def)

lemma strtol_lld: "llong_min \<le> v \<Longrightarrow> v \<le> llong_max \<Longrightarrow> strtol (fmt_lld v) = v"
proof (cases "v < 0")
  case True
  assume "llong_min \<le> v" "v \<le> llong_max"
  with True show ?thesis
    by (simp add: strtol_def strtoll_def fmt_lld_def c_space_def scan_sign_def takeWhile_nat_str dec_digits_nat_str
        nat_str_nonempty Let_def)
next
  case False
  assume "llong_min \<le> v" "v \<le> llong_max"
  with False show ?thesis
    by (simp add: strtol_def strtoll_def fmt_lld_def scan_sign_nat_str takeWhile_nat_str dec_digits_nat_str
        nat_str_nonempty Let_def)
qed

lemma strtoull_nat_str: "fst (strtoull (nat_str (unat w))) = w"
proof -
  have "\<not> unat UINT64_MAX < unat w" using unsigned_less [of w, where ?'a = nat] by simp
  then show ?thesis
    by (simp add: strtoull_def scan_sign_nat_str takeWhile_nat_str dec_digits_nat_str nat_str_nonempty Let_def)
qed

lemma nat_str_chars: "c \<in> set (nat_str n) \<Longrightarrow> is_digit c"
  using nat_str_digits [of n] by (simp add: list_all_iff)

lemma lld_chars: "c \<in> set (fmt_lld v) \<Longrightarrow> is_digit c \<or> c = CHR ''-''"
  by (auto simp: fmt_lld_def dest: nat_str_chars split: if_splits)

lemma digit_codes: "is_digit c \<Longrightarrow> c \<noteq> TAB \<and> c \<noteq> NL \<and> c \<noteq> CHR 0x00 \<and> c \<noteq> CHR ''#''"
  by (auto simp: is_digit_def)

lemma number_text_clean:
  "TAB \<notin> set (nat_str n)" "NL \<notin> set (nat_str n)" "CHR 0x00 \<notin> set (nat_str n)"
  "TAB \<notin> set (fmt_lld v)" "NL \<notin> set (fmt_lld v)" "CHR 0x00 \<notin> set (fmt_lld v)"
proof -
  have n: "c \<notin> set (nat_str n)" if "\<not> is_digit c" for c using that nat_str_chars by blast
  have l: "c \<notin> set (fmt_lld v)" if "\<not> is_digit c" "c \<noteq> CHR ''-''" for c using that lld_chars by blast
  have d: "\<not> is_digit TAB" "\<not> is_digit NL" "\<not> is_digit (CHR 0x00)" by (simp_all add: is_digit_def)
  show "TAB \<notin> set (nat_str n)" "NL \<notin> set (nat_str n)" "CHR 0x00 \<notin> set (nat_str n)" using n d by blast+
  show "TAB \<notin> set (fmt_lld v)" "NL \<notin> set (fmt_lld v)" "CHR 0x00 \<notin> set (fmt_lld v)" by (rule l; simp add: is_digit_def)+
qed

lemma length_nat_str_u64: "length (nat_str (unat (w :: 64 word))) \<le> 20"
proof (rule length_nat_str_small)
  show "unat w < 10 ^ 20" using unsigned_less [of w, where ?'a = nat] by simp
qed simp

lemma length_lld: "llong_min \<le> v \<Longrightarrow> v \<le> llong_max \<Longrightarrow> length (fmt_lld v) \<le> 20"
proof -
  assume v: "llong_min \<le> v" "v \<le> llong_max"
  then have "nat (- v) < 10 ^ 19" "nat v < 10 ^ 19" by (auto simp: llong_min_def llong_max_def)
  then have "length (nat_str (nat (- v))) \<le> 19" "length (nat_str (nat v)) \<le> 19"
    by (auto intro: length_nat_str_small)
  then show ?thesis by (auto simp: fmt_lld_def)
qed

subsection \<open>Entries that the file can hold\<close>

definition entry_ok :: "reg_entry \<Rightarrow> bool" where
  "entry_ok e \<longleftrightarrow>
     0 < r_pid e \<and> r_pid e \<le> llong_max \<and> llong_min \<le> r_seq e \<and> r_seq e \<le> llong_max \<and>
     (r_state e = CHR ''P'' \<or> r_state e = CHR ''C'' \<or> r_state e = CHR ''W'') \<and>
     length (r_model e) \<le> 255 \<and> TAB \<notin> set (r_model e) \<and> NL \<notin> set (r_model e) \<and> CHR 0x00 \<notin> set (r_model e) \<and>
     - (2 ^ 31) \<le> r_priority e \<and> r_priority e < 2 ^ 31"

lemma split_fields_more: "TAB \<notin> set f \<Longrightarrow> split_fields (Suc k) (f @ TAB # r) = f # split_fields k r"
  by (simp add: split_at_first)

lemma split_fields_last: "TAB \<notin> set f \<Longrightarrow> split_fields (Suc k) f = [f]"
  using split_at_None [of TAB f] by simp

lemma eight: "(8 :: nat) = Suc (Suc (Suc (Suc (Suc (Suc (Suc (Suc 0)))))))"
  by simp

lemma int_of_long_id: "- (2 ^ 31) \<le> v \<Longrightarrow> v < 2 ^ 31 \<Longrightarrow> int_of_long v = v"
  by (simp add: int_of_long_def signed_of_int signed_take_bit_int_eq_self)

definition line_body :: "reg_entry \<Rightarrow> string" where
  "line_body e =
     fmt_lld (r_pid e) @ TAB # fmt_lld (r_seq e) @ TAB # nat_str (unat (r_procstart e)) @ TAB #
     nat_str (unat (r_since e)) @ TAB # [r_state e] @ TAB # nat_str (unat (r_bytes e)) @ TAB #
     r_model e @ TAB # fmt_lld (r_priority e)"

lemma entry_line_body: "entry_line e = line_body e @ [NL]"
  by (simp add: entry_line_def line_body_def)

lemma body_fields:
  assumes "entry_ok e"
  shows "split_fields 8 (line_body e) =
    [fmt_lld (r_pid e), fmt_lld (r_seq e), nat_str (unat (r_procstart e)), nat_str (unat (r_since e)), [r_state e],
     nat_str (unat (r_bytes e)), r_model e, fmt_lld (r_priority e)]"
proof -
  have "TAB \<notin> set [r_state e]" "TAB \<notin> set (r_model e)" using assms by (auto simp: entry_ok_def)
  then show ?thesis
    unfolding line_body_def eight by (simp only: split_fields_more split_fields_last number_text_clean not_False_eq_True)
qed

lemma parse_line_body: "entry_ok e \<Longrightarrow> parse_line (line_body e) = Some e"
  using body_fields [of e]
  by (simp add: parse_line_def Let_def strtol_lld strtoull_nat_str int_of_long_id)
    (auto simp: entry_ok_def strtol_lld int_of_long_id llong_min_def llong_max_def)

lemma line_body_clean: "entry_ok e \<Longrightarrow> NL \<notin> set (line_body e) \<and> CHR 0x00 \<notin> set (line_body e)"
  using number_text_clean by (auto simp: line_body_def entry_ok_def)

lemma length_line_body: "entry_ok e \<Longrightarrow> length (line_body e) < 1000"
  using length_lld [of "r_pid e"] length_lld [of "r_seq e"] length_lld [of "r_priority e"]
    length_nat_str_u64 [of "r_procstart e"] length_nat_str_u64 [of "r_since e"] length_nat_str_u64 [of "r_bytes e"]
  by (auto simp: line_body_def entry_ok_def llong_min_def llong_max_def)

lemma hd_line_body: "entry_ok e \<Longrightarrow> line_body e \<noteq> [] \<and> hd (line_body e) \<noteq> CHR ''#''"
  using nat_str_nonempty [of "nat (r_pid e)"] nat_str_hd_digit [of "nat (r_pid e)"] digit_codes
  by (auto simp: line_body_def entry_ok_def fmt_lld_def hd_append)

subsection \<open>The file\<close>

definition ledger_text :: "reg_entry list \<Rightarrow> string" where
  "ledger_text es = concat (map entry_line es)"

lemma serialise_loop_text:
  "\<forall>e \<in> set es. entry_ok e \<Longrightarrow> off = length out \<Longrightarrow> off + length es * 1024 < cap \<Longrightarrow>
     serialise_loop cap out off es = out @ ledger_text es"
proof (induction es arbitrary: out off)
  case (Cons e es)
  have l: "length (entry_line e) < 1024" using Cons.prems(1) length_line_body [of e] by (simp add: entry_line_body)
  have "length (out @ entry_line e) + length es * 1024 < cap" using Cons.prems(2,3) l by simp
  then show ?case
    using Cons.IH [of "length (out @ entry_line e)" "out @ entry_line e"] Cons.prems l
    by (simp add: REG_LINE_MAX_def ledger_text_def)
qed (simp add: ledger_text_def)

lemma serialise_text: "\<forall>e \<in> set es. entry_ok e \<Longrightarrow> serialise es = ledger_text es"
  unfolding serialise_def by (subst serialise_loop_text) (simp_all add: REG_LINE_MAX_def)

lemma ledger_text_no_nul: "\<forall>e \<in> set es. entry_ok e \<Longrightarrow> cstr (ledger_text es) = ledger_text es"
proof -
  assume "\<forall>e \<in> set es. entry_ok e"
  then have "CHR 0x00 \<notin> set (ledger_text es)"
    using line_body_clean by (auto simp: ledger_text_def entry_line_body)
  then show ?thesis by (auto simp: cstr_def takeWhile_eq_all_conv)
qed

lemma parse_ledger_text:
  "\<forall>e \<in> set es. entry_ok e \<Longrightarrow> length es \<le> cap \<Longrightarrow> parse (ledger_text es) cap = es"
proof (induction es arbitrary: cap)
  case Nil
  then show ?case by (subst parse.simps) (simp add: ledger_text_def)
next
  case (Cons e es)
  have ok: "entry_ok e" using Cons.prems by simp
  have t: "ledger_text (e # es) = line_body e @ NL # ledger_text es"
    by (simp add: ledger_text_def entry_line_body)
  have s: "split_at NL (ledger_text (e # es)) = Some (line_body e, ledger_text es)"
    unfolding t using line_body_clean [OF ok] by (intro split_at_first) simp
  have "0 < cap" "ledger_text (e # es) \<noteq> []" using Cons.prems(2) t by auto
  moreover have "length (line_body e) < REG_LINE_MAX" using length_line_body [OF ok] by (simp add: REG_LINE_MAX_def)
  ultimately show ?case
    using Cons s parse_line_body [OF ok] hd_line_body [OF ok]
    by (subst parse.simps) (simp add: Let_def)
qed

lemma parse_serialise:
  "\<forall>e \<in> set es. entry_ok e \<Longrightarrow> length es \<le> REG_MAX_ENTRIES \<Longrightarrow> parse (cstr (serialise es)) REG_MAX_ENTRIES = es"
  by (simp add: serialise_text ledger_text_no_nul parse_ledger_text)

subsection \<open>What is read\<close>

lemma strtoll_range: "llong_min \<le> fst (strtoll s) \<and> fst (strtoll s) \<le> llong_max"
  by (simp add: strtoll_def Let_def llong_min_def llong_max_def split: prod.splits)

lemma split_fields_chars: "f \<in> set (split_fields k s) \<Longrightarrow> TAB \<notin> set f \<and> set f \<subseteq> set s"
proof (induction k arbitrary: s)
  case (Suc k)
  show ?case
  proof (cases "split_at TAB s")
    case None
    then show ?thesis using Suc.prems split_at_None [of TAB s] by simp
  next
    case (Some x)
    then obtain l r where x: "split_at TAB s = Some (l, r)" by (cases x) auto
    have s: "s = l @ TAB # r \<and> TAB \<notin> set l" by (rule split_at_Some [OF x])
    show ?thesis
    proof (cases "f = l")
      case True
      then show ?thesis using s by auto
    next
      case False
      then show ?thesis using Suc.prems Suc.IH [of r] x s by auto
    qed
  qed
qed simp

lemma int_of_long_range: "- (2 ^ 31) \<le> int_of_long v \<and> int_of_long v < 2 ^ 31"
  using signed_take_bit_int_greater_eq_minus_exp [of 31 v] signed_take_bit_int_less_exp [of 31 v]
  by (simp add: int_of_long_def signed_of_int)

lemma parse_line_ok:
  assumes "parse_line line = Some e" "NL \<notin> set line" "CHR 0x00 \<notin> set line"
  shows "entry_ok e"
proof -
  define f where "f = split_fields 8 line"
  have len: "length f = 7 \<or> length f = 8" using assms(1) by (auto simp: parse_line_def f_def Let_def split: if_splits)
  then have "f ! 6 \<in> set f" by auto
  then have m: "TAB \<notin> set (f ! 6)" "set (f ! 6) \<subseteq> set line" using split_fields_chars unfolding f_def by blast+
  have e: "r_model e = take 255 (f ! 6)" "r_pid e = strtol (f ! 0)" "r_seq e = strtol (f ! 1)" "0 < r_pid e"
    "r_state e = CHR ''P'' \<or> r_state e = CHR ''C'' \<or> r_state e = CHR ''W''"
    "r_priority e = (if length f = 8 then int_of_long (strtol (f ! 7)) else 0)"
    using assms(1) by (auto simp: parse_line_def f_def Let_def split: if_splits list.splits)
  have t: "set (take 255 (f ! 6)) \<subseteq> set (f ! 6)" by (rule set_take_subset)
  show ?thesis
    using e m t assms(2,3) strtoll_range [of "f ! 0"] strtoll_range [of "f ! 1"] int_of_long_range [of "strtol (f ! 7)"]
    by (auto simp: entry_ok_def strtol_def)
qed

lemma parse_ok: "CHR 0x00 \<notin> set s \<Longrightarrow> (\<forall>e \<in> set (parse s cap). entry_ok e) \<and> length (parse s cap) \<le> cap"
proof (induction "length s" arbitrary: s cap rule: less_induct)
  case less
  show ?case
  proof (cases "s = [] \<or> cap = 0")
    case True
    then show ?thesis by (subst (1 2) parse.simps) simp
  next
    case False
    define line where "line = (case split_at NL s of None \<Rightarrow> s | Some (l, _) \<Rightarrow> l)"
    define e where "e = (if 0 < length line \<and> length line < REG_LINE_MAX \<and> hd line \<noteq> CHR ''#'' then parse_line line else None)"
    have line: "NL \<notin> set line" "set line \<subseteq> set s"
      using split_at_None [of NL s] split_at_Some [of NL s] by (auto simp: line_def split: option.splits)
    have ok: "entry_ok x" if "e = Some x" for x
      using that parse_line_ok [of line x] line less.prems by (auto simp: e_def split: if_splits)
    show ?thesis
    proof (cases "split_at NL s")
      case None
      have p: "parse s cap = (case e of None \<Rightarrow> [] | Some x \<Rightarrow> [x])"
        using False None by (subst parse.simps) (simp add: Let_def e_def line_def)
      show ?thesis unfolding p using ok False by (cases e) auto
    next
      case (Some x)
      then obtain r where r: "split_at NL s = Some (line, r)" by (cases x) (auto simp: line_def)
      have nul: "CHR 0x00 \<notin> set r" using split_at_Some [OF r] less.prems by auto
      have IH: "(\<forall>e \<in> set (parse r k). entry_ok e) \<and> length (parse r k) \<le> k" for k
        using less.hyps [OF split_at_shorter [OF r] nul] .
      have p: "parse s cap = (case e of None \<Rightarrow> parse r cap | Some x \<Rightarrow> x # parse r (cap - 1))"
        using False r by (subst parse.simps) (simp add: Let_def e_def)
      show ?thesis
      proof (cases e)
        case None
        then show ?thesis using p IH by simp
      next
        case (Some y)
        then show ?thesis using p IH [of "cap - 1"] ok False by auto
      qed
    qed
  qed
qed

subsection \<open>The operations on the file\<close>

definition entries :: "string \<Rightarrow> reg_entry list" where
  "entries text = parse (cstr text) REG_MAX_ENTRIES"

lemma entries_ok: "(\<forall>e \<in> set (entries text). entry_ok e) \<and> length (entries text) \<le> REG_MAX_ENTRIES"
proof -
  have "CHR 0x00 \<notin> set (cstr text)" unfolding cstr_def by (metis (mono_tags, lifting) set_takeWhileD)
  then show ?thesis unfolding entries_def by (rule parse_ok)
qed

lemma length_filter_bound: "length es \<le> n \<Longrightarrow> length (filter P es) \<le> n"
  by (rule le_trans [OF length_filter_le])

lemma reap_ok: "(\<forall>e \<in> set es. entry_ok e) \<and> length es \<le> n \<Longrightarrow> (\<forall>e \<in> set (reap w es). entry_ok e) \<and> length (reap w es) \<le> n"
  by (auto simp: reap_def length_filter_bound)

lemma reap_all: "\<forall>e \<in> set es. P e \<Longrightarrow> \<forall>e \<in> set (reap w es). P e"
  by (simp add: reap_def)

lemma reap_append: "reap w (es @ es') = reap w es @ reap w es'"
  by (simp add: reap_def)

definition mine :: "int \<Rightarrow> int \<Rightarrow> reg_entry \<Rightarrow> bool" where
  "mine pid seq e \<longleftrightarrow> r_pid e = pid \<and> r_seq e = seq"

lemma edit_entries_remove:
  "ed_remove x \<Longrightarrow> edit_entries x es = filter (\<lambda>e. \<not> mine (ed_pid x) (ed_seq x) e) es"
  by (induction es) (auto simp: edit_entries_def mine_def Let_def)

lemma edit_entries_keep:
  "\<not> ed_remove x \<Longrightarrow>
     edit_entries x es = map (\<lambda>e. if mine (ed_pid x) (ed_seq x) e then e\<lparr>r_state := CHR ''C'', r_bytes := ed_bytes x\<rparr> else e) es"
  by (induction es) (auto simp: edit_entries_def mine_def Let_def)

lemma edit_entries_ok:
  "(\<forall>e \<in> set es. entry_ok e) \<and> length es \<le> n \<Longrightarrow>
     (\<forall>e \<in> set (edit_entries x es). entry_ok e) \<and> length (edit_entries x es) \<le> n"
  by (cases "ed_remove x") (auto simp: edit_entries_remove edit_entries_keep entry_ok_def length_filter_bound)

lemma edit_rmw_entries: "entries (edit_rmw x w text) = edit_entries x (reap w (entries text))"
  using edit_entries_ok [OF reap_ok [OF entries_ok [of "text"]], of x w] parse_serialise
  by (simp add: edit_rmw_def entries_def)

lemma vram_commit_entries:
  "entries (fst (vram_commit l n w text)) =
     map (\<lambda>e. if mine (ls_pid l) (ls_seq l) e then e\<lparr>r_state := CHR ''C'', r_bytes := n\<rparr> else e) (reap w (entries text))"
  by (simp add: vram_commit_def edit_rmw_entries edit_entries_keep)

lemma vram_release_entries:
  "entries (vram_release l w text) = filter (\<lambda>e. \<not> mine (ls_pid l) (ls_seq l) e) (reap w (entries text))"
  by (simp add: vram_release_def registry_rollback_def edit_rmw_entries edit_entries_remove)

text \<open>What a claim asks for fits the format.\<close>

definition claim_ok :: "claim_ctx \<Rightarrow> bool" where
  "claim_ok c \<longleftrightarrow>
     0 < cl_pid c \<and> cl_pid c \<le> llong_max \<and> llong_min \<le> cl_seq c \<and> cl_seq c \<le> llong_max \<and>
     - (2 ^ 31) \<le> cl_priority c \<and> cl_priority c < 2 ^ 31 \<and>
     (case cl_model c of Some m \<Rightarrow> CHR 0x00 \<notin> set m | None \<Rightarrow> True)"

lemma clean_model_ok:
  "(case m of Some s \<Rightarrow> CHR 0x00 \<notin> set s | None \<Rightarrow> True) \<Longrightarrow>
     length (clean_model m) \<le> 255 \<and> TAB \<notin> set (clean_model m) \<and> NL \<notin> set (clean_model m) \<and> CHR 0x00 \<notin> set (clean_model m)"
  by (auto simp: clean_model_def dest: in_set_takeD split: option.splits)

lemma claim_entry_ok: "claim_ok c \<Longrightarrow> st = CHR ''P'' \<or> st = CHR ''W'' \<Longrightarrow> entry_ok (claim_entry c w st)"
  using clean_model_ok [of "cl_model c"] by (auto simp: claim_ok_def claim_entry_def entry_ok_def)

definition others :: "claim_ctx \<Rightarrow> world \<Rightarrow> reg_entry list \<Rightarrow> reg_entry list" where
  "others c w read = (if cl_waiting c then filter (\<lambda>e. \<not> own_marker c e) (reap w read) else reap w read)"

lemma others_ok: "(\<forall>e \<in> set es. entry_ok e) \<and> length es \<le> n \<Longrightarrow> (\<forall>e \<in> set (others c w es). entry_ok e) \<and> length (others c w es) \<le> n"
  using reap_ok [of es n w] by (auto simp: others_def length_filter_bound)

lemma claim_entries_cases:
  "claim_entries c w read = (adm, es, st, err) \<Longrightarrow>
     (adm \<longleftrightarrow> cl_need c \<le> available w (others c w read) \<and> \<not> outranked c (available w (others c w read)) (others c w read)) \<and>
     es = others c w read @
       (if length (others c w read) < REG_MAX_ENTRIES then
          (if adm then [claim_entry c w CHR ''P''] else if cl_waiting c then [claim_entry c w CHR ''W''] else []) else []) \<and>
     st = claim_status c w (others c w read)"
  by (auto simp: claim_entries_def others_def Let_def split: if_splits)

lemma claim_rmw_entries:
  assumes "claim_rmw c w text = (adm, out, st, err)" "claim_ok c"
  shows "claim_entries c w (entries text) = (adm, entries out, st, err)"
proof -
  obtain es where es: "claim_entries c w (entries text) = (adm, es, st, err)" "out = serialise es"
    using assms(1) by (auto simp: claim_rmw_def entries_def split: prod.splits)
  have "(\<forall>e \<in> set es. entry_ok e) \<and> length es \<le> REG_MAX_ENTRIES"
    using claim_entries_cases [OF es(1)] others_ok [OF entries_ok [of "text"], of c w] claim_entry_ok [OF assms(2)] by auto
  then show ?thesis using es parse_serialise by (simp add: entries_def)
qed

subsection \<open>The arithmetic of a claim\<close>

lemma pending_append: "pending_bytes (es @ es') = pending_bytes es + pending_bytes es'"
  by (simp add: pending_bytes_def)

lemma admitted_fits:
  assumes "cl_need c \<le> available w es" "cl_need c \<noteq> 0"
  shows "pending_bytes es + cl_need c \<le> w_free w" "unat (pending_bytes es + cl_need c) = unat (pending_bytes es) + unat (cl_need c)"
proof -
  have gt: "pending_bytes es < w_free w" "cl_need c \<le> w_free w - pending_bytes es"
    using assms by (auto simp: available_def split: if_splits)
  then have "unat (cl_need c) + unat (pending_bytes es) \<le> unat (w_free w)"
    by (simp add: word_le_nat_alt word_less_nat_alt unat_sub)
  moreover have "unat (w_free w) < 2 ^ 64" using unsigned_less [of "w_free w", where ?'a = nat] by simp
  ultimately show "unat (pending_bytes es + cl_need c) = unat (pending_bytes es) + unat (cl_need c)"
    "pending_bytes es + cl_need c \<le> w_free w"
    by (simp_all add: unat_word_ariths word_le_nat_alt)
qed

subsection \<open>The message\<close>

lemma err_add_fits: "length (fst err) < cap \<Longrightarrow> length (fst (err_add cap err t)) < cap"
  by (cases err) (auto simp: err_add_def)

lemma refusal_holders_fits: "length (fst err) < cap \<Longrightarrow> length (fst (refusal_holders cap now es err)) < cap"
proof (induction es arbitrary: err)
  case (Cons e es)
  then show ?case by (simp only: refusal_holders.simps split: if_split) (blast intro: err_add_fits)
qed simp

lemma refusal_fits: "0 < cl_err_cap c \<Longrightarrow> length (fst (refusal c w pending avail es)) < cl_err_cap c"
  by (auto simp: refusal_def Let_def intro!: err_add_fits refusal_holders_fits)

text \<open>A line with more than eight fields is not refused: the first eight are taken.\<close>

lemma parse_nine_fields:
  assumes "entry_ok e"
  shows "parse_line (line_body e @ TAB # t) = Some e"
proof -
  have c: "TAB \<notin> set [r_state e]" "TAB \<notin> set (r_model e)" using assms by (auto simp: entry_ok_def)
  have l: "line_body e @ TAB # t = fmt_lld (r_pid e) @ TAB # fmt_lld (r_seq e) @ TAB # nat_str (unat (r_procstart e)) @ TAB #
     nat_str (unat (r_since e)) @ TAB # [r_state e] @ TAB # nat_str (unat (r_bytes e)) @ TAB #
     r_model e @ TAB # fmt_lld (r_priority e) @ TAB # t"
    by (simp add: line_body_def)
  have "split_fields 8 (line_body e @ TAB # t) = split_fields 8 (line_body e)"
    unfolding body_fields [OF assms] unfolding l eight
    by (simp only: split_fields_more number_text_clean c split_fields.simps(1) not_False_eq_True)
  then show ?thesis using parse_line_body [OF assms] by (simp add: parse_line_def)
qed

subsection \<open>Properties\<close>

definition sample_claim :: claim_ctx where
  "sample_claim = \<lparr>cl_gpu_id = None, cl_model = Some ''m'', cl_need = 100, cl_priority = 0, cl_waiting = False, cl_pid = 7,
     cl_seq = 1, cl_procstart = 5, cl_err_cap = 512\<rparr>"

definition sample_world :: world where
  "sample_world = \<lparr>w_alive = (\<lambda>p. True), w_start = (\<lambda>p. None), w_now = 50, w_free = 1000\<rparr>"

lemma sample_claim_ok: "claim_ok sample_claim"
  by (simp add: claim_ok_def sample_claim_def llong_min_def llong_max_def)

lemma entries_empty: "entries [] = []"
  unfolding entries_def cstr_def by (subst parse.simps) simp

definition sample_ledger :: string where
  "sample_ledger = serialise [claim_entry sample_claim sample_world CHR ''P'']"

lemma sample_admitted:
  "claim_rmw sample_claim sample_world [] = (True, sample_ledger, claim_status sample_claim sample_world [], None)"
  using entries_empty unfolding entries_def
  by (simp add: claim_rmw_def claim_entries_def sample_ledger_def reap_def sample_claim_def sample_world_def outranked_def
      available_def pending_bytes_def REG_MAX_ENTRIES_def Let_def)

text \<open>C31: the ledger file loses nothing: any list of entries that fits the format and the reader's limit is read back
  as it was written.\<close>

theorem ledger_roundtrip:
  assumes "\<forall>e \<in> set es. entry_ok e" "length es \<le> REG_MAX_ENTRIES"
  shows "parse (cstr (serialise es)) REG_MAX_ENTRIES = es"
  using assms by (rule parse_serialise)

theorem ledger_roundtrip_witness:
  "parse (cstr (serialise [claim_entry sample_claim sample_world CHR ''P''])) REG_MAX_ENTRIES =
     [claim_entry sample_claim sample_world CHR ''P'']"
  using claim_entry_ok [OF sample_claim_ok] by (intro ledger_roundtrip) (simp_all add: REG_MAX_ENTRIES_def)



text \<open>C33: a lease edits exactly its own entry: after a claim the commit turns every living entry of the lease, and no other, into
  one that is committed with the actual bytes; and after the release the ledger is what it was before the claim, less the
  owners that have died since.\<close>

theorem claim_commit_release:
  assumes "claim_rmw c wa t0 = (True, t1, st, err)" "claim_ok c"
    and "\<forall>e \<in> set (entries t0). \<not> mine (cl_pid c) (cl_seq c) e"
    and "ls_pid l = cl_pid c" "ls_seq l = cl_seq c"
  shows "entries (fst (vram_commit l n wb t1)) =
      map (\<lambda>e. if mine (cl_pid c) (cl_seq c) e then e\<lparr>r_state := CHR ''C'', r_bytes := n\<rparr> else e) (reap wb (entries t1)) \<and>
    entries (vram_release l wc (fst (vram_commit l n wb t1))) = reap wc (reap wb (reap wa (entries t0)))"
proof -
  let ?m = "mine (cl_pid c) (cl_seq c)"
  have fresh: "\<forall>e \<in> set (reap w es). \<not> ?m e" if "\<forall>e \<in> set es. \<not> ?m e" for w es using that by (auto simp: reap_def)
  have f1: "\<forall>e \<in> set (reap wa (entries t0)). \<not> ?m e" by (rule fresh [OF assms(3)])
  have own: "own_marker c e \<Longrightarrow> ?m e" for e by (simp add: own_marker_def mine_def)
  have "filter (\<lambda>e. \<not> own_marker c e) (reap wa (entries t0)) = reap wa (entries t0)" using f1 own by (intro filter_True) blast
  then have o': "others c wa (entries t0) = reap wa (entries t0)" by (simp add: others_def)
  obtain x where x: "entries t1 = reap wa (entries t0) @ x" "\<forall>e \<in> set x. ?m e"
    using claim_entries_cases [OF claim_rmw_entries [OF assms(1,2)]] unfolding o'
    by (auto simp: claim_entry_def mine_def split: if_splits)
  have com: "entries (fst (vram_commit l n wb t1)) =
      map (\<lambda>e. if ?m e then e\<lparr>r_state := CHR ''C'', r_bytes := n\<rparr> else e) (reap wb (entries t1))"
    by (simp add: vram_commit_entries assms(4,5))
  have same: "map (\<lambda>e. if ?m e then e\<lparr>r_state := CHR ''C'', r_bytes := n\<rparr> else e) (reap wb (reap wa (entries t0))) =
      reap wb (reap wa (entries t0))"
    using fresh [OF f1] by (intro map_idI) simp
  let ?x = "map (\<lambda>e. if ?m e then e\<lparr>r_state := CHR ''C'', r_bytes := n\<rparr> else e) (reap wb x)"
  have xs: "\<forall>e \<in> set ?x. ?m e" using x(2) by (auto simp: reap_def mine_def)
  have com': "entries (fst (vram_commit l n wb t1)) = reap wb (reap wa (entries t0)) @ ?x"
    by (simp only: com x(1) reap_append map_append same)
  have "filter (\<lambda>e. \<not> ?m e) (reap wc ?x) = []" using reap_all [OF xs] by (intro filter_False) blast
  moreover have "filter (\<lambda>e. \<not> ?m e) (reap wc (reap wb (reap wa (entries t0)))) = reap wc (reap wb (reap wa (entries t0)))"
    using fresh [OF fresh [OF f1]] by (intro filter_True) blast
  ultimately have "entries (vram_release l wc (fst (vram_commit l n wb t1))) = reap wc (reap wb (reap wa (entries t0)))"
    by (simp add: vram_release_entries com' assms(4,5) reap_append)
  then show ?thesis using com by blast
qed

theorem claim_commit_release_witness:
  "entries (vram_release \<lparr>ls_path = [], ls_pid = 7, ls_seq = 1, ls_bytes = 100\<rparr> sample_world
     (fst (vram_commit \<lparr>ls_path = [], ls_pid = 7, ls_seq = 1, ls_bytes = 100\<rparr> 90 sample_world sample_ledger))) = []"
  using claim_commit_release [OF sample_admitted sample_claim_ok, where wb = sample_world and wc = sample_world and n = 90
      and l = "\<lparr>ls_path = [], ls_pid = 7, ls_seq = 1, ls_bytes = 100\<rparr>"]
  by (simp add: entries_empty reap_def sample_claim_def)

text \<open>The refusal message never overruns the caller's buffer, whatever the entries, the device and the model are
  called.\<close>

theorem refusal_in_buffer:
  assumes "claim_rmw c w text = (admitted, out, st, Some message)"
  shows "length message < cl_err_cap c"
  using assms refusal_fits [of c] by (auto simp: claim_rmw_def claim_entries_def Let_def split: prod.splits if_splits)

definition sample_refused :: claim_ctx where
  "sample_refused = sample_claim\<lparr>cl_need := 2000, cl_err_cap := 8\<rparr>"

theorem refusal_in_buffer_witness:
  "\<exists>message. snd (snd (snd (claim_rmw sample_refused sample_world []))) = Some message \<and> length message < 8"
proof -
  obtain out st m where r: "claim_rmw sample_refused sample_world [] = (False, out, st, Some m)"
    using entries_empty unfolding entries_def
    by (auto simp: claim_rmw_def claim_entries_def reap_def sample_refused_def sample_claim_def sample_world_def
        outranked_def available_def pending_bytes_def Let_def)
  then show ?thesis using refusal_in_buffer [OF r] by (simp add: sample_refused_def)
qed

end
