(* ===== verification/Sha256.thy ===== *)
theory Sha256
  imports Http Compat
begin

text \<open>
  The SHA-256 of \<open>src/envelope.c\<close>: the block function, the streaming context and the hash of a whole file. A byte
  is a character. The context lies on the stack: \<open>stale\<close> is what its buffer holds before anything is
  written to it.
\<close>

subsection \<open>The context\<close>

record sha256_ctx =
  sh_h :: "32 word list"
  sh_len :: "64 word"
  sh_buf :: string
  sh_n :: nat

text \<open>\<open>n\<close> is never 0 or 32.\<close>

definition sha_rotr :: "32 word \<Rightarrow> nat \<Rightarrow> 32 word" where
  "sha_rotr x n = (drop_bit n x OR push_bit (32 - n) x)"

definition sha_iv :: "32 word list" where
  "sha_iv = [
     0x6a09e667, 0xbb67ae85, 0x3c6ef372, 0xa54ff53a,
     0x510e527f, 0x9b05688c, 0x1f83d9ab, 0x5be0cd19]"

definition sha256_init :: "string \<Rightarrow> sha256_ctx" where
  "sha256_init stale = \<lparr>sh_h = sha_iv, sh_len = 0, sh_buf = stale, sh_n = 0\<rparr>"

definition sha_k :: "32 word list" where
  "sha_k =
     [0x428a2f98, 0x71374491, 0xb5c0fbcf, 0xe9b5dba5, 0x3956c25b, 0x59f111f1] @
     [0x923f82a4, 0xab1c5ed5, 0xd807aa98, 0x12835b01, 0x243185be, 0x550c7dc3] @
     [0x72be5d74, 0x80deb1fe, 0x9bdc06a7, 0xc19bf174, 0xe49b69c1, 0xefbe4786] @
     [0x0fc19dc6, 0x240ca1cc, 0x2de92c6f, 0x4a7484aa, 0x5cb0a9dc, 0x76f988da] @
     [0x983e5152, 0xa831c66d, 0xb00327c8, 0xbf597fc7, 0xc6e00bf3, 0xd5a79147] @
     [0x06ca6351, 0x14292967, 0x27b70a85, 0x2e1b2138, 0x4d2c6dfc, 0x53380d13] @
     [0x650a7354, 0x766a0abb, 0x81c2c92e, 0x92722c85, 0xa2bfe8a1, 0xa81a664b] @
     [0xc24b8b70, 0xc76c51a3, 0xd192e819, 0xd6990624, 0xf40e3585, 0x106aa070] @
     [0x19a4c116, 0x1e376c08, 0x2748774c, 0x34b0bcb5, 0x391c0cb3, 0x4ed8aa4a] @
     [0x5b9cca4f, 0x682e6ff3, 0x748f82ee, 0x78a5636f, 0x84c87814, 0x8cc70208] @
     [0x90befffa, 0xa4506ceb, 0xbef9a3f7, 0xc67178f2]"

subsection \<open>A block\<close>

text \<open>Word \<open>i\<close> of the block, big endian.\<close>

definition block_word :: "string \<Rightarrow> nat \<Rightarrow> 32 word" where
  "block_word p i =
     (push_bit 24 (word_of_nat (byte (p ! (i * 4)))) OR push_bit 16 (word_of_nat (byte (p ! (i * 4 + 1)))) OR
      push_bit 8 (word_of_nat (byte (p ! (i * 4 + 2)))) OR word_of_nat (byte (p ! (i * 4 + 3))))"

text \<open>The second loop over \<open>w\<close>, \<open>k\<close> turns before its end; \<open>w\<close> holds the words below \<open>i\<close>.\<close>

fun schedule :: "nat \<Rightarrow> 32 word list \<Rightarrow> 32 word list" where
  "schedule 0 w = w"
| "schedule (Suc k) w =
     (let i = length w;
          s0 = sha_rotr (w ! (i - 15)) 7 XOR sha_rotr (w ! (i - 15)) 18 XOR drop_bit 3 (w ! (i - 15));
          s1 = sha_rotr (w ! (i - 2)) 17 XOR sha_rotr (w ! (i - 2)) 19 XOR drop_bit 10 (w ! (i - 2))
      in schedule k (w @ [w ! (i - 16) + s0 + w ! (i - 7) + s1]))"

type_synonym regs = "32 word \<times> 32 word \<times> 32 word \<times> 32 word \<times> 32 word \<times> 32 word \<times> 32 word \<times> 32 word"

text \<open>One turn of the third loop.\<close>

definition sha_round :: "32 word \<Rightarrow> 32 word \<Rightarrow> regs \<Rightarrow> regs" where
  "sha_round k w = (\<lambda>(a, b, cc, d, e, f, g, hh).
     let s1 = sha_rotr e 6 XOR sha_rotr e 11 XOR sha_rotr e 25;
         ch = (e AND f) XOR (NOT e AND g);
         t1 = hh + s1 + ch + k + w;
         s0 = sha_rotr a 2 XOR sha_rotr a 13 XOR sha_rotr a 22;
         maj = (a AND b) XOR (a AND cc) XOR (b AND cc);
         t2 = s0 + maj
     in (t1 + t2, a, b, cc, d + t1, e, f, g))"

fun sha_rounds :: "(32 word \<times> 32 word) list \<Rightarrow> regs \<Rightarrow> regs" where
  "sha_rounds [] r = r"
| "sha_rounds ((k, w) # kws) r = sha_rounds kws (sha_round k w r)"

text \<open>\<open>sha256_block\<close> on the eight words of the state.\<close>

definition sha256_block :: "32 word list \<Rightarrow> string \<Rightarrow> 32 word list" where
  "sha256_block h p =
     (let w = schedule 48 (map (block_word p) [0..<16])
      in case sha_rounds (zip sha_k w) (h ! 0, h ! 1, h ! 2, h ! 3, h ! 4, h ! 5, h ! 6, h ! 7) of
           (a, b, cc, d, e, f, g, hh) \<Rightarrow>
             [h ! 0 + a, h ! 1 + b, h ! 2 + cc, h ! 3 + d, h ! 4 + e, h ! 5 + f, h ! 6 + g, h ! 7 + hh])"

subsection \<open>The stream\<close>

text \<open>\<open>memcpy(buf + n, p, take)\<close>.\<close>

definition buf_write :: "string \<Rightarrow> nat \<Rightarrow> string \<Rightarrow> string" where
  "buf_write buf n s = take n buf @ s @ drop (n + length s) buf"

text \<open>The loop of \<open>sha256_update\<close>; a full buffer would make no progress, and there is none between two turns.\<close>

function update_loop :: "sha256_ctx \<Rightarrow> string \<Rightarrow> sha256_ctx" where
  "update_loop c p =
     (if p = [] \<or> sh_n c \<ge> 64 then c
      else
        (let k = min (64 - sh_n c) (length p);
             c1 = c\<lparr>sh_buf := buf_write (sh_buf c) (sh_n c) (take k p), sh_n := sh_n c + k\<rparr>;
             c2 = (if sh_n c1 = 64 then c1\<lparr>sh_h := sha256_block (sh_h c1) (sh_buf c1), sh_n := 0\<rparr> else c1)
         in update_loop c2 (drop k p)))"
  by pat_completeness auto
termination
  by (relation "measure (\<lambda>(c, p). length p)") auto

declare update_loop.simps [simp del]

definition sha256_update :: "sha256_ctx \<Rightarrow> string \<Rightarrow> sha256_ctx" where
  "sha256_update c p = update_loop (c\<lparr>sh_len := sh_len c + word_of_nat (length p)\<rparr>) p"

text \<open>The loop that pads with zeros, at most \<open>k\<close> times.\<close>

fun zero_loop :: "nat \<Rightarrow> sha256_ctx \<Rightarrow> sha256_ctx option" where
  "zero_loop 0 c = (if sh_n c \<noteq> 56 then None else Some c)"
| "zero_loop (Suc k) c = (if sh_n c \<noteq> 56 then zero_loop k (sha256_update c [CHR 0x00]) else Some c)"

text \<open>Eight bytes and four bytes, big endian.\<close>

definition be64 :: "64 word \<Rightarrow> string" where
  "be64 x = map (\<lambda>i. char_of (unat (drop_bit (56 - i * 8) x) mod 256)) [0..<8]"

definition be32 :: "32 word \<Rightarrow> string" where
  "be32 x = map (\<lambda>i. char_of (unat (drop_bit (24 - i * 8) x) mod 256)) [0..<4]"

definition sha256_final :: "sha256_ctx \<Rightarrow> string option" where
  "sha256_final c =
     (let bits = sh_len c * 8
      in case zero_loop 64 (sha256_update c [CHR 0x80]) of
           None \<Rightarrow> None
         | Some c1 \<Rightarrow> Some (concat (map be32 (sh_h (sha256_update c1 (be64 bits))))))"

subsection \<open>A file\<close>

text \<open>The pieces in which \<open>fread\<close> delivers a file.\<close>

function pieces :: "nat \<Rightarrow> string \<Rightarrow> string list" where
  "pieces k s = (if s = [] \<or> k = 0 then [] else take k s # pieces k (drop k s))"
  by pat_completeness auto
termination
  by (relation "measure (\<lambda>(k, s). length s)") auto

declare pieces.simps [simp del]

definition hexd :: "nat \<Rightarrow> char" where
  "hexd n = ''0123456789abcdef'' ! n"

definition to_hex :: "string \<Rightarrow> string" where
  "to_hex d = concat (map (\<lambda>b. [hexd (byte b div 16), hexd (byte b mod 16)]) d)"

text \<open>A file is what can be read of it, and whether a read error ended it. \<open>None\<close> is the result false.\<close>

definition envelope_file_sha256 :: "string \<Rightarrow> (string \<Rightarrow> (string \<times> bool) option) \<Rightarrow> string \<Rightarrow> string option" where
  "envelope_file_sha256 stale files path =
     (case files path of
        None \<Rightarrow> None
      | Some (s, failed) \<Rightarrow>
          (let c = foldl sha256_update (sha256_init stale) (pieces 65536 s)
           in if failed then None else map_option to_hex (sha256_final c)))"

end
