(* ===== verification/Envelope.thy ===== *)
theory Envelope
  imports Sha256
begin

text \<open>
  The measured-envelope manifest of \<open>src/envelope.c\<close>: reading the sidecar beside a model, deciding what it says of this
  runtime, and the gate that may refuse a load. Files are those of \<open>Sha256\<close>: what can be read, and whether a read
  error ended it. A path or name that may be NULL is an option. Text buffers are their C strings; a
  buffer of \<open>cap\<close> bytes takes \<open>cap - 1\<close> characters. \<open>cvt\<close> is what the machine makes of a double
  that no \<open>int\<close> holds, which C leaves undefined.
\<close>

datatype envelope_state = ENV_UNCLASSIFIED | ENV_CERTIFIED | ENV_OUTSIDE | ENV_EXPERIMENTAL | ENV_INDETERMINATE

definition DASH :: string where
  "DASH = [CHR 0xE2, CHR 0x80, CHR 0x94]"

text \<open>\<open>snprintf(out, cap, text)\<close>.\<close>

definition put :: "nat \<Rightarrow> string \<Rightarrow> string \<Rightarrow> string" where
  "put cap out s = (if cap = 0 then out else take (cap - 1) s)"

text \<open>\<open>snprintf(out + n, cap - n, text)\<close> where \<open>out\<close> holds \<open>n\<close> characters or more.\<close>

definition put_at :: "nat \<Rightarrow> nat \<Rightarrow> string \<Rightarrow> string \<Rightarrow> string" where
  "put_at cap n out s = (if cap \<le> n then out else take n out @ take (cap - n - 1) s)"

definition text_at :: "jv option \<Rightarrow> string \<Rightarrow> string" where
  "text_at v key = cstr (jv_str (jv_get v key) [])"

subsection \<open>The sidecar\<close>

definition lower_hex :: "char \<Rightarrow> char" where
  "lower_hex c = (if byte CHR ''A'' \<le> byte c \<and> byte c \<le> byte CHR ''F'' then char_of (byte c + 32) else c)"

fun hex_eq_ci :: "string \<Rightarrow> string \<Rightarrow> bool" where
  "hex_eq_ci [] [] = True"
| "hex_eq_ci (a # s) (b # r) = (lower_hex a = lower_hex b \<and> hex_eq_ci s r)"
| "hex_eq_ci _ _ = False"

definition sidecar_matches_artifact :: "string \<Rightarrow> (string \<Rightarrow> (string \<times> bool) option) \<Rightarrow> jv \<Rightarrow> string \<Rightarrow> nat \<Rightarrow> string \<Rightarrow>
    bool \<times> string" where
  "sidecar_matches_artifact stale files m model_path cap out =
     (let want = text_at (jv_get (Some m) ''artifact'') ''sha256''
      in if want = [] then (True, out)
         else (case envelope_file_sha256 stale files model_path of
           None \<Rightarrow> (False, put cap out
             (''envelope: could not hash this artifact to verify the sidecar '' @ DASH @ '' ignored''))
         | Some have \<Rightarrow>
             if \<not> hex_eq_ci have want then
               (False, put cap out (''envelope: sidecar sha does not match this artifact '' @ DASH @ '' ignored''))
             else (True, out)))"

definition ENV_MAX_BYTES :: nat where
  "ENV_MAX_BYTES = 2 ^ 20"

definition read_sidecar :: "(string \<Rightarrow> (string \<times> bool) option) \<Rightarrow> string \<Rightarrow> string option" where
  "read_sidecar files model_path =
     (case files (model_path @ ''.envelope.json'') of
        None \<Rightarrow> None
      | Some (s, _) \<Rightarrow> Some (take (ENV_MAX_BYTES - 1) s))"

subsection \<open>What it says\<close>

definition or_else :: "string \<Rightarrow> string \<Rightarrow> string" where
  "or_else s dflt = (if s \<noteq> [] then s else dflt)"

definition classify :: "jv \<Rightarrow> string option \<Rightarrow> string option \<Rightarrow> nat \<Rightarrow> string \<Rightarrow> envelope_state \<times> string" where
  "classify m runtime_version backend cap out =
     (let schema = text_at (Some m) ''schema_version'';
          runtime = jv_get (Some m) ''runtime'';
          m_ver = text_at runtime ''version'';
          m_back = text_at (jv_get runtime ''kernel_set'') ''backend'';
          verdict = text_at (Some m) ''verdict'';
          rv = (case runtime_version of Some v \<Rightarrow> v | None \<Rightarrow> []);
          back = (case backend of Some b \<Rightarrow> b | None \<Rightarrow> ''(unknown)'');
          ver_match = (m_ver \<noteq> [] \<and> m_ver = rv);
          back_match = (m_back \<noteq> [] \<and> backend = Some m_back)
      in if schema \<noteq> ''xyntetik.runner.envelope.v1'' then
           (ENV_INDETERMINATE, put cap out
             (''envelope: manifest schema '' @ or_else schema ''(missing)'' @ '' not recognised (indeterminate)''))
         else if ver_match \<and> back_match then
           (if verdict = ''certified'' then
              (ENV_CERTIFIED, put cap out
                (''envelope: matches a measured envelope (certified: '' @ rv @ '' / '' @ back @ '')''))
            else if verdict = ''outside-envelope'' then
              (ENV_OUTSIDE, put cap out
                (''envelope: OUTSIDE the measured envelope for '' @ rv @ '' / '' @ back @ '' (measured refusal)''))
            else if verdict = ''experimental'' then
              (ENV_EXPERIMENTAL, put cap out
                (''envelope: measured for '' @ rv @ '' / '' @ back @ '', verdict experimental (not certified)''))
            else
              (ENV_INDETERMINATE, put cap out
                (''envelope: measured for '' @ rv @ '' / '' @ back @ '' but its verdict '' @ or_else verdict ''(missing)'' @
                 '' is unrecognised (indeterminate)'')))
         else
           (ENV_INDETERMINATE, put cap out
             (''envelope: measured on '' @ or_else m_ver ''(unknown)'' @ '' / '' @ or_else m_back ''(unknown)'' @
              '', not this runtime ('' @ rv @ '' / '' @ back @ '') '' @ DASH @ '' indeterminate here'')))"

text \<open>The loop over the checks: the text so far and \<open>written\<close>, which counts what would have been written.\<close>

fun reason_loop :: "(string \<times> jv) list \<Rightarrow> nat \<Rightarrow> string \<Rightarrow> nat \<Rightarrow> string \<times> nat" where
  "reason_loop [] cap out written = (out, written)"
| "reason_loop ((k, v) # ms) cap out written =
     (if cstr (jv_str (Some v) []) \<noteq> ''fail'' then reason_loop ms cap out written
      else
        (let s = (if written \<noteq> 0 then '', '' else []) @ cstr k;
             out' = put_at cap written out s; written' = written + length s
         in if written' + 1 \<ge> cap then (out', written') else reason_loop ms cap out' written'))"

definition outside_reason :: "jv \<Rightarrow> nat \<Rightarrow> string" where
  "outside_reason m cap =
     (case (case jv_get (jv_get (Some m) ''quality'') ''checks'' of Some (JObj ms) \<Rightarrow> reason_loop ms cap [] 0 | _ \<Rightarrow> ([], 0)) of
        (out, written) \<Rightarrow>
          if written = 0 then put cap out ''the configuration is outside what was measured'' else out)"

subsection \<open>The tool-calling line\<close>

text \<open>\<open>(int)d\<close>.\<close>

definition int_of_double :: "(rat \<Rightarrow> int) \<Rightarrow> rat \<Rightarrow> int" where
  "int_of_double cvt d =
     (let t = (if d \<ge> 0 then \<lfloor>d\<rfloor> else - \<lfloor>- d\<rfloor>) in if - (2 ^ 31) \<le> t \<and> t < 2 ^ 31 then t else cvt d)"

text \<open>The buffer \<open>parts\<close> of 192 bytes, the count \<open>p\<close> and the separator.\<close>

type_synonym parts = "string \<times> nat \<times> string"

definition add_part :: "parts \<Rightarrow> string \<Rightarrow> parts" where
  "add_part = (\<lambda>(parts, p, sep) s. (put_at 192 p parts (sep @ s), p + length (sep @ s), '', ''))"

definition is_obj :: "jv option \<Rightarrow> bool" where
  "is_obj v = (case v of Some (JObj _) \<Rightarrow> True | _ \<Rightarrow> False)"

definition tool_parts :: "(rat \<Rightarrow> int) \<Rightarrow> jv option \<Rightarrow> parts" where
  "tool_parts cvt tc =
     (let tr = jv_get tc ''truncation_recovery'';
          ps = ([], 0, []);
          ps = (if is_obj tr then
                  add_part ps (''truncation '' @ fmt_lld (int_of_double cvt (jv_num (jv_get tr ''rungs_passed'') 0)) @ ''/'' @
                    fmt_lld (int_of_double cvt (jv_num (jv_get tr ''rungs_total'') 0)))
                else ps);
          ss = jv_get tc ''schema_shape'';
          q = text_at ss ''held_to_quant'';
          ps = (if is_obj ss \<and> q \<noteq> [] then add_part ps (''schema-shape@'' @ q) else ps);
          agt = jv_get tc ''agent_torture'';
          g = text_at agt ''gate'';
          ps = (if is_obj agt \<and> g \<noteq> [] then add_part ps (''agent-torture '' @ g) else ps);
          nt = jv_get tc ''native_tool_protocol'';
          fam = text_at nt ''tool_family''
      in if is_obj nt \<and> fam \<noteq> [] then
           add_part ps ((if jv_bool (jv_get nt ''native'') False then ''native'' else ''non-native'') @ '' '' @ fam)
         else ps)"

definition append_tool_calling :: "(rat \<Rightarrow> int) \<Rightarrow> jv \<Rightarrow> nat \<Rightarrow> string \<Rightarrow> string" where
  "append_tool_calling cvt m cap out =
     (let tc = jv_get (Some m) ''tool_calling''
      in if \<not> is_obj tc then out
         else (case tool_parts cvt tc of
           (parts, p, _) \<Rightarrow>
             if p = 0 then out
             else
               (let gate = text_at tc ''gate''
                in put_at cap (length out) out
                     (if gate \<noteq> [] then [CHR 0x0A] @ ''envelope: tool-calling gate='' @ gate @ '' '' @ DASH @ '' '' @ parts
                      else [CHR 0x0A] @ ''envelope: tool-calling '' @ DASH @ '' '' @ parts))))"

subsection \<open>The two entry points\<close>

definition envelope_report :: "string \<Rightarrow> (rat \<Rightarrow> int) \<Rightarrow> (string \<Rightarrow> (string \<times> bool) option) \<Rightarrow>
    string option \<Rightarrow> string option \<Rightarrow> string option \<Rightarrow> nat \<Rightarrow> string \<Rightarrow> envelope_state \<times> string" where
  "envelope_report stale cvt files model_path runtime_version backend cap out =
     (let out = (if cap > 0 then [] else out)
      in case model_path of
           None \<Rightarrow> (ENV_UNCLASSIFIED, out)
         | Some path \<Rightarrow>
             (case read_sidecar files path of
                None \<Rightarrow> (ENV_UNCLASSIFIED, out)
              | Some s \<Rightarrow>
                  (case json_parse s of
                     None \<Rightarrow>
                       (ENV_INDETERMINATE, put cap out ''envelope: manifest present but unreadable (indeterminate)'')
                   | Some m \<Rightarrow>
                       (case sidecar_matches_artifact stale files m path cap out of
                          (False, out) \<Rightarrow> (ENV_INDETERMINATE, out)
                        | (True, out) \<Rightarrow>
                            (case classify m runtime_version backend cap out of
                               (state, out) \<Rightarrow> (state, append_tool_calling cvt m cap out))))))"

text \<open>Whether the load may go on, the message, and the state.\<close>

definition envelope_gate :: "string \<Rightarrow> (rat \<Rightarrow> int) \<Rightarrow> (string \<Rightarrow> (string \<times> bool) option) \<Rightarrow>
    string option \<Rightarrow> string option \<Rightarrow> string option \<Rightarrow> bool \<Rightarrow> nat \<Rightarrow> string \<Rightarrow> bool \<times> string \<times> envelope_state" where
  "envelope_gate stale cvt files model_path runtime_version backend forced cap msg =
     (let msg = (if cap > 0 then [] else msg)
      in case model_path of
           None \<Rightarrow> (True, msg, ENV_UNCLASSIFIED)
         | Some path \<Rightarrow>
             (case read_sidecar files path of
                None \<Rightarrow> (True, msg, ENV_UNCLASSIFIED)
              | Some s \<Rightarrow>
                  (case json_parse s of
                     None \<Rightarrow>
                       (True, put cap msg ''envelope: manifest present but unreadable (indeterminate)'', ENV_INDETERMINATE)
                   | Some m \<Rightarrow>
                       (case sidecar_matches_artifact stale files m path cap msg of
                          (False, msg) \<Rightarrow> (True, msg, ENV_INDETERMINATE)
                        | (True, msg) \<Rightarrow>
                            (case classify m runtime_version backend 256 [] of
                               (state, summary) \<Rightarrow>
                                 (let reason = outside_reason m 192;
                                      allow = (state \<noteq> ENV_OUTSIDE \<or> forced);
                                      msg = put cap msg
                                        (if state = ENV_OUTSIDE then
                                           (if forced then
                                              ''envelope: WARNING --force-uncertified: loading despite an OUTSIDE-envelope verdict ('' @
                                              reason @ '')''
                                            else
                                              ''envelope: refusing to load '' @ DASH @ '' OUTSIDE the measured envelope ('' @
                                              reason @ ''). Override with --force-uncertified.'')
                                         else summary)
                                  in (allow, append_tool_calling cvt m cap msg, state)))))))"

end
