(* ===== verification/Sha256_Laws.thy ===== *)
theory Sha256_Laws
  imports Sha256
begin

text \<open>
  The streaming hash of \<open>envelope.c\<close> is the SHA-256 of FIPS 180-4, stated here from the standard: rotations are
  those of the word library, the message schedule is a recurrence on its index, the message is padded as a whole.
\<close>

subsection \<open>The standard\<close>

definition fips_ch :: "32 word \<Rightarrow> 32 word \<Rightarrow> 32 word \<Rightarrow> 32 word" where
  "fips_ch x y z = (x AND y) XOR (NOT x AND z)"

definition fips_maj :: "32 word \<Rightarrow> 32 word \<Rightarrow> 32 word \<Rightarrow> 32 word" where
  "fips_maj x y z = (x AND y) XOR (x AND z) XOR (y AND z)"

definition fips_Sigma0 :: "32 word \<Rightarrow> 32 word" where
  "fips_Sigma0 x = word_rotr 2 x XOR word_rotr 13 x XOR word_rotr 22 x"

definition fips_Sigma1 :: "32 word \<Rightarrow> 32 word" where
  "fips_Sigma1 x = word_rotr 6 x XOR word_rotr 11 x XOR word_rotr 25 x"

definition fips_sigma0 :: "32 word \<Rightarrow> 32 word" where
  "fips_sigma0 x = word_rotr 7 x XOR word_rotr 18 x XOR drop_bit 3 x"

definition fips_sigma1 :: "32 word \<Rightarrow> 32 word" where
  "fips_sigma1 x = word_rotr 17 x XOR word_rotr 19 x XOR drop_bit 10 x"

text \<open>A block is 64 bytes; its words are big endian.\<close>

definition be_val :: "string \<Rightarrow> nat" where
  "be_val s = foldl (\<lambda>v b. 256 * v + byte b) 0 s"

fun fips_w :: "string \<Rightarrow> nat \<Rightarrow> 32 word" where
  "fips_w p t =
     (if t < 16 then word_of_nat (be_val (take 4 (drop (4 * t) p)))
      else fips_sigma1 (fips_w p (t - 2)) + fips_w p (t - 7) + fips_sigma0 (fips_w p (t - 15)) + fips_w p (t - 16))"

declare fips_w.simps [simp del]

text \<open>The registers after \<open>t\<close> rounds.\<close>

fun fips_rounds :: "string \<Rightarrow> nat \<Rightarrow> regs \<Rightarrow> regs" where
  "fips_rounds p 0 r = r"
| "fips_rounds p (Suc t) r =
     (case fips_rounds p t r of
        (a, b, c, d, e, f, g, h) \<Rightarrow>
          (let t1 = h + fips_Sigma1 e + fips_ch e f g + sha_k ! t + fips_w p t;
               t2 = fips_Sigma0 a + fips_maj a b c
           in (t1 + t2, a, b, c, d + t1, e, f, g)))"

definition fips_block :: "32 word list \<Rightarrow> string \<Rightarrow> 32 word list" where
  "fips_block h p =
     (case fips_rounds p 64 (h ! 0, h ! 1, h ! 2, h ! 3, h ! 4, h ! 5, h ! 6, h ! 7) of
        (a, b, c, d, e, f, g, hh) \<Rightarrow> map2 (+) [a, b, c, d, e, f, g, hh] h)"

text \<open>The message, a 1 bit, the least number of zeros, and the length in bits.\<close>

definition fips_pad :: "string \<Rightarrow> string" where
  "fips_pad m =
     m @ [CHR 0x80] @ replicate ((55 + 63 * length m) mod 64) CHR 0x00 @
     map (\<lambda>i. char_of (8 * length m div 256 ^ (7 - i) mod 256)) [0..<8]"

definition fips_sha256 :: "string \<Rightarrow> string" where
  "fips_sha256 m = concat (map be32 (foldl fips_block sha_iv (pieces 64 (fips_pad m))))"

text \<open>The constants are the fractions of the cube roots of the first 64 primes and of the square roots of the first
  eight, to 32 bits.\<close>

definition first_primes :: "nat list" where
  "first_primes = [2, 3, 5, 7, 11, 13, 17, 19, 23, 29, 31, 37, 41, 43, 47, 53, 59, 61, 67, 71, 73, 79, 83, 89, 97, 101,
     103, 107, 109, 113, 127, 131, 137, 139, 149, 151, 157, 163, 167, 173, 179, 181, 191, 193, 197, 199, 211, 223, 227,
     229, 233, 239, 241, 251, 257, 263, 269, 271, 277, 281, 283, 293, 307, 311]"

definition root_part :: "nat \<Rightarrow> nat \<Rightarrow> nat" where
  "root_part e p = length (takeWhile (\<lambda>i. i ^ e \<le> p) [1, 2, 3, 4, 5, 6, 7, 8])"

definition root_fraction :: "nat \<Rightarrow> nat \<Rightarrow> 32 word \<Rightarrow> bool" where
  "root_fraction e p k \<longleftrightarrow>
     (let v = root_part e p * 2 ^ 32 + unat k in v ^ e \<le> p * (2 ^ 32) ^ e \<and> p * (2 ^ 32) ^ e < (v + 1) ^ e)"

lemma sha_k_cube_roots: "list_all2 (root_fraction 3) first_primes sha_k"
  by (simp add: first_primes_def sha_k_def root_fraction_def root_part_def)

lemma sha_iv_square_roots: "list_all2 (root_fraction 2) (take 8 first_primes) sha_iv"
  by (simp add: first_primes_def sha_iv_def root_fraction_def root_part_def)

subsection \<open>A block\<close>

lemma sha_rotr_word: "0 < n \<Longrightarrow> n < 32 \<Longrightarrow> sha_rotr x n = word_rotr n x"
proof (rule bit_word_eqI)
  fix i assume n: "0 < n" "n < 32" and "i < LENGTH(32)"
  then have i: "i < 32" by simp
  show "bit (sha_rotr x n) i = bit (word_rotr n x) i"
  proof (cases "i + n < 32")
    case True
    then show ?thesis using n by (auto simp: sha_rotr_def bit_simps add.commute)
  next
    case False
    then have "\<not> bit x (n + i)" using bit_imp_le_length [of x "n + i"] by auto
    moreover have "(i + n) mod 32 = i - (32 - n)" using False i n by (simp add: mod_if)
    ultimately show ?thesis using False i n by (auto simp: sha_rotr_def bit_simps)
  qed
qed

lemma schedule_spec: "16 \<le> n \<Longrightarrow> schedule k (map (fips_w p) [0..<n]) = map (fips_w p) [0..<n + k]"
proof (induction k arbitrary: n)
  case (Suc k)
  have "fips_w p n = fips_sigma1 (fips_w p (n - 2)) + fips_w p (n - 7) + fips_sigma0 (fips_w p (n - 15)) + fips_w p (n - 16)"
    using Suc.prems by (simp add: fips_w.simps [of p n])
  then have "schedule (Suc k) (map (fips_w p) [0..<n]) = schedule k (map (fips_w p) [0..<Suc n])"
    using Suc.prems by (simp add: Let_def sha_rotr_word fips_sigma0_def fips_sigma1_def ac_simps)
  then show ?case using Suc.IH [of "Suc n"] Suc.prems by simp
qed simp

lemma push_bit_sum: "a < 2 ^ 8 \<Longrightarrow> b < 2 ^ n \<Longrightarrow> n \<le> 24 \<Longrightarrow>
    push_bit n (word_of_nat a) OR word_of_nat b = (word_of_nat (a * 2 ^ n + b) :: 32 word)"
proof -
  assume a: "a < 2 ^ 8" "b < 2 ^ n" "n \<le> 24"
  have "take_bit n b = b" using a(2) by (rule take_bit_nat_eq_self)
  then have "\<not> bit b i" if "n \<le> i" for i using that by (metis bit_take_bit_iff not_le)
  then have "push_bit n (word_of_nat a) AND word_of_nat b = (0 :: 32 word)"
    by (intro bit_word_eqI) (auto simp: bit_simps)
  then have "push_bit n (word_of_nat a) OR word_of_nat b = push_bit n (word_of_nat a) + (word_of_nat b :: 32 word)"
    by (rule disjunctive_add_eq_or [symmetric])
  then show ?thesis by (simp add: push_bit_eq_mult mult.commute)
qed

lemma block_word_spec:
  assumes "length p = 64" "i < 16"
  shows "block_word p i = fips_w p i"
proof -
  have "take 4 (drop (4 * i) p) = [p ! (i * 4), p ! (i * 4 + 1), p ! (i * 4 + 2), p ! (i * 4 + 3)]"
    by (rule nth_equalityI) (use assms in \<open>auto simp: less_Suc_eq numeral_eq_Suc ac_simps\<close>)
  then have v: "be_val (take 4 (drop (4 * i) p)) =
      byte (p ! (i * 4)) * 2 ^ 24 + (byte (p ! (i * 4 + 1)) * 2 ^ 16 + (byte (p ! (i * 4 + 2)) * 2 ^ 8 + byte (p ! (i * 4 + 3))))"
    by (simp add: be_val_def)
  have pw: "(2 :: nat) ^ 8 = 256" "(2 :: nat) ^ 16 = 65536" "(2 :: nat) ^ 24 = 16777216" by simp_all
  have b: "byte c < 2 ^ 8" for c by simp
  have l: "byte (p ! (i * 4 + 2)) * 2 ^ 8 + byte (p ! (i * 4 + 3)) < 2 ^ 16"
    using b [of "p ! (i * 4 + 2)"] b [of "p ! (i * 4 + 3)"] unfolding pw by linarith
  then have m: "byte (p ! (i * 4 + 1)) * 2 ^ 16 + (byte (p ! (i * 4 + 2)) * 2 ^ 8 + byte (p ! (i * 4 + 3))) < 2 ^ 24"
    using b [of "p ! (i * 4 + 1)"] l unfolding pw by linarith
  have "block_word p i = word_of_nat (be_val (take 4 (drop (4 * i) p)))"
    unfolding block_word_def v
    by (subst push_bit_sum [OF b b], simp, subst push_bit_sum [OF b l], simp, subst push_bit_sum [OF b m]) simp_all
  then show ?thesis using assms(2) by (simp add: fips_w.simps [of p i])
qed

lemma sha_rounds_foldl: "sha_rounds l r = foldl (\<lambda>r (k, w). sha_round k w r) r l"
proof (induction l arbitrary: r)
  case (Cons x l)
  then show ?case by (cases x) (simp only: sha_rounds.simps foldl.simps prod.case)
qed simp

lemma length_sha_k: "length sha_k = 64"
  by (simp add: sha_k_def)

lemma zip_nth: "length xs = n \<Longrightarrow> zip xs (map f [0..<n]) = map (\<lambda>t. (xs ! t, f t)) [0..<n]"
  by (rule nth_equalityI) auto

lemma rounds_spec: "foldl (\<lambda>r (k, w). sha_round k w r) r (map (\<lambda>t. (sha_k ! t, fips_w p t)) [0..<n]) = fips_rounds p n r"
  by (induction n)
    (auto simp: sha_round_def Let_def sha_rotr_word fips_Sigma0_def fips_Sigma1_def fips_ch_def fips_maj_def split: prod.splits)

lemma block_spec:
  assumes "length h = 8" "length p = 64"
  shows "sha256_block h p = fips_block h p"
proof -
  have e: "map (block_word p) [0..<16] = map (fips_w p) [0..<16]"
    using block_word_spec [OF assms(2)] by (intro map_cong) auto
  have w: "schedule 48 (map (block_word p) [0..<16]) = map (fips_w p) [0..<64]"
    unfolding e using schedule_spec [of 16 48 p] by simp
  have "h = [h ! 0, h ! 1, h ! 2, h ! 3, h ! 4, h ! 5, h ! 6, h ! 7]"
    by (rule nth_equalityI) (use assms(1) in \<open>auto simp: less_Suc_eq numeral_eq_Suc\<close>)
  then obtain xa xb xc xd xe xf xg xh where h: "h = [xa, xb, xc, xd, xe, xf, xg, xh]" by blast
  show ?thesis
    unfolding sha256_block_def fips_block_def w sha_rounds_foldl zip_nth [OF length_sha_k] rounds_spec Let_def
    by (simp add: h add.commute split: prod.splits)
qed

subsection \<open>The stream\<close>

lemma pieces_Nil [simp]: "pieces k [] = []"
  by (simp add: pieces.simps)

lemma pieces_append: "length s mod k = 0 \<Longrightarrow> pieces k (s @ r) = pieces k s @ pieces k r"
proof (induction k s rule: pieces.induct)
  case (1 k s)
  show ?case
  proof (cases "s = [] \<or> k = 0")
    case True
    then show ?thesis by (auto simp: pieces.simps [of 0])
  next
    case False
    then have k: "k \<le> length s" using "1.prems" by (metis dvd_imp_le length_greater_0_conv mod_0_imp_dvd)
    then have "length (drop k s) mod k = 0" using "1.prems" False by (simp add: le_mod_geq)
    then show ?thesis using "1.IH" False k by (simp add: pieces.simps [of k s] pieces.simps [of k "s @ r"])
  qed
qed

lemma pieces_one: "length s = k \<Longrightarrow> 0 < k \<Longrightarrow> pieces k s = [s]"
  by (auto simp: pieces.simps [of k s])

lemma concat_pieces: "0 < k \<Longrightarrow> concat (pieces k s) = s"
proof (induction k s rule: pieces.induct)
  case (1 k s)
  then show ?case by (cases "s = []") (simp_all add: pieces.simps [of k s])
qed

definition hash_blocks :: "string \<Rightarrow> 32 word list" where
  "hash_blocks s = foldl sha256_block sha_iv (pieces 64 s)"

lemma hash_blocks_append: "length s mod 64 = 0 \<Longrightarrow> length b = 64 \<Longrightarrow> hash_blocks (s @ b) = sha256_block (hash_blocks s) b"
  by (simp add: hash_blocks_def pieces_append pieces_one)

text \<open>The context after the bytes \<open>m\<close>: the whole blocks are hashed, the rest is in the buffer.\<close>

definition absorbed :: "string \<Rightarrow> sha256_ctx \<Rightarrow> bool" where
  "absorbed m c \<longleftrightarrow>
     (\<exists>whole rest. m = whole @ rest \<and> length whole mod 64 = 0 \<and> length rest < 64 \<and> sh_n c = length rest \<and>
        length (sh_buf c) = 64 \<and> take (length rest) (sh_buf c) = rest \<and> sh_h c = hash_blocks whole)"

lemma absorbed_init: "length stale = 64 \<Longrightarrow> absorbed [] (sha256_init stale)"
  by (simp add: absorbed_def sha256_init_def hash_blocks_def)

lemma absorbed_n: "absorbed m c \<Longrightarrow> sh_n c = length m mod 64"
  by (auto simp: absorbed_def mod_simps)

text \<open>One turn of the loop of \<open>sha256_update\<close>.\<close>

definition absorb :: "sha256_ctx \<Rightarrow> string \<Rightarrow> sha256_ctx" where
  "absorb c s =
     (let c1 = c\<lparr>sh_buf := buf_write (sh_buf c) (sh_n c) s, sh_n := sh_n c + length s\<rparr>
      in if sh_n c1 = 64 then c1\<lparr>sh_h := sha256_block (sh_h c1) (sh_buf c1), sh_n := 0\<rparr> else c1)"

lemma absorb_step:
  assumes "absorbed m c" "sh_n c + length s \<le> 64"
  shows "absorbed (m @ s) (absorb c s)"
proof -
  obtain whole rest where a: "m = whole @ rest" "length whole mod 64 = 0" "sh_n c = length rest"
    "length (sh_buf c) = 64" "take (length rest) (sh_buf c) = rest" "sh_h c = hash_blocks whole"
    using assms(1) by (auto simp: absorbed_def)
  have b: "take (length rest + length s) (buf_write (sh_buf c) (length rest) s) = rest @ s"
    "length (buf_write (sh_buf c) (length rest) s) = 64"
    using a(3-5) assms(2) by (simp_all add: buf_write_def)
  show ?thesis
  proof (cases "sh_n c + length s = 64")
    case True
    then have "buf_write (sh_buf c) (length rest) s = rest @ s" using b a(3) by simp
    then have "sh_n (absorb c s) = 0" "length (sh_buf (absorb c s)) = 64" "sh_h (absorb c s) = hash_blocks (whole @ (rest @ s))"
      using True a b(2) by (simp_all add: absorb_def hash_blocks_append)
    moreover have "length (whole @ (rest @ s)) mod 64 = 0" using a(2,3) True by (simp add: mod_add_eq [symmetric])
    ultimately show ?thesis unfolding absorbed_def
      by (intro exI [of _ "whole @ (rest @ s)"] exI [of _ "[]"]) (simp add: a(1))
  next
    case False
    then have "length (rest @ s) < 64" using assms(2) a(3) by simp
    then show ?thesis unfolding absorbed_def
      by (intro exI [of _ whole] exI [of _ "rest @ s"]) (use False a b in \<open>simp add: absorb_def\<close>)
  qed
qed

lemma update_loop_step:
  "update_loop c p = (if p = [] \<or> sh_n c \<ge> 64 then c
     else update_loop (absorb c (take (64 - sh_n c) p)) (drop (64 - sh_n c) p))"
  by (subst update_loop.simps) (simp add: Let_def absorb_def min_def)

lemma update_loop_absorbed: "absorbed m c \<Longrightarrow> absorbed (m @ p) (update_loop c p)"
proof (induction "length p" arbitrary: m c p rule: less_induct)
  case less
  have n: "sh_n c < 64" using less.prems by (auto simp: absorbed_def)
  show ?case
  proof (cases "p = []")
    case True
    then show ?thesis using less.prems by (simp add: update_loop.simps)
  next
    case False
    let ?k = "64 - sh_n c"
    have "absorbed (m @ take ?k p) (absorb c (take ?k p))" using n by (intro absorb_step less.prems) simp
    moreover have "length (drop ?k p) < length p" using n False by (cases p) auto
    ultimately have "absorbed ((m @ take ?k p) @ drop ?k p) (update_loop (absorb c (take ?k p)) (drop ?k p))"
      using less.hyps by blast
    then show ?thesis using n False update_loop_step [of c p] by simp
  qed
qed

lemma absorb_len: "sh_len (absorb c s) = sh_len c"
  by (simp add: absorb_def Let_def)

lemma update_loop_len: "sh_len (update_loop c p) = sh_len c"
proof (induction "length p" arbitrary: c p rule: less_induct)
  case less
  show ?case
  proof (cases "p = [] \<or> sh_n c \<ge> 64")
    case False
    then have "length (drop (64 - sh_n c) p) < length p" by (cases p) auto
    from less [OF this] show ?thesis using False by (simp add: update_loop_step [of c p] absorb_len)
  qed (auto simp: update_loop_step [of c p])
qed

lemma update_absorbed: "absorbed m c \<Longrightarrow> absorbed (m @ p) (sha256_update c p)"
  unfolding sha256_update_def by (rule update_loop_absorbed) (simp add: absorbed_def)

lemma update_len: "sh_len (sha256_update c p) = sh_len c + word_of_nat (length p)"
  by (simp add: sha256_update_def update_loop_len)

lemma updates_absorbed:
  "absorbed m c \<Longrightarrow> absorbed (m @ concat ps) (foldl sha256_update c ps) \<and>
     sh_len (foldl sha256_update c ps) = sh_len c + word_of_nat (length (concat ps))"
proof (induction ps arbitrary: m c)
  case (Cons p ps)
  show ?case using Cons.IH [OF update_absorbed [OF Cons.prems]] by (simp add: update_len add.assoc)
qed simp

lemma zero_loop_absorbed:
  "absorbed m c \<Longrightarrow> z \<le> k \<Longrightarrow> z < 64 \<Longrightarrow> (length m + z) mod 64 = 56 \<Longrightarrow>
   \<exists>c'. zero_loop k c = Some c' \<and> absorbed (m @ replicate z CHR 0x00) c'"
proof (induction k arbitrary: z m c)
  case 0
  then show ?case by (simp add: absorbed_n)
next
  case (Suc k)
  show ?case
  proof (cases z)
    case 0
    then show ?thesis using Suc.prems by (simp add: absorbed_n)
  next
    case (Suc z')
    have "length m mod 64 \<noteq> 56"
    proof
      assume "length m mod 64 = 56"
      then have "(56 + z) mod 64 = 56" using Suc.prems(4) by (metis mod_add_left_eq)
      then show False using Suc Suc.prems(3) by (simp add: mod_if split: if_splits)
    qed
    then have "sh_n c \<noteq> 56" using Suc.prems(1) by (simp add: absorbed_n)
    moreover obtain c' where "zero_loop k (sha256_update c [CHR 0x00]) = Some c'"
      "absorbed ((m @ [CHR 0x00]) @ replicate z' CHR 0x00) c'"
      using Suc.IH [OF update_absorbed [OF Suc.prems(1)], of z' "[CHR 0x00]"] Suc Suc.prems(2-4) by auto
    ultimately show ?thesis using Suc by auto
  qed
qed

subsection \<open>The digest\<close>

lemma be64_spec:
  assumes "n < 2 ^ 64"
  shows "be64 (word_of_nat n) = map (\<lambda>i. char_of (n div 256 ^ (7 - i) mod 256)) [0..<8]"
proof -
  have "unat (drop_bit (56 - i * 8) (word_of_nat n :: 64 word)) = n div 256 ^ (7 - i)" if "i < 8" for i
  proof -
    have "(256 :: nat) ^ (7 - i) = 2 ^ (8 * (7 - i))" by (simp add: power_mult)
    moreover have "unat (word_of_nat n :: 64 word) = n" using assms by (simp add: unsigned_of_nat take_bit_eq_mod)
    ultimately show ?thesis using that unat_drop_bit [of "56 - i * 8" "word_of_nat n :: 64 word"]
      by (simp add: right_diff_distrib' mult.commute)
  qed
  then show ?thesis by (auto simp: be64_def)
qed

lemma length_hash_blocks: "length (hash_blocks s) = 8"
proof -
  have "length (foldl sha256_block h l) = 8" if "length h = 8" for h l
    using that
  proof (induction l arbitrary: h)
    case (Cons b l)
    then show ?case by (simp add: sha256_block_def Let_def split: prod.splits)
  qed simp
  then show ?thesis by (simp add: hash_blocks_def sha_iv_def)
qed

lemma pieces_lengths: "length s mod k = 0 \<Longrightarrow> b \<in> set (pieces k s) \<Longrightarrow> length b = k"
proof (induction k s rule: pieces.induct)
  case (1 k s)
  show ?case
  proof (cases "s = [] \<or> k = 0")
    case False
    then have k: "k \<le> length s" using "1.prems"(1) by (metis dvd_imp_le length_greater_0_conv mod_0_imp_dvd)
    then have "length (drop k s) mod k = 0" using "1.prems"(1) False by (simp add: le_mod_geq)
    then show ?thesis using "1.IH" False k "1.prems"(2) by (auto simp: pieces.simps [of k s])
  qed (use "1.prems" in \<open>simp add: pieces.simps [of k s]\<close>)
qed

lemma foldl_blocks_spec: "length h = 8 \<Longrightarrow> \<forall>b \<in> set l. length b = 64 \<Longrightarrow> foldl sha256_block h l = foldl fips_block h l"
proof (induction l arbitrary: h)
  case (Cons b l)
  have "length (sha256_block h b) = 8" by (simp add: sha256_block_def Let_def split: prod.splits)
  then show ?case using Cons block_spec [of h b] by simp
qed simp

lemma pad_zeros: "(length m + 1 + (55 + 63 * length m) mod 64) mod 64 = (56 :: nat)"
proof -
  have "(length m + 1 + (55 + 63 * length m) mod 64) mod 64 = (length m + 1 + (55 + 63 * length m)) mod 64"
    by (rule mod_add_right_eq)
  also have "length m + 1 + (55 + 63 * length m) = 56 + length m * 64" by simp
  also have "(56 + length m * 64) mod 64 = 56" by (subst mod_mult_self1) simp
  finally show ?thesis .
qed

lemma final_spec:
  assumes "absorbed m c" "sh_len c = word_of_nat (length m)" "length m < 2 ^ 61"
  shows "sha256_final c = Some (fips_sha256 m)"
proof -
  let ?z = "(55 + 63 * length m) mod 64"
  obtain c1 where c1: "zero_loop 64 (sha256_update c [CHR 0x80]) = Some c1"
    "absorbed ((m @ [CHR 0x80]) @ replicate ?z CHR 0x00) c1"
    using zero_loop_absorbed [OF update_absorbed [OF assms(1)], of ?z 64 "[CHR 0x80]"] pad_zeros [of m] by auto
  have bits: "be64 (sh_len c * 8) = map (\<lambda>i. char_of (8 * length m div 256 ^ (7 - i) mod 256)) [0..<8]"
    using be64_spec [of "8 * length m"] assms(2,3) by (simp add: mult.commute)
  have p: "((m @ [CHR 0x80]) @ replicate ?z CHR 0x00) @ be64 (sh_len c * 8) = fips_pad m" by (simp add: bits fips_pad_def)
  have "absorbed (fips_pad m) (sha256_update c1 (be64 (sh_len c * 8)))"
    using update_absorbed [OF c1(2), of "be64 (sh_len c * 8)"] unfolding p .
  then obtain whole rest where w: "fips_pad m = whole @ rest" "length whole mod 64 = 0" "length rest < 64"
    "sh_h (sha256_update c1 (be64 (sh_len c * 8))) = hash_blocks whole" by (auto simp: absorbed_def)
  have "length (fips_pad m) = (length m + 1 + ?z) + 8" by (simp add: fips_pad_def)
  moreover have "((length m + 1 + ?z) mod 64 + 8) mod 64 = 0" unfolding pad_zeros by simp
  ultimately have l: "length (fips_pad m) mod 64 = 0" unfolding mod_add_left_eq by simp
  then have "(length whole + length rest) mod 64 = 0" using w(1) by simp
  then have "(length whole mod 64 + length rest) mod 64 = 0" unfolding mod_add_left_eq .
  then have "length rest mod 64 = 0" unfolding w(2) by simp
  then have "whole = fips_pad m" using w(1,3) by simp
  moreover have "hash_blocks (fips_pad m) = foldl fips_block sha_iv (pieces 64 (fips_pad m))"
    unfolding hash_blocks_def using pieces_lengths [OF l] by (intro foldl_blocks_spec) (auto simp: sha_iv_def)
  ultimately show ?thesis using c1(1) w(4) by (simp add: sha256_final_def fips_sha256_def Let_def)
qed

subsection \<open>Properties\<close>

text \<open>C38. The hash of a file is the hexadecimal form of the SHA-256 of its bytes, as FIPS 180-4 defines it on the whole padded
  message: reading it in pieces, carrying a partial block over, and padding in the stream change nothing, and what the buffer held
  before does not matter. There is no hash exactly when the file cannot be opened or a read fails.\<close>

theorem file_hash_is_sha256:
  assumes "length stale = 64" "case files path of Some (s, _) \<Rightarrow> length s < 2 ^ 61 | None \<Rightarrow> True"
  shows "envelope_file_sha256 stale files path =
    (case files path of Some (s, False) \<Rightarrow> Some (to_hex (fips_sha256 s)) | _ \<Rightarrow> None)"
proof (cases "files path")
  case (Some x)
  obtain s failed where x: "x = (s, failed)" by (cases x)
  have a: "absorbed s (foldl sha256_update (sha256_init stale) (pieces 65536 s))"
    "sh_len (foldl sha256_update (sha256_init stale) (pieces 65536 s)) = word_of_nat (length s)"
    using updates_absorbed [OF absorbed_init [OF assms(1)], of "pieces 65536 s"] by (simp_all add: concat_pieces sha256_init_def)
  have "sha256_final (foldl sha256_update (sha256_init stale) (pieces 65536 s)) = Some (fips_sha256 s)"
    by (rule final_spec [OF a]) (use assms(2) Some x in simp)
  then show ?thesis using Some x by (cases failed) (simp_all add: envelope_file_sha256_def)
qed (simp add: envelope_file_sha256_def)

lemma file_hash_is_sha256_witness:
  "envelope_file_sha256 (replicate 64 CHR 0x00) (\<lambda>p. if p = ''m'' then Some (''abc'', False) else None) ''m'' =
     Some (to_hex (fips_sha256 ''abc''))"
  using file_hash_is_sha256 [of "replicate 64 CHR 0x00" "\<lambda>p. if p = ''m'' then Some (''abc'', False) else None" "''m''"]
  by simp

end
