(* ===== verification/Envelope_Laws.thy ===== *)
theory Envelope_Laws
  imports Envelope Sha256_Laws Json_Laws
begin

text \<open>
  The gate of \<open>envelope.c\<close>: exactly which loads it refuses, that it judges as the report does, and that its messages
  stay in their buffers.
\<close>

subsection \<open>Buffers\<close>

lemma length_put: "0 < cap \<Longrightarrow> length (put cap out s) < cap"
  by (simp add: put_def)

lemma length_put_at: "length out < cap \<Longrightarrow> length (put_at cap n out s) < cap"
  by (auto simp: put_at_def)

lemma length_append_tool_calling: "length out < cap \<Longrightarrow> length (append_tool_calling cvt m cap out) < cap"
  by (simp add: append_tool_calling_def Let_def length_put_at split: prod.splits)

lemma sidecar_out: "length out < cap \<Longrightarrow> sidecar_matches_artifact stale files m p cap out = (b, out') \<Longrightarrow> length out' < cap"
  using length_put [of cap] by (auto simp: sidecar_matches_artifact_def Let_def split: if_splits option.splits)

subsection \<open>Hexadecimal digests\<close>

lemma hex_eq_ci_map: "hex_eq_ci s r \<longleftrightarrow> map lower_hex s = map lower_hex r"
  by (induction s r rule: hex_eq_ci.induct) auto

lemma lower_hexd: "n < 16 \<Longrightarrow> lower_hex (hexd n) = hexd n"
  by (auto simp: hexd_def lower_hex_def less_Suc_eq numeral_eq_Suc)

lemma lower_to_hex: "map lower_hex (to_hex d) = to_hex d"
proof -
  have "byte b div 16 < 16" for b :: char using less_mult_imp_div_less [of "byte b" 16 16] by simp
  then show ?thesis by (induction d) (simp_all add: to_hex_def lower_hexd)
qed

text \<open>The sidecar names no artifact, or the one that is being loaded.\<close>

lemma sidecar_matches_iff:
  assumes "length stale = 64" "case files path of Some (s, _) \<Rightarrow> length s < 2 ^ 61 | None \<Rightarrow> True"
  shows "fst (sidecar_matches_artifact stale files m path cap out) \<longleftrightarrow>
    (let want = text_at (jv_get (Some m) ''artifact'') ''sha256''
     in want = [] \<or> (\<exists>s. files path = Some (s, False) \<and> map lower_hex want = to_hex (fips_sha256 s)))"
  by (auto simp: sidecar_matches_artifact_def Let_def file_hash_is_sha256 [where files = files and path = path, OF assms] hex_eq_ci_map lower_to_hex
      split: option.splits bool.splits)

lemma sidecar_same: "fst (sidecar_matches_artifact stale files m path cap out) = fst (sidecar_matches_artifact stale files m path cap out')"
  by (simp add: sidecar_matches_artifact_def Let_def split: option.splits)

lemma sidecar_true: "sidecar_matches_artifact stale files m path cap out = (True, out') \<Longrightarrow> out' = out"
  by (auto simp: sidecar_matches_artifact_def Let_def split: option.splits if_splits)

subsection \<open>The verdict\<close>

lemma classify_state: "fst (classify m rv backend cap out) = fst (classify m rv backend cap' out')"
  by (simp only: classify_def Let_def if_distrib [of fst] fst_conv)

lemma classify_outside:
  "fst (classify m rv backend cap out) = ENV_OUTSIDE \<longleftrightarrow>
     text_at (Some m) ''schema_version'' = ''xyntetik.runner.envelope.v1'' \<and>
     text_at (Some m) ''verdict'' = ''outside-envelope'' \<and>
     (let runtime = jv_get (Some m) ''runtime''; v = text_at runtime ''version'';
          b = text_at (jv_get runtime ''kernel_set'') ''backend''
      in v \<noteq> [] \<and> b \<noteq> [] \<and> rv = Some v \<and> backend = Some b)"
  by (cases rv) (auto simp: classify_def Let_def)

lemma length_classify: "0 < cap \<Longrightarrow> length (snd (classify m rv backend cap out)) < cap"
  by (simp add: classify_def Let_def length_put)

text \<open>Both entry points, once the sidecar is parsed.\<close>

lemma gate_parsed:
  assumes "read_sidecar files path = Some s" "json_parse s = Some m"
    "envelope_gate stale cvt files (Some path) rv backend forced cap msg = (allow, msg', state)"
  shows "(allow \<longleftrightarrow> forced \<or> \<not> (fst (sidecar_matches_artifact stale files m path cap []) \<and>
      fst (classify m rv backend 256 []) = ENV_OUTSIDE)) \<and>
    state = (if fst (sidecar_matches_artifact stale files m path cap []) then fst (classify m rv backend 256 []) else ENV_INDETERMINATE) \<and>
    (0 < cap \<longrightarrow> length msg' < cap)"
proof -
  define old where "old = (if 0 < cap then [] else msg)"
  obtain ok out where o: "sidecar_matches_artifact stale files m path cap old = (ok, out)"
    by (cases "sidecar_matches_artifact stale files m path cap old")
  obtain st summary where c: "classify m rv backend 256 [] = (st, summary)" by (cases "classify m rv backend 256 []")
  have ok: "fst (sidecar_matches_artifact stale files m path cap []) = ok"
    using sidecar_same [of stale files m path cap "[]" old] o by simp
  have l: "0 < cap \<Longrightarrow> length out < cap" using sidecar_out [OF _ o] by (simp add: old_def)
  show ?thesis
  proof (cases ok)
    case True
    then have g: "(allow, state) = (st \<noteq> ENV_OUTSIDE \<or> forced, st)" "\<exists>u. msg' = append_tool_calling cvt m cap (put cap out u)"
      using assms o c by (auto simp: envelope_gate_def Let_def old_def [symmetric])
    then show ?thesis using ok True c length_append_tool_calling length_put by auto
  next
    case False
    then show ?thesis using assms o ok l by (auto simp: envelope_gate_def Let_def old_def [symmetric])
  qed
qed

lemma report_parsed:
  assumes "read_sidecar files path = Some s" "json_parse s = Some m"
  shows "fst (envelope_report stale cvt files (Some path) rv backend cap out) =
    (if fst (sidecar_matches_artifact stale files m path cap []) then fst (classify m rv backend 256 []) else ENV_INDETERMINATE)"
proof -
  define old where "old = (if 0 < cap then [] else out)"
  obtain ok out' where o: "sidecar_matches_artifact stale files m path cap old = (ok, out')"
    by (cases "sidecar_matches_artifact stale files m path cap old")
  obtain st summary where c: "classify m rv backend cap out' = (st, summary)" by (cases "classify m rv backend cap out'")
  have "fst (sidecar_matches_artifact stale files m path cap []) = ok" "fst (classify m rv backend 256 []) = st"
    using sidecar_same [of stale files m path cap "[]" old] o classify_state [of m rv backend 256 "[]" cap out'] c by simp_all
  then show ?thesis using assms o c by (cases ok) (simp_all add: envelope_report_def Let_def old_def [symmetric])
qed

subsection \<open>Properties\<close>


definition refusing :: jv where
  "refusing = JObj [(''schema_version'', JStr ''xyntetik.runner.envelope.v1''), (''verdict'', JStr ''outside-envelope''),
     (''runtime'', JObj [(''version'', JStr ''1''), (''kernel_set'', JObj [(''backend'', JStr ''cpu'')])])]"

definition sidecar_files :: "string \<Rightarrow> (string \<times> bool) option" where
  "sidecar_files p = (if p = ''m.envelope.json'' then Some (text_value '','' '':'' refusing, False) else None)"

lemma refusing_parses: "json_parse (text_value '','' '':'' refusing) = Some refusing"
proof (rule json_parse_text [OF seps(1,2)])
  have four: "max_depth = Suc (Suc (Suc (Suc 124)))" by (simp add: max_depth_def)
  show "wf_jv max_depth refusing"
    unfolding four refusing_def wf_jv.simps by (simp add: valid_text_ascii)
  show "exact_nums refusing" by (simp add: refusing_def)
qed

lemma refusing_short: "take 1048575 (text_value '','' '':'' refusing) = text_value '','' '':'' refusing"
  by (simp add: refusing_def escape_text.simps short_escape_def)


end
