(* ===== verification/Conn_Queue.thy ===== *)
theory Conn_Queue
  imports Http
begin

text \<open>
  The connection queue of \<open>src/registry.c\<close>: a ring of 512 sockets between the accept loop, which sheds what finds
  no room, and the slot workers. Each function holds the queue's mutex while it looks at the queue; where it lets
  go of it, what the other threads leave is a parameter. \<open>fifo\<close> is the contract the server relies on,
  interpreted on the ring.
\<close>

subsection \<open>The ring\<close>

record fdqueue =
  q_fds :: "int list"
  q_head :: nat
  q_tail :: nat
  q_count :: nat
  q_limit :: nat
  q_shutdown :: bool

definition QCAP :: nat where "QCAP = 512"

text \<open>The tail of \<open>q_push\<close>, where there is room.\<close>

definition q_insert :: "int \<Rightarrow> fdqueue \<Rightarrow> fdqueue" where
  "q_insert fd q =
     q\<lparr>q_fds := (q_fds q)[q_tail q := fd], q_tail := (q_tail q + 1) mod QCAP, q_count := q_count q + 1\<rparr>"

definition q_room :: "fdqueue \<Rightarrow> bool" where
  "q_room q \<longleftrightarrow> q_count q < q_limit q"

text \<open>\<open>q_push\<close>: \<open>seen\<close> is the queue at each of the ten looks at it. \<open>None\<close>: the connection is told 503 and closed.\<close>

definition q_push :: "int \<Rightarrow> fdqueue list \<Rightarrow> fdqueue option" where
  "q_push fd seen = map_option (q_insert fd) (find q_room (take 10 seen))"

text \<open>\<open>q_pop\<close> waits while there is nothing and no shutdown; then it takes the first connection, or \<open>SOCK_INVALID\<close>.\<close>

definition q_waits :: "fdqueue \<Rightarrow> bool" where
  "q_waits q \<longleftrightarrow> q_count q = 0 \<and> \<not> q_shutdown q"

definition q_take :: "fdqueue \<Rightarrow> int option \<times> fdqueue" where
  "q_take q =
     (if q_count q > 0 then
        (Some (q_fds q ! q_head q), q\<lparr>q_head := (q_head q + 1) mod QCAP, q_count := q_count q - 1\<rparr>)
      else (None, q))"

text \<open>The loop of \<open>queue_shutdown\<close>, over \<open>k\<close> connections, into \<open>pending\<close>.\<close>

fun drain :: "nat \<Rightarrow> fdqueue \<Rightarrow> int list \<Rightarrow> int list \<times> fdqueue" where
  "drain 0 q pending = (pending, q)"
| "drain (Suc k) q pending =
     drain k (q\<lparr>q_head := (q_head q + 1) mod QCAP, q_count := q_count q - 1\<rparr>) (pending @ [q_fds q ! q_head q])"

text \<open>The connections that are told 503, in this order, and the queue.\<close>

definition queue_shutdown :: "fdqueue \<Rightarrow> int list \<times> fdqueue" where
  "queue_shutdown q = drain (q_count q) (q\<lparr>q_shutdown := True\<rparr>) []"

subsection \<open>The contract\<close>

text \<open>A bounded queue as its client sees it: what it holds, in order.\<close>

locale fifo =
  fixes valid :: "'q \<Rightarrow> bool" and items :: "'q \<Rightarrow> 'x list" and room :: "'q \<Rightarrow> bool"
    and push :: "'x \<Rightarrow> 'q \<Rightarrow> 'q" and pop :: "'q \<Rightarrow> 'x option \<times> 'q"
  assumes push_valid: "valid q \<Longrightarrow> room q \<Longrightarrow> valid (push x q)"
    and push_items: "valid q \<Longrightarrow> room q \<Longrightarrow> items (push x q) = items q @ [x]"
    and pop_valid: "valid q \<Longrightarrow> valid (snd (pop q))"
    and pop_items: "valid q \<Longrightarrow> items q = (case fst (pop q) of Some x \<Rightarrow> [x] | None \<Rightarrow> []) @ items (snd (pop q))"
    and pop_empty: "valid q \<Longrightarrow> fst (pop q) = None \<Longrightarrow> items q = []"
begin

text \<open>A run of the accept loop and the workers: connections that arrive (\<open>Some x\<close>) and takes (\<open>None\<close>); what was
  handed to a worker, what was shed.\<close>

fun run :: "'x option list \<Rightarrow> 'q \<Rightarrow> 'x list \<times> 'x list \<times> 'q" where
  "run [] q = ([], [], q)"
| "run (Some x # es) q =
     (if room q then run es (push x q)
      else (case run es q of (out, shed, q') \<Rightarrow> (out, x # shed, q')))"
| "run (None # es) q =
     (case pop q of (o1, q1) \<Rightarrow>
        (case run es q1 of (out, shed, q') \<Rightarrow> ((case o1 of Some x \<Rightarrow> [x] | None \<Rightarrow> []) @ out, shed, q')))"

text \<open>Those that were not shed come out in the order they came, each once, and the others are still there.\<close>

fun admitted :: "'x option list \<Rightarrow> 'q \<Rightarrow> 'x list" where
  "admitted [] q = []"
| "admitted (Some x # es) q = (if room q then x # admitted es (push x q) else admitted es q)"
| "admitted (None # es) q = admitted es (snd (pop q))"

lemma run_conserves:
  "valid q \<Longrightarrow> run es q = (out, shed, q') \<Longrightarrow> out @ items q' = items q @ admitted es q \<and> valid q'"
proof (induction es q arbitrary: out shed rule: run.induct)
  case (2 x es q)
  then show ?case
  proof (cases "room q")
    case True
    then show ?thesis using "2.IH"(1) [OF True push_valid] "2.prems" push_items by simp
  next
    case False
    then obtain out1 shed1 where r: "run es q = (out1, shed1, q')" "out = out1" "shed = x # shed1"
      using "2.prems"(2) by (auto split: prod.splits)
    then show ?thesis using "2.IH"(2) [OF False "2.prems"(1) r(1)] False by simp
  qed
next
  case (3 es q)
  obtain o1 q1 where p: "pop q = (o1, q1)" by (cases "pop q")
  then obtain out1 where r: "run es q1 = (out1, shed, q')" "out = (case o1 of Some x \<Rightarrow> [x] | None \<Rightarrow> []) @ out1"
    using "3.prems"(2) by (auto split: prod.splits)
  have "valid q1" using pop_valid [OF "3.prems"(1)] p by simp
  from "3.IH" [OF p [symmetric] this r(1)] r(2) show ?case using pop_items [OF "3.prems"(1)] p by simp
qed simp

end

subsection \<open>The ring keeps it\<close>

definition q_items :: "fdqueue \<Rightarrow> int list" where
  "q_items q = map (\<lambda>i. q_fds q ! ((q_head q + i) mod QCAP)) [0..<q_count q]"

definition q_valid :: "fdqueue \<Rightarrow> bool" where
  "q_valid q \<longleftrightarrow>
     length (q_fds q) = QCAP \<and> q_head q < QCAP \<and> q_tail q = (q_head q + q_count q) mod QCAP \<and>
     q_count q \<le> q_limit q \<and> q_limit q \<le> QCAP"

lemma ring_other: "i < n \<Longrightarrow> n < QCAP \<Longrightarrow> (h + i) mod QCAP \<noteq> (h + n) mod QCAP"
proof
  assume a: "i < n" "n < QCAP" "(h + i) mod QCAP = (h + n) mod QCAP"
  then have "QCAP dvd (h + n) - (h + i)" using mod_eq_dvd_iff_nat [of "h + i" "h + n" QCAP] by simp
  then show False using a by (auto dest: dvd_imp_le)
qed

lemma q_insert_items:
  assumes "q_valid q" "q_room q"
  shows "q_items (q_insert fd q) = q_items q @ [fd]"
proof -
  have c: "q_count q < QCAP" "q_tail q = (q_head q + q_count q) mod QCAP" "length (q_fds q) = QCAP"
    using assms by (simp_all add: q_valid_def q_room_def)
  then have "q_tail q < length (q_fds q)" by (simp add: QCAP_def)
  moreover have "(q_head q + q_count q) mod QCAP \<noteq> (q_head q + i) mod QCAP" if "i < q_count q" for i
    using ring_other [OF that c(1)] by (rule not_sym)
  ultimately show ?thesis using c(2) by (simp add: q_items_def q_insert_def)
qed

lemma q_insert_valid: "q_valid q \<Longrightarrow> q_room q \<Longrightarrow> q_valid (q_insert fd q)"
  by (simp add: q_valid_def q_room_def q_insert_def mod_Suc_eq)

lemma q_take_items:
  "q_items q = (case fst (q_take q) of Some x \<Rightarrow> [x] | None \<Rightarrow> []) @ q_items (snd (q_take q))" if "q_valid q"
proof (cases "q_count q")
  case (Suc n)
  have "(Suc ((q_head q + i) mod QCAP)) mod QCAP = Suc (q_head q + i) mod QCAP" for i by (rule mod_Suc_eq)
  then have "(q_head q + Suc i) mod QCAP = (Suc (q_head q) mod QCAP + i) mod QCAP" for i by (simp add: mod_simps)
  moreover have "q_head q mod QCAP = q_head q" using that by (simp add: q_valid_def)
  ultimately show ?thesis
    by (simp add: q_items_def q_take_def Suc upt_conv_Cons map_Suc_upt [symmetric] del: upt_Suc)
qed (simp add: q_items_def q_take_def)

lemma q_take_valid: "q_valid q \<Longrightarrow> q_valid (snd (q_take q))"
  by (cases "q_count q") (simp_all add: q_valid_def q_take_def QCAP_def mod_simps)

interpretation ring: fifo q_valid q_items q_room q_insert q_take
  by unfold_locales
    (simp_all add: q_insert_valid q_insert_items q_take_valid flip: q_take_items, simp add: q_take_def q_items_def split: if_splits)

text \<open>What the accept loop admits comes out in its order, each connection once; at shutdown what is left is told.\<close>

lemmas queue_conserves = ring.run_conserves

lemma drain_items:
  assumes "q_head q < QCAP"
  shows "fst (drain k q pending) = pending @ map (\<lambda>i. q_fds q ! ((q_head q + i) mod QCAP)) [0..<k]"
  using assms
proof (induction k arbitrary: q pending)
  case (Suc k)
  have h: "Suc (q_head q) mod QCAP < QCAP" by (simp add: QCAP_def)
  have "(Suc (q_head q) mod QCAP + i) mod QCAP = (q_head q + Suc i) mod QCAP" for i by (simp add: mod_simps)
  then show ?case using Suc.IH [of "q\<lparr>q_head := (q_head q + 1) mod QCAP, q_count := q_count q - 1\<rparr>"] h Suc.prems
    by (simp add: upt_conv_Cons map_Suc_upt [symmetric] del: upt_Suc)
qed simp

lemma shutdown_tells_all: "q_valid q \<Longrightarrow> fst (queue_shutdown q) = q_items q"
  by (simp add: queue_shutdown_def q_items_def drain_items q_valid_def)

end
