(* ===== verification/Residency.thy ===== *)
theory Residency
  imports Http
begin

text \<open>
  Which model is resident: \<open>src/registry.c\<close>, and the life of a request in \<open>handle_conn\<close> (\<open>src/server.c\<close>) from
  the moment it is counted to the moment the server may be idle again. First the operations on \<open>SV\<close>, then the
  threads that run them: the one slot worker of a server with a registry, the accept loop, which answers
  \<open>POST /unload\<close> at any time, and the reaper.
\<close>

subsection \<open>The state\<close>

text \<open>What the registry reads of a loaded model: its path, its context and what \<open>template_detect\<close> says of it.\<close>

record loaded_model =
  lm_path :: string
  lm_n_ctx :: int
  lm_tmpl :: int

record model_entry =
  me_name :: string
  me_path :: string
  me_tmpl :: int

text \<open>Slot 0: its model and tokenizer, the model, tokenizer and draft its engine points to, its template.\<close>

record server_slot =
  sl_model :: "loaded_model option"
  sl_tok :: "loaded_model option"
  sl_e_model :: "loaded_model option"
  sl_e_tok :: "loaded_model option"
  sl_e_draft :: "loaded_model option"
  sl_tmpl :: int

record server_state =
  sv_slot :: server_slot
  sv_n_slots :: nat
  sv_model_name :: string
  sv_ctx_size :: int
  sv_reg :: "model_entry list"
  sv_single :: bool
  sv_borrowed :: bool
  sv_resident :: int
  sv_ttl :: int
  sv_active :: int
  sv_loading :: bool
  sv_pending_unload :: bool
  sv_load_cancel :: bool
  sv_draft :: "loaded_model option"
  sv_draft_path :: "string option"
  sv_tmpl_override :: int

abbreviation sv_n_reg :: "server_state \<Rightarrow> nat" where
  "sv_n_reg sv \<equiv> length (sv_reg sv)"

subsection \<open>Giving the memory back\<close>

definition unload_resident :: "server_state \<Rightarrow> server_state" where
  "unload_resident sv =
     (if sv_resident sv < 0 then sv
      else sv\<lparr>sv_borrowed := False,
              sv_slot := (sv_slot sv)\<lparr>sl_model := None, sl_tok := None, sl_e_model := None, sl_e_tok := None\<rparr>,
              sv_ctx_size := 0, sv_resident := -1\<rparr>)"

definition unload_draft :: "server_state \<Rightarrow> server_state" where
  "unload_draft sv =
     (if sv_draft sv = None then sv
      else sv\<lparr>sv_draft := None, sv_slot := (sv_slot sv)\<lparr>sl_e_draft := None\<rparr>\<rparr>)"

subsection \<open>The model a request asks for\<close>

definition aliases :: "string list" where
  "aliases = [''runner'', ''default'', ''local'', ''test'', ''thane'', ''clu'']"

definition request_model_matches :: "string option \<Rightarrow> string option \<Rightarrow> bool" where
  "request_model_matches want served \<longleftrightarrow>
     (case want of None \<Rightarrow> True
      | Some w \<Rightarrow> w = [] \<or> served = Some w \<or> w \<in> set aliases)"

fun entry_index :: "nat \<Rightarrow> model_entry list \<Rightarrow> string \<Rightarrow> nat option" where
  "entry_index i [] w = None"
| "entry_index i (e # es) w = (if me_name e = w then Some i else entry_index (i + 1) es w)"

text \<open>\<open>None\<close>: \<open>SWAP_UNKNOWN\<close>.\<close>

definition swap_lookup :: "string option \<Rightarrow> server_state \<Rightarrow> nat option" where
  "swap_lookup want sv =
     (case want of None \<Rightarrow> Some 0
      | Some w \<Rightarrow>
          if w = [] then Some 0
          else (case entry_index 0 (sv_reg sv) w of
                  Some i \<Rightarrow> Some i
                | None \<Rightarrow> if request_model_matches want (Some (me_name (sv_reg sv ! 0))) then Some 0 else None))"

subsection \<open>Swapping\<close>

definition SWAP_UNKNOWN :: int where "SWAP_UNKNOWN = -1"
definition SWAP_LOAD_FAILED :: int where "SWAP_LOAD_FAILED = -2"
definition SWAP_ABORTED :: int where "SWAP_ABORTED = -3"
definition SWAP_ENVELOPE_REFUSED :: int where "SWAP_ENVELOPE_REFUSED = -4"

text \<open>\<open>swap_to\<close> up to the load, the mutex held: \<open>True\<close> if there is something to load, and the mutex is given up.\<close>

definition swap_enter :: "nat \<Rightarrow> server_state \<Rightarrow> bool \<times> server_state" where
  "swap_enter idx sv =
     (let sv = sv\<lparr>sv_pending_unload := False\<rparr>
      in if sv_resident sv \<noteq> int idx then
           (True, (unload_resident sv)\<lparr>sv_loading := True, sv_load_cancel := False\<rparr>)
         else (False, sv\<lparr>sv_model_name := me_name (sv_reg sv ! idx)\<rparr>))"

text \<open>What the load brings: \<open>model_load\<close>, \<open>tokenizer_init\<close>, whether \<open>envelope_gate\<close> refused, \<open>engine_init\<close>, and
  what \<open>spec_draft_load\<close> would return.\<close>

record load_result =
  lr_model :: "loaded_model option"
  lr_tok_ok :: bool
  lr_env_refused :: bool
  lr_engine_ok :: bool
  lr_draft :: "loaded_model option"

text \<open>The slot gets the model and its template (the sampling defaults, which follow, are left out).\<close>

definition swap_slot :: "nat \<Rightarrow> loaded_model \<Rightarrow> server_state \<Rightarrow> server_state" where
  "swap_slot idx m sv =
     (let tmpl = (if sv_tmpl_override sv \<ge> 0 then sv_tmpl_override sv else lm_tmpl m)
      in sv\<lparr>sv_reg := (sv_reg sv)[idx := (sv_reg sv ! idx)\<lparr>me_tmpl := tmpl\<rparr>],
            sv_slot := (sv_slot sv)\<lparr>sl_model := Some m, sl_tok := Some m, sl_tmpl := tmpl\<rparr>\<rparr>)"

text \<open>The engine, the draft and the resident index. A failing \<open>engine_init\<close> has already set the engine's pointers.\<close>

definition swap_commit :: "nat \<Rightarrow> loaded_model \<Rightarrow> load_result \<Rightarrow> server_state \<Rightarrow> int \<times> server_state" where
  "swap_commit idx m r sv =
     (let sv = sv\<lparr>sv_slot := (sv_slot sv)\<lparr>sl_e_model := Some m, sl_e_tok := Some m, sl_e_draft := None\<rparr>\<rparr>
      in if \<not> lr_engine_ok r then
           (SWAP_LOAD_FAILED, sv\<lparr>sv_slot := (sv_slot sv)\<lparr>sl_model := None, sl_tok := None\<rparr>\<rparr>)
         else
           (let sv = sv\<lparr>sv_ctx_size := lm_n_ctx m\<rparr>;
                sv = (if sv_single sv \<and> sv_draft sv = None \<and> sv_draft_path sv \<noteq> None
                      then sv\<lparr>sv_draft := lr_draft r\<rparr> else sv);
                sv = (if sv_single sv \<and> sv_draft sv \<noteq> None
                      then sv\<lparr>sv_slot := (sv_slot sv)\<lparr>sl_e_draft := sv_draft sv\<rparr>\<rparr> else sv)
            in (int idx, sv\<lparr>sv_resident := int idx, sv_model_name := me_name (sv_reg sv ! idx)\<rparr>)))"

text \<open>\<open>swap_to\<close> after the load, the mutex held again.\<close>

definition swap_install :: "nat \<Rightarrow> load_result \<Rightarrow> server_state \<Rightarrow> int \<times> server_state" where
  "swap_install idx r sv =
     (let discard = (sv_pending_unload sv \<or> sv_load_cancel sv);
          sv = sv\<lparr>sv_loading := False, sv_pending_unload := False\<rparr>
      in case lr_model r of
           None \<Rightarrow> (if discard then SWAP_ABORTED else SWAP_LOAD_FAILED, sv)
         | Some m \<Rightarrow>
             if \<not> lr_tok_ok r \<or> discard \<or> lr_env_refused r then
               (if discard then SWAP_ABORTED else if \<not> lr_tok_ok r then SWAP_LOAD_FAILED else SWAP_ENVELOPE_REFUSED, sv)
             else swap_commit idx m r (swap_slot idx m sv))"

text \<open>What the client is told: nothing (the request is served), or the code and the text.\<close>

definition swap_refusal :: "int \<Rightarrow> (int \<times> string) option" where
  "swap_refusal sw =
     (if sw = SWAP_LOAD_FAILED then Some (500, ''model failed to load (registered but broken; see server log)'')
      else if sw = SWAP_ENVELOPE_REFUSED then
        Some (409, ''model refused: outside its measured envelope for this runtime (see server log); start the server with --force-uncertified to override'')
      else if sw = SWAP_ABORTED then Some (503, ''model load abandoned (unload or shutdown requested; retry)'')
      else if sw < 0 then Some (404, ''unknown model (see /v1/models)'')
      else None)"

subsection \<open>POST /unload\<close>

definition unload_refusal_text :: "nat \<Rightarrow> string" where
  "unload_refusal_text n_slots =
     ''cannot unload: with --parallel '' @ nat_str n_slots @
     '' and a single model the slots hold the model directly and never join the registry, so an unload would free nothing -- the weights and every slot KV cache would stay resident. Serve with --parallel 1 for an unloadable server, or POST /v1/runner/prefix-cache/clear to release the prefix cache.''"

definition unload_status :: "bool \<Rightarrow> string" where
  "unload_status deferred =
     ''{'' @ [CHR 0x22] @ ''status'' @ [CHR 0x22] @ '':'' @ [CHR 0x22] @ ''ok'' @ [CHR 0x22] @
     (if deferred then '','' @ [CHR 0x22] @ ''deferred'' @ [CHR 0x22] @ '':true}'' else ''}'')"

text \<open>The reply; \<open>deferred\<close> is what the locked part decided.\<close>

definition unload_reply :: "(nat \<Rightarrow> string \<Rightarrow> int) \<Rightarrow> nat \<Rightarrow> server_state \<Rightarrow> bool \<Rightarrow> (string \<times> nat) option" where
  "unload_reply send i sv deferred =
     (if sv_n_reg sv = 0 then
        send_error_detail send i 409 (fst (snprintf_to 384 (unload_refusal_text (sv_n_slots sv)))) None
          (Some ''unload_unsupported'')
      else send_response send i 200 ''application/json'' (unload_status deferred) (length (unload_status deferred)))"

text \<open>The locked part of \<open>handle_unload\<close>: the test, and the two ways it goes on.\<close>

definition unload_busy :: "server_state \<Rightarrow> bool" where
  "unload_busy sv \<longleftrightarrow> sv_loading sv \<or> sv_active sv > 0"

definition unload_defer :: "server_state \<Rightarrow> server_state" where
  "unload_defer sv =
     sv\<lparr>sv_pending_unload := True, sv_load_cancel := (if sv_loading sv then True else sv_load_cancel sv)\<rparr>"

definition unload_now :: "server_state \<Rightarrow> server_state" where
  "unload_now sv = unload_resident (unload_draft sv)"

subsection \<open>The end of a request, and the reaper\<close>

text \<open>\<open>keep_alive\<close> of a request that was served.\<close>

definition keep_alive :: "int option \<Rightarrow> server_state \<Rightarrow> server_state" where
  "keep_alive k sv =
     (case k of None \<Rightarrow> sv
      | Some secs \<Rightarrow>
          if secs = 0 then sv\<lparr>sv_pending_unload := True\<rparr>
          else sv\<lparr>sv_ttl := (if secs < 0 then 0 else secs)\<rparr>)"

definition unload_due :: "server_state \<Rightarrow> bool" where
  "unload_due sv \<longleftrightarrow> sv_pending_unload sv \<and> \<not> sv_loading sv \<and> sv_active sv = 0"

definition unload_pending :: "server_state \<Rightarrow> server_state" where
  "unload_pending sv = (unload_now sv)\<lparr>sv_pending_unload := False\<rparr>"

text \<open>\<open>idle\<close>: the seconds since the last request; \<open>yield\<close>: \<open>--yield-on-request\<close>, and another process asks.\<close>

definition reap_looks :: "server_state \<Rightarrow> bool" where
  "reap_looks sv \<longleftrightarrow> \<not> (sv_resident sv < 0 \<or> sv_active sv \<noteq> 0)"

definition reap_due :: "rat \<Rightarrow> bool \<Rightarrow> server_state \<Rightarrow> bool" where
  "reap_due idle yield sv \<longleftrightarrow>
     sv_resident sv \<ge> 0 \<and> sv_active sv = 0 \<and>
     (sv_ttl sv > 0 \<and> idle > of_int (sv_ttl sv) \<or> yield \<and> sl_model (sv_slot sv) \<noteq> None)"

subsection \<open>The threads\<close>

text \<open>
  Everything but \<open>active_requests\<close>, \<open>load_cancel\<close> and the resident index is read and written with the mutex held,
  so a step is what a thread does with the mutex, or one access without it. A locked part that tests
  \<open>active_requests\<close>, which the worker changes without the mutex, is split at the test. The thread holding the mutex is
  part of the state.
\<close>

datatype thread = Worker_thread | Accept_thread | Reaper_thread

text \<open>\<open>handle_unload\<close>: before it has the mutex, with it, and after either answer of the test.\<close>

datatype unload_pc = U_idle | U_test | U_defer | U_free

datatype worker_pc =
    K_idle
  | K_unload unload_pc
  | K_counted "string option" "int option"
  | K_load nat "int option"
  | K_serve nat "int option"
  | K_keep "int option"
  | K_answered
  | K_ended
  | K_finish
  | K_free

datatype reaper_pc = R_idle | R_look | R_test | R_free

record server =
  sys_sv :: server_state
  sys_mu :: "thread option"
  sys_worker :: worker_pc
  sys_accept :: unload_pc
  sys_reaper :: reaper_pc

inductive unload_step :: "thread \<Rightarrow> unload_pc \<Rightarrow> thread option \<Rightarrow> server_state \<Rightarrow>
    unload_pc \<Rightarrow> thread option \<Rightarrow> server_state \<Rightarrow> bool" for t :: thread where
  u_lock: "unload_step t U_idle None sv U_test (Some t) sv"
| u_busy: "unload_busy sv \<Longrightarrow> unload_step t U_test (Some t) sv U_defer (Some t) sv"
| u_quiet: "\<not> unload_busy sv \<Longrightarrow> unload_step t U_test (Some t) sv U_free (Some t) sv"
| u_defer: "unload_step t U_defer (Some t) sv U_idle None (unload_defer sv)"
| u_free: "unload_step t U_free (Some t) sv U_idle None (unload_now sv)"

text \<open>A load brings a model of the entry's path, or none.\<close>

definition loads :: "model_entry \<Rightarrow> load_result \<Rightarrow> bool" where
  "loads e r \<longleftrightarrow> (case lr_model r of None \<Rightarrow> True | Some m \<Rightarrow> lm_path m = me_path e)"

inductive worker_step :: "worker_pc \<Rightarrow> thread option \<Rightarrow> server_state \<Rightarrow>
    worker_pc \<Rightarrow> thread option \<Rightarrow> server_state \<Rightarrow> bool" where
  k_unload: "worker_step K_idle mu sv (K_unload U_idle) mu sv"
| k_unload_step: "unload_step Worker_thread p mu sv p' mu' sv' \<Longrightarrow>
    worker_step (K_unload p) mu sv (if p' = U_idle then K_idle else K_unload p') mu' sv'"
| k_count: "worker_step K_idle mu sv (K_counted want keep) mu (sv\<lparr>sv_active := sv_active sv + 1\<rparr>)"
| k_unknown: "swap_lookup want sv = None \<Longrightarrow> worker_step (K_counted want keep) mu sv K_answered mu sv"
| k_enter: "swap_lookup want sv = Some i \<Longrightarrow> swap_enter i sv = (load, sv') \<Longrightarrow>
    worker_step (K_counted want keep) None sv (if load then K_load i keep else K_serve i keep) None sv'"
| k_install: "loads (sv_reg sv ! i) r \<Longrightarrow> swap_install i r sv = (sw, sv') \<Longrightarrow>
    worker_step (K_load i keep) None sv (if swap_refusal sw = None then K_serve i keep else K_answered) None sv'"
| k_served: "worker_step (K_serve i keep) mu sv (K_keep keep) mu sv"
| k_keep: "worker_step (K_keep keep) None sv K_answered None (keep_alive keep sv)"
| k_no_keep: "worker_step (K_keep None) mu sv K_answered mu sv"
| k_end: "worker_step K_answered mu sv K_ended mu (sv\<lparr>sv_active := sv_active sv - 1\<rparr>)"
| k_lock: "worker_step K_ended None sv K_finish (Some Worker_thread) sv"
| k_finish: "\<not> unload_due sv \<Longrightarrow> worker_step K_finish (Some Worker_thread) sv K_idle None sv"
| k_due: "unload_due sv \<Longrightarrow> worker_step K_finish (Some Worker_thread) sv K_free (Some Worker_thread) sv"
| k_free: "worker_step K_free (Some Worker_thread) sv K_idle None (unload_pending sv)"

inductive reaper_step :: "reaper_pc \<Rightarrow> thread option \<Rightarrow> server_state \<Rightarrow>
    reaper_pc \<Rightarrow> thread option \<Rightarrow> server_state \<Rightarrow> bool" where
  r_look: "reap_looks sv \<Longrightarrow> reaper_step R_idle mu sv R_look mu sv"
| r_taken: "reaper_step R_look (Some t) sv R_idle (Some t) sv"
| r_lock: "reaper_step R_look None sv R_test (Some Reaper_thread) sv"
| r_due: "reap_due idle yield sv \<Longrightarrow> reaper_step R_test (Some Reaper_thread) sv R_free (Some Reaper_thread) sv"
| r_not: "reaper_step R_test (Some Reaper_thread) sv R_idle None sv"
| r_free: "reaper_step R_free (Some Reaper_thread) sv R_idle None (unload_resident sv)"

text \<open>The accept loop sets \<open>load_cancel\<close> when it shuts down.\<close>

inductive server_step :: "server \<Rightarrow> server \<Rightarrow> bool" where
  s_worker: "worker_step (sys_worker s) (sys_mu s) (sys_sv s) w mu sv \<Longrightarrow>
    server_step s (s\<lparr>sys_worker := w, sys_mu := mu, sys_sv := sv\<rparr>)"
| s_accept: "unload_step Accept_thread (sys_accept s) (sys_mu s) (sys_sv s) a mu sv \<Longrightarrow>
    server_step s (s\<lparr>sys_accept := a, sys_mu := mu, sys_sv := sv\<rparr>)"
| s_reaper: "reaper_step (sys_reaper s) (sys_mu s) (sys_sv s) r mu sv \<Longrightarrow>
    server_step s (s\<lparr>sys_reaper := r, sys_mu := mu, sys_sv := sv\<rparr>)"
| s_cancel: "server_step s (s\<lparr>sys_sv := (sys_sv s)\<lparr>sv_load_cancel := True\<rparr>\<rparr>)"

text \<open>How the server starts: with a swap set nothing is resident; a single model is, with its draft if it has one.\<close>

definition swap_start :: "model_entry list \<Rightarrow> int \<Rightarrow> int \<Rightarrow> server_state" where
  "swap_start es tmpl_override ttl =
     \<lparr>sv_slot = \<lparr>sl_model = None, sl_tok = None, sl_e_model = None, sl_e_tok = None, sl_e_draft = None, sl_tmpl = 0\<rparr>,
      sv_n_slots = 1, sv_model_name = me_name (es ! 0), sv_ctx_size = 0, sv_reg = es, sv_single = False,
      sv_borrowed = False, sv_resident = -1, sv_ttl = ttl, sv_active = 0, sv_loading = False,
      sv_pending_unload = False, sv_load_cancel = False, sv_draft = None, sv_draft_path = None,
      sv_tmpl_override = tmpl_override\<rparr>"

definition single_start :: "model_entry \<Rightarrow> loaded_model \<Rightarrow> loaded_model option \<Rightarrow> string \<Rightarrow> int \<Rightarrow> int \<Rightarrow> server_state" where
  "single_start e m draft draft_path tmpl_override ttl =
     \<lparr>sv_slot = \<lparr>sl_model = Some m, sl_tok = Some m, sl_e_model = Some m, sl_e_tok = Some m, sl_e_draft = draft,
        sl_tmpl = me_tmpl e\<rparr>,
      sv_n_slots = 1, sv_model_name = me_name e, sv_ctx_size = lm_n_ctx m, sv_reg = [e], sv_single = True,
      sv_borrowed = True, sv_resident = 0, sv_ttl = ttl, sv_active = 0, sv_loading = False,
      sv_pending_unload = False, sv_load_cancel = False, sv_draft = draft,
      sv_draft_path = (if draft = None then None else Some draft_path), sv_tmpl_override = tmpl_override\<rparr>"

inductive server_start :: "server_state \<Rightarrow> bool" where
  start_swap: "es \<noteq> [] \<Longrightarrow> server_start (swap_start es tmpl_override ttl)"
| start_single: "lm_path m = me_path e \<Longrightarrow> server_start (single_start e m draft draft_path tmpl_override ttl)"

inductive server_reachable :: "server \<Rightarrow> bool" where
  reached_start: "server_start sv \<Longrightarrow>
    server_reachable \<lparr>sys_sv = sv, sys_mu = None, sys_worker = K_idle, sys_accept = U_idle, sys_reaper = R_idle\<rparr>"
| reached_step: "server_reachable s \<Longrightarrow> server_step s s' \<Longrightarrow> server_reachable s'"

end
