(* ===== verification/Residency_Laws.thy ===== *)
theory Residency_Laws
  imports Residency
begin

text \<open>
  What the threads keep: the slot agrees with the resident index, a request is served only from the model it asked
  for, and a wish to unload does not outlive the requests.
\<close>

subsection \<open>The slot and the resident index\<close>

definition slot_ok :: "server_state \<Rightarrow> bool" where
  "slot_ok sv \<longleftrightarrow>
     sv_reg sv \<noteq> [] \<and>
     (sv_resident sv = -1 \<or>
        (\<exists>i m. sv_resident sv = int i \<and> i < sv_n_reg sv \<and> sl_model (sv_slot sv) = Some m \<and>
           sl_e_model (sv_slot sv) = Some m \<and> lm_path m = me_path (sv_reg sv ! i) \<and>
           sl_e_draft (sv_slot sv) = sv_draft sv)) \<and>
     (\<not> sv_single sv \<longrightarrow> sv_draft sv = None \<and> sl_e_draft (sv_slot sv) = None)"

lemma unload_resident_sel [simp]:
  "sv_reg (unload_resident sv) = sv_reg sv" "sv_single (unload_resident sv) = sv_single sv"
  "sv_active (unload_resident sv) = sv_active sv" "sv_loading (unload_resident sv) = sv_loading sv"
  "sv_pending_unload (unload_resident sv) = sv_pending_unload sv" "sv_draft (unload_resident sv) = sv_draft sv"
  "sl_e_draft (sv_slot (unload_resident sv)) = sl_e_draft (sv_slot sv)"
  "sv_resident (unload_resident sv) = (if sv_resident sv < 0 then sv_resident sv else -1)"
  by (simp_all add: unload_resident_def)

lemma unload_draft_sel [simp]:
  "sv_reg (unload_draft sv) = sv_reg sv" "sv_single (unload_draft sv) = sv_single sv"
  "sv_active (unload_draft sv) = sv_active sv" "sv_loading (unload_draft sv) = sv_loading sv"
  "sv_pending_unload (unload_draft sv) = sv_pending_unload sv" "sv_resident (unload_draft sv) = sv_resident sv"
  "sv_draft (unload_draft sv) = None"
  by (simp_all add: unload_draft_def)

lemma unload_now_sel [simp]:
  "sv_active (unload_now sv) = sv_active sv" "sv_loading (unload_now sv) = sv_loading sv"
  "sv_pending_unload (unload_now sv) = sv_pending_unload sv" "sv_single (unload_now sv) = sv_single sv"
  by (simp_all add: unload_now_def)

lemma unload_pending_sel [simp]:
  "sv_active (unload_pending sv) = sv_active sv" "sv_loading (unload_pending sv) = sv_loading sv"
  "sv_pending_unload (unload_pending sv) = False"
  by (simp_all add: unload_pending_def)

lemma unload_defer_sel [simp]:
  "sv_active (unload_defer sv) = sv_active sv" "sv_loading (unload_defer sv) = sv_loading sv"
  "sv_resident (unload_defer sv) = sv_resident sv" "slot_ok (unload_defer sv) = slot_ok sv"
  by (simp_all add: unload_defer_def slot_ok_def)

lemma keep_alive_sel [simp]:
  "sv_active (keep_alive k sv) = sv_active sv" "sv_loading (keep_alive k sv) = sv_loading sv"
  "slot_ok (keep_alive k sv) = slot_ok sv"
  by (auto simp: keep_alive_def slot_ok_def split: option.splits)

lemma slot_ok_resident: "slot_ok sv \<Longrightarrow> sv_resident sv < 0 \<Longrightarrow> sv_resident sv = -1"
  by (auto simp: slot_ok_def)

lemma slot_ok_reg: "slot_ok sv \<Longrightarrow> sv_reg sv \<noteq> []"
  by (simp add: slot_ok_def)

lemma slot_ok_unload: "slot_ok sv \<Longrightarrow> slot_ok (unload_resident sv)"
  by (auto simp: slot_ok_def)

lemma slot_ok_unload_now: "slot_ok sv \<Longrightarrow> slot_ok (unload_now sv)"
  by (auto simp: slot_ok_def unload_now_def unload_draft_def)

lemma unload_now_resident: "slot_ok sv \<Longrightarrow> sv_resident (unload_now sv) = -1"
  by (auto simp: unload_now_def slot_ok_def)

lemma slot_ok_irrelevant [simp]:
  "slot_ok (sv\<lparr>sv_active := a\<rparr>) = slot_ok sv" "slot_ok (sv\<lparr>sv_pending_unload := p\<rparr>) = slot_ok sv"
  "slot_ok (sv\<lparr>sv_load_cancel := c\<rparr>) = slot_ok sv" "slot_ok (sv\<lparr>sv_loading := l\<rparr>) = slot_ok sv"
  "slot_ok (sv\<lparr>sv_model_name := n\<rparr>) = slot_ok sv"
  by (simp_all add: slot_ok_def)

lemma slot_ok_unload_pending: "slot_ok sv \<Longrightarrow> slot_ok (unload_pending sv)"
  by (simp add: unload_pending_def slot_ok_unload_now)

subsection \<open>swap_to\<close>

lemma entry_index_range: "entry_index k es w = Some i \<Longrightarrow> k \<le> i \<and> i < k + length es"
  by (induction k es w rule: entry_index.induct) (auto split: if_splits)

lemma swap_lookup_range: "sv_reg sv \<noteq> [] \<Longrightarrow> swap_lookup want sv = Some i \<Longrightarrow> i < sv_n_reg sv"
  by (auto simp: swap_lookup_def dest: entry_index_range split: option.splits if_splits)

lemma swap_enter_ok:
  assumes "swap_enter i sv = (load, sv')" "slot_ok sv" "\<not> sv_loading sv"
  shows "slot_ok sv' \<and> sv_active sv' = sv_active sv \<and> sv_loading sv' = load \<and> \<not> sv_pending_unload sv' \<and>
    sv_n_reg sv' = sv_n_reg sv \<and> sv_resident sv' = (if load then -1 else int i)"
  using assms slot_ok_resident [OF assms(2)]
  by (auto simp: swap_enter_def Let_def slot_ok_unload split: if_splits)

lemma swap_refusal_none: "swap_refusal sw = None \<longleftrightarrow> 0 \<le> sw"
  by (simp add: swap_refusal_def SWAP_LOAD_FAILED_def SWAP_ABORTED_def SWAP_ENVELOPE_REFUSED_def)

lemma swap_codes [simp]: "SWAP_LOAD_FAILED < 0" "SWAP_ABORTED < 0" "SWAP_ENVELOPE_REFUSED < 0"
    "\<not> 0 \<le> SWAP_LOAD_FAILED" "\<not> 0 \<le> SWAP_ABORTED" "\<not> 0 \<le> SWAP_ENVELOPE_REFUSED"
  by (simp_all add: SWAP_LOAD_FAILED_def SWAP_ABORTED_def SWAP_ENVELOPE_REFUSED_def)

text \<open>A commit does not change the entries' paths.\<close>

lemma swap_slot_sel [simp]:
  "sv_single (swap_slot i m sv) = sv_single sv" "sv_active (swap_slot i m sv) = sv_active sv"
  "sv_loading (swap_slot i m sv) = sv_loading sv" "sv_pending_unload (swap_slot i m sv) = sv_pending_unload sv"
  "sv_resident (swap_slot i m sv) = sv_resident sv" "sv_n_reg (swap_slot i m sv) = sv_n_reg sv"
  "sl_model (sv_slot (swap_slot i m sv)) = Some m"
  by (simp_all add: swap_slot_def Let_def)

lemma swap_slot_path [simp]: "j < sv_n_reg sv \<Longrightarrow> me_path (sv_reg (swap_slot i m sv) ! j) = me_path (sv_reg sv ! j)"
  by (cases "j = i") (simp_all add: swap_slot_def Let_def)

lemma swap_slot_ok: "slot_ok sv \<Longrightarrow> sv_resident sv = -1 \<Longrightarrow> slot_ok (swap_slot i m sv)"
  by (auto simp: slot_ok_def swap_slot_def Let_def)

lemma swap_commit_ok:
  assumes "swap_commit i m r sv = (sw, sv')" "slot_ok sv" "i < sv_n_reg sv" "sv_resident sv = -1"
    and "lm_path m = me_path (sv_reg sv ! i)" "sl_model (sv_slot sv) = Some m"
  shows "slot_ok sv' \<and> sv_active sv' = sv_active sv \<and> sv_loading sv' = sv_loading sv \<and>
    sv_pending_unload sv' = sv_pending_unload sv \<and>
    sv_resident sv' = (if swap_refusal sw = None then int i else -1)"
proof (cases "lr_engine_ok r")
  case False
  then show ?thesis using assms
    by (auto simp: swap_commit_def Let_def swap_refusal_none slot_ok_def)
next
  case True
  then show ?thesis using assms
    by (cases "sv_single sv"; cases "sv_draft sv"; cases "sv_draft_path sv"; cases "lr_draft r")
      (auto simp: swap_commit_def Let_def swap_refusal_none slot_ok_def)
qed

lemma swap_install_ok:
  assumes i: "swap_install i r sv = (sw, sv')" and s: "slot_ok sv" "i < sv_n_reg sv" "sv_resident sv = -1"
    and l: "loads (sv_reg sv ! i) r"
  shows "slot_ok sv' \<and> sv_active sv' = sv_active sv \<and> \<not> sv_loading sv' \<and> \<not> sv_pending_unload sv' \<and>
    sv_resident sv' = (if swap_refusal sw = None then int i else -1)"
proof -
  let ?sv = "sv\<lparr>sv_loading := False, sv_pending_unload := False\<rparr>"
  consider "sw < 0" "sv' = ?sv"
    | m where "lr_model r = Some m" "swap_commit i m r (swap_slot i m ?sv) = (sw, sv')"
    using i by (cases "lr_model r") (auto simp: swap_install_def Let_def split: if_splits)
  then show ?thesis
  proof cases
    case 1
    then show ?thesis using s by (simp add: swap_refusal_none)
  next
    case (2 m)
    then show ?thesis using swap_commit_ok [OF 2(2)] s l swap_slot_ok [of ?sv i m] by (simp add: loads_def)
  qed
qed

subsection \<open>The invariant\<close>

text \<open>Where the worker's request is counted, and where the worker has the mutex.\<close>

fun counted :: "worker_pc \<Rightarrow> bool" where
  "counted (K_counted want keep) = True"
| "counted (K_load i keep) = True"
| "counted (K_serve i keep) = True"
| "counted (K_keep keep) = True"
| "counted K_answered = True"
| "counted w = False"

fun worker_holds :: "worker_pc \<Rightarrow> bool" where
  "worker_holds (K_unload p) = (p \<noteq> U_idle)"
| "worker_holds K_finish = True"
| "worker_holds K_free = True"
| "worker_holds w = False"

definition in_load :: "worker_pc \<Rightarrow> bool" where
  "in_load w \<longleftrightarrow> (\<exists>i keep. w = K_load i keep)"

text \<open>Idle in the sense of the server: no request is being handled.\<close>

fun quiet :: "worker_pc \<Rightarrow> bool" where
  "quiet K_idle = True"
| "quiet (K_unload p) = True"
| "quiet w = False"

definition worker_ok :: "worker_pc \<Rightarrow> server_state \<Rightarrow> bool" where
  "worker_ok w sv \<longleftrightarrow>
     sv_active sv = (if counted w then 1 else 0) \<and> (sv_loading sv \<longleftrightarrow> in_load w) \<and>
     (quiet w \<longrightarrow> \<not> sv_pending_unload sv) \<and> w \<noteq> K_unload U_defer \<and>
     (\<forall>i keep. w = K_serve i keep \<longrightarrow> sv_resident sv = int i) \<and>
     (\<forall>i keep. w = K_load i keep \<longrightarrow> sv_resident sv = -1 \<and> i < sv_n_reg sv)"

text \<open>What the others know while they have the mutex.\<close>

definition accept_ok :: "unload_pc \<Rightarrow> worker_pc \<Rightarrow> bool" where
  "accept_ok a w \<longleftrightarrow>
     (a = U_defer \<longrightarrow> counted w \<or> w = K_ended) \<and> (a = U_free \<longrightarrow> \<not> in_load w \<and> (\<forall>i keep. w \<noteq> K_serve i keep))"

definition reaper_ok :: "reaper_pc \<Rightarrow> worker_pc \<Rightarrow> bool" where
  "reaper_ok r w \<longleftrightarrow> (r = R_free \<longrightarrow> \<not> in_load w \<and> (\<forall>i keep. w \<noteq> K_serve i keep))"

definition mutex_ok :: "server \<Rightarrow> bool" where
  "mutex_ok s \<longleftrightarrow>
     (sys_mu s = Some Worker_thread \<longleftrightarrow> worker_holds (sys_worker s)) \<and>
     (sys_mu s = Some Accept_thread \<longleftrightarrow> sys_accept s \<noteq> U_idle) \<and>
     (sys_mu s = Some Reaper_thread \<longleftrightarrow> sys_reaper s = R_test \<or> sys_reaper s = R_free)"

definition server_inv :: "server \<Rightarrow> bool" where
  "server_inv s \<longleftrightarrow>
     mutex_ok s \<and> slot_ok (sys_sv s) \<and> worker_ok (sys_worker s) (sys_sv s) \<and>
     accept_ok (sys_accept s) (sys_worker s) \<and> reaper_ok (sys_reaper s) (sys_worker s)"

inductive_cases unload_stepE: "unload_step t p mu sv p' mu' sv'"
inductive_cases worker_stepE: "worker_step w mu sv w' mu' sv'"
inductive_cases reaper_stepE: "reaper_step r mu sv r' mu' sv'"
inductive_cases server_stepE: "server_step s s'"

lemmas inv_defs = mutex_ok_def worker_ok_def accept_ok_def reaper_ok_def in_load_def

text \<open>What a step of the worker's own keeps; while another thread has the mutex, it neither loads nor begins to
  serve, nor is it done with a request it counted.\<close>

definition worker_safe :: "worker_pc \<Rightarrow> thread option \<Rightarrow> worker_pc \<Rightarrow> thread option \<Rightarrow> bool" where
  "worker_safe w mu w' mu' \<longleftrightarrow>
     (mu' = Some Worker_thread \<longleftrightarrow> worker_holds w') \<and>
     (mu \<noteq> None \<longrightarrow> mu \<noteq> Some Worker_thread \<longrightarrow> mu' = mu \<and>
        (counted w \<or> w = K_ended \<longrightarrow> counted w' \<or> w' = K_ended) \<and>
        (in_load w' \<longrightarrow> in_load w) \<and> ((\<exists>i keep. w' = K_serve i keep) \<longrightarrow> (\<exists>i keep. w = K_serve i keep))) \<and>
     (mu = None \<or> mu = Some Worker_thread \<longrightarrow> mu' = None \<or> mu' = Some Worker_thread)"

lemma worker_step_safe:
  "worker_step w mu sv w' mu' sv' \<Longrightarrow> mu = Some Worker_thread \<longleftrightarrow> worker_holds w \<Longrightarrow> worker_safe w mu w' mu'"
  by (erule worker_stepE) (auto simp: worker_safe_def in_load_def elim!: unload_stepE)

lemma worker_step_slot: "worker_step w mu sv w' mu' sv' \<Longrightarrow> slot_ok sv \<Longrightarrow> worker_ok w sv \<Longrightarrow> slot_ok sv'"
  by (erule worker_stepE)
    (auto simp: worker_ok_def in_load_def slot_ok_unload_now slot_ok_unload_pending
      dest: swap_enter_ok swap_install_ok elim!: unload_stepE)

lemma worker_step_ok:
  assumes "worker_step w mu sv w' mu' sv'" "slot_ok sv" "worker_ok w sv"
  shows "worker_ok w' sv'"
  using assms(1)
proof (cases rule: worker_step.cases)
  case (k_enter want i load keep)
  note assms(2)
  moreover have "\<not> sv_loading sv" using assms(3) k_enter by (simp add: worker_ok_def in_load_def)
  ultimately show ?thesis using swap_enter_ok [of i sv load sv'] swap_lookup_range [OF slot_ok_reg] assms(3) k_enter
    by (simp add: worker_ok_def in_load_def)
next
  case (k_install i r sw keep)
  then show ?thesis using swap_install_ok [of i r sv sw sv'] assms(2,3)
    by (simp add: worker_ok_def in_load_def)
next
  case (k_unload_step p p')
  then show ?thesis using assms(3)
    by (auto simp: worker_ok_def in_load_def unload_busy_def elim!: unload_stepE)
qed (use assms in \<open>auto simp: worker_ok_def in_load_def unload_due_def\<close>)

text \<open>A step of the accept loop and of the reaper.\<close>

lemma accept_step_ok:
  assumes "unload_step Accept_thread a mu sv a' mu' sv'" "slot_ok sv" "worker_ok w sv" "accept_ok a w"
  shows "slot_ok sv' \<and> worker_ok w sv' \<and> accept_ok a' w"
  using assms(1)
proof (cases rule: unload_step.cases)
  case u_busy
  then have "counted w" using assms(3) by (cases "counted w") (auto simp: worker_ok_def in_load_def unload_busy_def)
  then show ?thesis using u_busy assms by (simp add: accept_ok_def)
next
  case u_quiet
  then have "\<not> in_load w" "\<not> counted w" using assms(3) by (auto simp: worker_ok_def unload_busy_def)
  then show ?thesis using u_quiet assms by (auto simp: accept_ok_def)
next
  case u_defer
  then have "\<not> quiet w" using assms(4) by (auto simp: accept_ok_def elim: quiet.elims counted.elims)
  then show ?thesis using u_defer assms by (simp add: worker_ok_def accept_ok_def unload_defer_def slot_ok_def)
next
  case u_free
  then show ?thesis using assms slot_ok_unload_now [OF assms(2)]
    by (auto simp: worker_ok_def accept_ok_def in_load_def)
qed (use assms in \<open>simp add: accept_ok_def\<close>)

lemma reaper_step_ok:
  assumes "reaper_step r mu sv r' mu' sv'" "slot_ok sv" "worker_ok w sv" "reaper_ok r w"
  shows "slot_ok sv' \<and> worker_ok w sv' \<and> reaper_ok r' w"
  using assms(1)
proof (cases rule: reaper_step.cases)
  case (r_due idle yield)
  then have "\<not> counted w" using assms(3) by (auto simp: worker_ok_def reap_due_def)
  then show ?thesis using r_due assms by (auto simp: reaper_ok_def in_load_def)
next
  case r_free
  then show ?thesis using assms slot_ok_unload [OF assms(2)] by (auto simp: worker_ok_def reaper_ok_def in_load_def)
qed (use assms in \<open>simp_all add: reaper_ok_def\<close>)

lemma unload_step_mutex:
  "unload_step t a mu sv a' mu' sv' \<Longrightarrow> mu = Some t \<longleftrightarrow> a \<noteq> U_idle \<Longrightarrow>
    (mu = None \<or> mu = Some t) \<and> (mu' = None \<or> mu' = Some t) \<and> (mu' = Some t \<longleftrightarrow> a' \<noteq> U_idle)"
  by (erule unload_stepE) auto

lemma reaper_step_mutex:
  "reaper_step r mu sv r' mu' sv' \<Longrightarrow> mu = Some Reaper_thread \<longleftrightarrow> r = R_test \<or> r = R_free \<Longrightarrow>
    (mu' = mu \<or> (mu = None \<or> mu = Some Reaper_thread) \<and> (mu' = None \<or> mu' = Some Reaper_thread)) \<and>
    (mu' = Some Reaper_thread \<longleftrightarrow> r' = R_test \<or> r' = R_free)"
  by (erule reaper_stepE) auto

lemma worker_safe_other:
  "worker_safe w mu w' mu' \<Longrightarrow> t \<noteq> Worker_thread \<Longrightarrow> mu' = Some t \<longleftrightarrow> mu = Some t"
  by (cases "mu = None \<or> mu = Some Worker_thread") (auto simp: worker_safe_def)

lemma worker_safe_barred:
  assumes "worker_safe w mu w' mu'" "mu = Some t" "t \<noteq> Worker_thread"
  shows "counted w \<or> w = K_ended \<Longrightarrow> counted w' \<or> w' = K_ended"
    and "\<not> in_load w \<and> (\<forall>i keep. w \<noteq> K_serve i keep) \<Longrightarrow> \<not> in_load w' \<and> (\<forall>i keep. w' \<noteq> K_serve i keep)"
  using assms unfolding worker_safe_def by (simp, blast)

lemma worker_safe_accept:
  "worker_safe w mu w' mu' \<Longrightarrow> mu = Some Accept_thread \<longleftrightarrow> a \<noteq> U_idle \<Longrightarrow> accept_ok a w \<Longrightarrow> accept_ok a w'"
  using worker_safe_barred [of w mu w' mu' Accept_thread] by (cases a) (simp_all add: accept_ok_def)

lemma worker_safe_reaper:
  "worker_safe w mu w' mu' \<Longrightarrow> mu = Some Reaper_thread \<longleftrightarrow> r = R_test \<or> r = R_free \<Longrightarrow>
    reaper_ok r w \<Longrightarrow> reaper_ok r w'"
  using worker_safe_barred [of w mu w' mu' Reaper_thread] by (cases r) (simp_all add: reaper_ok_def)

lemma server_step_inv:
  assumes "server_inv s" "server_step s s'"
  shows "server_inv s'"
  using assms(2)
proof (cases rule: server_step.cases)
  case (s_worker w mu sv)
  note ws = s_worker(2)
  have safe: "worker_safe (sys_worker s) (sys_mu s) w mu"
    using worker_step_safe [OF ws] assms(1) by (simp add: server_inv_def mutex_ok_def)
  have "worker_holds w \<longleftrightarrow> mu = Some Worker_thread" using safe by (simp add: worker_safe_def)
  then have "mutex_ok s'" using worker_safe_other [OF safe] assms(1) s_worker(1)
    by (simp add: server_inv_def mutex_ok_def)
  moreover have "accept_ok (sys_accept s) w" "reaper_ok (sys_reaper s) w"
    using worker_safe_accept [OF safe] worker_safe_reaper [OF safe] assms(1) by (simp_all add: server_inv_def mutex_ok_def)
  ultimately show ?thesis using assms(1) s_worker(1) worker_step_slot [OF ws] worker_step_ok [OF ws]
    by (simp add: server_inv_def)
next
  case (s_accept a mu sv)
  then show ?thesis
    using assms(1) accept_step_ok [OF s_accept(2)] unload_step_mutex [OF s_accept(2)]
    by (auto simp: server_inv_def mutex_ok_def)
next
  case (s_reaper r mu sv)
  then show ?thesis
    using assms(1) reaper_step_ok [OF s_reaper(2)] reaper_step_mutex [OF s_reaper(2)]
    by (auto simp: server_inv_def mutex_ok_def)
next
  case s_cancel
  then show ?thesis using assms(1) by (simp add: server_inv_def mutex_ok_def worker_ok_def)
qed

lemma server_reachable_inv: "server_reachable s \<Longrightarrow> server_inv s"
proof (induction rule: server_reachable.induct)
  case (reached_start sv)
  then show ?case
    by (cases rule: server_start.cases)
      (simp_all add: server_inv_def inv_defs slot_ok_def swap_start_def single_start_def)
qed (rule server_step_inv)

text \<open>While a request is served, no step of any thread touches the slot.\<close>

lemma serving_slot_kept:
  assumes "server_inv s" "sys_worker s = K_serve i keep" "server_step s s'"
  shows "sv_slot (sys_sv s') = sv_slot (sys_sv s)"
  using assms(3)
proof (cases rule: server_step.cases)
  case (s_worker w mu sv)
  then show ?thesis using assms(2) by (auto elim: worker_stepE)
next
  case (s_accept a mu sv)
  have "sys_accept s \<noteq> U_free" using assms(1,2) by (auto simp: server_inv_def accept_ok_def)
  then show ?thesis using s_accept by (auto simp: unload_defer_def elim: unload_stepE)
next
  case (s_reaper r mu sv)
  have "sys_reaper s \<noteq> R_free" using assms(1,2) by (auto simp: server_inv_def reaper_ok_def)
  then show ?thesis using s_reaper by (auto elim: reaper_stepE)
qed simp

subsection \<open>Requests\<close>

text \<open>C40: whatever the interleaving of requests, swaps, \<open>POST /unload\<close>, idle reaping and shutdown, a request is
  served from the model of the entry it was resolved to: while it is, that entry is the resident one, slot 0 and its
  engine point to a model loaded from the entry's path, the engine's draft is the one that is still allocated, and no
  step of any thread changes the slot. Once the worker is idle again no wish to unload is left over, nothing is loading
  and no request is counted.\<close>

theorem request_keeps_its_model:
  assumes "server_reachable s"
  shows "case sys_worker s of
      K_serve i keep \<Rightarrow>
        (\<exists>m. sv_resident (sys_sv s) = int i \<and> i < sv_n_reg (sys_sv s) \<and> sl_model (sv_slot (sys_sv s)) = Some m \<and>
           sl_e_model (sv_slot (sys_sv s)) = Some m \<and> lm_path m = me_path (sv_reg (sys_sv s) ! i) \<and>
           sl_e_draft (sv_slot (sys_sv s)) = sv_draft (sys_sv s)) \<and>
        (\<forall>s'. server_step s s' \<longrightarrow> sv_slot (sys_sv s') = sv_slot (sys_sv s))
    | K_idle \<Rightarrow> \<not> sv_pending_unload (sys_sv s) \<and> \<not> sv_loading (sys_sv s) \<and> sv_active (sys_sv s) = 0
    | _ \<Rightarrow> True"
proof -
  have inv: "server_inv s" using assms by (rule server_reachable_inv)
  show ?thesis
  proof (cases "sys_worker s")
    case (K_serve i keep)
    then have "sv_resident (sys_sv s) = int i" "slot_ok (sys_sv s)"
      using inv by (simp_all add: server_inv_def worker_ok_def)
    then show ?thesis using K_serve serving_slot_kept [OF inv K_serve] by (auto simp: slot_ok_def)
  qed (use inv in \<open>simp_all add: server_inv_def worker_ok_def in_load_def\<close>)
qed

text \<open>One server that is serving a request.\<close>

definition example_entry :: model_entry where
  "example_entry = \<lparr>me_name = ''m'', me_path = ''m.gguf'', me_tmpl = 1\<rparr>"

definition example_model :: loaded_model where
  "example_model = \<lparr>lm_path = ''m.gguf'', lm_n_ctx = 4096, lm_tmpl = 1\<rparr>"

definition example_serving :: server where
  "example_serving =
     \<lparr>sys_sv = (single_start example_entry example_model None [] (-1) 60)\<lparr>sv_active := 1\<rparr>,
      sys_mu = None, sys_worker = K_serve 0 None, sys_accept = U_idle, sys_reaper = R_idle\<rparr>"

lemma example_serving_reachable: "server_reachable example_serving"
proof -
  let ?sv = "single_start example_entry example_model None [] (-1) 60"
  let ?s = "\<lparr>sys_sv = ?sv, sys_mu = None, sys_worker = K_idle, sys_accept = U_idle, sys_reaper = R_idle\<rparr>"
  have "server_start ?sv" by (rule start_single) (simp add: example_entry_def example_model_def)
  then have 1: "server_reachable ?s" by (rule reached_start)
  have "server_step ?s (?s\<lparr>sys_worker := K_counted None None, sys_mu := None, sys_sv := ?sv\<lparr>sv_active := 1\<rparr>\<rparr>)"
    using s_worker [of ?s "K_counted None None" None] k_count [of None ?sv None None] by (simp add: single_start_def)
  with 1 have 2: "server_reachable (?s\<lparr>sys_worker := K_counted None None, sys_mu := None, sys_sv := ?sv\<lparr>sv_active := 1\<rparr>\<rparr>)"
    by (rule reached_step)
  have "worker_step (K_counted None None) None (?sv\<lparr>sv_active := 1\<rparr>) (if False then K_load 0 None else K_serve 0 None)
    None (?sv\<lparr>sv_active := 1\<rparr>)"
    by (rule k_enter [of None]) (simp_all add: swap_lookup_def swap_enter_def single_start_def Let_def)
  then show ?thesis
    using reached_step [OF 2 s_worker] by (simp add: example_serving_def)
qed

lemma request_keeps_its_model_witness:
  "server_reachable example_serving \<and>
   (\<exists>m. sv_resident (sys_sv example_serving) = 0 \<and> sl_model (sv_slot (sys_sv example_serving)) = Some m \<and>
      lm_path m = me_path (sv_reg (sys_sv example_serving) ! 0))"
proof -
  have "sys_worker example_serving = K_serve 0 None" by (simp add: example_serving_def)
  then show ?thesis using request_keeps_its_model [OF example_serving_reachable] example_serving_reachable by auto
qed

end
