(* ===== verification/Tok_Hash.thy ===== *)
theory Tok_Hash
  imports Prelude
begin

text \<open>
  The string table of \<open>src/tokenizer.c\<close> (\<open>hmap\<close>): open addressing with linear probing over a power of two of
  slots, filled once and then only read. \<open>str_map\<close> is the contract the tokenizer relies on: the first value put
  under a key is the one found.
\<close>

unbundle bit_operations_syntax

subsection \<open>The table\<close>

definition fnv1a :: "string \<Rightarrow> 64 word" where
  "fnv1a s = foldl (\<lambda>h c. (h XOR word_of_nat (byte c)) * 0x100000001b3) 0xcbf29ce484222325 s"

text \<open>The slots; a table that was never allocated has none.\<close>

type_synonym hmap = "(string \<times> int) option list"

text \<open>The loop of \<open>hmap_init\<close>, where \<open>cap\<close> is \<open>2 ^ e\<close> and \<open>want\<close> is \<open>expect * 2\<close> in 64 bits.\<close>

function hmap_exp :: "nat \<Rightarrow> nat \<Rightarrow> nat" where
  "hmap_exp want e =
     (if (2 :: nat) ^ e < want \<and> (2 :: nat) ^ e \<le> (2 ^ 64 - 1) div 2 then hmap_exp want (e + 1) else e)"
  by pat_completeness auto
termination
proof (relation "measure (\<lambda>(want, e). 64 - e)", goal_cases)
  case (2 want e)
  then have "(2 :: nat) ^ e < 2 ^ 63" by simp
  then have "e < 63" using power_less_imp_less_exp [of "2 :: nat" e 63] by simp
  then show ?case by simp
qed simp

declare hmap_exp.simps [simp del]

definition hmap_init :: "nat \<Rightarrow> hmap" where
  "hmap_init expect = replicate (2 ^ hmap_exp ((expect * 2) mod 2 ^ 64) 4) None"

definition hmap_slot :: "hmap \<Rightarrow> string \<Rightarrow> nat" where
  "hmap_slot m k = unat (fnv1a k) AND (length m - 1)"

text \<open>The probe loop of \<open>hmap_put\<close> and \<open>hmap_get\<close>: the first slot from \<open>i\<close> on that is free or holds the key. The
  fuel is the number of slots; it ends without a slot only where the loop would go round for ever.\<close>

fun hmap_probe :: "nat \<Rightarrow> hmap \<Rightarrow> string \<Rightarrow> nat \<Rightarrow> nat option" where
  "hmap_probe 0 m k i = None"
| "hmap_probe (Suc f) m k i =
     (case m ! i of
        None \<Rightarrow> Some i
      | Some (k', v) \<Rightarrow> if k' = k then Some i else hmap_probe f m k ((i + 1) AND (length m - 1)))"

text \<open>\<open>None\<close>: the loop does not end.\<close>

definition hmap_put :: "hmap \<Rightarrow> string \<Rightarrow> int \<Rightarrow> hmap option" where
  "hmap_put m k v =
     (case hmap_probe (length m) m k (hmap_slot m k) of
        None \<Rightarrow> None
      | Some i \<Rightarrow> Some (if m ! i = None then m[i := Some (k, v)] else m))"

definition hmap_get :: "hmap \<Rightarrow> string \<Rightarrow> int" where
  "hmap_get m k =
     (if m = [] then -1
      else (case hmap_probe (length m) m k (hmap_slot m k) of
              None \<Rightarrow> -1
            | Some i \<Rightarrow> (case m ! i of None \<Rightarrow> -1 | Some (_, v) \<Rightarrow> v)))"

text \<open>The loop that fills the table with the strings of an array, under their indices from \<open>i\<close> on.\<close>

fun hmap_fill :: "hmap \<Rightarrow> nat \<Rightarrow> string list \<Rightarrow> hmap option" where
  "hmap_fill m i [] = Some m"
| "hmap_fill m i (k # ks) = (case hmap_put m k (int i) of None \<Rightarrow> None | Some m' \<Rightarrow> hmap_fill m' (i + 1) ks)"

subsection \<open>The contract\<close>

text \<open>A map that is filled up to its room, keeps the first value of each key, and answers \<open>-1\<close> for the others.\<close>

locale str_map =
  fixes valid :: "nat \<Rightarrow> 'm \<Rightarrow> bool" and get :: "'m \<Rightarrow> string \<Rightarrow> int" and put :: "'m \<Rightarrow> string \<Rightarrow> int \<Rightarrow> 'm option"
    and new :: "nat \<Rightarrow> 'm"
  assumes new_valid: "n < 2 ^ 62 \<Longrightarrow> valid n (new n)"
    and get_new: "n < 2 ^ 62 \<Longrightarrow> get (new n) k = -1"
    and put_valid: "valid (Suc n) m \<Longrightarrow> put m k v = Some m' \<Longrightarrow> 0 \<le> v \<Longrightarrow> valid n m'"
    and put_some: "valid (Suc n) m \<Longrightarrow> 0 \<le> v \<Longrightarrow> put m k v \<noteq> None"
    and get_put: "valid (Suc n) m \<Longrightarrow> put m k v = Some m' \<Longrightarrow> 0 \<le> v \<Longrightarrow>
      get m' k' = (if k' = k \<and> get m k = -1 then v else get m k')"
begin

fun put_all :: "'m \<Rightarrow> nat \<Rightarrow> string list \<Rightarrow> 'm option" where
  "put_all m i [] = Some m"
| "put_all m i (k # ks) = (case put m k (int i) of None \<Rightarrow> None | Some m' \<Rightarrow> put_all m' (i + 1) ks)"

text \<open>The first index at which a string stands.\<close>

fun first_index :: "nat \<Rightarrow> string list \<Rightarrow> string \<Rightarrow> int" where
  "first_index i [] s = -1"
| "first_index i (k # ks) s = (if k = s then int i else first_index (i + 1) ks s)"

lemma put_all_get:
  "valid (length ks) m \<Longrightarrow>
    \<exists>m'. put_all m i ks = Some m' \<and> (\<forall>s. get m' s = (if get m s = -1 then first_index i ks s else get m s))"
proof (induction ks arbitrary: m i)
  case (Cons k ks)
  have v: "valid (Suc (length ks)) m" using Cons.prems by simp
  then obtain m1 where p: "put m k (int i) = Some m1" using put_some [of "length ks" m "int i" k] by auto
  obtain m' where m': "put_all m1 (i + 1) ks = Some m'"
    "\<forall>s. get m' s = (if get m1 s = -1 then first_index (i + 1) ks s else get m1 s)"
    using Cons.IH [OF put_valid [OF v p], of "i + 1"] by auto
  have "get m' s = (if get m s = -1 then first_index i (k # ks) s else get m s)" for s
    using m'(2) get_put [OF v p, of s] by auto
  then show ?case using p m'(1) by auto
qed simp

lemma put_all_new:
  assumes "length ks < 2 ^ 62"
  shows "\<exists>m. put_all (new (length ks)) i ks = Some m \<and> (\<forall>s. get m s = first_index i ks s)"
  using put_all_get [OF new_valid [OF assms], of i] get_new [OF assms] by simp

end

subsection \<open>The table keeps it\<close>

definition hmap_at :: "hmap \<Rightarrow> string \<Rightarrow> nat \<Rightarrow> nat" where
  "hmap_at m k d = (hmap_slot m k + d) mod length m"

definition hmap_used :: "hmap \<Rightarrow> nat" where
  "hmap_used m = length (filter (\<lambda>x. x \<noteq> None) m)"

text \<open>Every key is where its probe sequence leads, and there is room for \<open>n\<close> more with a slot to spare.\<close>

definition hmap_ok :: "nat \<Rightarrow> hmap \<Rightarrow> bool" where
  "hmap_ok n m \<longleftrightarrow>
     (\<exists>e. length m = 2 ^ e) \<and> hmap_used m + n < length m \<and>
     (\<forall>i<length m. \<forall>k v. m ! i = Some (k, v) \<longrightarrow> 0 \<le> v \<and>
        (\<exists>d<length m. hmap_at m k d = i \<and> (\<forall>d'<d. \<exists>k' v'. m ! hmap_at m k d' = Some (k', v') \<and> k' \<noteq> k)))"

lemma mask_mod: "c = 2 ^ e \<Longrightarrow> (n :: nat) AND (c - Suc 0) = n mod c"
  using take_bit_eq_mask [of e n] by (simp add: take_bit_eq_mod mask_eq_exp_minus_1)

lemma hmap_exp_spec: "4 \<le> e \<Longrightarrow> want < 2 ^ 63 \<Longrightarrow> want \<le> 2 ^ hmap_exp want e \<and> 4 \<le> hmap_exp want e"
proof (induction want e rule: hmap_exp.induct)
  case (1 want e)
  then show ?case
  proof (cases "(2 :: nat) ^ e < want \<and> (2 :: nat) ^ e \<le> (2 ^ 64 - 1) div 2")
    case True
    then show ?thesis using 1 by (subst (1 2) hmap_exp.simps) simp
  next
    case False
    then show ?thesis using 1(2,3) by (subst (1 2) hmap_exp.simps) auto
  qed
qed

lemma hmap_init_ok: "n < 2 ^ 62 \<Longrightarrow> hmap_ok n (hmap_init n)"
proof -
  assume "n < 2 ^ 62"
  then have n: "(n * 2) mod 2 ^ 64 = n * 2" "n * 2 < 2 ^ 63" by simp_all
  define e where "e = hmap_exp (n * 2) 4"
  have e: "n * 2 \<le> 2 ^ e" "4 \<le> e" unfolding e_def using hmap_exp_spec [OF _ n(2), of 4] by blast+
  have "n < 2 ^ e" using e(1) by (cases "n = 0") auto
  then show ?thesis unfolding hmap_init_def n(1) e_def [symmetric] by (auto simp: hmap_ok_def hmap_used_def)
qed

lemma hmap_slot_less: "length m = 2 ^ e \<Longrightarrow> hmap_slot m k < length m"
  using mask_mod [of "length m" e "unat (fnv1a k)"] by (simp add: hmap_slot_def)

lemma hmap_probe_step:
  assumes "length m = 2 ^ e"
  shows "d < f \<Longrightarrow> \<forall>d'<d. \<exists>k' v'. m ! ((i + d') mod length m) = Some (k', v') \<and> k' \<noteq> k \<Longrightarrow>
    (case m ! ((i + d) mod length m) of None \<Rightarrow> True | Some (k', v') \<Rightarrow> k' = k) \<Longrightarrow>
    hmap_probe f m k (i mod length m) = Some ((i + d) mod length m)"
proof (induction d arbitrary: f i)
  case 0
  then show ?case by (cases f) (auto split: option.splits)
next
  case (Suc d)
  then obtain f' where f: "f = Suc f'" "d < f'" by (cases f) auto
  obtain k' v' where k': "m ! (i mod length m) = Some (k', v')" "k' \<noteq> k"
    using Suc.prems(2) by (metis add_0_right zero_less_Suc)
  have "\<forall>d'<d. \<exists>k' v'. m ! ((i + 1 + d') mod length m) = Some (k', v') \<and> k' \<noteq> k"
  proof (intro allI impI)
    fix d' assume "d' < d"
    then show "\<exists>k' v'. m ! ((i + 1 + d') mod length m) = Some (k', v') \<and> k' \<noteq> k"
      using Suc.prems(2) [rule_format, of "Suc d'"] by simp
  qed
  moreover have "i + Suc d = i + 1 + d" by simp
  then have "case m ! ((i + 1 + d) mod length m) of None \<Rightarrow> True | Some (k', v') \<Rightarrow> k' = k"
    using Suc.prems(3) by (simp only:)
  ultimately have "hmap_probe f' m k ((i + 1) mod length m) = Some ((i + 1 + d) mod length m)"
    by (rule Suc.IH [OF f(2)])
  then show ?case using k' by (simp add: f(1) mask_mod [OF assms] mod_Suc_eq)
qed

text \<open>Where the probe of a key ends: after \<open>d\<close> slots with other keys, at a free one or at the key.\<close>

lemma hmap_probe_end:
  assumes "hmap_ok n m"
  obtains d where "d < length m" "\<forall>d'<d. \<exists>k' v'. m ! hmap_at m k d' = Some (k', v') \<and> k' \<noteq> k"
    "case m ! hmap_at m k d of None \<Rightarrow> True | Some (k', v') \<Rightarrow> k' = k"
    "hmap_probe (length m) m k (hmap_slot m k) = Some (hmap_at m k d)"
proof -
  obtain e where e: "length m = 2 ^ e" using assms by (auto simp: hmap_ok_def)
  have pos: "0 < length m" using e by simp
  let ?P = "\<lambda>d. case m ! hmap_at m k d of None \<Rightarrow> True | Some (k', v') \<Rightarrow> k' = k"
  have "\<exists>i<length m. m ! i = None"
  proof (rule ccontr)
    assume "\<not> ?thesis"
    then have "\<forall>x \<in> set m. x \<noteq> None" by (metis in_set_conv_nth)
    then have "hmap_used m = length m" unfolding hmap_used_def by (simp add: filter_id_conv)
    then show False using assms by (simp add: hmap_ok_def)
  qed
  then obtain i where i: "i < length m" "m ! i = None" by blast
  let ?h = "hmap_slot m k"
  have h: "?h < length m" by (rule hmap_slot_less [OF e])
  let ?d0 = "(i + length m - ?h) mod length m"
  have "hmap_at m k ?d0 = (?h + (i + length m - ?h)) mod length m" by (simp add: hmap_at_def mod_add_right_eq)
  then have d0: "hmap_at m k ?d0 = i" using h i(1) by simp
  then have P0: "?P ?d0" using i(2) by simp
  define d where "d = (LEAST d. ?P d)"
  have P: "?P d" unfolding d_def by (rule LeastI [where P = ?P, OF P0])
  have "d \<le> ?d0" unfolding d_def by (rule Least_le [where P = ?P, OF P0])
  then have d: "d < length m" using mod_less_divisor [OF pos, of "i + length m - ?h"] by linarith
  have B: "\<forall>d'<d. \<exists>k' v'. m ! hmap_at m k d' = Some (k', v') \<and> k' \<noteq> k"
  proof (intro allI impI)
    fix d' assume "d' < d"
    then have "\<not> ?P d'" unfolding d_def by (rule not_less_Least)
    then show "\<exists>k' v'. m ! hmap_at m k d' = Some (k', v') \<and> k' \<noteq> k" by (auto split: option.splits)
  qed
  have "hmap_probe (length m) m k (?h mod length m) = Some ((?h + d) mod length m)"
    by (rule hmap_probe_step [OF e d]) (use P B in \<open>simp_all add: hmap_at_def\<close>)
  then show ?thesis using that [OF d B P] h by (simp add: hmap_at_def)
qed

lemma hmap_get_end:
  assumes "hmap_ok n m" "hmap_probe (length m) m k (hmap_slot m k) = Some i"
  shows "hmap_get m k = (case m ! i of None \<Rightarrow> -1 | Some (_, v) \<Rightarrow> v)"
  using assms by (auto simp: hmap_get_def hmap_ok_def)

text \<open>A key that is not found is stored nowhere, and one that is stored is found.\<close>

lemma hmap_get_stored:
  assumes "hmap_ok n m" "i < length m" "m ! i = Some (k, v)"
  shows "hmap_get m k = v" and "hmap_probe (length m) m k (hmap_slot m k) = Some i"
proof -
  obtain e where e: "length m = 2 ^ e" using assms by (auto simp: hmap_ok_def)
  obtain d where d: "d < length m" "hmap_at m k d = i"
    "\<forall>d'<d. \<exists>k' v'. m ! hmap_at m k d' = Some (k', v') \<and> k' \<noteq> k"
    using assms unfolding hmap_ok_def by blast
  have "hmap_probe (length m) m k (hmap_slot m k mod length m) = Some ((hmap_slot m k + d) mod length m)"
    by (rule hmap_probe_step [OF e d(1)]) (use d assms(3) in \<open>simp_all add: hmap_at_def\<close>)
  then show *: "hmap_probe (length m) m k (hmap_slot m k) = Some i"
    using hmap_slot_less [OF e] d(2) by (simp add: hmap_at_def)
  show "hmap_get m k = v" unfolding hmap_get_end [OF assms(1) *] by (simp add: assms(3))
qed

lemma hmap_at_update: "hmap_at (m[i := x]) k d = hmap_at m k d"
  by (simp add: hmap_at_def hmap_slot_def)

lemma hmap_used_update: "i < length m \<Longrightarrow> m ! i = None \<Longrightarrow> hmap_used (m[i := Some x]) = Suc (hmap_used m)"
  by (induction m arbitrary: i) (auto simp: hmap_used_def nth_Cons split: nat.splits)

lemma hmap_get_absent:
  assumes "hmap_ok n m" "\<not> (\<exists>j<length m. \<exists>v. m ! j = Some (k, v))"
  shows "hmap_get m k = -1"
proof -
  obtain d where d: "d < length m" "\<forall>d'<d. \<exists>k' v'. m ! hmap_at m k d' = Some (k', v') \<and> k' \<noteq> k"
    "case m ! hmap_at m k d of None \<Rightarrow> True | Some (k2, v2) \<Rightarrow> k2 = k"
    "hmap_probe (length m) m k (hmap_slot m k) = Some (hmap_at m k d)"
    by (rule hmap_probe_end [OF assms(1)])
  have "0 < length m" using d(1) by linarith
  then have "hmap_at m k d < length m" by (simp add: hmap_at_def)
  then have "m ! hmap_at m k d = None" using d(3) assms(2) by (auto split: option.splits)
  then show ?thesis using hmap_get_end [OF assms(1) d(4)] by simp
qed

text \<open>What stays of a table in which a free slot is taken.\<close>

lemma hmap_path_stays:
  assumes "m ! i = None" "\<exists>d<length m. hmap_at m k d = j \<and> (\<forall>d'<d. \<exists>k' v'. m ! hmap_at m k d' = Some (k', v') \<and> k' \<noteq> k)"
  shows "\<exists>d<length (m[i := x]). hmap_at (m[i := x]) k d = j \<and>
    (\<forall>d'<d. \<exists>k' v'. m[i := x] ! hmap_at (m[i := x]) k d' = Some (k', v') \<and> k' \<noteq> k)"
proof -
  obtain d where d: "d < length m" "hmap_at m k d = j" "\<forall>d'<d. \<exists>k' v'. m ! hmap_at m k d' = Some (k', v') \<and> k' \<noteq> k"
    using assms(2) by blast
  have "\<exists>k' v'. m[i := x] ! hmap_at m k d' = Some (k', v') \<and> k' \<noteq> k" if d': "d' < d" for d'
  proof -
    obtain k' v' where k': "m ! hmap_at m k d' = Some (k', v')" "k' \<noteq> k" using d(3) d' by blast
    then have "hmap_at m k d' \<noteq> i" using assms(1) by auto
    then show ?thesis using k' by simp
  qed
  then show ?thesis using d(1,2) by (auto simp: hmap_at_update)
qed

lemma hmap_put_ok:
  assumes ok: "hmap_ok (Suc n) m" and v: "0 \<le> v"
  shows "\<exists>m'. hmap_put m k v = Some m' \<and> hmap_ok n m' \<and>
    (\<forall>k'. hmap_get m' k' = (if k' = k \<and> hmap_get m k = -1 then v else hmap_get m k'))"
proof -
  obtain d where d: "d < length m" "\<forall>d'<d. \<exists>k' v'. m ! hmap_at m k d' = Some (k', v') \<and> k' \<noteq> k"
    "case m ! hmap_at m k d of None \<Rightarrow> True | Some (k', v') \<Rightarrow> k' = k"
    "hmap_probe (length m) m k (hmap_slot m k) = Some (hmap_at m k d)"
    by (rule hmap_probe_end [OF ok])
  let ?i = "hmap_at m k d"
  have "0 < length m" using d(1) by linarith
  then have i: "?i < length m" by (simp add: hmap_at_def)
  show ?thesis
  proof (cases "m ! ?i")
    case (Some x)
    then obtain v' where x: "x = (k, v')" using d(3) by (cases x) auto
    have "0 \<le> v'" using ok i Some x unfolding hmap_ok_def by blast
    moreover have "hmap_get m k = v'" using hmap_get_stored(1) [OF ok i] Some x by simp
    moreover have "hmap_ok n m" using ok by (simp add: hmap_ok_def)
    ultimately show ?thesis using Some d(4) by (intro exI [of _ m]) (auto simp: hmap_put_def)
  next
    case None
    let ?m = "m[?i := Some (k, v)]"
    have okm: "hmap_ok n ?m" unfolding hmap_ok_def
    proof (intro conjI allI impI)
      show "\<exists>e. length ?m = 2 ^ e" using ok by (simp add: hmap_ok_def)
      show "hmap_used ?m + n < length ?m" using ok hmap_used_update [OF i None] by (simp add: hmap_ok_def)
    next
      fix j k1 v1 assume j: "j < length ?m" "?m ! j = Some (k1, v1)"
      show "0 \<le> v1" using j ok v i unfolding hmap_ok_def by (cases "j = ?i") auto
      show "\<exists>d<length ?m. hmap_at ?m k1 d = j \<and> (\<forall>d'<d. \<exists>k' v'. ?m ! hmap_at ?m k1 d' = Some (k', v') \<and> k' \<noteq> k1)"
      proof (rule hmap_path_stays [where i = ?i, OF None], cases "j = ?i")
        case True
        then have "k1 = k" using j i by simp
        then show "\<exists>d<length m. hmap_at m k1 d = j \<and> (\<forall>d'<d. \<exists>k' v'. m ! hmap_at m k1 d' = Some (k', v') \<and> k' \<noteq> k1)"
          using d(1,2) True by blast
      next
        case False
        then have "m ! j = Some (k1, v1)" "j < length m" using j by simp_all
        then show "\<exists>d<length m. hmap_at m k1 d = j \<and> (\<forall>d'<d. \<exists>k' v'. m ! hmap_at m k1 d' = Some (k', v') \<and> k' \<noteq> k1)"
          using ok unfolding hmap_ok_def by blast
      qed
    qed
    have none: "hmap_get m k = -1" using hmap_get_end [OF ok d(4)] None by simp
    have get: "hmap_get ?m k' = (if k' = k \<and> hmap_get m k = -1 then v else hmap_get m k')" for k'
    proof (cases "k' = k")
      case True
      have "hmap_get ?m k = v" by (rule hmap_get_stored(1) [OF okm, of ?i]) (use i in simp_all)
      then show ?thesis using True none by simp
    next
      case False
      then have same: "?m ! j = Some (k', v1) \<longleftrightarrow> m ! j = Some (k', v1)" if "j < length m" for j v1
        using that None by (cases "j = ?i") auto
      show ?thesis
      proof (cases "\<exists>j<length m. \<exists>v1. m ! j = Some (k', v1)")
        case True
        then obtain j v1 where "j < length m" "m ! j = Some (k', v1)" by blast
        then show ?thesis
          using hmap_get_stored(1) [OF okm, of j] hmap_get_stored(1) [OF ok, of j] False same [of j v1] by simp
      next
        case absent: False
        then have "\<not> (\<exists>j<length ?m. \<exists>v1. ?m ! j = Some (k', v1))" using same by simp
        then show ?thesis using hmap_get_absent [OF okm] hmap_get_absent [OF ok absent] False by simp
      qed
    qed
    show ?thesis using okm get None d(4) by (intro exI [of _ ?m]) (simp add: hmap_put_def)
  qed
qed

lemma hmap_get_init: "n < 2 ^ 62 \<Longrightarrow> hmap_get (hmap_init n) k = -1"
  by (rule hmap_get_absent [OF hmap_init_ok]) (simp_all add: hmap_init_def)

interpretation hmap: str_map hmap_ok hmap_get hmap_put hmap_init
proof
  fix n m k v m'
  assume "hmap_ok (Suc n) m" "hmap_put m k v = Some m'" "0 \<le> v"
  then show "hmap_ok n m'" using hmap_put_ok [of n m v k] by auto
next
  fix n m k v m' k'
  assume "hmap_ok (Suc n) m" "hmap_put m k v = Some m'" "0 \<le> v"
  then show "hmap_get m' k' = (if k' = k \<and> hmap_get m k = -1 then v else hmap_get m k')"
    using hmap_put_ok [of n m v k] by auto
next
  fix n m k and v :: int
  assume "hmap_ok (Suc n) m" "0 \<le> v"
  then show "hmap_put m k v \<noteq> None" using hmap_put_ok [of n m v k] by auto
qed (simp_all add: hmap_init_ok hmap_get_init)

lemma hmap_fill_put_all: "hmap_fill m i ks = hmap.put_all m i ks"
  by (induction m i ks rule: hmap_fill.induct) (auto split: option.splits)

text \<open>Filling a fresh table with an array: each string is found under its first index.\<close>

lemma hmap_fill_get:
  assumes "length ks < 2 ^ 62"
  obtains m where "hmap_fill (hmap_init (length ks)) 0 ks = Some m" "\<And>s. hmap_get m s = hmap.first_index 0 ks s"
  using hmap.put_all_new [OF assms, of 0] by (auto simp: hmap_fill_put_all)

lemma first_index_cases:
  "(hmap.first_index i ks s = -1 \<and> s \<notin> set ks) \<or>
   (\<exists>j<length ks. hmap.first_index i ks s = int (i + j) \<and> ks ! j = s \<and> (\<forall>j'<j. ks ! j' \<noteq> s))"
proof (induction ks arbitrary: i)
  case (Cons k ks)
  show ?case
  proof (cases "k = s")
    case False
    show ?thesis using Cons.IH [of "i + 1"]
    proof
      assume "\<exists>j<length ks. hmap.first_index (i + 1) ks s = int (i + 1 + j) \<and> ks ! j = s \<and> (\<forall>j'<j. ks ! j' \<noteq> s)"
      then obtain j where j: "j < length ks" "hmap.first_index (i + 1) ks s = int (i + 1 + j)" "ks ! j = s"
        "\<forall>j'<j. ks ! j' \<noteq> s" by blast
      have "\<forall>j'<Suc j. (k # ks) ! j' \<noteq> s" using j(4) False by (auto simp: less_Suc_eq_0_disj)
      then show ?thesis using j False by (intro disjI2 exI [of _ "Suc j"]) simp
    qed (use False in simp)
  qed (auto intro: exI [of _ 0])
qed simp

end
