(* ===== verification/Tok_Split.thy ===== *)
theory Tok_Split
  imports Prelude
begin

text \<open>
  The pre-tokenizers of \<open>src/tokenizer.c\<close>: the classes of code points and the functions that find where the
  pre-token at \<open>i\<close> ends. \<open>cp\<close> is the array of code points; \<open>ncp\<close> is its length. Then the regular expressions
  the comments of the code state, with the meaning a backtracking matcher gives them.
\<close>

unbundle bit_operations_syntax

abbreviation ch :: "char \<Rightarrow> nat" where
  "ch c \<equiv> byte c"

abbreviation "CR \<equiv> 13 :: nat"
abbreviation "LF \<equiv> 10 :: nat"
abbreviation "SP \<equiv> 32 :: nat"

subsection \<open>Classes\<close>

definition between :: "nat \<Rightarrow> nat \<Rightarrow> nat \<Rightarrow> bool" where
  "between a b c \<longleftrightarrow> a \<le> c \<and> c \<le> b"

definition ascii_alpha :: "nat \<Rightarrow> bool" where
  "ascii_alpha c \<longleftrightarrow> between (ch CHR ''a'') (ch CHR ''z'') c \<or> between (ch CHR ''A'') (ch CHR ''Z'') c"

text \<open>0: letter, 1: digit, 2: other, 3: white space.\<close>

definition cp_class :: "nat \<Rightarrow> nat" where
  "cp_class c =
     (if c = SP \<or> c = 9 \<or> c = LF \<or> c = CR \<or> c = 0x0B \<or> c = 0x0C \<or> c = 0xA0 \<or> between 0x2000 0x200A c \<or>
         c = 0x2028 \<or> c = 0x2029 \<or> c = 0x202F \<or> c = 0x205F \<or> c = 0x3000 then 3
      else if between (ch CHR ''0'') (ch CHR ''9'') c then 1
      else if ascii_alpha c \<or> c \<ge> 0x80 then 0
      else 2)"

definition cp_symbol :: "nat \<Rightarrow> bool" where
  "cp_symbol c \<longleftrightarrow>
     between 0x2000 0x206F c \<or> between 0x2100 0x2BFF c \<or> between 0x2E00 0x2E7F c \<or> between 0x3000 0x303F c \<or>
     between 0xFE00 0xFE0F c \<or> between 0x1F000 0x1FAFF c"

definition cp_mark :: "nat \<Rightarrow> bool" where
  "cp_mark c \<longleftrightarrow>
     between 0x0300 0x036F c \<or> between 0x0900 0x0903 c \<or> between 0x093A 0x094F c \<or> between 0x0951 0x0957 c \<or>
     between 0x0962 0x0963 c \<or> c = 0x0E31 \<or> between 0x0E34 0x0E3A c \<or> between 0x0E47 0x0E4E c"

definition cp_letter :: "nat \<Rightarrow> bool" where
  "cp_letter c \<longleftrightarrow> cp_class c \<noteq> 3 \<and> (ascii_alpha c \<or> c \<ge> 0x80 \<and> \<not> cp_symbol c \<and> \<not> cp_mark c)"

definition cp_digit :: "nat \<Rightarrow> bool" where
  "cp_digit c \<longleftrightarrow> between (ch CHR ''0'') (ch CHR ''9'') c"

definition cp_space :: "nat \<Rightarrow> bool" where
  "cp_space c \<longleftrightarrow> cp_class c = 3"

definition cp_other :: "nat \<Rightarrow> bool" where
  "cp_other c \<longleftrightarrow> \<not> cp_space c \<and> \<not> cp_letter c \<and> \<not> cp_digit c"

definition newline :: "nat \<Rightarrow> bool" where
  "newline c \<longleftrightarrow> c = CR \<or> c = LF"

definition latin_ext_a_case :: "nat \<Rightarrow> int" where
  "latin_ext_a_case c =
     (if c = 0x138 \<or> c = 0x149 \<or> c = 0x17F then -1
      else if c = 0x178 then 1
      else if c \<le> 0x137 then (if c AND 1 = 0 then 1 else -1)
      else if c \<le> 0x148 then (if c AND 1 = 1 then 1 else -1)
      else if c \<le> 0x177 then (if c AND 1 = 0 then 1 else -1)
      else (if c AND 1 = 1 then 1 else -1))"

definition cp_upper :: "nat \<Rightarrow> bool" where
  "cp_upper c =
     (if between (ch CHR ''A'') (ch CHR ''Z'') c then True
      else if c < 0x80 then False
      else if between 0xC0 0xDE c then c \<noteq> 0xD7
      else if between 0x100 0x17F c then latin_ext_a_case c > 0
      else if between 0x1E00 0x1E95 c then c AND 1 = 0
      else if between 0x1EA0 0x1EFF c then c AND 1 = 0
      else if between 0x386 0x3AB c then True
      else if between 0x400 0x42F c then True
      else False)"

definition cp_lower :: "nat \<Rightarrow> bool" where
  "cp_lower c =
     (if between (ch CHR ''a'') (ch CHR ''z'') c then True
      else if c < 0x80 then False
      else if between 0xDF 0xFF c then c \<noteq> 0xF7
      else if between 0x100 0x17F c then latin_ext_a_case c < 0
      else if between 0x1E00 0x1E9F c then c AND 1 = 1 \<or> c \<ge> 0x1E96
      else if between 0x1EA0 0x1EFF c then c AND 1 = 1
      else if between 0x3AC 0x3CE c then True
      else if between 0x430 0x45F c then True
      else False)"

definition cp_letter_upperish :: "nat \<Rightarrow> bool" where
  "cp_letter_upperish c \<longleftrightarrow> (cp_letter c \<or> cp_mark c) \<and> \<not> cp_lower c"

definition cp_letter_lowerish :: "nat \<Rightarrow> bool" where
  "cp_letter_lowerish c \<longleftrightarrow> (cp_letter c \<or> cp_mark c) \<and> \<not> cp_upper c"

definition cp_afmoe_cjk :: "nat \<Rightarrow> bool" where
  "cp_afmoe_cjk c \<longleftrightarrow>
     between 0x4E00 0x9FFF c \<or> between 0x3400 0x4DBF c \<or> between 0xF900 0xFAFF c \<or> between 0x3040 0x309F c \<or>
     between 0x30A0 0x30FF c \<or> between 0xFF65 0xFF9F c \<or> between 0x2F00 0x2FDF c \<or> between 0x0E40 0x0E7F c \<or>
     between 0x0E80 0x0EFF c \<or> between 0x1780 0x17FF c \<or> between 0x1000 0x109F c \<or> between 0xAA60 0xAA7F c \<or>
     between 0xA9E0 0xA9FF c \<or> between 0xAC00 0xD7AF c \<or> between 0x1100 0x11FF c"

definition cp_ascii_punct :: "nat \<Rightarrow> bool" where
  "cp_ascii_punct c \<longleftrightarrow> between 0x21 0x2F c \<or> between 0x3A 0x40 c \<or> between 0x5B 0x60 c \<or> between 0x7B 0x7E c"

definition cp_punct_sym :: "nat \<Rightarrow> bool" where
  "cp_punct_sym c \<longleftrightarrow> cp_other c \<and> \<not> cp_mark c"

subsection \<open>The ends of pre-tokens\<close>

text \<open>\<open>while (j < n && P(cp[j])) j++\<close>.\<close>

function run :: "(nat \<Rightarrow> bool) \<Rightarrow> nat list \<Rightarrow> nat \<Rightarrow> nat \<Rightarrow> nat" where
  "run P cp n j = (if j < n \<and> P (cp ! j) then run P cp n (j + 1) else j)"
  by pat_completeness auto
termination
  by (relation "measure (\<lambda>(P, cp, n, j). n - j)") auto

declare run.simps [simp del]

definition contraction_len :: "nat list \<Rightarrow> nat \<Rightarrow> nat" where
  "contraction_len cp i =
     (let ncp = length cp
      in if i \<ge> ncp \<or> cp ! i \<noteq> 39 \<or> i + 1 \<ge> ncp then 0
         else
           (let a = cp ! (i + 1) OR 32; b = (if i + 2 < ncp then cp ! (i + 2) OR 32 else 0)
            in if a = ch CHR ''s'' \<or> a = ch CHR ''t'' \<or> a = ch CHR ''m'' \<or> a = ch CHR ''d'' then 2
               else if a = ch CHR ''r'' \<and> b = ch CHR ''e'' \<or> a = ch CHR ''v'' \<and> b = ch CHR ''e'' \<or>
                       a = ch CHR ''l'' \<and> b = ch CHR ''l'' then 3
               else 0))"

text \<open>The last newline in \<open>cp[i..j)\<close>, by the loop that looks at each.\<close>

fun last_newline :: "nat list \<Rightarrow> nat \<Rightarrow> nat \<Rightarrow> nat option" where
  "last_newline cp i 0 = None"
| "last_newline cp i (Suc k) = (if newline (cp ! (i + k)) then Some (i + k) else last_newline cp i k)"

text \<open>The white space alternatives, which most families share; \<open>keeps\<close> says where the last space stays with the run.\<close>

definition space_end :: "(nat \<Rightarrow> bool) \<Rightarrow> nat list \<Rightarrow> nat \<Rightarrow> nat" where
  "space_end keeps cp i =
     (let ncp = length cp; j = run cp_space cp ncp i
      in case last_newline cp i (j - i) of
           Some k \<Rightarrow> k + 1
         | None \<Rightarrow> if j < ncp \<and> j - i > 1 \<and> \<not> keeps (cp ! j) then j - 1 else j)"

text \<open>An optional space, a run of punctuation and a tail: the end, or \<open>None\<close>.\<close>

definition punct_end :: "(nat \<Rightarrow> bool) \<Rightarrow> nat list \<Rightarrow> nat \<Rightarrow> nat option" where
  "punct_end tail cp i =
     (let ncp = length cp; j = (if cp ! i = SP \<and> i + 1 < ncp \<and> cp_other (cp ! (i + 1)) then i + 1 else i)
      in if j < ncp \<and> cp_other (cp ! j) then Some (run tail cp ncp (run cp_other cp ncp j)) else None)"

definition pre_split_next :: "nat list \<Rightarrow> nat \<Rightarrow> nat \<Rightarrow> nat" where
  "pre_split_next cp i max_digits =
     (let ncp = length cp; adv = contraction_len cp i
      in if adv \<noteq> 0 then i + adv
         else if \<not> cp_letter (cp ! i) \<and> \<not> cp_digit (cp ! i) \<and> \<not> newline (cp ! i) \<and> i + 1 < ncp \<and> cp_letter (cp ! (i + 1))
         then run cp_letter cp ncp (i + 1)
         else if cp_letter (cp ! i) then run cp_letter cp ncp i
         else if cp_digit (cp ! i) then run cp_digit cp (min ncp (i + max_digits)) i
         else (case punct_end newline cp i of Some j \<Rightarrow> j | None \<Rightarrow> space_end (\<lambda>_. False) cp i))"

text \<open>The length of a contraction at \<open>i\<close>, in this case only; 0 if there is none.\<close>

definition gpt2_contraction :: "nat list \<Rightarrow> nat \<Rightarrow> nat \<Rightarrow> nat" where
  "gpt2_contraction cp i e =
     (if cp ! i = 39 \<and> i + 1 < e then
        (let a = cp ! (i + 1); b = (if i + 2 < e then cp ! (i + 2) else 0)
         in if a = ch CHR ''s'' \<or> a = ch CHR ''t'' \<or> a = ch CHR ''m'' \<or> a = ch CHR ''d'' then 2
            else if a = ch CHR ''r'' \<and> b = ch CHR ''e'' \<or> a = ch CHR ''v'' \<and> b = ch CHR ''e'' \<or>
                    a = ch CHR ''l'' \<and> b = ch CHR ''l'' then 3
            else 0)
      else 0)"

definition gpt2_split_next :: "nat list \<Rightarrow> nat \<Rightarrow> nat \<Rightarrow> nat" where
  "gpt2_split_next cp i e =
     (let adv = gpt2_contraction cp i e
      in if adv \<noteq> 0 then i + adv
         else
           (let j = (if cp ! i = SP \<and> i + 1 < e \<and> cp_class (cp ! (i + 1)) \<noteq> 3 then i + 1 else i)
            in if cp_class (cp ! j) \<noteq> 3 then run (\<lambda>c. cp_class c = cp_class (cp ! j)) cp e j
               else (let k = run (\<lambda>c. cp_class c = 3) cp e i in if k < e \<and> k - i > 1 then k - 1 else k)))"

definition smollm_split_next :: "nat list \<Rightarrow> nat \<Rightarrow> nat" where
  "smollm_split_next cp i =
     (if cp_digit (cp ! i) then i + 1
      else gpt2_split_next cp i (run (\<lambda>c. \<not> cp_digit c) cp (length cp) i))"

text \<open>\<open>i\<close> if neither alternative matches.\<close>

definition tekken_letters :: "nat list \<Rightarrow> nat \<Rightarrow> nat" where
  "tekken_letters cp i =
     (let ncp = length cp;
          s = (if \<not> cp_letter (cp ! i) \<and> \<not> cp_digit (cp ! i) \<and> \<not> newline (cp ! i) then i + 1 else i)
      in if s \<ge> ncp \<or> \<not> (cp_letter (cp ! s) \<or> cp_mark (cp ! s)) then i
         else
           (let u = run cp_letter_upperish cp ncp s; j = run cp_letter_lowerish cp ncp u
            in if j > u \<or> u > s then j else i))"

definition newline_slash :: "nat \<Rightarrow> bool" where
  "newline_slash c \<longleftrightarrow> newline c \<or> c = ch CHR ''/''"

definition tekken_split_next :: "nat list \<Rightarrow> nat \<Rightarrow> nat" where
  "tekken_split_next cp i =
     (let adv = tekken_letters cp i
      in if adv > i then adv
         else if cp_digit (cp ! i) then i + 1
         else (case punct_end newline_slash cp i of Some j \<Rightarrow> j | None \<Rightarrow> space_end (\<lambda>_. False) cp i))"

definition llama4_split_next :: "nat list \<Rightarrow> nat \<Rightarrow> nat" where
  "llama4_split_next cp i =
     (let adv = tekken_letters cp i
      in if adv > i then adv + contraction_len cp adv
         else if cp_digit (cp ! i) then run cp_digit cp (min (length cp) (i + 3)) i
         else (case punct_end newline_slash cp i of Some j \<Rightarrow> j | None \<Rightarrow> space_end (\<lambda>_. False) cp i))"

definition afmoe_split_next :: "nat list \<Rightarrow> nat \<Rightarrow> nat" where
  "afmoe_split_next cp i =
     (let ncp = length cp; c = cp ! i
      in if cp_digit c then
           (let first = (run cp_digit cp ncp i - i) mod 3 in i + (if first \<noteq> 0 then first else 3))
         else if cp_afmoe_cjk c then run cp_afmoe_cjk cp ncp i
         else if cp_ascii_punct c \<and> i + 1 < ncp \<and> ascii_alpha (cp ! (i + 1)) then run ascii_alpha cp ncp (i + 1)
         else
           (let s = (if \<not> newline c \<and> \<not> cp_letter c \<and> \<not> cp_punct_sym c \<and> i + 1 < ncp then i + 1 else i);
                word = (\<lambda>c. (cp_letter c \<or> cp_mark c) \<and> \<not> cp_afmoe_cjk c)
            in if s < ncp \<and> word (cp ! s) then run word cp ncp s
               else
                 (let j = (if c = SP \<and> i + 1 < ncp \<and> cp_punct_sym (cp ! (i + 1)) then i + 1 else i)
                  in if j < ncp \<and> cp_punct_sym (cp ! j)
                     then run newline cp ncp (run (\<lambda>c. cp_punct_sym c \<and> \<not> cp_afmoe_cjk c) cp ncp j)
                     else space_end (\<lambda>c. cp_digit c \<or> cp_afmoe_cjk c) cp i)))"

datatype tok_pre = TOK_PRE_GPT2 | TOK_PRE_LLAMA3 | TOK_PRE_QWEN2 | TOK_PRE_SMOLLM | TOK_PRE_AFMOE | TOK_PRE_TEKKEN
  | TOK_PRE_LLAMA4

text \<open>The choice of \<open>bpe_encode_text\<close>, which never stalls.\<close>

definition split_next :: "tok_pre \<Rightarrow> nat list \<Rightarrow> nat \<Rightarrow> nat" where
  "split_next pre cp i =
     (let e = (case pre of
                 TOK_PRE_TEKKEN \<Rightarrow> tekken_split_next cp i
               | TOK_PRE_LLAMA4 \<Rightarrow> llama4_split_next cp i
               | TOK_PRE_LLAMA3 \<Rightarrow> pre_split_next cp i 3
               | TOK_PRE_QWEN2 \<Rightarrow> pre_split_next cp i 1
               | TOK_PRE_SMOLLM \<Rightarrow> smollm_split_next cp i
               | TOK_PRE_AFMOE \<Rightarrow> afmoe_split_next cp i
               | TOK_PRE_GPT2 \<Rightarrow> gpt2_split_next cp i (length cp))
      in if e \<le> i then i + 1 else e)"

end
