(* ===== verification/Tok_Queue.thy ===== *)
theory Tok_Queue
  imports Prelude "HOL-Library.Multiset"
begin

text \<open>
  The queue of merge candidates of \<open>src/tokenizer.c\<close> (\<open>mheap\<close>): a binary heap in an array. A key is held as its
  place in the order of floats, of which NaN is no part: no candidate with that key is pushed. \<open>min_queue\<close> is the
  contract: a queue gives back the best of what was put in.
\<close>

record mcand =
  mc_key :: int
  mc_l :: nat
  mc_r :: nat
  mc_len_l :: nat
  mc_len_r :: nat

definition mc_better :: "mcand \<Rightarrow> mcand \<Rightarrow> bool" where
  "mc_better a b \<longleftrightarrow> (if mc_key a \<noteq> mc_key b then mc_key a < mc_key b else mc_l a < mc_l b)"

subsection \<open>The heap\<close>

definition mh_swap :: "mcand list \<Rightarrow> nat \<Rightarrow> nat \<Rightarrow> mcand list" where
  "mh_swap h i j = h[i := h ! j, j := h ! i]"

text \<open>The loop of \<open>mh_push\<close>.\<close>

function mh_up :: "mcand list \<Rightarrow> nat \<Rightarrow> mcand list" where
  "mh_up h i =
     (if i > 0 \<and> mc_better (h ! i) (h ! ((i - 1) div 2)) then mh_up (mh_swap h ((i - 1) div 2) i) ((i - 1) div 2) else h)"
  by pat_completeness auto
termination
  by (relation "measure snd") auto

declare mh_up.simps [simp del]

definition mh_push :: "mcand list \<Rightarrow> mcand \<Rightarrow> mcand list" where
  "mh_push h c = mh_up (h @ [c]) (length h)"

text \<open>The choice and the loop of \<open>mh_pop\<close>.\<close>

definition mh_best :: "mcand list \<Rightarrow> nat \<Rightarrow> nat" where
  "mh_best h i =
     (let a = 2 * i + 1; b = a + 1;
          best = (if a < length h \<and> mc_better (h ! a) (h ! i) then a else i)
      in if b < length h \<and> mc_better (h ! b) (h ! best) then b else best)"

lemma mh_best_cases:
  "mh_best h i = i \<or> i < mh_best h i \<and> mh_best h i < length h \<and> (mh_best h i - 1) div 2 = i"
  by (auto simp: mh_best_def Let_def)

function mh_down :: "mcand list \<Rightarrow> nat \<Rightarrow> mcand list" where
  "mh_down h i = (if mh_best h i = i then h else mh_down (mh_swap h (mh_best h i) i) (mh_best h i))"
  by pat_completeness auto
termination
  by (relation "measure (\<lambda>(h, i). length h - i)") (use mh_best_cases in \<open>auto simp: mh_swap_def, fastforce+\<close>)

declare mh_down.simps [simp del]

definition mh_pop :: "mcand list \<Rightarrow> (mcand \<times> mcand list) option" where
  "mh_pop h =
     (if h = [] then None
      else Some (h ! 0, mh_down (butlast (h[0 := last h])) 0))"

subsection \<open>The contract\<close>

locale min_queue =
  fixes valid :: "'q \<Rightarrow> bool" and elems :: "'q \<Rightarrow> 'a multiset" and le :: "'a \<Rightarrow> 'a \<Rightarrow> bool"
    and empty :: 'q and push :: "'q \<Rightarrow> 'a \<Rightarrow> 'q" and pop :: "'q \<Rightarrow> ('a \<times> 'q) option"
  assumes empty_valid: "valid empty" and empty_elems: "elems empty = {#}"
    and push_valid: "valid q \<Longrightarrow> valid (push q c)"
    and push_elems: "valid q \<Longrightarrow> elems (push q c) = add_mset c (elems q)"
    and pop_none: "valid q \<Longrightarrow> pop q = None \<Longrightarrow> elems q = {#}"
    and pop_some: "valid q \<Longrightarrow> pop q = Some (c, q') \<Longrightarrow> valid q' \<and> elems q = add_mset c (elems q')"
    and pop_best: "valid q \<Longrightarrow> pop q = Some (c, q') \<Longrightarrow> d \<in># elems q \<Longrightarrow> le c d"
begin

text \<open>Taking everything out gives it back, best first.\<close>

fun pop_all :: "nat \<Rightarrow> 'q \<Rightarrow> 'a list" where
  "pop_all 0 q = []"
| "pop_all (Suc n) q = (case pop q of None \<Rightarrow> [] | Some (c, q') \<Rightarrow> c # pop_all n q')"

lemma pop_all_sorted:
  "valid q \<Longrightarrow> size (elems q) \<le> n \<Longrightarrow> mset (pop_all n q) = elems q \<and> sorted_wrt le (pop_all n q)"
proof (induction n arbitrary: q)
  case (Suc n)
  show ?case
  proof (cases "pop q")
    case None
    then show ?thesis using pop_none [OF Suc.prems(1)] by simp
  next
    case (Some p)
    obtain c q' where p: "p = (c, q')" by (cases p)
    note e = pop_some [OF Suc.prems(1) Some [unfolded p]]
    have ih: "mset (pop_all n q') = elems q'" "sorted_wrt le (pop_all n q')" using Suc.IH [of q'] e Suc.prems(2) by auto
    have "\<forall>d \<in> set (pop_all n q'). le c d"
      using pop_best [OF Suc.prems(1) Some [unfolded p]] ih(1) e by (metis insert_iff set_mset_add_mset_insert set_mset_mset)
    then show ?thesis using Some p e ih by simp
  qed
qed simp

end

subsection \<open>The heap keeps it\<close>

definition mc_le :: "mcand \<Rightarrow> mcand \<Rightarrow> bool" where
  "mc_le a b \<longleftrightarrow> \<not> mc_better b a"

lemma mc_le_refl: "mc_le a a"
  by (simp add: mc_le_def mc_better_def)

lemma mc_le_trans: "mc_le a b \<Longrightarrow> mc_le b c \<Longrightarrow> mc_le a c"
  by (auto simp: mc_le_def mc_better_def split: if_splits)

lemma mc_better_le: "mc_better a b \<Longrightarrow> mc_le a b"
  by (auto simp: mc_le_def mc_better_def split: if_splits)

text \<open>Every element but at \<open>i\<close> is no better than its parent, and the children of \<open>i\<close> no better than the parent of
  \<open>i\<close>: with \<open>i\<close> the length, a heap. For the way down the exception is the parent.\<close>

definition heap_but :: "mcand list \<Rightarrow> nat \<Rightarrow> bool" where
  "heap_but h i \<longleftrightarrow>
     (\<forall>j<length h. 0 < j \<longrightarrow> j \<noteq> i \<longrightarrow> mc_le (h ! ((j - 1) div 2)) (h ! j)) \<and>
     (\<forall>j<length h. 0 < i \<longrightarrow> 0 < j \<longrightarrow> (j - 1) div 2 = i \<longrightarrow> mc_le (h ! ((i - 1) div 2)) (h ! j))"

definition heap_under :: "mcand list \<Rightarrow> nat \<Rightarrow> bool" where
  "heap_under h i \<longleftrightarrow>
     (\<forall>j<length h. 0 < j \<longrightarrow> (j - 1) div 2 \<noteq> i \<longrightarrow> mc_le (h ! ((j - 1) div 2)) (h ! j)) \<and>
     (\<forall>j<length h. 0 < i \<longrightarrow> 0 < j \<longrightarrow> (j - 1) div 2 = i \<longrightarrow> mc_le (h ! ((i - 1) div 2)) (h ! j))"

definition mh_ok :: "mcand list \<Rightarrow> bool" where
  "mh_ok h \<longleftrightarrow> (\<forall>j<length h. 0 < j \<longrightarrow> mc_le (h ! ((j - 1) div 2)) (h ! j))"

lemma mset_mh_swap: "i < length h \<Longrightarrow> j < length h \<Longrightarrow> mset (mh_swap h i j) = mset h"
  by (simp add: mh_swap_def mset_swap)

lemma length_mh_swap [simp]: "length (mh_swap h i j) = length h"
  by (simp add: mh_swap_def)

lemma nth_mh_swap: "i < length h \<Longrightarrow> j < length h \<Longrightarrow> k < length h \<Longrightarrow>
    mh_swap h i j ! k = (if k = j then h ! i else if k = i then h ! j else h ! k)"
  by (auto simp: mh_swap_def nth_list_update)

lemma parent_less: "0 < j \<Longrightarrow> (j - 1) div 2 < (j :: nat)"
  by linarith

lemma mh_up_ok: "i < length h \<Longrightarrow> heap_but h i \<Longrightarrow> mh_ok (mh_up h i) \<and> mset (mh_up h i) = mset h"
proof (induction h i rule: mh_up.induct)
  case (1 h i)
  let ?p = "(i - 1) div 2"
  show ?case
  proof (cases "i > 0 \<and> mc_better (h ! i) (h ! ?p)")
    case True
    let ?h = "mh_swap h ?p i"
    have i: "0 < i" "i < length h" "?p < length h" "?p < i" using True 1(2) parent_less [of i] by auto
    have nth: "?h ! k = (if k = i then h ! ?p else if k = ?p then h ! i else h ! k)" if "k < length h" for k
      using nth_mh_swap [OF i(3,2) that] by simp
    have le: "mc_le (h ! i) (h ! ?p)" using True mc_better_le by blast
    have a: "mc_le (h ! ((j - 1) div 2)) (h ! j)" if "j < length h" "0 < j" "j \<noteq> i" for j
      using 1(3) that by (simp add: heap_but_def)
    have b: "mc_le (h ! ?p) (h ! j)" if "j < length h" "0 < j" "(j - 1) div 2 = i" for j
      using 1(3) that i(1) by (simp add: heap_but_def)
    have "heap_but ?h ?p" unfolding heap_but_def length_mh_swap
    proof (intro conjI allI impI)
      fix j assume j: "j < length h" "0 < j" "j \<noteq> ?p"
      let ?q = "(j - 1) div 2"
      have q: "?q < j" "?q < length h" using parent_less [OF j(2)] j(1) by auto
      show "mc_le (?h ! ?q) (?h ! j)"
      proof (cases "j = i")
        case True
        then show ?thesis using nth [OF j(1)] nth [OF q(2)] q(1) le by simp
      next
        case False
        then have J: "?h ! j = h ! j" using nth [OF j(1)] j(3) by simp
        consider "?q = i" | "?q = ?p" | "?q \<noteq> i" "?q \<noteq> ?p" by blast
        then show ?thesis
        proof cases
          case 1
          then show ?thesis using J nth [OF q(2)] b [OF j(1,2)] by simp
        next
          case 2
          then show ?thesis using J nth [OF q(2)] i(4) mc_le_trans [OF le] a [OF j(1,2) False] by simp
        next
          case 3
          then show ?thesis using J nth [OF q(2)] a [OF j(1,2) False] by simp
        qed
      qed
    next
      fix j assume j: "j < length h" "0 < ?p" "0 < j" "(j - 1) div 2 = ?p"
      let ?q = "(?p - 1) div 2"
      have q: "?q < ?p" "?q < length h" using parent_less [OF j(2)] i(3) by auto
      have Q: "?h ! ?q = h ! ?q" using nth [OF q(2)] q(1) i(4) by simp
      have p: "mc_le (h ! ?q) (h ! ?p)" using a [OF i(3) j(2)] i(4) by simp
      have "j \<noteq> ?p" using parent_less [OF j(3)] j(4) by simp
      then show "mc_le (?h ! ?q) (?h ! j)"
        using Q p nth [OF j(1)] mc_le_trans [OF p] a [OF j(1,3)] j(4) by (cases "j = i") simp_all
    qed
    then have "mh_ok (mh_up ?h ?p) \<and> mset (mh_up ?h ?p) = mset ?h" using 1(1) [OF True] i by simp
    then show ?thesis using True mset_mh_swap [OF i(3,2)] by (subst (1 2) mh_up.simps) simp
  next
    case False
    then have "mh_ok h" using 1(3) unfolding mh_ok_def heap_but_def by (auto simp: mc_le_def)
    then show ?thesis using False by (subst (1 2) mh_up.simps) auto
  qed
qed

lemma mh_best_le:
  assumes "j < length h" "j = i \<or> 0 < j \<and> (j - 1) div 2 = i" "i < length h"
  shows "mc_le (h ! mh_best h i) (h ! j)"
proof -
  define a where "a = (if 2 * i + 1 < length h \<and> mc_better (h ! (2 * i + 1)) (h ! i) then 2 * i + 1 else i)"
  have m: "mh_best h i = (if 2 * i + 2 < length h \<and> mc_better (h ! (2 * i + 2)) (h ! a) then 2 * i + 2 else a)"
    by (simp add: mh_best_def a_def Let_def)
  have ai: "mc_le (h ! a) (h ! i)" by (simp add: a_def mc_le_refl mc_better_le)
  have a1: "mc_le (h ! a) (h ! (2 * i + 1))" if "2 * i + 1 < length h"
    using that by (simp add: a_def mc_le_refl) (simp add: mc_le_def)
  have ma: "mc_le (h ! mh_best h i) (h ! a)" by (simp add: m mc_le_refl mc_better_le)
  have m2: "mc_le (h ! mh_best h i) (h ! (2 * i + 2))" if "2 * i + 2 < length h"
    using that by (simp add: m mc_le_refl) (simp add: mc_le_def)
  have "j = i \<or> j = 2 * i + 1 \<or> j = 2 * i + 2" using assms(2) by linarith
  then show ?thesis using assms(1) m2 a1 mc_le_trans [OF ma ai] mc_le_trans [OF ma] by auto
qed

lemma mh_down_ok: "i < length h \<Longrightarrow> heap_under h i \<Longrightarrow> mh_ok (mh_down h i) \<and> mset (mh_down h i) = mset h"
proof (induction h i rule: mh_down.induct)
  case (1 h i)
  define m where "m = mh_best h i"
  have best: "mc_le (h ! m) (h ! j)" if "j < length h" "j = i \<or> 0 < j \<and> (j - 1) div 2 = i" for j
    unfolding m_def by (rule mh_best_le [OF that 1(2)])
  have a: "mc_le (h ! ((j - 1) div 2)) (h ! j)" if "j < length h" "0 < j" "(j - 1) div 2 \<noteq> i" for j
    using 1(3) that by (simp add: heap_under_def)
  have b: "mc_le (h ! ((i - 1) div 2)) (h ! j)" if "j < length h" "0 < i" "0 < j" "(j - 1) div 2 = i" for j
    using 1(3) that by (simp add: heap_under_def)
  show ?case
  proof (cases "m = i")
    case True
    have "mh_ok h" unfolding mh_ok_def
    proof (intro allI impI)
      fix j assume j: "j < length h" "0 < j"
      show "mc_le (h ! ((j - 1) div 2)) (h ! j)"
        using a [OF j] best [OF j(1)] j(2) True by (cases "(j - 1) div 2 = i") auto
    qed
    then show ?thesis using True unfolding m_def by (subst (1 2) mh_down.simps) simp
  next
    case False
    then have mi: "i < m" "m < length h" "(m - 1) div 2 = i" using mh_best_cases [of h i] by (auto simp: m_def)
    let ?h = "mh_swap h m i"
    have nth: "?h ! k = (if k = i then h ! m else if k = m then h ! i else h ! k)" if "k < length h" for k
      using nth_mh_swap [OF mi(2) 1(2) that] by simp
    have "heap_under ?h m" unfolding heap_under_def length_mh_swap
    proof (intro conjI allI impI)
      fix j assume j: "j < length h" "0 < j" "(j - 1) div 2 \<noteq> m"
      let ?q = "(j - 1) div 2"
      have q: "?q < j" "?q < length h" using parent_less [OF j(2)] j(1) by auto
      show "mc_le (?h ! ?q) (?h ! j)"
      proof (cases "j = i")
        case True
        then show ?thesis using nth [OF j(1)] nth [OF q(2)] q(1) j(3) b [OF mi(2) _ _ mi(3)] j(2) mi(1) by simp
      next
        case ji: False
        show ?thesis
        proof (cases "?q = i")
          case True
          then have "mc_le (h ! m) (?h ! j)" using nth [OF j(1)] ji best [of j] best [OF 1(2)] j(1,2) by simp
          then show ?thesis using nth [OF q(2)] True by simp
        next
          case False
          moreover have "j \<noteq> m" using mi(3) False by auto
          ultimately show ?thesis using nth [OF j(1)] nth [OF q(2)] ji j(3) a [OF j(1,2)] by simp
        qed
      qed
    next
      fix j assume j: "j < length h" "0 < m" "0 < j" "(j - 1) div 2 = m"
      have "j \<noteq> m" "j \<noteq> i" using parent_less [OF j(3)] j(4) mi(1) by auto
      then show "mc_le (?h ! ((m - 1) div 2)) (?h ! j)"
        using nth [OF j(1)] nth [OF 1(2)] a [OF j(1,3)] j(4) mi by simp
    qed
    then have "mh_ok (mh_down ?h m) \<and> mset (mh_down ?h m) = mset ?h"
      using 1(1) False mi(2) unfolding m_def by simp
    then show ?thesis using False mset_mh_swap [OF mi(2) 1(2)] unfolding m_def by (subst (1 2) mh_down.simps) simp
  qed
qed

lemma mh_ok_min: "mh_ok h \<Longrightarrow> k < length h \<Longrightarrow> mc_le (h ! 0) (h ! k)"
proof (induction k rule: less_induct)
  case (less k)
  show ?case
  proof (cases "k = 0")
    case False
    then have "mc_le (h ! ((k - 1) div 2)) (h ! k)" using less.prems by (simp add: mh_ok_def)
    moreover have "mc_le (h ! 0) (h ! ((k - 1) div 2))" using less.IH [OF parent_less] less.prems False by simp
    ultimately show ?thesis using mc_le_trans by blast
  qed (simp add: mc_le_refl)
qed

lemma mh_push_ok: "mh_ok h \<Longrightarrow> mh_ok (mh_push h c) \<and> mset (mh_push h c) = add_mset c (mset h)"
proof -
  assume h: "mh_ok h"
  have "heap_but (h @ [c]) (length h)" unfolding heap_but_def
  proof (intro conjI allI impI)
    fix j assume "j < length (h @ [c])" "0 < j" "j \<noteq> length h"
    then have "j < length h" "(j - 1) div 2 < length h" by auto
    then show "mc_le ((h @ [c]) ! ((j - 1) div 2)) ((h @ [c]) ! j)" using h \<open>0 < j\<close> by (simp add: nth_append mh_ok_def)
  qed auto
  then show ?thesis using mh_up_ok [of "length h" "h @ [c]"] by (simp add: mh_push_def)
qed

lemma mset_drop_first: "h \<noteq> [] \<Longrightarrow> mset h = add_mset (h ! 0) (mset (butlast (h[0 := last h])))"
proof -
  assume "h \<noteq> []"
  then obtain x xs where h: "h = x # xs" by (cases h) auto
  show ?thesis
  proof (cases "xs = []")
    case False
    then have "mset xs = add_mset (last xs) (mset (butlast xs))"
      by (metis append_butlast_last_id mset_append mset_single_iff_right union_mset_add_mset_right add.right_neutral mset.simps)
    then show ?thesis using h False by simp
  qed (simp add: h)
qed

lemma mh_pop_ok:
  assumes "mh_ok h" "mh_pop h = Some (c, h')"
  shows "mh_ok h'" "mset h = add_mset c (mset h')" "d \<in># mset h \<Longrightarrow> mc_le c d"
proof -
  let ?h = "butlast (h[0 := last h])"
  have h: "h \<noteq> []" "c = h ! 0" "h' = mh_down ?h 0" using assms(2) by (auto simp: mh_pop_def split: if_splits)
  have "mh_ok h' \<and> mset h' = mset ?h"
  proof (cases "?h = []")
    case True
    then have "h' = []" unfolding h(3) by (subst mh_down.simps) (simp add: mh_best_def)
    then show ?thesis using True by (simp add: mh_ok_def)
  next
    case False
    have "heap_under ?h 0" unfolding heap_under_def
    proof (intro conjI allI impI)
      fix j assume j: "j < length ?h" "0 < j" "(j - 1) div 2 \<noteq> 0"
      then have "(j - 1) div 2 < length ?h" by auto
      then have "?h ! j = h ! j" "?h ! ((j - 1) div 2) = h ! ((j - 1) div 2)" using j by (simp_all add: nth_butlast)
      then show "mc_le (?h ! ((j - 1) div 2)) (?h ! j)" using assms(1) j by (simp add: mh_ok_def)
    qed simp
    moreover have "0 < length ?h" using False by (simp only: length_greater_0_conv) simp
    ultimately show ?thesis unfolding h(3) using mh_down_ok by blast
  qed
  then show "mh_ok h'" "mset h = add_mset c (mset h')" using mset_drop_first [OF h(1)] h(2) by simp_all
  show "mc_le c d" if d: "d \<in># mset h"
  proof -
    obtain k where "k < length h" "h ! k = d" using d by (auto simp: in_set_conv_nth)
    then show ?thesis using mh_ok_min [OF assms(1)] h(2) by blast
  qed
qed

interpretation mh: min_queue mh_ok mset mc_le "[]" mh_push mh_pop
proof
  show "mh_ok []" by (simp add: mh_ok_def)
next
  fix h assume "mh_pop h = None"
  then show "mset h = {#}" by (simp add: mh_pop_def split: if_splits)
qed (auto simp: mh_push_ok intro: mh_pop_ok)

end
