(* ===== verification/Tokenizer.thy ===== *)
theory Tokenizer
  imports Tok_Hash Tok_Split Tok_Queue Gguf
begin

text \<open>
  The tokenizer of \<open>src/tokenizer.c\<close>: what \<open>tokenizer_init\<close> builds from a model's metadata, encoding and
  decoding. Texts are strings of bytes; \<open>out\<close> is the part of the output array that is written, \<open>cap\<close> its capacity.
  Memory is assumed to be there, so that \<open>encode_oom\<close> is never set. A merge loop takes fuel; \<open>None\<close> is a loop that
  did not end.
\<close>

subsection \<open>UTF-8\<close>

definition u8_len :: "char \<Rightarrow> nat" where
  "u8_len c =
     (if byte c < 0x80 then 1
      else if byte c AND 0xE0 = 0xC0 then 2
      else if byte c AND 0xF0 = 0xE0 then 3
      else if byte c AND 0xF8 = 0xF0 then 4
      else 1)"

definition u8_decode :: "string \<Rightarrow> nat \<Rightarrow> nat" where
  "u8_decode p len =
     (if len = 2 then push_bit 6 (byte (p ! 0) AND 0x1F) OR (byte (p ! 1) AND 0x3F)
      else if len = 3 then push_bit 12 (byte (p ! 0) AND 0x0F) OR push_bit 6 (byte (p ! 1) AND 0x3F) OR (byte (p ! 2) AND 0x3F)
      else if len = 4 then push_bit 18 (byte (p ! 0) AND 0x07) OR push_bit 12 (byte (p ! 1) AND 0x3F) OR
        push_bit 6 (byte (p ! 2) AND 0x3F) OR (byte (p ! 3) AND 0x3F)
      else byte (p ! 0))"

definition u8_encode :: "nat \<Rightarrow> string" where
  "u8_encode cp =
     (if cp < 0x80 then [char_of cp]
      else if cp < 0x800 then [char_of (0xC0 OR drop_bit 6 cp), char_of (0x80 OR (cp AND 0x3F))]
      else if cp < 0x10000 then
        [char_of (0xE0 OR drop_bit 12 cp), char_of (0x80 OR (drop_bit 6 cp AND 0x3F)), char_of (0x80 OR (cp AND 0x3F))]
      else
        [char_of (0xF0 OR drop_bit 18 cp), char_of (0x80 OR (drop_bit 12 cp AND 0x3F)),
         char_of (0x80 OR (drop_bit 6 cp AND 0x3F)), char_of (0x80 OR (cp AND 0x3F))])"

text \<open>The length of the character at \<open>i\<close> in a text of \<open>n\<close> bytes: a character that would not end there is one byte.\<close>

definition char_len :: "string \<Rightarrow> nat \<Rightarrow> nat \<Rightarrow> nat" where
  "char_len s n i = (let l = u8_len (s ! i) in if i + l > n then 1 else l)"

lemma u8_len_pos: "0 < u8_len c"
  by (simp add: u8_len_def)

lemma char_len_pos: "0 < char_len s n i"
  by (simp add: char_len_def Let_def u8_len_pos)

subsection \<open>Single-precision numbers\<close>

text \<open>By their bits. \<open>f32_ord\<close> is the place in the order, the same for both zeros; a NaN has none.\<close>

definition f32_nan :: "32 word \<Rightarrow> bool" where
  "f32_nan w \<longleftrightarrow> 0x7F800000 < unat (w AND 0x7FFFFFFF)"

definition f32_ord :: "32 word \<Rightarrow> int" where
  "f32_ord w = (let m = int (unat (w AND 0x7FFFFFFF)) in if bit w 31 then - m else m)"

definition f32_less :: "32 word \<Rightarrow> 32 word \<Rightarrow> bool" where
  "f32_less a b \<longleftrightarrow> \<not> f32_nan a \<and> \<not> f32_nan b \<and> f32_ord a < f32_ord b"

fun top_bit :: "nat \<Rightarrow> nat" where
  "top_bit n = (if n < 2 then 0 else Suc (top_bit (n div 2)))"

declare top_bit.simps [simp del]

text \<open>\<open>(float)r\<close>: 24 bits, rounded to nearest, ties to even.\<close>

definition f32_of_nat :: "nat \<Rightarrow> nat" where
  "f32_of_nat r =
     (if r = 0 then 0
      else
        (let e = top_bit r
         in (126 + e) * 2 ^ 23 +
            (if e \<le> 23 then r * 2 ^ (23 - e)
             else
               (let q = r div 2 ^ (e - 23); rest = r mod 2 ^ (e - 23); half = 2 ^ (e - 24)
                in if rest > half \<or> rest = half \<and> odd q then q + 1 else q))))"

text \<open>\<open>-1e30f\<close> and \<open>-FLT_MAX\<close>.\<close>

definition SPM_SCORE_FLOOR :: "32 word" where "SPM_SCORE_FLOOR = 0xF149F2CA"
definition NEG_FLT_MAX :: "32 word" where "NEG_FLT_MAX = 0xFF7FFFFF"

subsection \<open>The tokenizer\<close>

datatype tok_model = TOK_SPM | TOK_BPE | TOK_BPE_SPM

definition TT_NORMAL :: int where "TT_NORMAL = 1"
definition TT_CONTROL :: int where "TT_CONTROL = 3"
definition TT_USER_DEFINED :: int where "TT_USER_DEFINED = 4"
definition TT_UNUSED :: int where "TT_UNUSED = 5"
definition TT_BYTE :: int where "TT_BYTE = 6"

record tokenizer =
  tk_model :: tok_model
  tk_pre :: tok_pre
  tk_tokens :: "string list"
  tk_scores :: "32 word list option"
  tk_ttype :: "int list option"
  tk_bos_id :: int
  tk_eos_id :: int
  tk_unk_id :: int
  tk_add_bos :: bool
  tk_add_space_prefix :: bool
  tk_vocab :: hmap
  tk_merges :: hmap
  tk_special_ids :: "nat list"
  tk_sb_off :: "nat list"
  tk_b2u :: "nat list"
  tk_u2b :: "int list"

definition type_in :: "int list option \<Rightarrow> nat \<Rightarrow> int" where
  "type_in tty i = (case tty of None \<Rightarrow> TT_NORMAL | Some ts \<Rightarrow> ts ! i)"

definition tok_type :: "tokenizer \<Rightarrow> nat \<Rightarrow> int" where
  "tok_type t i = type_in (tk_ttype t) i"

subsection \<open>Symbols\<close>

record sym =
  sy_start :: nat
  sy_len :: nat
  sy_prev :: int
  sy_next :: int

text \<open>The loop that cuts \<open>n\<close> bytes into characters, from byte \<open>i\<close> and symbol \<open>k\<close> on.\<close>

function cut_syms :: "string \<Rightarrow> nat \<Rightarrow> nat \<Rightarrow> nat \<Rightarrow> sym list" where
  "cut_syms w n i k =
     (if i < n then
        \<lparr>sy_start = i, sy_len = char_len w n i, sy_prev = int k - 1, sy_next = int k + 1\<rparr> #
          cut_syms w n (i + char_len w n i) (k + 1)
      else [])"
  by pat_completeness auto
termination
  by (relation "measure (\<lambda>(w, n, i, k). n - i)") (auto simp: char_len_pos diff_less_mono2)

declare cut_syms.simps [simp del]

definition init_syms :: "string \<Rightarrow> nat \<Rightarrow> sym list" where
  "init_syms w n =
     (let s = cut_syms w n 0 0
      in if s = [] then [] else s[length s - 1 := (last s)\<lparr>sy_next := -1\<rparr>])"

definition slice :: "string \<Rightarrow> sym \<Rightarrow> string" where
  "slice w x = take (sy_len x) (drop (sy_start x) w)"

text \<open>\<open>for (i = 0; i != -1 && next[i] != -1; i = next[i])\<close>, with \<open>j = next[i]\<close>; and over every symbol.\<close>

fun over_pairs :: "nat \<Rightarrow> sym list \<Rightarrow> (nat \<Rightarrow> nat \<Rightarrow> 'b \<Rightarrow> 'b) \<Rightarrow> int \<Rightarrow> 'b \<Rightarrow> 'b" where
  "over_pairs 0 s f i b = b"
| "over_pairs (Suc n) s f i b =
     (if i = -1 \<or> sy_next (s ! nat i) = -1 then b
      else over_pairs n s f (sy_next (s ! nat i)) (f (nat i) (nat (sy_next (s ! nat i))) b))"

fun over_syms :: "nat \<Rightarrow> sym list \<Rightarrow> (nat \<Rightarrow> 'b \<Rightarrow> 'b) \<Rightarrow> int \<Rightarrow> 'b \<Rightarrow> 'b" where
  "over_syms 0 s f i b = b"
| "over_syms (Suc n) s f i b = (if i = -1 then b else over_syms n s f (sy_next (s ! nat i)) (f (nat i) b))"

text \<open>Merging symbol \<open>i\<close> with the next one.\<close>

definition merge_at :: "sym list \<Rightarrow> nat \<Rightarrow> sym list" where
  "merge_at s i =
     (let j = nat (sy_next (s ! i));
          s1 = s[i := (s ! i)\<lparr>sy_len := sy_len (s ! i) + sy_len (s ! j), sy_next := sy_next (s ! j)\<rparr>]
      in if sy_next (s ! j) \<noteq> -1 then
           (let k = nat (sy_next (s ! j)) in s1[k := (s1 ! k)\<lparr>sy_prev := int i\<rparr>])
         else s1)"

definition MERGE_QUEUE_MIN :: nat where "MERGE_QUEUE_MIN = 24"

definition use_merge_queue :: "int \<Rightarrow> nat \<Rightarrow> bool" where
  "use_merge_queue force n_sym = (if force \<ge> 0 then force \<noteq> 0 else n_sym \<ge> MERGE_QUEUE_MIN)"

text \<open>\<open>MC_LIVE\<close>.\<close>

definition mc_live :: "mcand \<Rightarrow> sym list \<Rightarrow> bool" where
  "mc_live c s \<longleftrightarrow>
     sy_next (s ! mc_l c) = int (mc_r c) \<and> sy_len (s ! mc_l c) = mc_len_l c \<and> sy_len (s ! mc_r c) = mc_len_r c"

text \<open>The loop over the queue, which \<open>spm_encode\<close> and \<open>bpe_word\<close> share but for the push.\<close>

fun merge_queue :: "(sym list \<Rightarrow> mcand list \<Rightarrow> int \<Rightarrow> mcand list) \<Rightarrow> nat \<Rightarrow> mcand list \<Rightarrow> sym list \<Rightarrow> sym list option" where
  "merge_queue enq 0 h s = None"
| "merge_queue enq (Suc f) h s =
     (case mh_pop h of
        None \<Rightarrow> Some s
      | Some (c, h) \<Rightarrow>
          if \<not> mc_live c s then merge_queue enq f h s
          else
            (let j = nat (sy_next (s ! mc_l c));
                 s = merge_at s (mc_l c);
                 s = s[j := (s ! j)\<lparr>sy_len := 0\<rparr>];
                 h = enq s h (sy_prev (s ! mc_l c));
                 h = enq s h (int (mc_l c))
             in merge_queue enq f h s))"

definition run_queue :: "(sym list \<Rightarrow> mcand list \<Rightarrow> int \<Rightarrow> mcand list) \<Rightarrow> sym list \<Rightarrow> sym list option" where
  "run_queue enq s =
     merge_queue enq (3 * length s + 1) (over_pairs (length s) s (\<lambda>i j h. enq s h (int i)) 0 []) s"

subsection \<open>Output\<close>

definition emit_id :: "nat \<Rightarrow> int list \<Rightarrow> int \<Rightarrow> int list" where
  "emit_id cap out i = (if length out < cap then out @ [i] else out)"

definition hexu :: "nat \<Rightarrow> char" where
  "hexu n = ''0123456789ABCDEF'' ! n"

definition byte_name :: "char \<Rightarrow> string" where
  "byte_name c = ''<0x'' @ [hexu (byte c div 16), hexu (byte c mod 16)] @ ''>''"

text \<open>The byte pieces of a text.\<close>

definition emit_byte :: "tokenizer \<Rightarrow> nat \<Rightarrow> int list \<Rightarrow> char \<Rightarrow> int list" where
  "emit_byte t cap out c =
     (let bid = hmap_get (tk_vocab t) (byte_name c); bid = (if bid < 0 then tk_unk_id t else bid)
      in if bid \<ge> 0 then emit_id cap out bid else out)"

definition emit_bytes :: "tokenizer \<Rightarrow> nat \<Rightarrow> int list \<Rightarrow> string \<Rightarrow> int list" where
  "emit_bytes t cap out s = foldl (emit_byte t cap) out s"

subsection \<open>SentencePiece\<close>

definition spm_score :: "tokenizer \<Rightarrow> nat \<Rightarrow> 32 word" where
  "spm_score t i = (case tk_scores t of None \<Rightarrow> 0 | Some ss \<Rightarrow> ss ! i)"

text \<open>The piece two symbols make; it is contiguous in the text.\<close>

definition pair_id :: "tokenizer \<Rightarrow> string \<Rightarrow> sym list \<Rightarrow> nat \<Rightarrow> nat \<Rightarrow> int" where
  "pair_id t w s i j = hmap_get (tk_vocab t) (take (sy_len (s ! i) + sy_len (s ! j)) (drop (sy_start (s ! i)) w))"

definition spm_push_pair :: "tokenizer \<Rightarrow> string \<Rightarrow> sym list \<Rightarrow> mcand list \<Rightarrow> int \<Rightarrow> mcand list" where
  "spm_push_pair t w s h l =
     (if l < 0 then h
      else
        (let r = sy_next (s ! nat l)
         in if r < 0 then h
            else
              (let i = pair_id t w s (nat l) (nat r)
               in if i < 0 \<or> \<not> f32_less SPM_SCORE_FLOOR (spm_score t (nat i)) then h
                  else mh_push h \<lparr>mc_key = - f32_ord (spm_score t (nat i)), mc_l = nat l, mc_r = nat r,
                         mc_len_l = sy_len (s ! nat l), mc_len_r = sy_len (s ! nat r)\<rparr>)))"

text \<open>The scan: the best score and where it is.\<close>

definition spm_scan_pair :: "tokenizer \<Rightarrow> string \<Rightarrow> sym list \<Rightarrow> nat \<Rightarrow> nat \<Rightarrow> 32 word \<times> int \<Rightarrow> 32 word \<times> int" where
  "spm_scan_pair t w s i j best =
     (let x = pair_id t w s i j
      in if x \<ge> 0 \<and> f32_less (fst best) (spm_score t (nat x)) then (spm_score t (nat x), int i) else best)"

fun spm_rescan :: "nat \<Rightarrow> tokenizer \<Rightarrow> string \<Rightarrow> sym list \<Rightarrow> sym list option" where
  "spm_rescan 0 t w s = None"
| "spm_rescan (Suc f) t w s =
     (let best = snd (over_pairs (length s) s (spm_scan_pair t w s) 0 (SPM_SCORE_FLOOR, -1))
      in if best < 0 then Some s else spm_rescan f t w (merge_at s (nat best)))"

definition spm_merge :: "int \<Rightarrow> tokenizer \<Rightarrow> string \<Rightarrow> sym list \<Rightarrow> sym list option" where
  "spm_merge force t w s =
     (if tk_scores t = None then Some s
      else if \<not> use_merge_queue force (length s) then spm_rescan (length s) t w s
      else run_queue (spm_push_pair t w) s)"

definition spm_emit :: "tokenizer \<Rightarrow> string \<Rightarrow> nat \<Rightarrow> sym list \<Rightarrow> nat \<Rightarrow> int list \<Rightarrow> int list" where
  "spm_emit t w cap s i out =
     (let x = hmap_get (tk_vocab t) (slice w (s ! i))
      in if x \<ge> 0 then emit_id cap out x else emit_bytes t cap out (slice w (s ! i)))"

definition spm_encode :: "int \<Rightarrow> tokenizer \<Rightarrow> string \<Rightarrow> nat \<Rightarrow> int list \<Rightarrow> int list option" where
  "spm_encode force t w cap out =
     (if w = [] then Some out
      else (case spm_merge force t w (init_syms w (length w)) of
              None \<Rightarrow> None
            | Some s \<Rightarrow> Some (over_syms (length s) s (spm_emit t w cap s) 0 out)))"

text \<open>The three bytes of U+2581, which stands for a space.\<close>

definition MARK :: string where
  "MARK = [CHR 0xE2, CHR 0x96, CHR 0x81]"

definition mark_spaces :: "string \<Rightarrow> string" where
  "mark_spaces s = concat (map (\<lambda>c. if c = CHR '' '' then MARK else [c]) s)"

definition spm_encode_text :: "int \<Rightarrow> tokenizer \<Rightarrow> string \<Rightarrow> nat \<Rightarrow> int list \<Rightarrow> bool \<Rightarrow> int list option" where
  "spm_encode_text force t s cap out first_segment =
     spm_encode force t
       ((if tk_add_space_prefix t \<and> first_segment \<and> s \<noteq> [] then MARK else []) @ mark_spaces s) cap out"

subsection \<open>Byte-pair encoding\<close>

text \<open>The rank of a pair, or \<open>-1\<close>.\<close>

definition pair_rank :: "tokenizer \<Rightarrow> string \<Rightarrow> sym list \<Rightarrow> nat \<Rightarrow> nat \<Rightarrow> int" where
  "pair_rank t w s i j =
     (if sy_len (s ! i) + 1 + sy_len (s ! j) \<ge> 512 then -1
      else hmap_get (tk_merges t) (slice w (s ! i) @ '' '' @ slice w (s ! j)))"

definition bpe_push_pair :: "tokenizer \<Rightarrow> string \<Rightarrow> sym list \<Rightarrow> mcand list \<Rightarrow> int \<Rightarrow> mcand list" where
  "bpe_push_pair t w s h l =
     (if l < 0 then h
      else
        (let r = sy_next (s ! nat l)
         in if r < 0 then h
            else
              (let rank = pair_rank t w s (nat l) (nat r)
               in if rank < 0 then h
                  else mh_push h \<lparr>mc_key = int (f32_of_nat (nat rank)), mc_l = nat l, mc_r = nat r,
                         mc_len_l = sy_len (s ! nat l), mc_len_r = sy_len (s ! nat r)\<rparr>)))"

definition bpe_scan_pair :: "tokenizer \<Rightarrow> string \<Rightarrow> sym list \<Rightarrow> nat \<Rightarrow> nat \<Rightarrow> int \<times> int \<Rightarrow> int \<times> int" where
  "bpe_scan_pair t w s i j best =
     (let r = pair_rank t w s i j in if r \<ge> 0 \<and> r < fst best then (r, int i) else best)"

text \<open>\<open>ns\<close> is the number of symbols left.\<close>

fun bpe_rescan :: "nat \<Rightarrow> tokenizer \<Rightarrow> string \<Rightarrow> nat \<Rightarrow> sym list \<Rightarrow> sym list option" where
  "bpe_rescan 0 t w ns s = None"
| "bpe_rescan (Suc f) t w ns s =
     (if ns \<le> 1 then Some s
      else
        (let best = snd (over_pairs (length s) s (bpe_scan_pair t w s) 0 (2 ^ 31 - 1, -1))
         in if best < 0 then Some s else bpe_rescan f t w (ns - 1) (merge_at s (nat best))))"

definition bpe_merge :: "int \<Rightarrow> tokenizer \<Rightarrow> string \<Rightarrow> sym list \<Rightarrow> sym list option" where
  "bpe_merge force t w s =
     (if \<not> use_merge_queue force (length s) then bpe_rescan (length s) t w (length s) s
      else run_queue (bpe_push_pair t w) s)"

text \<open>The fallback for a symbol that is no piece: its characters, from byte \<open>j\<close> on, else their bytes. The length of a
  character is that of its first byte, so the last one may reach beyond the symbol, into whatever follows in memory.\<close>

function char_fallback :: "tokenizer \<Rightarrow> string \<Rightarrow> nat \<Rightarrow> nat \<Rightarrow> nat \<Rightarrow> nat \<Rightarrow> int list \<Rightarrow> int list" where
  "char_fallback t w cap start len j out =
     (if j < len then
        (let l = u8_len (w ! (start + j)); c = take l (drop (start + j) w); cid = hmap_get (tk_vocab t) c
         in char_fallback t w cap start len (j + l) (if cid \<ge> 0 then emit_id cap out cid else emit_bytes t cap out c))
      else out)"
  by pat_completeness auto
termination
  by (relation "measure (\<lambda>(t, w, cap, start, len, j, out). len - j)") (auto simp: u8_len_pos diff_less_mono2)

declare char_fallback.simps [simp del]

definition bpe_emit :: "tokenizer \<Rightarrow> string \<Rightarrow> nat \<Rightarrow> sym list \<Rightarrow> nat \<Rightarrow> int list \<Rightarrow> int list" where
  "bpe_emit t w cap s i out =
     (let x = hmap_get (tk_vocab t) (slice w (s ! i))
      in if x < 0 then char_fallback t w cap (sy_start (s ! i)) (sy_len (s ! i)) 0 out else emit_id cap out x)"

text \<open>\<open>w\<close> is the memory from the word on, of which the word is the first \<open>n\<close> bytes.\<close>

definition bpe_word :: "int \<Rightarrow> tokenizer \<Rightarrow> string \<Rightarrow> nat \<Rightarrow> nat \<Rightarrow> int list \<Rightarrow> int list option" where
  "bpe_word force t w n cap out =
     (if n = 0 then Some out
      else (case bpe_merge force t w (init_syms w n) of
              None \<Rightarrow> None
            | Some s \<Rightarrow> Some (over_syms (length s) s (bpe_emit t w cap s) 0 out)))"

text \<open>The code points of a text, each with its offset.\<close>

function code_points :: "string \<Rightarrow> nat \<Rightarrow> (nat \<times> nat) list" where
  "code_points s i =
     (if i < length s then (i, u8_decode (drop i s) (char_len s (length s) i)) # code_points s (i + char_len s (length s) i)
      else [])"
  by pat_completeness auto
termination
  by (relation "measure (\<lambda>(s, i). length s - i)") (auto simp: char_len_pos diff_less_mono2)

declare code_points.simps [simp del]

text \<open>The loop over the pre-tokens from code point \<open>i\<close> on. \<open>stale\<close> is the memory behind a word in its buffer.\<close>

lemma split_next_gt: "i < split_next pre cp i"
  by (simp add: split_next_def Let_def)

function pretokens :: "int \<Rightarrow> tokenizer \<Rightarrow> string \<Rightarrow> string \<Rightarrow> nat list \<Rightarrow> nat list \<Rightarrow> nat \<Rightarrow> nat \<Rightarrow> int list \<Rightarrow> int list option" where
  "pretokens force t stale s cp off cap i out =
     (if i < length cp then
        (let e = split_next (tk_pre t) cp i;
             word = concat (map (\<lambda>c. u8_encode (tk_b2u t ! byte c)) (take (off ! e - off ! i) (drop (off ! i) s)))
         in case bpe_word force t (word @ stale) (length word) cap out of
              None \<Rightarrow> None
            | Some out \<Rightarrow> pretokens force t stale s cp off cap e out)
      else Some out)"
  by pat_completeness auto
termination
  by (relation "measure (\<lambda>(force, t, stale, s, cp, off, cap, i, out). length cp - i)")
    (auto simp: split_next_gt diff_less_mono2)

declare pretokens.simps [simp del]

definition bpe_encode_text :: "int \<Rightarrow> tokenizer \<Rightarrow> string \<Rightarrow> string \<Rightarrow> nat \<Rightarrow> int list \<Rightarrow> int list option" where
  "bpe_encode_text force t stale s cap out =
     (if s = [] then Some out
      else
        (let cs = code_points s 0
         in pretokens force t stale s (map snd cs) (map fst cs @ [length s]) cap 0 out))"

text \<open>The loop over the runs of newlines and of other bytes in the first \<open>m\<close> bytes of the buffer.\<close>

function newline_runs :: "int \<Rightarrow> tokenizer \<Rightarrow> string \<Rightarrow> nat \<Rightarrow> nat \<Rightarrow> nat \<Rightarrow> int list \<Rightarrow> int list option" where
  "newline_runs force t buf m cap i out =
     (if i < m then
        (let j = i + 1 + length (takeWhile (\<lambda>c. (c = CHR 0x0A) = (buf ! i = CHR 0x0A)) (drop (i + 1) (take m buf)))
         in case bpe_word force t (drop i buf) (j - i) cap out of
              None \<Rightarrow> None
            | Some out \<Rightarrow> newline_runs force t buf m cap j out)
      else Some out)"
  by pat_completeness auto
termination
  by (relation "measure (\<lambda>(force, t, buf, m, cap, i, out). m - i)") auto

declare newline_runs.simps [simp del]

definition bpe_spm_encode_text :: "int \<Rightarrow> tokenizer \<Rightarrow> string \<Rightarrow> string \<Rightarrow> nat \<Rightarrow> int list \<Rightarrow> int list option" where
  "bpe_spm_encode_text force t stale s cap out =
     (if s = [] then Some out
      else newline_runs force t (mark_spaces s @ stale) (length (mark_spaces s)) cap 0 out)"

subsection \<open>Encoding\<close>

definition encode_segment :: "int \<Rightarrow> tokenizer \<Rightarrow> string \<Rightarrow> string \<Rightarrow> nat \<Rightarrow> int list \<Rightarrow> bool \<Rightarrow> int list option" where
  "encode_segment force t stale s cap out first =
     (case tk_model t of
        TOK_SPM \<Rightarrow> spm_encode_text force t s cap out first
      | TOK_BPE_SPM \<Rightarrow> bpe_spm_encode_text force t stale s cap out
      | TOK_BPE \<Rightarrow> bpe_encode_text force t stale s cap out)"

text \<open>The first special token of the group of the first byte that stands at \<open>i\<close>.\<close>

definition special_at :: "tokenizer \<Rightarrow> string \<Rightarrow> nat \<Rightarrow> nat option" where
  "special_at t s i =
     (let b = byte (s ! i)
      in map_option (\<lambda>k. tk_special_ids t ! k)
           (find (\<lambda>k. let tok = tk_tokens t ! (tk_special_ids t ! k)
                      in length tok \<le> length s - i \<and> take (length tok) (drop i s) = tok)
              [tk_sb_off t ! b..<tk_sb_off t ! (b + 1)]))"

text \<open>The loop of \<open>tok_encode\<close>: position, start of the pending plain text, whether it is the first. A special token
  is never empty, so that the length of the text is fuel enough.\<close>

fun encode_loop :: "nat \<Rightarrow> int \<Rightarrow> tokenizer \<Rightarrow> string \<Rightarrow> string \<Rightarrow> nat \<Rightarrow> bool \<Rightarrow> nat \<Rightarrow> nat \<Rightarrow> bool \<Rightarrow> int list \<Rightarrow>
    int list option" where
  "encode_loop 0 force t stale s cap parse_special i seg first out = None"
| "encode_loop (Suc f) force t stale s cap parse_special i seg first out =
     (if i < length s then
        (case (if parse_special then special_at t s i else None) of
           None \<Rightarrow> encode_loop f force t stale s cap parse_special (i + 1) seg first out
         | Some matched \<Rightarrow>
             (case (if i > seg then encode_segment force t stale (take (i - seg) (drop seg s)) cap out first else Some out) of
                None \<Rightarrow> None
              | Some out \<Rightarrow>
                  (let i = i + length (tk_tokens t ! matched)
                   in encode_loop f force t stale s cap parse_special i i False (emit_id cap out (int matched)))))
      else if length s > seg then encode_segment force t stale (drop seg s) cap out first
      else Some out)"

definition tok_encode :: "int \<Rightarrow> tokenizer \<Rightarrow> string \<Rightarrow> string \<Rightarrow> nat \<Rightarrow> bool \<Rightarrow> bool \<Rightarrow> int list option" where
  "tok_encode force t stale s cap add_bos parse_special =
     encode_loop (length s + 1) force t stale s cap parse_special 0 0 True
       (if add_bos \<and> tk_add_bos t \<and> tk_bos_id t \<ge> 0 then emit_id cap [] (tk_bos_id t) else [])"

definition tok_encode_raw :: "int \<Rightarrow> tokenizer \<Rightarrow> string \<Rightarrow> string \<Rightarrow> nat \<Rightarrow> int list option" where
  "tok_encode_raw force t stale s cap = (if s = [] then Some [] else encode_segment force t stale s cap [] False)"

subsection \<open>Decoding and lookup\<close>

definition tok_is_control :: "tokenizer \<Rightarrow> int \<Rightarrow> bool" where
  "tok_is_control t i =
     (if i < 0 \<or> i \<ge> int (length (tk_tokens t)) then False else tok_type t (nat i) = TT_CONTROL)"

definition tok_raw :: "tokenizer \<Rightarrow> int \<Rightarrow> string option" where
  "tok_raw t i = (if i < 0 \<or> i \<ge> int (length (tk_tokens t)) then None else Some (tk_tokens t ! nat i))"

definition tok_find :: "tokenizer \<Rightarrow> string \<Rightarrow> int" where
  "tok_find t s = hmap_get (tk_vocab t) s"

text \<open>\<open>strtol(s, NULL, 16)\<close>: white space, a sign, \<open>0x\<close> where a digit follows, digits.\<close>

definition hex_digit_value :: "char \<Rightarrow> nat option" where
  "hex_digit_value c =
     (if between 48 57 (byte c) then Some (byte c - 48)
      else if between 65 70 (byte c) then Some (byte c - 55)
      else if between 97 102 (byte c) then Some (byte c - 87)
      else None)"

definition strtol16 :: "string \<Rightarrow> int" where
  "strtol16 s =
     (let s = dropWhile (\<lambda>c. c = CHR '' '' \<or> between 9 13 (byte c)) s;
          neg = (s \<noteq> [] \<and> hd s = CHR ''-'');
          s = (if s \<noteq> [] \<and> (hd s = CHR ''-'' \<or> hd s = CHR ''+'') then tl s else s);
          s = (if length s \<ge> 3 \<and> s ! 0 = CHR ''0'' \<and> (s ! 1 = CHR ''x'' \<or> s ! 1 = CHR ''X'') \<and>
                  hex_digit_value (s ! 2) \<noteq> None then drop 2 s else s);
          v = int (foldl (\<lambda>n c. 16 * n + the (hex_digit_value c)) 0 (takeWhile (\<lambda>c. hex_digit_value c \<noteq> None) s))
      in if neg then - v else v)"

text \<open>The loops of \<open>tok_decode\<close>: the rest of the token and what is written. A capacity below 3 leaves \<open>cap - 3\<close> negative.\<close>

function unmark :: "nat \<Rightarrow> string \<Rightarrow> string \<Rightarrow> string" where
  "unmark cap s out =
     (if s \<noteq> [] \<and> length out + 3 < cap then
        (if take 3 s = MARK then unmark cap (drop 3 s) (out @ '' '') else unmark cap (tl s) (out @ [hd s]))
      else out)"
  by pat_completeness auto
termination
  by (relation "measure (\<lambda>(cap, s, out). length s)") auto

declare unmark.simps [simp del]

function unmap_bytes :: "tokenizer \<Rightarrow> nat \<Rightarrow> string \<Rightarrow> string \<Rightarrow> string" where
  "unmap_bytes t cap s out =
     (if s \<noteq> [] \<and> length out < cap then
        (let l = char_len s (length s) 0; c = u8_decode s l
         in unmap_bytes t cap (drop l s)
              (if c < 512 \<and> tk_u2b t ! c \<ge> 0 then out @ [char_of (nat (tk_u2b t ! c))]
               else out @ take (min l (cap - length out)) s))
      else out)"
  by pat_completeness auto
termination
  by (relation "measure (\<lambda>(t, cap, s, out). length s)") (auto simp: char_len_pos)

declare unmap_bytes.simps [simp del]

definition tok_decode :: "tokenizer \<Rightarrow> int \<Rightarrow> nat \<Rightarrow> string" where
  "tok_decode t i cap =
     (if i < 0 \<or> i \<ge> int (length (tk_tokens t)) then []
      else
        (let tt = tok_type t (nat i); tok = tk_tokens t ! nat i
         in if tt = TT_CONTROL \<or> tt = TT_UNUSED then []
            else if tk_model t = TOK_SPM \<or> tk_model t = TOK_BPE_SPM then
              (if tt = TT_BYTE then
                 (if length tok = 6 \<and> cap \<ge> 1 then [char_of (nat (strtol16 (drop 3 tok) mod 256))] else [])
               else unmark cap tok [])
            else unmap_bytes t cap tok []))"

subsection \<open>Initialisation\<close>

text \<open>The insertion sort of the special tokens, longest first; \<open>r\<close> is the sorted part from its end.\<close>

fun shift_special :: "string list \<Rightarrow> nat \<Rightarrow> nat list \<Rightarrow> nat list" where
  "shift_special toks key [] = [key]"
| "shift_special toks key (x # r) =
     (if length (toks ! x) < length (toks ! key) then x # shift_special toks key r else key # x # r)"

definition sort_specials :: "string list \<Rightarrow> nat list \<Rightarrow> nat list" where
  "sort_specials toks ids = rev (foldl (\<lambda>r key. shift_special toks key r) [] ids)"

text \<open>The counting sort by first byte: the offsets of the groups, and the list regrouped.\<close>

definition first_byte :: "string list \<Rightarrow> nat \<Rightarrow> nat" where
  "first_byte toks i = byte (toks ! i ! 0)"

definition group_counts :: "string list \<Rightarrow> nat list \<Rightarrow> nat list" where
  "group_counts toks ids =
     foldl (\<lambda>off i. off[first_byte toks i + 1 := off ! (first_byte toks i + 1) + 1]) (replicate 257 0) ids"

definition group_offsets :: "nat list \<Rightarrow> nat list" where
  "group_offsets off = foldl (\<lambda>off b. off[b + 1 := off ! (b + 1) + off ! b]) off [0..<256]"

definition group_place :: "string list \<Rightarrow> nat list \<times> nat list \<Rightarrow> nat \<Rightarrow> nat list \<times> nat list" where
  "group_place toks = (\<lambda>(out, pos) i.
     (out[pos ! first_byte toks i := i], pos[first_byte toks i := pos ! first_byte toks i + 1]))"

definition bucket_specials :: "string list \<Rightarrow> nat list \<Rightarrow> nat list \<times> nat list" where
  "bucket_specials toks ids =
     (let off = group_offsets (group_counts toks ids)
      in (fst (foldl (group_place toks) (replicate (length ids) 0, take 256 off) ids), off))"

definition spm_scores_degenerate :: "32 word list option \<Rightarrow> bool" where
  "spm_scores_degenerate scores = (case scores of None \<Rightarrow> True | Some ss \<Rightarrow> list_all (\<lambda>s. \<not> f32_nan s \<and> f32_ord s = 0) ss)"

text \<open>One merge \<open>left right\<close>, of rank \<open>r\<close>: the score of its result.\<close>

definition score_merge :: "hmap \<Rightarrow> 32 word list \<Rightarrow> nat \<times> string \<Rightarrow> 32 word list" where
  "score_merge vocab ss = (\<lambda>(r, m).
     (let left = length (takeWhile (\<lambda>c. c \<noteq> CHR '' '') m)
      in if left = length m \<or> length m - 1 \<ge> 512 then ss
         else
           (let i = hmap_get vocab (take left m @ drop (left + 1) m)
            in if i \<ge> 0 then ss[nat i := word_of_nat (f32_of_nat r) XOR 0x80000000] else ss)))"

definition str_array :: "gguf_kv option \<Rightarrow> string list option" where
  "str_array kv =
     (case kv of None \<Rightarrow> None
      | Some kv \<Rightarrow> if kv_type kv = GGUF_T_ARR \<and> kv_arr_type kv = GGUF_T_STR then Some (kv_arr_str kv) else None)"

definition spm_scores_from_merges :: "gguf_kv list \<Rightarrow> hmap \<Rightarrow> nat \<Rightarrow> 32 word list option \<Rightarrow> 32 word list option" where
  "spm_scores_from_merges g vocab n_vocab scores =
     (case str_array (gguf_get g ''tokenizer.ggml.merges'') of
        None \<Rightarrow> scores
      | Some ms \<Rightarrow>
          if ms = [] then scores
          else Some (foldl (score_merge vocab) (replicate n_vocab NEG_FLT_MAX) (enumerate 0 ms)))"

definition special_id_ok :: "nat \<Rightarrow> int \<Rightarrow> bool" where
  "special_id_ok n_vocab i \<longleftrightarrow> i = -1 \<or> 0 \<le> i \<and> i < int n_vocab"

text \<open>An array of \<open>n_vocab\<close> four-byte elements of the type wanted; its length is compared as an \<open>int\<close>.\<close>

definition word_array :: "gguf_kv option \<Rightarrow> 32 word \<Rightarrow> nat \<Rightarrow> 32 word list option" where
  "word_array kv ty n =
     (case kv of None \<Rightarrow> None
      | Some kv \<Rightarrow>
          if kv_type kv = GGUF_T_ARR \<and> kv_arr_type kv = ty \<and> sint (ucast (kv_arr_n kv) :: 32 word) = int n then
            map_option (\<lambda>raw. map (\<lambda>i. word_of_nat (le_val (take 4 (drop (4 * i) raw)))) [0..<n]) (kv_arr_raw kv)
          else None)"

text \<open>The GPT-2 alphabet: the code point of each byte, and back.\<close>

definition keeps_byte :: "nat \<Rightarrow> bool" where
  "keeps_byte b \<longleftrightarrow> between 0x21 0x7E b \<or> between 0xA1 0xAC b \<or> between 0xAE 0xFF b"

definition alphabet_step :: "nat list \<times> int list \<times> nat \<Rightarrow> nat \<Rightarrow> nat list \<times> int list \<times> nat" where
  "alphabet_step = (\<lambda>(b2u, u2b, n) b.
     (let cp = (if keeps_byte b then b else 256 + n)
      in (b2u @ [cp], u2b[cp := int b], if keeps_byte b then n else n + 1)))"

definition alphabet :: "nat list \<times> int list" where
  "alphabet = (case foldl alphabet_step ([], replicate 512 (-1), 0) [0..<256] of (b2u, u2b, _) \<Rightarrow> (b2u, u2b))"

definition model_of_name :: "string \<Rightarrow> tok_model option" where
  "model_of_name m =
     (if m = ''llama'' then Some TOK_SPM else if m = ''gpt2'' then Some TOK_BPE
      else if m = ''gemma4'' then Some TOK_BPE_SPM else None)"

definition pre_of_name :: "string \<Rightarrow> tok_pre" where
  "pre_of_name pre =
     (if pre = ''llama-bpe'' then TOK_PRE_LLAMA3
      else if pre = ''dbrx'' then TOK_PRE_LLAMA3
      else if pre = ''qwen2'' \<or> pre = ''qwen35'' then TOK_PRE_QWEN2
      else if pre = ''smollm'' then TOK_PRE_SMOLLM
      else if pre = ''afmoe'' then TOK_PRE_AFMOE
      else if pre = ''tekken'' then TOK_PRE_TEKKEN
      else if pre = ''llama4'' \<or> pre = ''gpt-4o'' then TOK_PRE_LLAMA4
      else TOK_PRE_GPT2)"

definition text_or :: "string \<Rightarrow> string option \<Rightarrow> string" where
  "text_or d s = (case s of None \<Rightarrow> d | Some s \<Rightarrow> s)"

definition tokenizer_init :: "gguf_kv list \<Rightarrow> tokenizer option" where
  "tokenizer_init g =
     (case model_of_name (text_or ''llama'' (gguf_get_str g ''tokenizer.ggml.model'' None)) of
        None \<Rightarrow> None
      | Some model \<Rightarrow>
     (case str_array (gguf_get g ''tokenizer.ggml.tokens'') of
        None \<Rightarrow> None
      | Some toks \<Rightarrow>
          if length toks > 2 ^ 31 - 1 then None
          else
            (let n = length toks;
                 scores = word_array (gguf_get g ''tokenizer.ggml.scores'') GGUF_T_F32 n;
                 tty = map_option (map sint) (word_array (gguf_get g ''tokenizer.ggml.token_type'') GGUF_T_I32 n);
                 bos = sint (gguf_get_u32 g ''tokenizer.ggml.bos_token_id'' 1);
                 eos = sint (gguf_get_u32 g ''tokenizer.ggml.eos_token_id'' 2);
                 unk = sint (gguf_get_u32 g ''tokenizer.ggml.unknown_token_id'' (-1))
             in if \<not> special_id_ok n bos \<or> \<not> special_id_ok n eos \<or> \<not> special_id_ok n unk then None
                else
                  (case hmap_fill (hmap_init n) 0 toks of
                     None \<Rightarrow> None
                   | Some vocab \<Rightarrow>
                       (let scores = (if model = TOK_SPM \<and> spm_scores_degenerate scores
                                      then spm_scores_from_merges g vocab n scores else scores);
                            ids = filter (\<lambda>i. (type_in tty i = TT_CONTROL \<or> type_in tty i = TT_USER_DEFINED) \<and> toks ! i \<noteq> [])
                                    [0..<n];
                            (special_ids, sb_off) = bucket_specials toks (sort_specials toks ids);
                            t = \<lparr>tk_model = model, tk_pre = pre_of_name (text_or [] (gguf_get_str g ''tokenizer.ggml.pre'' None)),
                                 tk_tokens = toks, tk_scores = scores, tk_ttype = tty, tk_bos_id = bos, tk_eos_id = eos,
                                 tk_unk_id = unk,
                                 tk_add_bos = gguf_get_bool g ''tokenizer.ggml.add_bos_token'' (model = TOK_SPM),
                                 tk_add_space_prefix = gguf_get_bool g ''tokenizer.ggml.add_space_prefix'' True,
                                 tk_vocab = vocab, tk_merges = [], tk_special_ids = special_ids, tk_sb_off = sb_off,
                                 tk_b2u = replicate 256 0, tk_u2b = replicate 512 0\<rparr>
                        in if model = TOK_SPM then Some t
                           else
                             (case str_array (gguf_get g ''tokenizer.ggml.merges'') of
                                None \<Rightarrow> None
                              | Some ms \<Rightarrow>
                                  (case hmap_fill (hmap_init (length ms)) 0 ms of
                                     None \<Rightarrow> None
                                   | Some merges \<Rightarrow>
                                       Some (t\<lparr>tk_merges := merges, tk_b2u := fst alphabet, tk_u2b := snd alphabet\<rparr>))))))))"

end
