(* ===== verification/Tok_Merge_Laws.thy ===== *)
theory Tok_Merge_Laws
  imports Tokenizer
begin

text \<open>
  What the merge loops of \<open>src/tokenizer.c\<close> compute. \<open>merges\<close> is the specification: while some adjacent pair has a
  key, fuse the leftmost of the pairs with the least one. \<open>pair_scan\<close> and \<open>pair_queue\<close> are what the loops ask of
  their scan and of their push; each gives that the loop, over the linked symbols, computes \<open>merges\<close> of their spans.
\<close>

subsection \<open>The specification\<close>

type_synonym span = "nat \<times> nat"
type_synonym pair_key = "span \<Rightarrow> span \<Rightarrow> int option"

abbreviation adjacent :: "'a list \<Rightarrow> ('a \<times> 'a) list" where
  "adjacent v \<equiv> zip v (tl v)"

definition fuse :: "span \<Rightarrow> span \<Rightarrow> span" where
  "fuse a b = (fst a, snd a + snd b)"

definition best_pair :: "pair_key \<Rightarrow> span list \<Rightarrow> span \<Rightarrow> span \<Rightarrow> span list \<Rightarrow> bool" where
  "best_pair key us a b vs \<longleftrightarrow>
     (\<exists>x. key a b = Some x \<and> (\<forall>(c, d) \<in> set (adjacent (us @ [a])). \<forall>y. key c d = Some y \<longrightarrow> x < y) \<and>
        (\<forall>(c, d) \<in> set (adjacent (b # vs)). \<forall>y. key c d = Some y \<longrightarrow> x \<le> y))"

inductive merges :: "pair_key \<Rightarrow> span list \<Rightarrow> span list \<Rightarrow> bool" for key where
  merges_done: "\<forall>(c, d) \<in> set (adjacent v). key c d = None \<Longrightarrow> merges key v v"
| merges_step: "best_pair key us a b vs \<Longrightarrow> merges key (us @ fuse a b # vs) w \<Longrightarrow> merges key (us @ a # b # vs) w"

lemma best_pairE:
  assumes "best_pair key us a b vs"
  obtains x where "key a b = Some x" "\<forall>(c, d) \<in> set (adjacent (us @ [a])). \<forall>y. key c d = Some y \<longrightarrow> x < y"
    "\<forall>(c, d) \<in> set (adjacent (b # vs)). \<forall>y. key c d = Some y \<longrightarrow> x \<le> y"
  using assms unfolding best_pair_def by (elim exE conjE)

lemma adjacent_Cons2 [simp]: "adjacent (a # b # v) = (a, b) # adjacent (b # v)"
  by simp

lemma adjacent_append: "adjacent (us @ a # vs) = adjacent (us @ [a]) @ adjacent (a # vs)"
  by (induction us rule: induct_list012) (auto simp: neq_Nil_conv)

lemma best_pair_unique:
  assumes "best_pair key us a b vs" "best_pair key us' a' b' vs'" "us @ a # b # vs = us' @ a' # b' # vs'"
  shows "us = us' \<and> a = a' \<and> b = b' \<and> vs = vs'"
proof -
  have no: False
    if bp: "best_pair key us a b vs" "best_pair key us' a' b' vs'" and e: "us @ a # b # vs = us' @ a' # b' # vs'"
      and l: "length us < length us'" for us a b vs us' a' b' vs'
  proof -
    obtain ws where us': "us' = us @ ws" and ws: "a # b # vs = ws @ a' # b' # vs'"
      using e l by (auto simp: append_eq_append_conv2 append_eq_Cons_conv)
    obtain ws' where ws': "ws = a # ws'" "b # vs = ws' @ a' # b' # vs'" using ws l us' by (cases ws) auto
    have "(a, b) \<in> set (adjacent (us' @ [a']))"
      unfolding us' ws'(1) using ws'(2) adjacent_append [of us a "ws' @ [a']"] by (cases ws') auto
    moreover have "(a', b') \<in> set (adjacent (b # vs))"
      unfolding ws'(2) using adjacent_append [of ws' a' "b' # vs'"] by auto
    moreover obtain x where "key a b = Some x" "\<forall>(c, d) \<in> set (adjacent (b # vs)). \<forall>y. key c d = Some y \<longrightarrow> x \<le> y"
      by (rule best_pairE [OF bp(1)])
    moreover obtain x' where "key a' b' = Some x'"
      "\<forall>(c, d) \<in> set (adjacent (us' @ [a'])). \<forall>y. key c d = Some y \<longrightarrow> x' < y"
      by (rule best_pairE [OF bp(2)])
    ultimately show False by fastforce
  qed
  have "length us = length us'"
    using no [OF assms] no [OF assms(2,1) assms(3) [symmetric]] by (meson linorder_neqE_nat)
  then show ?thesis using assms(3) by simp
qed

lemma best_pair_not_done:
  assumes "best_pair key us a b vs"
  shows "\<not> (\<forall>(c, d) \<in> set (adjacent (us @ a # b # vs)). key c d = None)"
proof -
  obtain x where "key a b = Some x" by (rule best_pairE [OF assms])
  moreover have "(a, b) \<in> set (adjacent (us @ a # b # vs))" unfolding adjacent_append [of us a "b # vs"] by simp
  ultimately show ?thesis by fastforce
qed

inductive_cases merges_cases: "merges key v w"

lemma merges_unique: "merges key v w \<Longrightarrow> merges key v w' \<Longrightarrow> w = w'"
proof (induction arbitrary: w' rule: merges.induct)
  case (merges_done v)
  from merges_done(2) show ?case
    by (rule merges_cases) (use merges_done(1) best_pair_not_done in blast)+
next
  case (merges_step us a b vs w)
  from merges_step.prems show ?case
  proof (rule merges_cases)
    assume "w' = us @ a # b # vs" "\<forall>(c, d) \<in> set (adjacent (us @ a # b # vs)). key c d = None"
    then show ?thesis using best_pair_not_done [OF merges_step(1)] by blast
  next
    fix us' a' b' vs'
    assume "us @ a # b # vs = us' @ a' # b' # vs'" "best_pair key us' a' b' vs'"
      "merges key (us' @ fuse a' b' # vs') w'"
    then show ?thesis using best_pair_unique [OF merges_step(1)] merges_step.IH by blast
  qed
qed

text \<open>Keys that order the pairs alike merge alike.\<close>

definition same_order :: "pair_key \<Rightarrow> pair_key \<Rightarrow> bool" where
  "same_order key key' \<longleftrightarrow>
     (\<forall>a b. key a b = None \<longleftrightarrow> key' a b = None) \<and>
     (\<forall>a b c d x y x' y'. key a b = Some x \<longrightarrow> key c d = Some y \<longrightarrow> key' a b = Some x' \<longrightarrow> key' c d = Some y' \<longrightarrow>
        (x < y \<longleftrightarrow> x' < y'))"

lemma same_order_none: "same_order key key' \<Longrightarrow> key a b = None \<longleftrightarrow> key' a b = None"
  unfolding same_order_def by (elim conjE, drule spec, drule spec)

lemma same_order_less:
  "same_order key key' \<Longrightarrow> key a b = Some x \<Longrightarrow> key c d = Some y \<Longrightarrow> key' a b = Some x' \<Longrightarrow> key' c d = Some y' \<Longrightarrow>
    x < y \<longleftrightarrow> x' < y'"
  unfolding same_order_def by (elim conjE) (rule mp, rule mp, rule mp, rule mp, (erule allE)+, assumption+)

lemma same_orderD:
  assumes "same_order key key'" "key a b = Some x" "key' a b = Some x'" "key' c d = Some y'"
  obtains y where "key c d = Some y" "x < y \<longleftrightarrow> x' < y'" "y < x \<longleftrightarrow> y' < x'"
proof -
  obtain y where y: "key c d = Some y" using same_order_none [OF assms(1), of c d] assms(4) by auto
  show ?thesis
    by (rule that [OF y same_order_less [OF assms(1,2) y assms(3,4)] same_order_less [OF assms(1) y assms(2,4,3)]])
qed

lemma best_pair_mono:
  assumes so: "same_order key key'" and bp: "best_pair key us a b vs"
  shows "best_pair key' us a b vs"
proof -
  obtain x where x: "key a b = Some x" "\<forall>(c, d) \<in> set (adjacent (us @ [a])). \<forall>y. key c d = Some y \<longrightarrow> x < y"
    "\<forall>(c, d) \<in> set (adjacent (b # vs)). \<forall>y. key c d = Some y \<longrightarrow> x \<le> y" by (rule best_pairE [OF bp])
  obtain x' where x': "key' a b = Some x'" using x(1) same_order_none [OF so, of a b] by auto
  have "x' < y'" if cd: "(c, d) \<in> set (adjacent (us @ [a]))" "key' c d = Some y'" for c d y'
  proof -
    obtain y where y: "key c d = Some y" "x < y \<longleftrightarrow> x' < y'" "y < x \<longleftrightarrow> y' < x'"
      by (rule same_orderD [OF so x(1) x' cd(2)])
    show ?thesis using bspec [OF x(2) cd(1)] y by auto
  qed
  moreover have "x' \<le> y'" if cd: "(c, d) \<in> set (adjacent (b # vs))" "key' c d = Some y'" for c d y'
  proof -
    obtain y where y: "key c d = Some y" "x < y \<longleftrightarrow> x' < y'" "y < x \<longleftrightarrow> y' < x'"
      by (rule same_orderD [OF so x(1) x' cd(2)])
    show ?thesis using bspec [OF x(3) cd(1)] y by auto
  qed
  ultimately show ?thesis using x' unfolding best_pair_def by blast
qed

lemma merges_mono: "merges key v w \<Longrightarrow> same_order key key' \<Longrightarrow> merges key' v w"
proof (induction rule: merges.induct)
  case (merges_done v)
  then show ?case using same_order_none by (fastforce intro!: merges.merges_done)
next
  case (merges_step us a b vs w)
  then show ?case using best_pair_mono by (blast intro: merges.merges_step)
qed

text \<open>The text that the spans cover stays.\<close>

fun contiguous :: "nat \<Rightarrow> span list \<Rightarrow> nat \<Rightarrow> bool" where
  "contiguous i [] n \<longleftrightarrow> i = n"
| "contiguous i (a # v) n \<longleftrightarrow> fst a = i \<and> 0 < snd a \<and> contiguous (i + snd a) v n"

lemma contiguous_append: "contiguous i (us @ vs) n \<longleftrightarrow> (\<exists>j. contiguous i us j \<and> contiguous j vs n)"
  by (induction us arbitrary: i) auto

lemma merges_contiguous: "merges key v w \<Longrightarrow> contiguous i v n \<Longrightarrow> contiguous i w n"
  by (induction rule: merges.induct) (auto simp: contiguous_append fuse_def add.assoc)

subsection \<open>The linked symbols\<close>

text \<open>\<open>chain s p xs q\<close>: the symbols \<open>xs\<close> follow one another, after \<open>p\<close> and before \<open>q\<close>.\<close>

definition span_of :: "sym \<Rightarrow> span" where
  "span_of x = (sy_start x, sy_len x)"

lemma span_of_simps [simp]:
  "span_of \<lparr>sy_start = a, sy_len = n, sy_prev = p, sy_next = q\<rparr> = (a, n)" "span_of (x\<lparr>sy_next := q\<rparr>) = span_of x"
  by (simp_all add: span_of_def)

abbreviation spans :: "sym list \<Rightarrow> nat list \<Rightarrow> span list" where
  "spans s \<equiv> map (\<lambda>x. span_of (s ! x))"

definition first_of :: "nat list \<Rightarrow> int \<Rightarrow> int" where
  "first_of xs q = (case xs of [] \<Rightarrow> q | x # _ \<Rightarrow> int x)"

definition last_of :: "int \<Rightarrow> nat list \<Rightarrow> int" where
  "last_of p xs = (if xs = [] then p else int (last xs))"

lemma first_of_simps [simp]: "first_of [] q = q" "first_of (x # xs) q = int x"
  by (simp_all add: first_of_def)

lemma last_of_simps [simp]: "last_of p [] = p" "last_of p (xs @ [x]) = int x" "last_of p (x # xs) = last_of (int x) xs"
  by (auto simp: last_of_def)

fun chain :: "sym list \<Rightarrow> int \<Rightarrow> nat list \<Rightarrow> int \<Rightarrow> bool" where
  "chain s p [] q \<longleftrightarrow> True"
| "chain s p (x # xs) q \<longleftrightarrow>
     x < length s \<and> sy_prev (s ! x) = p \<and> 0 < sy_len (s ! x) \<and> sy_next (s ! x) = first_of xs q \<and> chain s (int x) xs q"

lemma chain_append: "chain s p (us @ vs) q \<longleftrightarrow> chain s p us (first_of vs q) \<and> chain s (last_of p us) vs q"
proof (induction us arbitrary: p)
  case (Cons u us)
  then show ?case by (cases us) auto
qed simp

lemma chain_cong: "chain s p xs q \<Longrightarrow> \<forall>x \<in> set xs. s' ! x = s ! x \<Longrightarrow> length s' = length s \<Longrightarrow> chain s' p xs q"
  by (induction s p xs q rule: chain.induct) auto

lemma chain_less: "chain s p xs q \<Longrightarrow> x \<in> set xs \<Longrightarrow> x < length s \<and> 0 < sy_len (s ! x)"
  by (induction s p xs q rule: chain.induct) auto

lemma length_merge_at [simp]: "length (merge_at s i) = length s"
  by (simp add: merge_at_def Let_def)

lemma merge_at_nth:
  assumes "sy_next (s ! l) = int r" "sy_next (s ! r) = q" "q \<noteq> int l" "-1 \<le> q" "l < length s" "x < length s"
  shows "merge_at s l ! x =
    (if x = l then (s ! l)\<lparr>sy_len := sy_len (s ! l) + sy_len (s ! r), sy_next := q\<rparr>
     else if q = int x then (s ! x)\<lparr>sy_prev := int l\<rparr> else s ! x)"
  using assms by (auto simp: merge_at_def Let_def nth_list_update)

text \<open>Merging in the code and in the chain; the queue also empties the absorbed symbol.\<close>

definition absorb :: "sym list \<Rightarrow> nat \<Rightarrow> sym list" where
  "absorb s j = s[j := (s ! j)\<lparr>sy_len := 0\<rparr>]"

lemma length_absorb [simp]: "length (absorb s j) = length s"
  by (simp add: absorb_def)

definition merge_site :: "sym list \<Rightarrow> nat list \<Rightarrow> nat \<Rightarrow> nat \<Rightarrow> nat list \<Rightarrow> bool" where
  "merge_site s us l r vs \<longleftrightarrow> chain s (-1) (us @ l # r # vs) (-1) \<and> distinct (us @ l # r # vs)"

lemma site_distinct: "merge_site s us l r vs \<Longrightarrow> distinct (us @ l # r # vs)"
  by (simp add: merge_site_def)

lemma site:
  assumes "merge_site s us l r vs"
  shows
  "chain s (-1) us (int l)" "l < length s" "sy_prev (s ! l) = last_of (-1) us" "0 < sy_len (s ! l)" "sy_next (s ! l) = int r"
  "r < length s" "0 < sy_len (s ! r)" "sy_next (s ! r) = first_of vs (-1)" "chain s (int r) vs (-1)"
  using assms by (auto simp: merge_site_def chain_append)

lemma absorbed_nth: "x \<noteq> r \<Longrightarrow> absorb s r ! x = s ! x"
  by (simp add: absorb_def)

lemma nth_merged:
  assumes ms: "merge_site s us l r vs"
  shows "x < length s \<Longrightarrow> merge_at s l ! x =
    (if x = l then (s ! l)\<lparr>sy_len := sy_len (s ! l) + sy_len (s ! r), sy_next := first_of vs (-1)\<rparr>
     else if first_of vs (-1) = int x then (s ! x)\<lparr>sy_prev := int l\<rparr> else s ! x)"
  by (rule merge_at_nth [OF site(5,8) [OF ms] _ _ site(2) [OF ms]]) (use site_distinct [OF ms] in \<open>auto simp: first_of_def split: list.splits\<close>)

lemma chain_merged:
  assumes ms: "merge_site s us l r vs"
  shows "chain (merge_at s l) (-1) (us @ l # vs) (-1)"
proof -
  have us: "chain (merge_at s l) (-1) us (int l)"
  proof (rule chain_cong [OF site(1) [OF ms]])
    show "\<forall>x \<in> set us. merge_at s l ! x = s ! x"
    proof
      fix x assume x: "x \<in> set us"
      then have "x < length s" using chain_less [OF site(1) [OF ms]] by blast
      moreover have "x \<noteq> l" "first_of vs (-1) \<noteq> int x" using x site_distinct [OF ms] by (auto simp: first_of_def split: list.splits)
      ultimately show "merge_at s l ! x = s ! x" using nth_merged [OF ms] by simp
    qed
  qed simp
  have "chain (merge_at s l) (int l) vs (-1)"
  proof (cases vs)
    case (Cons k ks)
    have k: "k < length s" "sy_next (s ! k) = first_of ks (-1)" "0 < sy_len (s ! k)" "chain s (int k) ks (-1)" "k \<noteq> l"
      using site(9) [OF ms] site_distinct [OF ms] by (auto simp: Cons)
    have "chain (merge_at s l) (int k) ks (-1)"
    proof (rule chain_cong [OF k(4)])
      show "\<forall>x \<in> set ks. merge_at s l ! x = s ! x"
      proof
        fix x assume x: "x \<in> set ks"
        then have "x < length s" using chain_less [OF k(4)] by blast
        then show "merge_at s l ! x = s ! x" using nth_merged [OF ms, of x] x site_distinct [OF ms] by (auto simp: Cons)
      qed
    qed simp
    then show ?thesis using k nth_merged [OF ms k(1)] by (simp add: Cons)
  qed simp
  then show ?thesis using us site(2,3,4) [OF ms] nth_merged [OF ms site(2) [OF ms]] by (simp add: chain_append)
qed

lemma chain_absorbed:
  assumes ms: "merge_site s us l r vs"
  shows "chain (absorb (merge_at s l) r) (-1) (us @ l # vs) (-1)"
  by (rule chain_cong [OF chain_merged [OF ms]]) (use site_distinct [OF ms] in \<open>auto intro!: absorbed_nth\<close>)

lemma span_merged:
  assumes ms: "merge_site s us l r vs"
  shows "x < length s \<Longrightarrow> x \<noteq> l \<Longrightarrow> span_of (merge_at s l ! x) = span_of (s ! x)"
  by (simp add: nth_merged [OF ms] span_of_def)

lemma span_fused:
  assumes ms: "merge_site s us l r vs"
  shows "span_of (merge_at s l ! l) = fuse (span_of (s ! l)) (span_of (s ! r))"
  using nth_merged [OF ms site(2) [OF ms]] by (simp add: span_of_def fuse_def)

lemma spans_merged:
  assumes ms: "merge_site s us l r vs"
  shows "spans (merge_at s l) (us @ l # vs) = spans s us @ fuse (span_of (s ! l)) (span_of (s ! r)) # spans s vs"
proof -
  have "span_of (merge_at s l ! x) = span_of (s ! x)" if "x \<in> set us \<or> x \<in> set vs" for x
  proof (rule span_merged [OF ms])
    show "x < length s" using that chain_less [OF site(1) [OF ms]] chain_less [OF site(9) [OF ms]] by blast
    show "x \<noteq> l" using that site_distinct [OF ms] by auto
  qed
  then show ?thesis by (simp add: span_fused [OF ms])
qed

lemma spans_absorbed:
  assumes ms: "merge_site s us l r vs"
  shows "spans (absorb (merge_at s l) r) (us @ l # vs) = spans s us @ fuse (span_of (s ! l)) (span_of (s ! r)) # spans s vs"
proof -
  have "spans (absorb (merge_at s l) r) (us @ l # vs) = spans (merge_at s l) (us @ l # vs)"
    using site_distinct [OF ms] by (auto intro!: arg_cong [of _ _ span_of] absorbed_nth)
  then show ?thesis using spans_merged [OF ms] by simp
qed

text \<open>Walking over the chain.\<close>

lemma over_pairs_last: "sy_next (s ! x) = -1 \<Longrightarrow> over_pairs n s f (int x) b = b"
  by (cases n) simp_all

lemma over_pairs_chain:
  "chain s p xs (-1) \<Longrightarrow> xs \<noteq> [] \<Longrightarrow> length xs \<le> Suc n \<Longrightarrow>
    over_pairs n s f (first_of xs (-1)) b = foldl (\<lambda>b (i, j). f i j b) b (adjacent xs)"
proof (induction xs arbitrary: p n b rule: induct_list012)
  case (2 x)
  then show ?case by (simp add: over_pairs_last)
next
  case (3 x y zs)
  then obtain n' where n: "n = Suc n'" by (cases n) auto
  have c: "chain s (int x) (y # zs) (-1)" "sy_next (s ! x) = int y" using 3(3) by simp_all
  have "over_pairs n' s f (int y) (f x y b) = foldl (\<lambda>b (i, j). f i j b) (f x y b) (adjacent (y # zs))"
    using 3(2) [OF c(1)] 3(5) n by simp
  then show ?case using c(2) by (simp add: n)
qed simp

lemma over_syms_end: "over_syms n s f (-1) b = b"
  by (cases n) simp_all

lemma over_syms_chain:
  "chain s p xs (-1) \<Longrightarrow> length xs \<le> n \<Longrightarrow> over_syms n s f (first_of xs (-1)) b = foldl (\<lambda>b i. f i b) b xs"
proof (induction xs arbitrary: p n b)
  case (Cons x xs)
  then obtain n' where n: "n = Suc n'" "length xs \<le> n'" by (cases n) auto
  have "chain s (int x) xs (-1)" "sy_next (s ! x) = first_of xs (-1)" using Cons.prems(1) by auto
  then show ?case using Cons.IH [OF _ n(2)] by (simp add: n(1))
qed (simp add: over_syms_end)

text \<open>The chain from the first symbol on.\<close>

definition live_syms :: "sym list \<Rightarrow> nat list \<Rightarrow> bool" where
  "live_syms s xs \<longleftrightarrow> chain s (-1) xs (-1) \<and> sorted_wrt (<) xs \<and> first_of xs (-1) = 0"

lemma live_site: "live_syms s (us @ l # r # vs) \<Longrightarrow> merge_site s us l r vs"
  by (auto simp: live_syms_def merge_site_def strict_sorted_iff)

lemma live_nonempty: "live_syms s xs \<Longrightarrow> xs \<noteq> []"
  by (auto simp: live_syms_def)

lemma live_length: "live_syms s xs \<Longrightarrow> length xs \<le> length s"
proof -
  assume "live_syms s xs"
  then have "distinct xs" "set xs \<subseteq> {..<length s}" using chain_less by (auto simp: live_syms_def strict_sorted_iff)
  then show ?thesis using card_mono [of "{..<length s}" "set xs"] distinct_card [of xs] by simp
qed

lemma live_fewer:
  assumes "live_syms s (us @ l # r # vs)"
  shows "sorted_wrt (<) (us @ l # vs) \<and> first_of (us @ l # vs) (-1) = 0"
  using assms by (cases us) (auto simp: live_syms_def sorted_wrt_append)

lemma live_merged:
  assumes "live_syms s (us @ l # r # vs)"
  shows "live_syms (merge_at s l) (us @ l # vs)"
  unfolding live_syms_def by (intro conjI chain_merged [OF live_site [OF assms]]) (use live_fewer [OF assms] in blast)+

lemma live_absorbed:
  assumes "live_syms s (us @ l # r # vs)"
  shows "live_syms (absorb (merge_at s l) r) (us @ l # vs)"
  unfolding live_syms_def by (intro conjI chain_absorbed [OF live_site [OF assms]]) (use live_fewer [OF assms] in blast)+

lemma adjacent_spans: "adjacent (spans s xs) = map (\<lambda>(i, j). (span_of (s ! i), span_of (s ! j))) (adjacent xs)"
  by (induction xs rule: induct_list012) simp_all

lemma adjacent_split: "adjacent xs = qs @ (i, j) # rs \<Longrightarrow>
    \<exists>us vs. xs = us @ i # j # vs \<and> qs = adjacent (us @ [i]) \<and> rs = adjacent (j # vs)"
proof (induction xs arbitrary: qs rule: induct_list012)
  case (3 x y zs)
  show ?case
  proof (cases qs)
    case Nil
    then show ?thesis using 3(3) by (intro exI [of _ "[]"] exI [of _ zs]) auto
  next
    case (Cons q qs')
    then have q: "q = (x, y)" "adjacent (y # zs) = qs' @ (i, j) # rs" using 3(3) by auto
    obtain us vs where uv: "y # zs = us @ i # j # vs" "qs' = adjacent (us @ [i])" "rs = adjacent (j # vs)"
      using 3(2) [OF q(2)] by blast
    show ?thesis
      by (rule exI [of _ "x # us"], rule exI [of _ vs]) (use uv Cons q in \<open>cases us; auto\<close>)
  qed
qed auto

subsection \<open>Scanning for the best pair\<close>

locale pair_scan =
  fixes key :: pair_key and scan :: "sym list \<Rightarrow> nat \<Rightarrow> nat \<Rightarrow> 'b \<times> int \<Rightarrow> 'b \<times> int" and start :: 'b
    and stands :: "'b \<Rightarrow> int \<Rightarrow> bool"
  assumes scan_none: "key (span_of (s ! i)) (span_of (s ! j)) = None \<Longrightarrow> b = (start, -1) \<or> stands (fst b) k \<Longrightarrow> scan s i j b = b"
    and scan_first: "key (span_of (s ! i)) (span_of (s ! j)) = Some k \<Longrightarrow>
      stands (fst (scan s i j (start, -1))) k \<and> snd (scan s i j (start, -1)) = int i"
    and scan_less: "key (span_of (s ! i)) (span_of (s ! j)) = Some k \<Longrightarrow> stands (fst b) k' \<Longrightarrow> k < k' \<Longrightarrow>
      stands (fst (scan s i j b)) k \<and> snd (scan s i j b) = int i"
    and scan_not_less: "key (span_of (s ! i)) (span_of (s ! j)) = Some k \<Longrightarrow> stands (fst b) k' \<Longrightarrow> \<not> k < k' \<Longrightarrow>
      scan s i j b = b"
begin

abbreviation key_at :: "sym list \<Rightarrow> nat \<times> nat \<Rightarrow> int option" where
  "key_at s p \<equiv> key (span_of (s ! fst p)) (span_of (s ! snd p))"

abbreviation scan_list :: "sym list \<Rightarrow> 'b \<times> int \<Rightarrow> (nat \<times> nat) list \<Rightarrow> 'b \<times> int" where
  "scan_list s \<equiv> foldl (\<lambda>b (i, j). scan s i j b)"

definition found :: "sym list \<Rightarrow> (nat \<times> nat) list \<Rightarrow> (nat \<times> nat) \<Rightarrow> (nat \<times> nat) list \<Rightarrow> int \<Rightarrow> bool" where
  "found s qs p rs k \<longleftrightarrow>
     key_at s p = Some k \<and> (\<forall>q \<in> set qs. \<forall>y. key_at s q = Some y \<longrightarrow> k < y) \<and>
       (\<forall>q \<in> set rs. \<forall>y. key_at s q = Some y \<longrightarrow> k \<le> y)"

lemma scan_from:
  "stands (fst b) k \<Longrightarrow>
     scan_list s b ps = b \<and> (\<forall>q \<in> set ps. \<forall>y. key_at s q = Some y \<longrightarrow> k \<le> y) \<or>
     (\<exists>qs p rs k'. ps = qs @ p # rs \<and> k' < k \<and> snd (scan_list s b ps) = int (fst p) \<and> found s qs p rs k')"
proof (induction ps arbitrary: b k)
  case (Cons p ps)
  obtain i j where p: "p = (i, j)" by (cases p)
  show ?case
  proof (cases "\<exists>y. key_at s p = Some y \<and> y < k")
    case True
    then obtain y where y: "key_at s p = Some y" "y < k" by blast
    have st: "stands (fst (scan s i j b)) y" "snd (scan s i j b) = int i" using scan_less [OF _ Cons.prems y(2)] y(1) p by auto
    show ?thesis using Cons.IH [OF st(1)]
    proof (elim disjE exE conjE)
      assume "scan_list s (scan s i j b) ps = scan s i j b" "\<forall>q \<in> set ps. \<forall>z. key_at s q = Some z \<longrightarrow> y \<le> z"
      then show ?thesis using st y p
        by (intro disjI2 exI [of _ "[]"] exI [of _ p] exI [of _ ps] exI [of _ y]) (auto simp: found_def)
    next
      fix qs p' rs k' assume "ps = qs @ p' # rs" "k' < y" "snd (scan_list s (scan s i j b) ps) = int (fst p')" "found s qs p' rs k'"
      then show ?thesis using st y p
        by (intro disjI2 exI [of _ "p # qs"] exI [of _ p'] exI [of _ rs] exI [of _ k']) (auto simp: found_def)
    qed
  next
    case False
    have same: "scan s i j b = b"
    proof (cases "key_at s p")
      case None
      then show ?thesis using scan_none [of s i j b k] Cons.prems p by simp
    next
      case (Some y)
      then show ?thesis using scan_not_less [of s i j y b k] Cons.prems p False by auto
    qed
    show ?thesis using Cons.IH [OF Cons.prems]
    proof (elim disjE exE conjE)
      assume "scan_list s b ps = b" "\<forall>q \<in> set ps. \<forall>z. key_at s q = Some z \<longrightarrow> k \<le> z"
      then show ?thesis using same False p by auto
    next
      fix qs p' rs k' assume "ps = qs @ p' # rs" "k' < k" "snd (scan_list s b ps) = int (fst p')" "found s qs p' rs k'"
      then show ?thesis using same False p
        by (intro disjI2 exI [of _ "p # qs"] exI [of _ p'] exI [of _ rs] exI [of _ k']) (auto simp: found_def)
    qed
  qed
qed simp

lemma scan_all:
  "scan_list s (start, -1) ps = (start, -1) \<and> (\<forall>q \<in> set ps. key_at s q = None) \<or>
   (\<exists>qs p rs k. ps = qs @ p # rs \<and> snd (scan_list s (start, -1) ps) = int (fst p) \<and> found s qs p rs k)"
proof (induction ps)
  case (Cons p ps)
  obtain i j where p: "p = (i, j)" by (cases p)
  show ?case
  proof (cases "key_at s p")
    case None
    then have "scan s i j (start, -1) = (start, -1)" using scan_none [of s i j "(start, -1)"] p by simp
    then show ?thesis using Cons.IH None p
    proof (elim disjE exE conjE)
      fix qs p' rs k assume "ps = qs @ p' # rs" "snd (scan_list s (start, -1) ps) = int (fst p')" "found s qs p' rs k"
        "scan s i j (start, -1) = (start, -1)"
      then show ?thesis using None p
        by (intro disjI2 exI [of _ "p # qs"] exI [of _ p'] exI [of _ rs] exI [of _ k]) (auto simp: found_def)
    qed auto
  next
    case (Some y)
    then have st: "stands (fst (scan s i j (start, -1))) y" "snd (scan s i j (start, -1)) = int i"
      using scan_first [of s i j y] p by auto
    show ?thesis using scan_from [OF st(1), of s ps]
    proof (elim disjE exE conjE)
      assume "scan_list s (scan s i j (start, -1)) ps = scan s i j (start, -1)"
        "\<forall>q \<in> set ps. \<forall>z. key_at s q = Some z \<longrightarrow> y \<le> z"
      then show ?thesis using st Some p
        by (intro disjI2 exI [of _ "[]"] exI [of _ p] exI [of _ ps] exI [of _ y]) (auto simp: found_def)
    next
      fix qs p' rs k' assume "ps = qs @ p' # rs" "k' < y"
        "snd (scan_list s (scan s i j (start, -1)) ps) = int (fst p')" "found s qs p' rs k'"
      then show ?thesis using st Some p
        by (intro disjI2 exI [of _ "p # qs"] exI [of _ p'] exI [of _ rs] exI [of _ k']) (auto simp: found_def)
    qed
  qed
qed simp

text \<open>The scan finds the pair to fuse, or that there is none.\<close>

lemma scan_finds:
  assumes live: "live_syms s xs"
  defines "best \<equiv> snd (over_pairs (length s) s (scan s) 0 (start, -1))"
  shows "best = -1 \<and> merges key (spans s xs) (spans s xs) \<or>
    (\<exists>us l r vs. xs = us @ l # r # vs \<and> best = int l \<and>
       best_pair key (spans s us) (span_of (s ! l)) (span_of (s ! r)) (spans s vs))"
proof -
  have "length xs \<le> Suc (length s)" using live_length [OF live] by simp
  then have best: "best = snd (scan_list s (start, -1) (adjacent xs))"
    using over_pairs_chain [of s "-1" xs "length s" "scan s" "(start, -1)"] live live_nonempty [OF live]
    unfolding best_def live_syms_def by simp
  show ?thesis using scan_all [of s "adjacent xs"]
  proof (elim disjE exE conjE)
    assume none: "scan_list s (start, -1) (adjacent xs) = (start, -1)" "\<forall>q \<in> set (adjacent xs). key_at s q = None"
    have "\<forall>(c, d) \<in> set (adjacent (spans s xs)). key c d = None"
      unfolding adjacent_spans using none(2) by auto
    then show ?thesis using best none(1) merges_done by auto
  next
    fix qs p rs k assume "adjacent xs = qs @ p # rs" and b: "snd (scan_list s (start, -1) (adjacent xs)) = int (fst p)"
      and f: "found s qs p rs k"
    then obtain us vs where uv: "xs = us @ fst p # snd p # vs" "qs = adjacent (us @ [fst p])" "rs = adjacent (snd p # vs)"
      using adjacent_split [of xs qs "fst p" "snd p" rs] by auto
    have "spans s us @ [span_of (s ! fst p)] = spans s (us @ [fst p])"
      "span_of (s ! snd p) # spans s vs = spans s (snd p # vs)" by simp_all
    then have "best_pair key (spans s us) (span_of (s ! fst p)) (span_of (s ! snd p)) (spans s vs)"
      using f unfolding best_pair_def found_def uv(2,3) by (simp only: adjacent_spans) auto
    then show ?thesis using uv(1) best b by blast
  qed
qed

end

text \<open>The scans of the two tokenizers.\<close>

definition spm_key :: "tokenizer \<Rightarrow> string \<Rightarrow> pair_key" where
  "spm_key t w a b =
     (let x = hmap_get (tk_vocab t) (take (snd a + snd b) (drop (fst a) w))
      in if x < 0 \<or> \<not> f32_less SPM_SCORE_FLOOR (spm_score t (nat x)) then None else Some (- f32_ord (spm_score t (nat x))))"

definition span_text :: "string \<Rightarrow> span \<Rightarrow> string" where
  "span_text w a = take (snd a) (drop (fst a) w)"

text \<open>The rank of a pair, and what the queue orders by instead.\<close>

definition bpe_rank :: "tokenizer \<Rightarrow> string \<Rightarrow> span \<Rightarrow> span \<Rightarrow> int" where
  "bpe_rank t w a b =
     (if snd a + 1 + snd b \<ge> 512 then -1 else hmap_get (tk_merges t) (span_text w a @ '' '' @ span_text w b))"

definition bpe_key :: "tokenizer \<Rightarrow> string \<Rightarrow> pair_key" where
  "bpe_key t w a b = (let r = bpe_rank t w a b in if 0 \<le> r \<and> r < 2 ^ 31 - 1 then Some r else None)"

definition bpe_float_key :: "tokenizer \<Rightarrow> string \<Rightarrow> pair_key" where
  "bpe_float_key t w a b = (let r = bpe_rank t w a b in if 0 \<le> r then Some (int (f32_of_nat (nat r))) else None)"

lemma pair_rank_span: "pair_rank t w s i j = bpe_rank t w (span_of (s ! i)) (span_of (s ! j))"
  by (simp add: pair_rank_def bpe_rank_def span_of_def slice_def span_text_def)

lemma f32_less_trans: "f32_less a b \<Longrightarrow> f32_less b c \<Longrightarrow> f32_less a c"
  by (auto simp: f32_less_def)

interpretation spm_scan: pair_scan "spm_key t w" "spm_scan_pair t w" SPM_SCORE_FLOOR
  "\<lambda>x k. f32_less SPM_SCORE_FLOOR x \<and> k = - f32_ord x" for t w
  by unfold_locales
    (auto simp: spm_key_def spm_scan_pair_def pair_id_def span_of_def Let_def f32_less_def split: if_splits)

interpretation bpe_scan: pair_scan "bpe_key t w" "bpe_scan_pair t w" "2 ^ 31 - 1" "\<lambda>r k. r = k \<and> k < 2 ^ 31 - 1" for t w
  by unfold_locales (auto simp: bpe_key_def bpe_scan_pair_def pair_rank_span Let_def split: if_splits)

lemma spm_rescan_merges:
  "live_syms s xs \<Longrightarrow> length xs \<le> f \<Longrightarrow>
    \<exists>s' xs'. spm_rescan f t w s = Some s' \<and> live_syms s' xs' \<and> merges (spm_key t w) (spans s xs) (spans s' xs')"
proof (induction f arbitrary: s xs)
  case 0
  then show ?case using live_nonempty by simp
next
  case (Suc f)
  let ?best = "snd (over_pairs (length s) s (spm_scan_pair t w s) 0 (SPM_SCORE_FLOOR, -1))"
  show ?case using spm_scan.scan_finds [OF Suc.prems(1), of t w]
  proof (elim disjE exE conjE)
    assume "?best = -1" "merges (spm_key t w) (spans s xs) (spans s xs)"
    then show ?thesis using Suc.prems(1) by (intro exI [of _ s] exI [of _ xs]) simp
  next
    fix us l r vs
    assume xs: "xs = us @ l # r # vs" and b: "?best = int l"
      and bp: "best_pair (spm_key t w) (spans s us) (span_of (s ! l)) (span_of (s ! r)) (spans s vs)"
    have live: "live_syms s (us @ l # r # vs)" using Suc.prems(1) xs by simp
    obtain s' xs' where s': "spm_rescan f t w (merge_at s l) = Some s'" "live_syms s' xs'"
      "merges (spm_key t w) (spans (merge_at s l) (us @ l # vs)) (spans s' xs')"
      using Suc.IH [OF live_merged [OF live]] Suc.prems(2) xs by auto
    have "merges (spm_key t w) (spans s xs) (spans s' xs')"
      using merges_step [OF bp] s'(3) unfolding spans_merged [OF live_site [OF live]] by (simp add: xs)
    then show ?thesis using s' b by auto
  qed
qed

lemma merges_short: "length v \<le> 1 \<Longrightarrow> merges key v v"
  by (rule merges_done) (cases v; auto)

lemma bpe_rescan_merges:
  "live_syms s xs \<Longrightarrow> length xs \<le> f \<Longrightarrow>
    \<exists>s' xs'. bpe_rescan f t w (length xs) s = Some s' \<and> live_syms s' xs' \<and> merges (bpe_key t w) (spans s xs) (spans s' xs')"
proof (induction f arbitrary: s xs)
  case 0
  then show ?case using live_nonempty by simp
next
  case (Suc f)
  let ?best = "snd (over_pairs (length s) s (bpe_scan_pair t w s) 0 (2 ^ 31 - 1, -1))"
  show ?case
  proof (cases "length xs \<le> 1")
    case True
    then show ?thesis using Suc.prems(1) merges_short [of "spans s xs"] by (intro exI [of _ s] exI [of _ xs]) simp
  next
    case False
    show ?thesis using bpe_scan.scan_finds [OF Suc.prems(1), of t w]
    proof (elim disjE exE conjE)
      assume "?best = -1" "merges (bpe_key t w) (spans s xs) (spans s xs)"
      then show ?thesis using Suc.prems(1) by (intro exI [of _ s] exI [of _ xs]) simp
    next
      fix us l r vs
      assume xs: "xs = us @ l # r # vs" and b: "?best = int l"
        and bp: "best_pair (bpe_key t w) (spans s us) (span_of (s ! l)) (span_of (s ! r)) (spans s vs)"
      have live: "live_syms s (us @ l # r # vs)" using Suc.prems(1) xs by simp
      obtain s' xs' where s': "bpe_rescan f t w (length (us @ l # vs)) (merge_at s l) = Some s'" "live_syms s' xs'"
        "merges (bpe_key t w) (spans (merge_at s l) (us @ l # vs)) (spans s' xs')"
        using Suc.IH [OF live_merged [OF live]] Suc.prems(2) xs by auto
      have "merges (bpe_key t w) (spans s xs) (spans s' xs')"
        using merges_step [OF bp] s'(3) unfolding spans_merged [OF live_site [OF live]] by (simp add: xs)
      then show ?thesis using s' b False by (auto simp: xs)
    qed
  qed
qed

subsection \<open>The queue of candidates\<close>

definition cand :: "sym list \<Rightarrow> nat \<Rightarrow> nat \<Rightarrow> int \<Rightarrow> mcand" where
  "cand s l r k = \<lparr>mc_key = k, mc_l = l, mc_r = r, mc_len_l = sy_len (s ! l), mc_len_r = sy_len (s ! r)\<rparr>"

lemma chain_adjacent:
  "chain s p xs q \<Longrightarrow> (i, j) \<in> set (adjacent xs) \<Longrightarrow> sy_next (s ! i) = int j \<and> sy_prev (s ! j) = int i \<and> i \<in> set xs \<and> j \<in> set xs"
proof (induction xs arbitrary: p rule: induct_list012)
  case (3 x y zs)
  then have c: "chain s (int x) (y # zs) q" "sy_next (s ! x) = int y" "sy_prev (s ! y) = int x" by simp_all
  show ?case
  proof (cases "(i, j) = (x, y)")
    case False
    then have "(i, j) \<in> set (adjacent (y # zs))" using 3(4) by auto
    then show ?thesis using 3(2) [OF c(1)] by auto
  qed (use c in auto)
qed auto

lemma chain_next: "chain s p xs (-1) \<Longrightarrow> x \<in> set xs \<Longrightarrow> sy_next (s ! x) = -1 \<or> (\<exists>r \<in> set xs. sy_next (s ! x) = int r)"
proof (induction xs arbitrary: p)
  case (Cons y ys)
  then show ?case by (cases "x = y"; cases ys) auto
qed simp

lemma adjacent_fst: "(i, j) \<in> set (adjacent (us @ [l])) \<Longrightarrow> i \<in> set us"
  by (induction us rule: induct_list012) auto

lemma adjacent_other:
  assumes "(i, j) \<in> set (adjacent (us @ l # vs))" "i \<noteq> l"
  shows "(i, j) \<in> set (adjacent (us @ l # r # vs))"
  unfolding adjacent_append [of us l "r # vs"]
  using assms(1) [unfolded adjacent_append [of us l vs]] assms(2) by (cases vs) auto

locale pair_queue =
  fixes key :: pair_key and enq :: "sym list \<Rightarrow> mcand list \<Rightarrow> int \<Rightarrow> mcand list"
  assumes enq_end: "m < 0 \<or> sy_next (s ! nat m) < 0 \<Longrightarrow> enq s h m = h"
    and enq_none: "sy_next (s ! l) = int r \<Longrightarrow> key (span_of (s ! l)) (span_of (s ! r)) = None \<Longrightarrow> enq s h (int l) = h"
    and enq_some: "sy_next (s ! l) = int r \<Longrightarrow> key (span_of (s ! l)) (span_of (s ! r)) = Some k \<Longrightarrow>
      enq s h (int l) = mh_push h (cand s l r k)"
begin

definition cand_ok :: "sym list \<Rightarrow> mcand \<Rightarrow> bool" where
  "cand_ok s c \<longleftrightarrow>
     mc_l c < length s \<and> mc_r c < length s \<and> 0 < mc_len_l c \<and> 0 < mc_len_r c \<and>
     key (sy_start (s ! mc_l c), mc_len_l c) (sy_start (s ! mc_r c), mc_len_r c) = Some (mc_key c)"

definition sound :: "sym list \<Rightarrow> mcand list \<Rightarrow> bool" where
  "sound s h \<longleftrightarrow> mh_ok h \<and> (\<forall>c \<in> set h. cand_ok s c)"

definition listed :: "sym list \<Rightarrow> mcand list \<Rightarrow> nat \<times> nat \<Rightarrow> bool" where
  "listed s h p \<longleftrightarrow> (\<forall>k. key (span_of (s ! fst p)) (span_of (s ! snd p)) = Some k \<longrightarrow> cand s (fst p) (snd p) k \<in> set h)"

lemma set_push: "mh_ok h \<Longrightarrow> set (mh_push h c) = insert c (set h) \<and> length (mh_push h c) = Suc (length h)"
  using mh.push_elems [of h c] by (metis set_mset_add_mset_insert set_mset_mset size_add_mset size_mset)

lemma enq_sound:
  assumes c: "chain s (-1) xs (-1)" and h: "sound s h" and i: "i = -1 \<or> (\<exists>x \<in> set xs. i = int x)"
  shows "sound s (enq s h i) \<and> set h \<subseteq> set (enq s h i) \<and> length (enq s h i) \<le> Suc (length h)"
proof (cases "i < 0 \<or> sy_next (s ! nat i) < 0")
  case True
  then show ?thesis using enq_end [of i s h] h by simp
next
  case False
  then obtain x where x: "x \<in> set xs" "i = int x" using i by auto
  then obtain r where r: "r \<in> set xs" "sy_next (s ! x) = int r" using chain_next [OF c x(1)] False by auto
  show ?thesis
  proof (cases "key (span_of (s ! x)) (span_of (s ! r))")
    case None
    then show ?thesis using enq_none [OF r(2)] h x by simp
  next
    case (Some k)
    have "cand_ok s (cand s x r k)"
      using chain_less [OF c x(1)] chain_less [OF c r(1)] Some by (simp add: cand_ok_def cand_def span_of_def)
    then show ?thesis
      using enq_some [OF r(2) Some, of h] h x set_push [of h "cand s x r k"] mh.push_valid [of h "cand s x r k"]
      by (auto simp: sound_def)
  qed
qed

lemma enq_listed:
  "sound s h \<Longrightarrow> sy_next (s ! i) = int j \<Longrightarrow> listed s (enq s h (int i)) (i, j)"
  using enq_some [of s i j _ h] set_push [of h] by (auto simp: listed_def sound_def)

lemma listed_mono: "listed s h p \<Longrightarrow> set h \<subseteq> set h' \<Longrightarrow> listed s h' p"
  by (auto simp: listed_def)

lemma enq_all:
  assumes c: "chain s (-1) xs (-1)"
  shows "sound s h \<Longrightarrow> set ps \<subseteq> set (adjacent xs) \<Longrightarrow> h' = foldl (\<lambda>h (i, j). enq s h (int i)) h ps \<Longrightarrow>
    sound s h' \<and> set h \<subseteq> set h' \<and> length h' \<le> length h + length ps \<and> (\<forall>p \<in> set ps. listed s h' p)"
proof (induction ps arbitrary: h)
  case (Cons p ps)
  obtain i j where p: "p = (i, j)" by (cases p)
  have ij: "sy_next (s ! i) = int j" "i \<in> set xs" using chain_adjacent [OF c, of i j] Cons.prems(2) p by auto
  have e: "sound s (enq s h (int i)) \<and> set h \<subseteq> set (enq s h (int i)) \<and> length (enq s h (int i)) \<le> Suc (length h)"
    by (rule enq_sound [OF c Cons.prems(1)]) (use ij in auto)
  have ih: "sound s h' \<and> set (enq s h (int i)) \<subseteq> set h' \<and> length h' \<le> length (enq s h (int i)) + length ps \<and>
      (\<forall>p \<in> set ps. listed s h' p)"
    by (rule Cons.IH) (use e Cons.prems p in auto)
  moreover have "listed s h' p" using listed_mono [OF enq_listed [OF Cons.prems(1) ij(1)]] ih p by blast
  ultimately show ?case using e by auto
qed simp

definition queue_inv :: "sym list \<Rightarrow> nat list \<Rightarrow> mcand list \<Rightarrow> bool" where
  "queue_inv s xs h \<longleftrightarrow>
     live_syms s xs \<and> sound s h \<and> (\<forall>x<length s. x \<notin> set xs \<longrightarrow> sy_len (s ! x) = 0) \<and> (\<forall>p \<in> set (adjacent xs). listed s h p)"

lemma pop_inv:
  assumes "mh_ok h" "mh_pop h = Some (c, h')"
  shows "mh_ok h'" "set h = insert c (set h')" "length h = Suc (length h')" "\<forall>d \<in> set h. mc_le c d"
proof -
  have m: "mh_ok h'" "mset h = add_mset c (mset h')" using mh.pop_some [OF assms] by auto
  show "mh_ok h'" by (rule m(1))
  show "set h = insert c (set h')" using m(2) by (metis set_mset_add_mset_insert set_mset_mset)
  show "length h = Suc (length h')" using m(2) by (metis size_add_mset size_mset)
  show "\<forall>d \<in> set h. mc_le c d" using mh.pop_best [OF assms] by simp
qed

lemma pop_dead:
  assumes inv: "queue_inv s xs h" and pop: "mh_pop h = Some (c, h')" and dead: "\<not> mc_live c s"
  shows "queue_inv s xs h'"
proof -
  have h: "mh_ok h" "chain s (-1) xs (-1)" using inv by (auto simp: queue_inv_def sound_def live_syms_def)
  note q = pop_inv [OF h(1) pop]
  have "listed s h' p" if p: "p \<in> set (adjacent xs)" for p
  proof -
    obtain i j where ij: "p = (i, j)" by (cases p)
    then have "sy_next (s ! i) = int j" using chain_adjacent [OF h(2)] p by blast
    then have "cand s i j k \<noteq> c" for k using dead by (auto simp: mc_live_def cand_def)
    moreover have "listed s h p" using inv p by (simp add: queue_inv_def)
    ultimately show ?thesis using q(2) ij by (auto simp: listed_def)
  qed
  then show ?thesis using inv q(1,2) by (auto simp: queue_inv_def sound_def)
qed

lemma pop_live:
  assumes inv: "queue_inv s xs h" and pop: "mh_pop h = Some (c, h')" and live: "mc_live c s"
  obtains us vs where "xs = us @ mc_l c # mc_r c # vs"
    "best_pair key (spans s us) (span_of (s ! mc_l c)) (span_of (s ! mc_r c)) (spans s vs)"
proof -
  have h: "mh_ok h" "chain s (-1) xs (-1)" "sorted_wrt (<) xs"
    using inv by (auto simp: queue_inv_def sound_def live_syms_def)
  note q = pop_inv [OF h(1) pop]
  have ok: "cand_ok s c" using inv q(2) by (auto simp: queue_inv_def sound_def)
  have "mc_l c \<in> set xs" using ok live inv by (auto simp: cand_ok_def mc_live_def queue_inv_def)
  then obtain us zs where xs: "xs = us @ mc_l c # zs" by (auto dest: split_list)
  have "first_of zs (-1) = int (mc_r c)" using h(2) live by (simp add: xs chain_append mc_live_def)
  then obtain vs where zs: "zs = mc_r c # vs" by (auto simp: first_of_def split: list.splits)
  have key: "key (span_of (s ! mc_l c)) (span_of (s ! mc_r c)) = Some (mc_key c)"
    using ok live by (simp add: cand_ok_def mc_live_def span_of_def)
  have le: "mc_le c (cand s i j y)" if ij: "(i, j) \<in> set (adjacent xs)" "key (span_of (s ! i)) (span_of (s ! j)) = Some y" for i j y
  proof -
    have "listed s h (i, j)" using inv ij(1) by (simp add: queue_inv_def)
    then show ?thesis using ij(2) q(4) by (simp add: listed_def)
  qed
  have before: "mc_key c < y"
    if ij: "(i, j) \<in> set (adjacent (us @ [mc_l c]))" "key (span_of (s ! i)) (span_of (s ! j)) = Some y" for i j y
  proof -
    have "(i, j) \<in> set (adjacent xs)" using ij(1) by (simp add: xs zs adjacent_append [of us "mc_l c" "mc_r c # vs"])
    moreover have "i < mc_l c" using adjacent_fst [OF ij(1)] h(3) by (simp add: xs sorted_wrt_append)
    ultimately show ?thesis using le [of i j y] ij(2) by (auto simp: mc_le_def mc_better_def cand_def split: if_splits)
  qed
  have after: "mc_key c \<le> y"
    if ij: "(i, j) \<in> set (adjacent (mc_r c # vs))" "key (span_of (s ! i)) (span_of (s ! j)) = Some y" for i j y
  proof -
    have "(i, j) \<in> set (adjacent xs)" using ij(1) by (simp add: xs zs adjacent_append [of us "mc_l c" "mc_r c # vs"])
    then show ?thesis using le [of i j y] ij(2) by (auto simp: mc_le_def mc_better_def cand_def split: if_splits)
  qed
  have sp: "spans s us @ [span_of (s ! mc_l c)] = spans s (us @ [mc_l c])"
    "span_of (s ! mc_r c) # spans s vs = spans s (mc_r c # vs)" by simp_all
  have "best_pair key (spans s us) (span_of (s ! mc_l c)) (span_of (s ! mc_r c)) (spans s vs)"
    unfolding best_pair_def sp adjacent_spans using key before after by fastforce
  then show ?thesis using that xs zs by blast
qed

text \<open>After a merge: the candidates of the two pairs it makes are pushed, the others stay.\<close>

lemma merge_inv:
  assumes inv: "queue_inv s (us @ l # r # vs) h" and pop: "mh_pop h = Some (c, h')" and cl: "mc_l c = l" "mc_r c = r"
  defines "s2 \<equiv> absorb (merge_at s l) r"
  shows "queue_inv s2 (us @ l # vs) (enq s2 (enq s2 h' (sy_prev (s2 ! l))) (int l))"
    and "length (enq s2 (enq s2 h' (sy_prev (s2 ! l))) (int l)) \<le> length h' + 2"
proof -
  have live: "live_syms s (us @ l # r # vs)" and h: "mh_ok h" using inv by (auto simp: queue_inv_def sound_def)
  note ms = live_site [OF live] and q = pop_inv [OF h pop]
  have live2: "live_syms s2 (us @ l # vs)" unfolding s2_def by (rule live_absorbed [OF live])
  then have c2: "chain s2 (-1) (us @ l # vs) (-1)" by (simp add: live_syms_def)
  have dist: "distinct (us @ l # r # vs)" by (rule site_distinct [OF ms])
  have len2: "length s2 = length s" by (simp add: s2_def)
  have start2: "sy_start (s2 ! x) = sy_start (s ! x)" if "x < length s" for x
    using nth_merged [OF ms that] that by (cases "x = r") (auto simp: s2_def absorb_def)
  have span2: "span_of (s2 ! x) = span_of (s ! x)" if "x \<in> set us \<or> x \<in> set vs" for x
  proof -
    have "x < length s" "x \<noteq> l" "x \<noteq> r" using that dist chain_less [OF site(1) [OF ms]] chain_less [OF site(9) [OF ms]] by auto
    then show ?thesis using span_merged [OF ms] by (simp add: s2_def absorbed_nth)
  qed
  define h1 where "h1 = enq s2 h' (sy_prev (s2 ! l))"
  have snd': "sound s2 h'"
    using inv q(1,2) start2 by (auto simp: queue_inv_def sound_def cand_ok_def len2)
  have prev: "sy_prev (s2 ! l) = last_of (-1) us" using c2 by (simp add: chain_append)
  have e1: "sound s2 h1 \<and> set h' \<subseteq> set h1 \<and> length h1 \<le> Suc (length h')"
    unfolding h1_def prev by (rule enq_sound [OF c2 snd']) (auto simp: last_of_def)
  have "sound s2 h1" using e1 by blast
  then have e2: "sound s2 (enq s2 h1 (int l)) \<and> set h1 \<subseteq> set (enq s2 h1 (int l)) \<and> length (enq s2 h1 (int l)) \<le> Suc (length h1)"
    by (rule enq_sound [OF c2]) auto
  have "listed s2 (enq s2 h1 (int l)) p" if p: "p \<in> set (adjacent (us @ l # vs))" for p
  proof -
    obtain i j where ij: "p = (i, j)" by (cases p)
    note n = chain_adjacent [OF c2 p [unfolded ij]]
    consider "i = l" | "j = l" | "i \<noteq> l" "j \<noteq> l" by blast
    then show ?thesis
    proof cases
      case 1
      then show ?thesis using enq_listed [of s2 h1 l j] e1 n ij by simp
    next
      case 2
      have "listed s2 h1 (i, l)" unfolding h1_def using enq_listed [OF snd', of i l] n 2 by simp
      then show ?thesis using listed_mono e2 ij 2 by blast
    next
      case 3
      have old: "listed s h (i, j)" using inv adjacent_other [OF p [unfolded ij] 3(1)] by (auto simp: queue_inv_def)
      have sp: "span_of (s2 ! i) = span_of (s ! i)" "span_of (s2 ! j) = span_of (s ! j)"
        by (rule span2, use n 3 in auto)+
      then have "cand s2 i j k = cand s i j k" for k by (simp add: cand_def span_of_def)
      moreover have "cand s i j k \<noteq> c" for k using cl 3 by (auto simp: cand_def)
      ultimately have "listed s2 h' (i, j)" using old sp q(2) by (auto simp: listed_def)
      then show ?thesis using listed_mono e1 e2 ij by blast
    qed
  qed
  moreover have "sy_len (s2 ! x) = 0" if x: "x < length s2" "x \<notin> set (us @ l # vs)" for x
  proof (cases "x = r")
    case True
    then show ?thesis using x(1) by (simp add: s2_def absorb_def)
  next
    case False
    then have "sy_len (s ! x) = 0" using inv x len2 by (simp add: queue_inv_def)
    moreover have "sy_len (s2 ! x) = sy_len (s ! x)"
      using nth_merged [OF ms, of x] x False len2 by (simp add: s2_def absorbed_nth)
    ultimately show ?thesis by simp
  qed
  ultimately show "queue_inv s2 (us @ l # vs) (enq s2 (enq s2 h' (sy_prev (s2 ! l))) (int l))"
    using live2 e2 unfolding queue_inv_def h1_def by blast
  show "length (enq s2 (enq s2 h' (sy_prev (s2 ! l))) (int l)) \<le> length h' + 2" using e1 e2 unfolding h1_def by linarith
qed

lemma merge_queue_merges:
  "queue_inv s xs h \<Longrightarrow> length h + 2 * length xs < f \<Longrightarrow>
    \<exists>s' xs'. merge_queue enq f h s = Some s' \<and> live_syms s' xs' \<and> merges key (spans s xs) (spans s' xs')"
proof (induction f arbitrary: s xs h)
  case (Suc f)
  have h: "mh_ok h" "live_syms s xs" using Suc.prems(1) by (auto simp: queue_inv_def sound_def)
  show ?case
  proof (cases "mh_pop h")
    case None
    have "set h = {}" using mh.pop_none [OF h(1) None] by simp
    then have "\<forall>(c, d) \<in> set (adjacent (spans s xs)). key c d = None"
      unfolding adjacent_spans using Suc.prems(1) by (fastforce simp: queue_inv_def listed_def)
    then show ?thesis using None h(2) merges_done by auto
  next
    case (Some p)
    obtain c h' where p: "p = (c, h')" by (cases p)
    note pop = Some [unfolded p]
    have len: "length h = Suc (length h')" by (rule pop_inv(3) [OF h(1) pop])
    show ?thesis
    proof (cases "mc_live c s")
      case False
      then show ?thesis using Suc.IH [OF pop_dead [OF Suc.prems(1) pop False]] Suc.prems(2) len Some p by simp
    next
      case True
      obtain us vs where xs: "xs = us @ mc_l c # mc_r c # vs"
        and bp: "best_pair key (spans s us) (span_of (s ! mc_l c)) (span_of (s ! mc_r c)) (spans s vs)"
        by (rule pop_live [OF Suc.prems(1) pop True])
      note inv = Suc.prems(1) [unfolded xs]
      let ?l = "mc_l c" and ?s2 = "absorb (merge_at s (mc_l c)) (mc_r c)"
      let ?h2 = "enq ?s2 (enq ?s2 h' (sy_prev (?s2 ! ?l))) (int ?l)"
      note m = merge_inv [OF inv pop refl refl]
      have ms: "merge_site s us ?l (mc_r c) vs" using live_site h(2) xs by simp
      obtain s' xs' where s': "merge_queue enq f ?h2 ?s2 = Some s'" "live_syms s' xs'"
        "merges key (spans ?s2 (us @ ?l # vs)) (spans s' xs')"
        using Suc.IH [OF m(1)] m(2) Suc.prems(2) len xs by auto
      have "merges key (spans s xs) (spans s' xs')"
        using merges_step [OF bp] s'(3) unfolding spans_absorbed [OF ms] by (simp add: xs)
      then show ?thesis using s'(1,2) Some p True site(5) [OF ms] by (auto simp: Let_def absorb_def)
    qed
  qed
qed simp

lemma run_queue_merges:
  assumes live: "live_syms s [0..<length s]"
  shows "\<exists>s' xs'. run_queue enq s = Some s' \<and> live_syms s' xs' \<and> merges key (spans s [0..<length s]) (spans s' xs')"
proof -
  let ?xs = "[0..<length s]"
  have c: "chain s (-1) ?xs (-1)" "first_of ?xs (-1) = 0" using live by (auto simp: live_syms_def)
  define h where "h = over_pairs (length s) s (\<lambda>i j h. enq s h (int i)) 0 []"
  have h: "h = foldl (\<lambda>h (i, j). enq s h (int i)) [] (adjacent ?xs)"
    unfolding h_def using over_pairs_chain [OF c(1) live_nonempty [OF live], of "length s"] c(2) by simp
  have "sound s []" using mh.empty_valid by (simp add: sound_def)
  then have e: "sound s h \<and> length h \<le> length (adjacent ?xs) \<and> (\<forall>p \<in> set (adjacent ?xs). listed s h p)"
    using enq_all [OF c(1) _ subset_refl h] by simp
  then have "queue_inv s ?xs h" using live by (simp add: queue_inv_def)
  moreover have "length h + 2 * length ?xs < 3 * length s + 1" using e by auto
  ultimately show ?thesis unfolding run_queue_def h_def by (rule merge_queue_merges)
qed

end

interpretation spm_queue: pair_queue "spm_key t w" "spm_push_pair t w" for t w
  by unfold_locales
    (auto simp: spm_key_def spm_push_pair_def pair_id_def span_of_def cand_def Let_def split: if_splits)

interpretation bpe_queue: pair_queue "bpe_float_key t w" "bpe_push_pair t w" for t w
  by unfold_locales (auto simp: bpe_float_key_def bpe_push_pair_def pair_rank_span cand_def Let_def split: if_splits)

subsection \<open>The symbols at the start\<close>

lemma char_len_end: "i < n \<Longrightarrow> i + char_len w n i \<le> n"
  by (simp add: char_len_def Let_def)

lemma cut_syms_nth:
  "j < length (cut_syms w n i k) \<Longrightarrow>
     sy_prev (cut_syms w n i k ! j) = int (k + j) - 1 \<and> sy_next (cut_syms w n i k ! j) = int (k + j) + 1 \<and>
     0 < sy_len (cut_syms w n i k ! j)"
proof (induction w n i k arbitrary: j rule: cut_syms.induct)
  case (1 w n i k)
  note e = cut_syms.simps [of w n i k]
  show ?case
  proof (cases "i < n")
    case True
    then show ?thesis using 1 by (cases j) (simp_all add: e char_len_pos)
  next
    case False
    then show ?thesis using 1(2) by (simp add: e)
  qed
qed

lemma cut_syms_contiguous: "i \<le> n \<Longrightarrow> contiguous i (map span_of (cut_syms w n i k)) n"
proof (induction w n i k rule: cut_syms.induct)
  case (1 w n i k)
  then show ?case using char_len_end [of i n w] by (subst cut_syms.simps) (auto simp: char_len_pos)
qed

lemma map_upd_last: "s \<noteq> [] \<Longrightarrow> f y = f (last s) \<Longrightarrow> map f (s[length s - Suc 0 := y]) = map f s"
  by (rule nth_equalityI) (auto simp: nth_list_update last_conv_nth)

lemma init_syms_spans: "map span_of (init_syms w n) = map span_of (cut_syms w n 0 0)"
  by (auto simp: init_syms_def Let_def intro!: map_upd_last)

lemma init_syms_contiguous: "contiguous 0 (map span_of (init_syms w n)) n"
  unfolding init_syms_spans by (rule cut_syms_contiguous) simp

lemma chain_upto:
  assumes "\<forall>j<length s. sy_prev (s ! j) = int j - 1 \<and> 0 < sy_len (s ! j) \<and>
    sy_next (s ! j) = (if Suc j = length s then -1 else int j + 1)"
  shows "i \<le> length s \<Longrightarrow> chain s (int i - 1) [i..<length s] (-1)"
proof (induction rule: inc_induct)
  case (step i)
  have "first_of [Suc i..<length s] (-1) = (if Suc i = length s then -1 else int i + 1)"
    using step(2) by (cases "Suc i = length s") (simp_all add: upt_conv_Cons)
  then show ?case using step assms by (simp add: upt_conv_Cons)
qed simp

lemma init_syms_live:
  assumes "0 < n"
  shows "live_syms (init_syms w n) [0..<length (init_syms w n)]"
proof -
  let ?c = "cut_syms w n 0 0"
  have ne: "?c \<noteq> []" using assms by (subst cut_syms.simps) simp
  then have s: "init_syms w n = ?c[length ?c - 1 := (last ?c)\<lparr>sy_next := -1\<rparr>]" by (simp add: init_syms_def Let_def)
  have "chain (init_syms w n) (int 0 - 1) [0..<length (init_syms w n)] (-1)"
  proof (rule chain_upto)
    show "\<forall>j<length (init_syms w n). sy_prev (init_syms w n ! j) = int j - 1 \<and> 0 < sy_len (init_syms w n ! j) \<and>
        sy_next (init_syms w n ! j) = (if Suc j = length (init_syms w n) then -1 else int j + 1)"
    proof (intro allI impI)
      fix j assume "j < length (init_syms w n)"
      then have j: "j < length ?c" by (simp add: s)
      show "sy_prev (init_syms w n ! j) = int j - 1 \<and> 0 < sy_len (init_syms w n ! j) \<and>
          sy_next (init_syms w n ! j) = (if Suc j = length (init_syms w n) then -1 else int j + 1)"
        using cut_syms_nth [OF j] j ne by (cases "Suc j = length ?c") (auto simp: s nth_list_update last_conv_nth)
    qed
  qed simp
  moreover have "0 < length (init_syms w n)" using ne by (simp add: s)
  ultimately show ?thesis by (simp add: live_syms_def upt_conv_Cons)
qed

subsection \<open>Ranks as floats\<close>

lemma top_bit: "0 < n \<Longrightarrow> 2 ^ top_bit n \<le> n \<and> n < 2 * 2 ^ top_bit n"
proof (induction n rule: top_bit.induct)
  case (1 n)
  show ?case
  proof (cases "n < 2")
    case True
    then show ?thesis using 1(2) by (subst (1 2) top_bit.simps) simp
  next
    case False
    then have "2 ^ top_bit (n div 2) \<le> n div 2 \<and> n div 2 < 2 * 2 ^ top_bit (n div 2)" using 1(1) by simp
    then show ?thesis using False by (subst (1 2) top_bit.simps) auto
  qed
qed

lemma f32_of_nat_exact:
  assumes "0 < r" "r \<le> 2 ^ 24" "e = top_bit r"
  shows "f32_of_nat r * 2 ^ e = (126 + e) * 2 ^ 23 * 2 ^ e + r * 2 ^ 23"
proof -
  have b: "2 ^ e \<le> r" "r < 2 * 2 ^ e" using top_bit [OF assms(1)] assms(3) by auto
  have "(2 :: nat) ^ e < 2 ^ 25" using b(1) assms(2) by simp
  then have e: "e < 25" by (simp only: power_strict_increasing_iff) 
  show ?thesis
  proof (cases "e \<le> 23")
    case True
    then have "(2 :: nat) ^ (23 - e) * 2 ^ e = 2 ^ 23" by (simp add: power_add [symmetric])
    then have "r * 2 ^ (23 - e) * 2 ^ e = r * 2 ^ 23" by (simp only: mult.assoc)
    then show ?thesis using True assms by (simp add: f32_of_nat_def Let_def algebra_simps)
  next
    case False
    then have "e = 24" using e by simp
    moreover have "r = 2 ^ 24" using b(1) assms(2) by (simp add: \<open>e = 24\<close>)
    ultimately show ?thesis using assms(3) by (simp add: f32_of_nat_def Let_def)
  qed
qed

lemma f32_of_nat_less:
  assumes "r < r'" "r' \<le> 2 ^ 24"
  shows "f32_of_nat r < f32_of_nat r'"
proof (cases "r = 0")
  case True
  then show ?thesis using assms f32_of_nat_exact [of r' "top_bit r'"] by (cases "f32_of_nat r'") (auto simp: f32_of_nat_def)
next
  case False
  define e where "e = top_bit r"
  define e' where "e' = top_bit r'"
  have b: "2 ^ e \<le> r" "r < 2 * 2 ^ e" "2 ^ e' \<le> r'" "r' < 2 * 2 ^ e'"
    using top_bit [of r] top_bit [of r'] False assms(1) by (auto simp: e_def e'_def)
  have f: "f32_of_nat r * 2 ^ e = (126 + e) * 2 ^ 23 * 2 ^ e + r * 2 ^ 23"
    "f32_of_nat r' * 2 ^ e' = (126 + e') * 2 ^ 23 * 2 ^ e' + r' * 2 ^ 23"
    using f32_of_nat_exact [of r e] f32_of_nat_exact [of r' e'] False assms by (simp_all add: e_def e'_def)
  have "(2 :: nat) ^ e < 2 ^ Suc e'" using b assms(1) by simp
  then have le: "e \<le> e'" by (simp only: power_strict_increasing_iff less_Suc_eq_le)
  show ?thesis
  proof (cases "e = e'")
    case True
    have "f32_of_nat r * 2 ^ e < f32_of_nat r' * 2 ^ e" using f assms(1) True by simp
    then show ?thesis by simp
  next
    case False
    have "f32_of_nat r * 2 ^ e < (126 + e) * 2 ^ 23 * 2 ^ e + 2 * 2 ^ e * 2 ^ 23" using f(1) b(2) by simp
    also have "\<dots> = (128 + e) * 2 ^ 23 * 2 ^ e" by (simp add: algebra_simps)
    finally have r: "f32_of_nat r < (128 + e) * 2 ^ 23" by simp
    have "(127 + e') * 2 ^ 23 * 2 ^ e' = (126 + e') * 2 ^ 23 * 2 ^ e' + 2 ^ e' * 2 ^ 23" by (simp add: algebra_simps)
    also have "\<dots> \<le> f32_of_nat r' * 2 ^ e'" using f(2) b(3) by simp
    finally have "(127 + e') * 2 ^ 23 \<le> f32_of_nat r'" by simp
    then show ?thesis using r le False by simp
  qed
qed

text \<open>Up to 2^24 a rank is exact as a float, so that the queue orders the pairs as the scan does.\<close>

abbreviation exact_ranks :: "tokenizer \<Rightarrow> bool" where
  "exact_ranks t \<equiv> \<forall>k. hmap_get (tk_merges t) k \<le> 2 ^ 24"

lemma bpe_rank_exact: "exact_ranks t \<Longrightarrow> bpe_rank t w a b \<le> 2 ^ 24"
  by (auto simp: bpe_rank_def)

lemma bpe_keys_same:
  assumes "exact_ranks t"
  shows "same_order (bpe_float_key t w) (bpe_key t w)"
proof -
  note le = bpe_rank_exact [OF assms, of w]
  have lt: "int (f32_of_nat (nat r)) < int (f32_of_nat (nat r')) \<longleftrightarrow> r < r'"
    if "0 \<le> r" "0 \<le> r'" "r \<le> 2 ^ 24" "r' \<le> 2 ^ 24" for r r'
  proof -
    consider "r < r'" | "r = r'" | "r' < r" by linarith
    then show ?thesis
    proof cases
      case 1
      then have "nat r < nat r'" "nat r' \<le> 2 ^ 24" using that by auto
      then show ?thesis using f32_of_nat_less 1 by simp
    next
      case 3
      then have "nat r' < nat r" "nat r \<le> 2 ^ 24" using that by auto
      then show ?thesis using f32_of_nat_less [of "nat r'" "nat r"] 3 by simp
    qed simp
  qed
  have "bpe_float_key t w a b = None \<longleftrightarrow> bpe_key t w a b = None" for a b
    using le [of a b] by (auto simp: bpe_float_key_def bpe_key_def Let_def)
  moreover have "x < y \<longleftrightarrow> x' < y'"
    if "bpe_float_key t w a b = Some x" "bpe_float_key t w c d = Some y" "bpe_key t w a b = Some x'" "bpe_key t w c d = Some y'"
    for a b c d x y x' y'
    using that lt [of x' y'] le [of a b] le [of c d] by (auto simp: bpe_float_key_def bpe_key_def Let_def split: if_splits)
  ultimately show ?thesis unfolding same_order_def by blast
qed

subsection \<open>The merge loops\<close>

lemma map_spans_upt: "spans s [0..<length s] = map span_of s"
  by (rule nth_equalityI) simp_all

lemma bpe_merge_merges:
  assumes "exact_ranks t" "0 < n"
  obtains s xs where "bpe_merge force t w (init_syms w n) = Some s" "live_syms s xs"
    "merges (bpe_key t w) (map span_of (init_syms w n)) (spans s xs)"
proof -
  note live = init_syms_live [OF assms(2), of w]
  show ?thesis
  proof (cases "use_merge_queue force (length (init_syms w n))")
    case True
    then show ?thesis using bpe_queue.run_queue_merges [OF live, of t w] merges_mono [OF _ bpe_keys_same [OF assms(1)]] that
      by (fastforce simp: bpe_merge_def map_spans_upt)
  next
    case False
    then show ?thesis using bpe_rescan_merges [OF live, of "length (init_syms w n)" t w] that
      by (auto simp: bpe_merge_def map_spans_upt)
  qed
qed

lemma spm_merge_merges:
  assumes "0 < n" "tk_scores t \<noteq> None"
  obtains s xs where "spm_merge force t w (init_syms w n) = Some s" "live_syms s xs"
    "merges (spm_key t w) (map span_of (init_syms w n)) (spans s xs)"
proof -
  note live = init_syms_live [OF assms(1), of w]
  show ?thesis
  proof (cases "use_merge_queue force (length (init_syms w n))")
    case True
    then show ?thesis using spm_queue.run_queue_merges [OF live, of t w] that assms(2)
      by (auto simp: spm_merge_def map_spans_upt)
  next
    case False
    then show ?thesis using spm_rescan_merges [OF live, of "length (init_syms w n)" t w] that assms(2)
      by (auto simp: spm_merge_def map_spans_upt)
  qed
qed

end
