(* ===== verification/Tok_Split_Laws.thy ===== *)
theory Tok_Split_Laws
  imports Tok_Split
begin

text \<open>
  The pre-tokenizers cut the text into pieces without gaps, and those of the GPT-2, Llama 3, Qwen 2 and SmolLM
  families cut it exactly where the regular expression of the family does.
\<close>

subsection \<open>Runs\<close>

lemma run_ge: "j \<le> run P cp n j"
  by (induction P cp n j rule: run.induct) (subst run.simps, auto)

lemma run_le: "j \<le> n \<Longrightarrow> run P cp n j \<le> n"
  by (induction P cp n j rule: run.induct) (subst run.simps, auto)

lemma run_gt: "j < n \<Longrightarrow> P (cp ! j) \<Longrightarrow> j < run P cp n j"
  using run_ge [of "j + 1" P cp n] by (subst run.simps) simp

lemma run_takeWhile: "n \<le> length cp \<Longrightarrow> run P cp n j = j + length (takeWhile P (drop j (take n cp)))"
proof (induction P cp n j rule: run.induct)
  case (1 P cp n j)
  show ?case
  proof (cases "j < n \<and> P (cp ! j)")
    case True
    then have "drop j (take n cp) = cp ! j # drop (Suc j) (take n cp)"
      using 1(2) by (simp add: Cons_nth_drop_Suc [symmetric])
    then show ?thesis using 1 True by (subst run.simps) simp
  next
    case False
    then have "takeWhile P (drop j (take n cp)) = []"
    proof (cases "j < n")
      case True
      then have "drop j (take n cp) = cp ! j # drop (Suc j) (take n cp)"
        using 1(2) by (simp add: Cons_nth_drop_Suc [symmetric])
      then show ?thesis using False True by simp
    qed simp
    then show ?thesis using False by (subst run.simps) auto
  qed
qed

lemma last_newline_range: "last_newline cp i k = Some j \<Longrightarrow> i \<le> j \<and> j < i + k"
  by (induction k) (auto split: if_splits)

lemma last_newline_None: "last_newline cp i k = None \<longleftrightarrow> (\<forall>d<k. \<not> newline (cp ! (i + d)))"
  by (induction k) (auto simp: less_Suc_eq)

lemma last_newline_Some: "last_newline cp i k = Some j \<Longrightarrow> newline (cp ! j) \<and> (\<forall>d. j < i + d \<and> d < k \<longrightarrow> \<not> newline (cp ! (i + d)))"
  by (induction k) (auto simp: less_Suc_eq split: if_splits)

subsection \<open>Every pre-token ends inside the text\<close>

lemma contraction_len_le: "i + contraction_len cp i \<le> max i (length cp)"
proof -
  have "(0 :: nat) \<noteq> ch CHR ''e''" "(0 :: nat) \<noteq> ch CHR ''l''" by simp_all
  then show ?thesis by (auto simp: contraction_len_def Let_def)
qed

lemma space_end_le: "i < length cp \<Longrightarrow> space_end keeps cp i \<le> length cp"
  using run_le [of i "length cp" cp_space cp] last_newline_range [of cp i]
  by (fastforce simp: space_end_def Let_def split: option.splits)

lemma punct_end_le: "punct_end tail cp i = Some j \<Longrightarrow> j \<le> length cp"
  by (auto simp: punct_end_def Let_def run_le split: if_splits)

lemma pre_split_le: "i < length cp \<Longrightarrow> pre_split_next cp i md \<le> length cp"
  using contraction_len_le [of i cp] run_le [of i "min (length cp) (i + md)" cp_digit cp]
  by (auto simp: pre_split_next_def Let_def run_le space_end_le dest: punct_end_le split: option.splits)

lemma gpt2_contraction_le: "i < e \<Longrightarrow> i + gpt2_contraction cp i e \<le> e"
proof -
  have "(0 :: nat) \<noteq> ch CHR ''e''" "(0 :: nat) \<noteq> ch CHR ''l''" by simp_all
  then show "i < e \<Longrightarrow> ?thesis" by (auto simp: gpt2_contraction_def Let_def)
qed

lemma gpt2_split_le:
  assumes i: "i < e"
  shows "gpt2_split_next cp i e \<le> e"
proof (cases "gpt2_contraction cp i e = 0")
  case True
  define j where "j = (if cp ! i = SP \<and> i + 1 < e \<and> cp_class (cp ! (i + 1)) \<noteq> 3 then i + 1 else i)"
  have "j \<le> e" using i by (simp add: j_def)
  then have "run (\<lambda>c. cp_class c = cp_class (cp ! j)) cp e j \<le> e" by (rule run_le)
  moreover have "run (\<lambda>c. cp_class c = 3) cp e i \<le> e" by (rule run_le) (use i in simp)
  ultimately show ?thesis using True unfolding gpt2_split_next_def j_def [symmetric]
    by (auto simp: Let_def intro: le_trans [OF diff_le_self])
next
  case False
  then show ?thesis using gpt2_contraction_le [OF i, of cp] by (simp add: gpt2_split_next_def Let_def)
qed

lemma smollm_split_le: "i < length cp \<Longrightarrow> smollm_split_next cp i \<le> length cp"
proof -
  assume i: "i < length cp"
  have "gpt2_split_next cp i (run (\<lambda>c. \<not> cp_digit c) cp (length cp) i) \<le> length cp" if "\<not> cp_digit (cp ! i)"
    using gpt2_split_le [OF run_gt [OF i, of "\<lambda>c. \<not> cp_digit c"]] run_le [of i "length cp"] that i
    by (meson le_trans less_imp_le)
  then show ?thesis using i by (simp add: smollm_split_next_def)
qed

lemma tekken_letters_le: "i < length cp \<Longrightarrow> tekken_letters cp i \<le> length cp"
  by (auto simp: tekken_letters_def Let_def run_le not_le less_imp_le)

lemma tekken_split_le: "i < length cp \<Longrightarrow> tekken_split_next cp i \<le> length cp"
  using tekken_letters_le [of i cp]
  by (auto simp: tekken_split_next_def Let_def space_end_le dest: punct_end_le split: option.splits)

lemma llama4_split_le: "i < length cp \<Longrightarrow> llama4_split_next cp i \<le> length cp"
  using tekken_letters_le [of i cp] contraction_len_le [of "tekken_letters cp i" cp]
    run_le [of i "min (length cp) (i + 3)" cp_digit cp]
  by (auto simp: llama4_split_next_def Let_def space_end_le dest: punct_end_le split: option.splits)

lemma mod_3_first: "0 < (L :: nat) \<Longrightarrow> (if L mod 3 \<noteq> 0 then L mod 3 else 3) \<le> L"
  by presburger

lemma afmoe_split_le: "i < length cp \<Longrightarrow> afmoe_split_next cp i \<le> length cp"
proof -
  assume i: "i < length cp"
  have d: "i + (if (run cp_digit cp (length cp) i - i) mod 3 \<noteq> 0 then (run cp_digit cp (length cp) i - i) mod 3 else 3)
      \<le> length cp" if "cp_digit (cp ! i)"
    using mod_3_first [of "run cp_digit cp (length cp) i - i"] run_gt [of i "length cp" cp_digit cp] that run_le [of i "length cp" cp_digit cp] i
    by linarith
  show ?thesis using i d
    by (auto simp: afmoe_split_next_def Let_def space_end_le run_le)
qed

lemma split_next_range: "i < length cp \<Longrightarrow> i < split_next pre cp i \<and> split_next pre cp i \<le> length cp"
  by (cases pre)
    (auto simp: split_next_def Let_def pre_split_le gpt2_split_le smollm_split_le tekken_split_le llama4_split_le afmoe_split_le)

subsection \<open>Regular expressions\<close>

text \<open>A matcher that backtracks: how many characters a match can take, in the order in which it tries them. \<open>Rep l h P\<close>
  takes as many characters of a class as it can, between \<open>l\<close> and \<open>h\<close>, and gives them back one by one.\<close>

datatype rx = Rep nat "nat option" "nat \<Rightarrow> bool" | Seq rx rx | Alt rx rx | Not_before "nat \<Rightarrow> bool"

definition greedy :: "nat option \<Rightarrow> (nat \<Rightarrow> bool) \<Rightarrow> nat list \<Rightarrow> nat" where
  "greedy h P s = (let k = length (takeWhile P s) in case h of None \<Rightarrow> k | Some m \<Rightarrow> min k m)"

fun ends :: "rx \<Rightarrow> nat list \<Rightarrow> nat list" where
  "ends (Rep l h P) s = rev [l..<greedy h P s + 1]"
| "ends (Seq r1 r2) s = concat (map (\<lambda>k. map (\<lambda>j. k + j) (ends r2 (drop k s))) (ends r1 s))"
| "ends (Alt r1 r2) s = ends r1 s @ ends r2 s"
| "ends (Not_before P) s = (case s of [] \<Rightarrow> [0] | c # _ \<Rightarrow> if P c then [] else [0])"

definition matches :: "rx \<Rightarrow> nat list \<Rightarrow> nat option" where
  "matches r s = (case ends r s of [] \<Rightarrow> None | k # _ \<Rightarrow> Some k)"

abbreviation one :: "(nat \<Rightarrow> bool) \<Rightarrow> rx" where "one P \<equiv> Rep 1 (Some 1) P"
abbreviation opt :: "(nat \<Rightarrow> bool) \<Rightarrow> rx" where "opt P \<equiv> Rep 0 (Some 1) P"
abbreviation many :: "(nat \<Rightarrow> bool) \<Rightarrow> rx" where "many P \<equiv> Rep 0 None P"
abbreviation some :: "(nat \<Rightarrow> bool) \<Rightarrow> rx" where "some P \<equiv> Rep 1 None P"

text \<open>A letter, and a letter in either case.\<close>

definition lit :: "char \<Rightarrow> nat \<Rightarrow> bool" where
  "lit a c \<longleftrightarrow> c = ch a"

definition lit_ci :: "char \<Rightarrow> nat \<Rightarrow> bool" where
  "lit_ci a c \<longleftrightarrow> c = ch a \<or> c = ch a - 32"

definition contraction_rx :: "(char \<Rightarrow> nat \<Rightarrow> bool) \<Rightarrow> rx" where
  "contraction_rx f =
     Seq (one (\<lambda>c. c = 39))
       (Alt (one (f CHR ''s'')) (Alt (one (f CHR ''t'')) (Alt (Seq (one (f CHR ''r'')) (one (f CHR ''e'')))
         (Alt (Seq (one (f CHR ''v'')) (one (f CHR ''e''))) (Alt (one (f CHR ''m''))
         (Alt (Seq (one (f CHR ''l'')) (one (f CHR ''l''))) (one (f CHR ''d''))))))))"

text \<open>\<open>(?i:'s|'t|'re|'ve|'m|'ll|'d) | [^\r\n\p{L}\p{N}]?\p{L}+ | \p{N}{1,n} | ?[^\s\p{L}\p{N}]+[\r\n]* |
  \s*[\r\n]+ | \s+(?!\S) | \s+\<close>\<close>

definition newer_rx :: "nat \<Rightarrow> rx" where
  "newer_rx n =
     Alt (contraction_rx lit_ci)
    (Alt (Seq (opt (\<lambda>c. \<not> newline c \<and> \<not> cp_letter c \<and> \<not> cp_digit c)) (some cp_letter))
    (Alt (Rep 1 (Some n) cp_digit)
    (Alt (Seq (opt (\<lambda>c. c = SP)) (Seq (some cp_other) (many newline)))
    (Alt (Seq (many cp_space) (some newline))
    (Alt (Seq (some cp_space) (Not_before (\<lambda>c. \<not> cp_space c)))
         (some cp_space))))))"

text \<open>\<open>'s|'t|'re|'ve|'m|'ll|'d| ?\p{L}+| ?\p{N}+| ?[^\s\p{L}\p{N}]+|\s+(?!\S)|\s+\<close>\<close>

definition gpt2_rx :: rx where
  "gpt2_rx =
     Alt (contraction_rx lit)
    (Alt (Seq (opt (\<lambda>c. c = SP)) (some (\<lambda>c. cp_class c = 0)))
    (Alt (Seq (opt (\<lambda>c. c = SP)) (some (\<lambda>c. cp_class c = 1)))
    (Alt (Seq (opt (\<lambda>c. c = SP)) (some (\<lambda>c. cp_class c = 2)))
    (Alt (Seq (some (\<lambda>c. cp_class c = 3)) (Not_before (\<lambda>c. cp_class c \<noteq> 3)))
         (some (\<lambda>c. cp_class c = 3))))))"

text \<open>First matches.\<close>

lemma matches_Alt: "matches (Alt a b) s = (case matches a s of None \<Rightarrow> matches b s | Some k \<Rightarrow> Some k)"
  by (cases "ends a s") (simp_all add: matches_def)

lemma matches_Rep: "matches (Rep l h P) s = (if l \<le> greedy h P s then Some (greedy h P s) else None)"
  by (simp add: matches_def)

lemma greedy_simps [simp]:
  "greedy h P [] = 0"
  "greedy None P s = length (takeWhile P s)"
  "greedy (Some (Suc 0)) P (c # s) = (if P c then 1 else 0)"
  by (simp_all add: greedy_def Let_def split: option.splits)

lemma ends_opt: "ends (opt P) (c # s) = (if P c then [1, 0] else [0])"
  by simp

lemma ends_one: "ends (one P) s = (case s of [] \<Rightarrow> [] | c # _ \<Rightarrow> if P c then [1] else [])"
  by (cases s) simp_all

lemma matches_opt:
  "matches (Seq (opt P) r) (c # s) =
    (if P c then (case matches r s of Some k \<Rightarrow> Some (1 + k) | None \<Rightarrow> matches r (c # s)) else matches r (c # s))"
  by (cases "ends r s"; cases "ends r (c # s)") (simp_all add: matches_def)

lemma matches_some: "matches (some P) s = (if takeWhile P s = [] then None else Some (length (takeWhile P s)))"
  by (cases "takeWhile P s") (simp_all add: matches_Rep)

lemma matches_one_seq: "matches (Seq (one P) r) (c # s) = (if P c then map_option Suc (matches r s) else None)"
  by (cases "ends r s") (simp_all add: matches_def)

lemma matches_one: "matches (one P) s = (case s of [] \<Rightarrow> None | c # _ \<Rightarrow> if P c then Some 1 else None)"
  by (cases s) (simp_all add: matches_def)

lemma concat_rev_first:
  "l \<le> m \<Longrightarrow> m < n \<Longrightarrow> \<forall>d. m < d \<and> d < n \<longrightarrow> f d = [] \<Longrightarrow>
    concat (map f (rev [l..<n])) = f m @ concat (map f (rev [l..<m]))"
proof (induction n)
  case (Suc n)
  then show ?case by (cases "m = n") auto
qed simp

lemma concat_rev_none: "\<forall>d. l \<le> d \<and> d < n \<longrightarrow> f d = [] \<Longrightarrow> concat (map f (rev [l..<n])) = []"
  by auto

subsection \<open>Contractions\<close>

lemma and_32: "bit c 5 \<Longrightarrow> c AND 32 = (32 :: nat)"
proof (rule bit_eqI)
  fix n assume "bit c 5"
  then show "bit (c AND 32) n = bit (32 :: nat) n"
    using bit_exp_iff [where 'a = nat, of 5 n] by (auto simp: bit_and_iff)
qed

lemma or_32: "c OR 32 = n \<Longrightarrow> c = n \<or> c + 32 = n" for c n :: nat
proof -
  assume a: "c OR 32 = n"
  have "int (c AND 32) + int (c OR 32) = int c + 32"
    using plus_and_or [of "int c" 32] by (simp add: of_nat_and_eq of_nat_or_eq)
  moreover have "c AND 32 = 0 \<or> c AND 32 = 32"
    using and_exp_eq_0_iff_not_bit [of c 5] by (cases "bit c 5") (simp_all add: and_32)
  ultimately show ?thesis using a by auto
qed

lemma contraction_rx_spec:
  "matches (contraction_rx f) (c # s) =
     (if c \<noteq> 39 then None
      else (case s of [] \<Rightarrow> None
        | a # r \<Rightarrow>
            if f CHR ''s'' a \<or> f CHR ''t'' a then Some 2
            else if f CHR ''r'' a \<and> r \<noteq> [] \<and> f CHR ''e'' (hd r) \<or> f CHR ''v'' a \<and> r \<noteq> [] \<and> f CHR ''e'' (hd r) then Some 3
            else if f CHR ''m'' a then Some 2
            else if f CHR ''l'' a \<and> r \<noteq> [] \<and> f CHR ''l'' (hd r) then Some 3
            else if f CHR ''d'' a then Some 2 else None))"
proof (cases s)
  case (Cons a r)
  show ?thesis unfolding contraction_rx_def matches_one_seq matches_Alt matches_one Cons list.case
    by (cases "f CHR ''s'' a"; cases "f CHR ''t'' a"; cases "f CHR ''r'' a"; cases "f CHR ''v'' a"; cases "f CHR ''m'' a";
        cases "f CHR ''l'' a"; cases r) simp_all
qed (simp add: contraction_rx_def matches_one_seq matches_Alt matches_one matches_def)

lemma lit_ci_or: "lit_ci a c \<longleftrightarrow> c OR 32 = ch a" if "a \<in> set ''strevmld''"
proof
  assume "c OR 32 = ch a"
  from or_32 [OF this] show "lit_ci a c" by (auto simp: lit_ci_def)
next
  assume "lit_ci a c"
  then show "c OR 32 = ch a" using that by (auto simp: lit_ci_def)
qed

lemma drop_Cons: "i < length cp \<Longrightarrow> drop i cp = cp ! i # drop (i + 1) cp"
  by (simp add: Cons_nth_drop_Suc)

lemma contraction_len_rx:
  assumes "i < length cp"
  shows "matches (contraction_rx lit_ci) (drop i cp) =
    (if contraction_len cp i = 0 then None else Some (contraction_len cp i))"
proof (cases "i + 1 < length cp")
  case True
  show ?thesis
  proof (cases "i + 2 < length cp")
    case True2: True
    have "drop i cp = cp ! i # cp ! (i + 1) # cp ! (i + 2) # drop (i + 3) cp"
      using drop_Cons [OF assms] drop_Cons [OF True] drop_Cons [OF True2] by (simp add: eval_nat_numeral)
    then show ?thesis using assms True True2
      by (auto simp: contraction_rx_spec contraction_len_def Let_def lit_ci_or)
  next
    case False
    then have "drop (i + 2) cp = []" by simp
    then have "drop i cp = [cp ! i, cp ! (i + 1)]"
      using drop_Cons [OF assms] drop_Cons [OF True] by (simp add: eval_nat_numeral)
    then show ?thesis using assms True False
      by (auto simp: contraction_rx_spec contraction_len_def Let_def lit_ci_or)
  qed
next
  case False
  then have "drop i cp = [cp ! i]" using drop_Cons [OF assms] by simp
  then show ?thesis using assms False by (simp add: contraction_rx_spec contraction_len_def)
qed

lemma gpt2_contraction_rx:
  assumes "i < e" "e \<le> length cp"
  shows "matches (contraction_rx lit) (drop i (take e cp)) =
    (if gpt2_contraction cp i e = 0 then None else Some (gpt2_contraction cp i e))"
proof (cases "i + 1 < e")
  case True
  have l: "length (take e cp) = e" using assms by simp
  have n: "take e cp ! i = cp ! i" "take e cp ! (i + 1) = cp ! (i + 1)" using assms True by simp_all
  show ?thesis
  proof (cases "i + 2 < e")
    case True2: True
    have "drop i (take e cp) = cp ! i # cp ! (i + 1) # cp ! (i + 2) # drop (i + 3) (take e cp)"
      using drop_Cons [of i "take e cp"] drop_Cons [of "i + 1" "take e cp"] drop_Cons [of "i + 2" "take e cp"] assms True True2 l n
      by (simp add: eval_nat_numeral)
    then show ?thesis using assms True True2
      by (auto simp: contraction_rx_spec gpt2_contraction_def Let_def lit_def)
  next
    case False
    then have "drop (i + 2) (take e cp) = []" using l by simp
    then have "drop i (take e cp) = [cp ! i, cp ! (i + 1)]"
      using drop_Cons [of i "take e cp"] drop_Cons [of "i + 1" "take e cp"] assms True l n by (simp add: eval_nat_numeral)
    then show ?thesis using assms True False
      by (auto simp: contraction_rx_spec gpt2_contraction_def Let_def lit_def)
  qed
next
  case False
  then have "drop i (take e cp) = [cp ! i]" using drop_Cons [of i "take e cp"] assms by simp
  then show ?thesis using assms False by (simp add: contraction_rx_spec gpt2_contraction_def)
qed

subsection \<open>White space\<close>

lemma takeWhile_nth_true: "m < length (takeWhile P s) \<Longrightarrow> P (s ! m)"
  by (metis nth_mem set_takeWhileD takeWhile_nth)

lemma drop_takeWhile: "k = length (takeWhile P s) \<Longrightarrow> drop k s = [] \<or> (\<exists>c r. drop k s = c # r \<and> \<not> P c)"
  using dropWhile_eq_drop [of P s] dropWhile_eq_Cons_conv [of P s] by (cases "drop k s") auto

lemma drop_in_takeWhile: "m < length (takeWhile P s) \<Longrightarrow> \<exists>r. drop m s = s ! m # r"
  using length_takeWhile_le [of P s] drop_Cons [of m s] by auto

text \<open>\<open>\s+(?!\S)|\s+\<close>.\<close>

lemma spaces_rx:
  assumes k: "k = length (takeWhile P s)" "0 < k"
  shows "matches (Alt (Seq (some P) (Not_before (\<lambda>c. \<not> P c))) (some P)) s = Some (if k < length s \<and> 1 < k then k - 1 else k)"
proof -
  let ?f = "\<lambda>m. map (\<lambda>j. m + j) (ends (Not_before (\<lambda>c. \<not> P c)) (drop m s))"
  have e: "ends (Seq (some P) (Not_before (\<lambda>c. \<not> P c))) s = concat (map ?f (rev [1..<k + 1]))"
    unfolding ends.simps(1,2) greedy_simps(2) k(1) by (rule refl)
  have inner: "?f m = [m]" if "m < k" for m
    using drop_in_takeWhile [of m P s] takeWhile_nth_true [of m P s] that k(1) by auto
  have last: "?f k = (if k < length s then [] else [k])" using drop_takeWhile [OF k(1)] by auto
  have r: "matches (some P) s = Some k" unfolding matches_some using k by auto
  show ?thesis
  proof (cases "k < length s \<and> 1 < k")
    case True
    have "concat (map ?f (rev [1..<k + 1])) = ?f (k - 1) @ concat (map ?f (rev [1..<k - 1]))"
    proof (rule concat_rev_first)
      show "\<forall>d. k - 1 < d \<and> d < k + 1 \<longrightarrow> ?f d = []"
      proof (intro allI impI)
        fix d assume "k - 1 < d \<and> d < k + 1"
        then have "d = k" by linarith
        then show "?f d = []" using last True by (simp only: if_True)
      qed
    qed (use True in linarith)+
    also have "?f (k - 1) = [k - 1]" by (rule inner) (use True in linarith)
    finally have "matches (Seq (some P) (Not_before (\<lambda>c. \<not> P c))) s = Some (k - 1)" unfolding matches_def e by simp
    then show ?thesis using True by (simp add: matches_Alt)
  next
    case False
    show ?thesis
    proof (cases "k < length s")
      case True
      then have "k = 1" using False k(2) by linarith
      then have "ends (Seq (some P) (Not_before (\<lambda>c. \<not> P c))) s = []" unfolding e using last True by simp
      then have m: "matches (Seq (some P) (Not_before (\<lambda>c. \<not> P c))) s = None" unfolding matches_def by (simp only: list.case)
      show ?thesis unfolding matches_Alt m r using False by auto
    next
      case l: False
      have "concat (map ?f (rev [1..<k + 1])) = ?f k @ concat (map ?f (rev [1..<k]))"
        by (rule concat_rev_first) (use k(2) in auto)
      also have "?f k = [k]" using last l by (simp only: if_False)
      finally have "matches (Seq (some P) (Not_before (\<lambda>c. \<not> P c))) s = Some k" unfolding matches_def e by simp
      then show ?thesis using False by (auto simp: matches_Alt)
    qed
  qed
qed

text \<open>\<open>\s*[\r\n]+\<close>.\<close>

lemma newline_space: "newline c \<Longrightarrow> cp_space c"
  by (auto simp: newline_def cp_space_def cp_class_def)

lemma newline_rx:
  assumes "k = length (takeWhile cp_space (drop i cp))"
  shows "matches (Seq (many cp_space) (some newline)) (drop i cp) =
    (case last_newline cp i k of None \<Rightarrow> None | Some j \<Rightarrow> Some (j + 1 - i))"
proof -
  let ?s = "drop i cp"
  let ?f = "\<lambda>m. map (\<lambda>j. m + j) (ends (some newline) (drop m ?s))"
  have e: "ends (Seq (many cp_space) (some newline)) ?s = concat (map ?f (rev [0..<k + 1]))"
    unfolding ends.simps(1,2) greedy_simps(2) assms by (rule refl)
  have nth: "?s ! m = cp ! (i + m)" if "m < k" for m
    using that length_takeWhile_le [of cp_space ?s] assms by simp
  have none: "?f m = []" if m: "m < k" "\<not> newline (cp ! (i + m))" for m
  proof -
    obtain r where "drop m ?s = ?s ! m # r" using drop_in_takeWhile [OF m(1) [unfolded assms]] by blast
    then show ?thesis using m nth [OF m(1)] by simp
  qed
  have fk: "?f k = []" using drop_takeWhile [OF assms] by (auto dest: newline_space split: if_splits)
  show ?thesis
  proof (cases "last_newline cp i k")
    case None
    then have "\<forall>d. 0 \<le> d \<and> d < k + 1 \<longrightarrow> ?f d = []" using none fk unfolding last_newline_None by (metis Suc_eq_plus1 less_Suc_eq)
    then have c: "concat (map ?f (rev [0..<k + 1])) = []" by (rule concat_rev_none)
    show ?thesis by (simp only: matches_def e c None list.case option.case)
  next
    case (Some j)
    define m where "m = j - i"
    have m: "j = i + m" "m < k" using last_newline_range [OF Some] by (auto simp: m_def)
    have nl: "newline (cp ! (i + m))" "\<And>d. m < d \<Longrightarrow> d < k \<Longrightarrow> \<not> newline (cp ! (i + d))"
      using last_newline_Some [OF Some] m(1) by auto
    have "concat (map ?f (rev [0..<k + 1])) = ?f m @ concat (map ?f (rev [0..<m]))"
    proof (rule concat_rev_first)
      show "\<forall>d. m < d \<and> d < k + 1 \<longrightarrow> ?f d = []"
      proof (intro allI impI)
        fix d assume d: "m < d \<and> d < k + 1"
        show "?f d = []"
        proof (cases "d = k")
          case False
          then have "d < k" using d by linarith
          then show ?thesis using none nl(2) d by blast
        qed (use fk in \<open>simp only:\<close>)
      qed
    qed (use m(2) in simp_all)
    moreover obtain r where r: "drop m ?s = ?s ! m # r"
      using drop_in_takeWhile [OF m(2) [unfolded assms]] by blast
    have "takeWhile newline (drop m ?s) = [?s ! m]"
    proof -
      have "\<not> newline (hd r)" if "r \<noteq> []"
      proof (cases "m + 1 < k")
        case True
        then obtain r' where "drop (m + 1) ?s = ?s ! (m + 1) # r'"
          using drop_in_takeWhile [OF True [unfolded assms]] by blast
        moreover have "drop (m + 1) ?s = r" using r by (metis Suc_eq_plus1 drop_Suc list.sel(3) tl_drop)
        ultimately have "r = ?s ! (m + 1) # r'" by metis
        then show ?thesis using nl(2) [of "m + 1"] nth [OF True] True by (metis add.assoc less_add_one list.sel(1))
      next
        case False
        then have "drop k ?s = r" using r m(2) by (metis Suc_lessI add.commute drop_Suc list.sel(3) plus_1_eq_Suc tl_drop)
        then show ?thesis using drop_takeWhile [OF assms] that newline_space by auto
      qed
      then show ?thesis unfolding r using nl(1) nth [OF m(2)] by (cases r) auto
    qed
    then have "?f m = [m + 1]" by simp
    ultimately show ?thesis unfolding matches_def e using Some m(1) by simp
  qed
qed

lemma space_end_rx:
  assumes "i < length cp" "cp_space (cp ! i)"
  shows "matches (Alt (Seq (many cp_space) (some newline))
      (Alt (Seq (some cp_space) (Not_before (\<lambda>c. \<not> cp_space c))) (some cp_space))) (drop i cp) =
    Some (space_end (\<lambda>_. False) cp i - i)"
proof -
  define k where "k = length (takeWhile cp_space (drop i cp))"
  have run: "run cp_space cp (length cp) i = i + k" by (simp add: run_takeWhile k_def)
  have pos: "0 < k" using drop_Cons [OF assms(1)] assms(2) by (simp add: k_def)
  have "i + k < length cp \<longleftrightarrow> k < length (drop i cp)" using assms(1) by auto
  then show ?thesis
    unfolding matches_Alt [of "Seq (many cp_space) (some newline)"] newline_rx [OF k_def] spaces_rx [OF k_def pos]
    by (auto simp: space_end_def run Let_def split: option.split)
qed

subsection \<open>The families\<close>

lemma run_all: "j \<le> length cp \<Longrightarrow> run P cp (length cp) j = j + length (takeWhile P (drop j cp))"
  by (simp add: run_takeWhile)

lemma takeWhile_drop_empty: "i < length cp \<Longrightarrow> takeWhile P (drop i cp) = [] \<longleftrightarrow> \<not> P (cp ! i)"
  by (simp add: drop_Cons)

lemma class_exclusive:
  "cp_letter c \<Longrightarrow> \<not> cp_digit c" "cp_letter c \<Longrightarrow> \<not> cp_space c" "cp_digit c \<Longrightarrow> \<not> cp_space c" "\<not> cp_other SP"
  by (auto simp: cp_letter_def cp_digit_def cp_space_def cp_class_def cp_symbol_def cp_other_def ascii_alpha_def between_def)

text \<open>\<open>[^\r\n\p{L}\p{N}]?\p{L}+\<close>.\<close>

lemma letters_rx:
  assumes "i < length cp"
  shows "matches (Seq (opt (\<lambda>c. \<not> newline c \<and> \<not> cp_letter c \<and> \<not> cp_digit c)) (some cp_letter)) (drop i cp) =
    (if \<not> cp_letter (cp ! i) \<and> \<not> cp_digit (cp ! i) \<and> \<not> newline (cp ! i) \<and> i + 1 < length cp \<and> cp_letter (cp ! (i + 1))
     then Some (run cp_letter cp (length cp) (i + 1) - i)
     else if cp_letter (cp ! i) then Some (run cp_letter cp (length cp) i - i) else None)"
proof -
  have n: "i + 1 < length cp \<and> cp_letter (cp ! (i + 1)) \<longleftrightarrow> takeWhile cp_letter (drop (i + 1) cp) \<noteq> []"
    using takeWhile_drop_empty [of "i + 1" cp cp_letter] by (cases "i + 1 < length cp") auto
  show ?thesis unfolding drop_Cons [OF assms] matches_opt
    unfolding drop_Cons [OF assms, symmetric] matches_some takeWhile_drop_empty [OF assms] n
    using assms by (auto simp: run_all)
qed

text \<open>\<open> ?[^\s\p{L}\p{N}]+[\r\n]*\<close>.\<close>

lemma punct_rx_run:
  "matches (Seq (some cp_other) (many newline)) s =
    (if takeWhile cp_other s = [] then None
     else Some (length (takeWhile cp_other s) + length (takeWhile newline (drop (length (takeWhile cp_other s)) s))))"
proof (cases "takeWhile cp_other s")
  case (Cons c w)
  define k where "k = length (takeWhile cp_other s)"
  let ?f = "\<lambda>m. map (\<lambda>j. m + j) (ends (many newline) (drop m s))"
  have "ends (Seq (some cp_other) (many newline)) s = concat (map ?f (rev [1..<k + 1]))"
    unfolding ends.simps(1,2) greedy_simps(2) k_def by (rule refl)
  also have "\<dots> = ?f k @ concat (map ?f (rev [1..<k]))" by (rule concat_rev_first) (use Cons k_def in auto)
  finally show ?thesis using Cons unfolding matches_def k_def by simp
qed (simp add: matches_def)

lemma punct_rx:
  assumes "i < length cp"
  shows "matches (Seq (opt (\<lambda>c. c = SP)) (Seq (some cp_other) (many newline))) (drop i cp) =
    map_option (\<lambda>j. j - i) (punct_end newline cp i)"
proof -
  have r: "takeWhile cp_other (drop j cp) \<noteq> [] \<longleftrightarrow> j < length cp \<and> cp_other (cp ! j)" for j
    using takeWhile_drop_empty [of j cp cp_other] by (cases "j < length cp") auto
  have len: "j + length (takeWhile cp_other (drop j cp)) \<le> length cp" if "j \<le> length cp" for j
    using length_takeWhile_le [of cp_other "drop j cp"] that by simp
  have m: "matches (Seq (some cp_other) (many newline)) (drop j cp) =
      (if j < length cp \<and> cp_other (cp ! j) then Some (run newline cp (length cp) (run cp_other cp (length cp) j) - j) else None)" for j
    unfolding punct_rx_run using r [of j] len [of j] by (auto simp: run_all add.commute)
  show ?thesis unfolding drop_Cons [OF assms] matches_opt
    unfolding drop_Cons [OF assms, symmetric] m [of i] m [of "i + 1"]
    using class_exclusive(4) assms run_ge [of "i + 1" cp_other cp "length cp"]
      run_ge [of "run cp_other cp (length cp) (i + 1)" newline cp "length cp"]
    by (auto simp: punct_end_def Let_def)
qed

lemma digits_rx:
  assumes "i < length cp" "0 < n"
  shows "matches (Rep 1 (Some n) cp_digit) (drop i cp) =
    (if cp_digit (cp ! i) then Some (run cp_digit cp (min (length cp) (i + n)) i - i) else None)"
proof -
  have "drop i (take (min (length cp) (i + n)) cp) = take n (drop i cp)"
    by (simp add: take_drop min_def add.commute)
  then have "run cp_digit cp (min (length cp) (i + n)) i = i + length (takeWhile cp_digit (take n (drop i cp)))"
    by (simp add: run_takeWhile)
  moreover have "length (takeWhile P (take n xs)) = min (length (takeWhile P xs)) n" for P and xs :: "nat list"
    by (induction xs arbitrary: n) (auto simp: take_Cons split: nat.splits)
  ultimately show ?thesis using assms takeWhile_drop_empty [OF assms(1), of cp_digit]
    by (auto simp: matches_Rep greedy_def Let_def Suc_le_eq)
qed

theorem newer_split_is_regex:
  assumes i: "i < length cp" and n: "0 < n"
  shows "matches (newer_rx n) (drop i cp) = Some (pre_split_next cp i n - i)"
proof -
  let ?c = "cp ! i"
  have space: "cp_space ?c" if "\<not> cp_letter ?c" "\<not> cp_digit ?c" "punct_end newline cp i = None"
    using that i by (auto simp: punct_end_def Let_def cp_other_def split: if_splits)
  show ?thesis
    unfolding newer_rx_def matches_Alt [of "contraction_rx _"] matches_Alt [of "Seq (opt _) (some _)"]
      matches_Alt [of "Rep 1 (Some n) cp_digit"] matches_Alt [of "Seq (opt _) (Seq _ _)"]
      contraction_len_rx [OF i] letters_rx [OF i] digits_rx [OF i n] punct_rx [OF i]
    using space_end_rx [OF i space] class_exclusive(1) [of ?c]
    by (auto simp: pre_split_next_def Let_def split: option.splits)
qed

text \<open>\<open> ?\p{L}+\<close> and its like: \<open>q\<close> is the class.\<close>

lemma class_rx:
  assumes "i < e" "e \<le> length cp"
  shows "matches (Seq (opt (\<lambda>c. c = SP)) (some (\<lambda>c. cp_class c = q))) (drop i (take e cp)) =
    (if cp ! i = SP \<and> i + 1 < e \<and> cp_class (cp ! (i + 1)) = q then Some (run (\<lambda>c. cp_class c = q) cp e (i + 1) - i)
     else if cp_class (cp ! i) = q then Some (run (\<lambda>c. cp_class c = q) cp e i - i) else None)"
proof -
  let ?s = "take e cp"
  have i: "i < length ?s" and nth: "?s ! i = cp ! i" using assms by simp_all
  have n: "i + 1 < e \<and> cp_class (cp ! (i + 1)) = q \<longleftrightarrow> takeWhile (\<lambda>c. cp_class c = q) (drop (i + 1) ?s) \<noteq> []"
    using takeWhile_drop_empty [of "i + 1" ?s "\<lambda>c. cp_class c = q"] assms by (cases "i + 1 < e") auto
  show ?thesis unfolding drop_Cons [OF i] matches_opt
    unfolding drop_Cons [OF i, symmetric] matches_some takeWhile_drop_empty [OF i] n
    unfolding nth by (auto simp: run_takeWhile [OF assms(2)])
qed

lemma cp_class_range: "cp_class c = 0 \<or> cp_class c = 1 \<or> cp_class c = 2 \<or> cp_class c = 3"
  by (simp add: cp_class_def)

theorem gpt2_split_is_regex:
  assumes i: "i < e" and e: "e \<le> length cp"
  shows "matches gpt2_rx (drop i (take e cp)) = Some (gpt2_split_next cp i e - i)"
proof -
  let ?s = "drop i (take e cp)"
  define k where "k = length (takeWhile (\<lambda>c. cp_class c = 3) ?s)"
  have run: "run (\<lambda>c. cp_class c = 3) cp e i = i + k" by (simp add: run_takeWhile [OF e] k_def)
  have l: "k < length ?s \<longleftrightarrow> i + k < e" using i e by auto
  have space: "matches (Alt (Seq (some (\<lambda>c. cp_class c = 3)) (Not_before (\<lambda>c. cp_class c \<noteq> 3))) (some (\<lambda>c. cp_class c = 3))) ?s =
      Some (if i + k < e \<and> 1 < k then k - 1 else k)" if "cp_class (cp ! i) = 3"
  proof -
    have "0 < k" unfolding k_def using takeWhile_drop_empty [of i "take e cp" "\<lambda>c. cp_class c = 3"] i e that by simp
    then show ?thesis using spaces_rx [OF k_def] l by simp
  qed
  have sp: "cp_class SP = 3" by (simp add: cp_class_def)
  show ?thesis
    unfolding gpt2_rx_def matches_Alt [of "contraction_rx _"] matches_Alt [of "Seq (opt _) (some _)"]
      gpt2_contraction_rx [OF i e] class_rx [OF i e]
    using space cp_class_range [of "cp ! i"] cp_class_range [of "cp ! (i + 1)"] sp
    by (auto simp: gpt2_split_next_def Let_def run)
qed

subsection \<open>The pre-tokens\<close>

text \<open>Where the reference tokenizer ends the pre-token at the head of a text. Smollm first cuts out every digit.\<close>

definition regex_end :: "tok_pre \<Rightarrow> nat list \<Rightarrow> nat option" where
  "regex_end pre s =
     (case pre of
        TOK_PRE_LLAMA3 \<Rightarrow> matches (newer_rx 3) s
      | TOK_PRE_QWEN2 \<Rightarrow> matches (newer_rx 1) s
      | TOK_PRE_GPT2 \<Rightarrow> matches gpt2_rx s
      | TOK_PRE_SMOLLM \<Rightarrow> if cp_digit (hd s) then Some 1 else matches gpt2_rx (takeWhile (\<lambda>c. \<not> cp_digit c) s)
      | _ \<Rightarrow> None)"

text \<open>No match is shorter than the expression asks.\<close>

fun shortest :: "rx \<Rightarrow> nat" where
  "shortest (Rep l h P) = l"
| "shortest (Seq r1 r2) = shortest r1 + shortest r2"
| "shortest (Alt r1 r2) = min (shortest r1) (shortest r2)"
| "shortest (Not_before P) = 0"

lemma shortest_ends: "k \<in> set (ends r s) \<Longrightarrow> shortest r \<le> k"
proof (induction r arbitrary: s k)
  case (Seq r1 r2)
  then obtain a b where "a \<in> set (ends r1 s)" "b \<in> set (ends r2 (drop a s))" "k = a + b" by auto
  then show ?case using Seq.IH by (simp add: add_mono)
qed (auto simp: min_le_iff_disj split: list.splits if_splits)

lemma shortest_matches: "matches r s = Some k \<Longrightarrow> shortest r \<le> k"
  by (rule shortest_ends [of _ _ s]) (auto simp: matches_def split: list.splits)

lemma shortest_rx: "shortest (newer_rx n) = 1" "shortest gpt2_rx = 1"
  by (simp_all add: newer_rx_def gpt2_rx_def contraction_rx_def)



text \<open>The Tekken regular expression, for its letters.\<close>

definition tekken_letters_rx :: rx where
  "tekken_letters_rx =
     Alt (Seq (opt (\<lambda>c. \<not> newline c \<and> \<not> cp_letter c \<and> \<not> cp_digit c)) (Seq (many cp_letter_upperish) (some cp_letter_lowerish)))
         (Seq (opt (\<lambda>c. \<not> newline c \<and> \<not> cp_letter c \<and> \<not> cp_digit c)) (Seq (some cp_letter_upperish) (many cp_letter_lowerish)))"

text \<open>The comment in the code says that backtracking is unnecessary. It is not: in a caseless letter followed by a
  capital at the end of a word (here U+6F22 and A) the expression gives back the capital, and the code does not.\<close>

lemma tekken_split_differs:
  "tekken_split_next [0x6F22, 65] 0 = 2" "matches tekken_letters_rx [0x6F22, 65] = Some 1"
proof -
  have c: "cp_letter_upperish 0x6F22" "cp_letter_lowerish 0x6F22" "cp_letter_upperish 65" "\<not> cp_letter_lowerish 65"
    "cp_letter 0x6F22" "cp_letter 65"
    by (simp_all add: cp_letter_upperish_def cp_letter_lowerish_def cp_letter_def cp_class_def cp_symbol_def cp_mark_def
      cp_upper_def cp_lower_def ascii_alpha_def between_def)
  have r: "run cp_letter_upperish [0x6F22, 65] (Suc (Suc 0)) 0 = 2" "run cp_letter_lowerish [0x6F22, 65] (Suc (Suc 0)) 2 = 2"
    using c by (simp_all add: run.simps)
  then show "tekken_split_next [0x6F22, 65] 0 = 2"
    using c by (simp add: tekken_split_next_def tekken_letters_def Let_def)
  show "matches tekken_letters_rx [0x6F22, 65] = Some 1"
    using c by (simp add: tekken_letters_rx_def matches_def upt_rec numeral_2_eq_2)
qed

end
