(* ===== verification/Tokenizer_Laws.thy ===== *)
theory Tokenizer_Laws
  imports Tok_Merge_Laws Tok_Split_Laws
begin

text \<open>
  The tokenizer of \<open>src/tokenizer.c\<close> as \<open>tokenizer_init\<close> builds it: what its tables hold, which special token stands
  at a place, that the queue of merge candidates changes no result, and the bounds of what encoding writes.
\<close>

subsection \<open>What initialisation gives\<close>

definition special :: "tokenizer \<Rightarrow> nat \<Rightarrow> bool" where
  "special t i \<longleftrightarrow> (tok_type t i = TT_CONTROL \<or> tok_type t i = TT_USER_DEFINED) \<and> tk_tokens t ! i \<noteq> []"

lemma init_facts:
  assumes "tokenizer_init g = Some t"
  shows "length (tk_tokens t) \<le> 2 ^ 31 - 1"
    and "hmap_fill (hmap_init (length (tk_tokens t))) 0 (tk_tokens t) = Some (tk_vocab t)"
    and "special_id_ok (length (tk_tokens t)) (tk_bos_id t)"
    and "special_id_ok (length (tk_tokens t)) (tk_unk_id t)"
    and "(tk_special_ids t, tk_sb_off t) =
      bucket_specials (tk_tokens t) (sort_specials (tk_tokens t) (filter (special t) [0..<length (tk_tokens t)]))"
    and "tk_model t = TOK_SPM \<and> tk_merges t = [] \<or>
      (\<exists>ms. tk_model t \<noteq> TOK_SPM \<and> str_array (gguf_get g ''tokenizer.ggml.merges'') = Some ms \<and>
        hmap_fill (hmap_init (length ms)) 0 ms = Some (tk_merges t) \<and> tk_b2u t = fst alphabet \<and> tk_u2b t = snd alphabet)"
proof -
  have "length (tk_tokens t) \<le> 2 ^ 31 - 1 \<and>
    hmap_fill (hmap_init (length (tk_tokens t))) 0 (tk_tokens t) = Some (tk_vocab t) \<and>
    special_id_ok (length (tk_tokens t)) (tk_bos_id t) \<and> special_id_ok (length (tk_tokens t)) (tk_unk_id t) \<and>
    (tk_special_ids t, tk_sb_off t) =
      bucket_specials (tk_tokens t) (sort_specials (tk_tokens t) (filter (special t) [0..<length (tk_tokens t)])) \<and>
    (tk_model t = TOK_SPM \<and> tk_merges t = [] \<or>
      (\<exists>ms. tk_model t \<noteq> TOK_SPM \<and> str_array (gguf_get g ''tokenizer.ggml.merges'') = Some ms \<and>
        hmap_fill (hmap_init (length ms)) 0 ms = Some (tk_merges t) \<and> tk_b2u t = fst alphabet \<and> tk_u2b t = snd alphabet))"
    using assms unfolding tokenizer_init_def Let_def
    by (auto simp: special_def [abs_def] tok_type_def split: option.splits if_splits prod.splits)
  then show "length (tk_tokens t) \<le> 2 ^ 31 - 1"
    "hmap_fill (hmap_init (length (tk_tokens t))) 0 (tk_tokens t) = Some (tk_vocab t)"
    "special_id_ok (length (tk_tokens t)) (tk_bos_id t)" "special_id_ok (length (tk_tokens t)) (tk_unk_id t)"
    "(tk_special_ids t, tk_sb_off t) =
      bucket_specials (tk_tokens t) (sort_specials (tk_tokens t) (filter (special t) [0..<length (tk_tokens t)]))"
    "tk_model t = TOK_SPM \<and> tk_merges t = [] \<or>
      (\<exists>ms. tk_model t \<noteq> TOK_SPM \<and> str_array (gguf_get g ''tokenizer.ggml.merges'') = Some ms \<and>
        hmap_fill (hmap_init (length ms)) 0 ms = Some (tk_merges t) \<and> tk_b2u t = fst alphabet \<and> tk_u2b t = snd alphabet)"
    by (blast+)
qed

lemma init_vocab:
  assumes "tokenizer_init g = Some t"
  shows "hmap_get (tk_vocab t) s = hmap.first_index 0 (tk_tokens t) s"
proof -
  note f = init_facts(1,2) [OF assms]
  have "length (tk_tokens t) < 2 ^ 62" using f(1) by simp
  then obtain m where "hmap_fill (hmap_init (length (tk_tokens t))) 0 (tk_tokens t) = Some m"
    "\<And>s. hmap_get m s = hmap.first_index 0 (tk_tokens t) s" using hmap_fill_get by blast
  then show ?thesis using f(2) by simp
qed

lemma vocab_cases:
  assumes "tokenizer_init g = Some t"
  obtains "hmap_get (tk_vocab t) s = -1" "s \<notin> set (tk_tokens t)"
  | j where "hmap_get (tk_vocab t) s = int j" "j < length (tk_tokens t)" "tk_tokens t ! j = s" "\<forall>j'<j. tk_tokens t ! j' \<noteq> s"
  using first_index_cases [of 0 "tk_tokens t" s] unfolding init_vocab [OF assms, symmetric] by auto

subsection \<open>The special tokens\<close>

text \<open>The insertion sort: longest first, and the first of equally long ones first.\<close>

abbreviation longer_first :: "string list \<Rightarrow> nat \<Rightarrow> nat \<Rightarrow> bool" where
  "longer_first toks i j \<equiv> length (toks ! j) < length (toks ! i) \<or> length (toks ! j) = length (toks ! i) \<and> i < j"

lemma set_shift_special [simp]: "set (shift_special toks key r) = insert key (set r)"
  by (induction toks key r rule: shift_special.induct) auto

lemma shift_special_sorted:
  "sorted_wrt (\<lambda>x y. longer_first toks y x) r \<Longrightarrow> \<forall>x \<in> set r. x < key \<Longrightarrow>
    sorted_wrt (\<lambda>x y. longer_first toks y x) (shift_special toks key r)"
  by (induction toks key r rule: shift_special.induct) auto

lemma sort_specials_spec:
  assumes "sorted_wrt (<) ids"
  shows "sorted_wrt (longer_first toks) (sort_specials toks ids) \<and> set (sort_specials toks ids) = set ids"
proof -
  have "sorted_wrt (\<lambda>x y. longer_first toks y x) (foldl (\<lambda>r key. shift_special toks key r) [] ids) \<and>
      set (foldl (\<lambda>r key. shift_special toks key r) [] ids) = set ids"
    using assms
  proof (induction ids rule: rev_induct)
    case (snoc x ids)
    then have ih: "sorted_wrt (\<lambda>x y. longer_first toks y x) (foldl (\<lambda>r key. shift_special toks key r) [] ids)"
      "set (foldl (\<lambda>r key. shift_special toks key r) [] ids) = set ids" "\<forall>y \<in> set ids. y < x"
      by (auto simp: sorted_wrt_append)
    show ?case using shift_special_sorted [OF ih(1), of x] ih(2,3) by simp
  qed simp
  then show ?thesis by (simp add: sort_specials_def sorted_wrt_rev)
qed

text \<open>The counting sort. Group \<open>b\<close> begins after the smaller ones and holds its members in their order.\<close>

definition below :: "('a \<Rightarrow> nat) \<Rightarrow> 'a list \<Rightarrow> nat \<Rightarrow> nat" where
  "below f ids b = length (filter (\<lambda>i. f i < b) ids)"

definition in_group :: "('a \<Rightarrow> nat) \<Rightarrow> 'a list \<Rightarrow> nat \<Rightarrow> nat" where
  "in_group f ids b = length (filter (\<lambda>i. f i = b) ids)"

lemma below_Suc: "below f ids (Suc b) = below f ids b + in_group f ids b"
  by (induction ids) (auto simp: below_def in_group_def less_Suc_eq)

lemma below_mono: "b \<le> c \<Longrightarrow> below f ids b \<le> below f ids c"
  by (induction c rule: dec_induct) (auto simp: below_Suc)

lemma below_all: "\<forall>i \<in> set ids. f i < b \<Longrightarrow> below f ids b = length ids"
  by (simp add: below_def)

lemma in_group_append: "in_group f (us @ vs) b = in_group f us b + in_group f vs b"
  by (simp add: in_group_def)

lemma first_byte_less: "first_byte toks i < 256"
  by (simp add: first_byte_def)

lemma group_counts_nth:
  "length (group_counts toks ids) = 257 \<and>
    (\<forall>b<257. group_counts toks ids ! b = (case b of 0 \<Rightarrow> 0 | Suc c \<Rightarrow> in_group (first_byte toks) ids c))"
proof (induction ids rule: rev_induct)
  case Nil
  then show ?case by (auto simp: group_counts_def in_group_def split: nat.splits)
next
  case (snoc x ids)
  have "group_counts toks (ids @ [x]) =
      (group_counts toks ids)[first_byte toks x + 1 := group_counts toks ids ! (first_byte toks x + 1) + 1]"
    by (simp add: group_counts_def)
  then show ?case using snoc first_byte_less [of toks x]
    by (auto simp: nth_list_update in_group_append split: nat.splits) (auto simp: in_group_def)
qed

lemma group_offsets_nth:
  assumes "length c = 257" "\<forall>b<257. c ! b = (case b of 0 \<Rightarrow> 0 | Suc c \<Rightarrow> in_group f ids c)"
  shows "length (group_offsets c) = 257 \<and> (\<forall>b<257. group_offsets c ! b = below f ids b)"
proof -
  have "length (foldl (\<lambda>off b. off[b + 1 := off ! (b + 1) + off ! b]) c [0..<n]) = 257 \<and>
      (\<forall>b<257. foldl (\<lambda>off b. off[b + 1 := off ! (b + 1) + off ! b]) c [0..<n] ! b = (if b \<le> n then below f ids b else c ! b))"
    if "n \<le> 256" for n using that
  proof (induction n)
    case 0
    then show ?case using assms by (auto simp: below_def)
  next
    case (Suc n)
    then show ?case using assms(2) by (auto simp: nth_list_update below_Suc le_Suc_eq)
  qed
  then show ?thesis unfolding group_offsets_def by force
qed

lemma group_place_inv:
  fixes f toks
  defines "f \<equiv> first_byte toks"
  assumes "ids = us @ rs" "(out, pos) = foldl (group_place toks) (replicate (length ids) 0, map (below f ids) [0..<256]) us"
  shows "length out = length ids \<and> length pos = 256 \<and>
    (\<forall>b<256. pos ! b = below f ids b + in_group f us b \<and>
       map ((!) out) [below f ids b..<below f ids b + in_group f us b] = filter (\<lambda>i. f i = b) us)"
  using assms(2,3)
proof (induction us arbitrary: rs out pos rule: rev_induct)
  case Nil
  then show ?case by (simp add: in_group_def)
next
  case (snoc x us)
  obtain out1 pos1 where o1: "(out1, pos1) = foldl (group_place toks) (replicate (length ids) 0, map (below f ids) [0..<256]) us"
    by (metis surj_pair)
  have ids: "ids = us @ (x # rs)" using snoc.prems(1) by simp
  note ih = snoc.IH [OF ids o1]
  define c where "c = f x"
  have c: "c < 256" by (simp add: c_def f_def first_byte_less)
  define k where "k = below f ids c + in_group f us c"
  have op: "out = out1[k := x]" "pos = pos1[c := k + 1]"
    using snoc.prems(2) o1 [symmetric] ih c by (auto simp: group_place_def c_def f_def k_def)
  have in_le: "in_group f us b \<le> in_group f ids b" for b by (simp add: ids in_group_append)
  have in_lt: "in_group f us c < in_group f ids c" by (simp add: ids in_group_append in_group_def c_def)
  have "below f ids 256 = length ids" by (rule below_all) (simp add: f_def first_byte_less)
  then have k: "k < length ids"
    using in_lt below_mono [of "Suc c" 256 f ids] c by (simp add: below_Suc k_def)
  have g: "in_group f (us @ [x]) b = in_group f us b + (if b = c then 1 else 0)" for b
    by (simp add: in_group_def c_def)
  have "pos ! b = below f ids b + in_group f (us @ [x]) b \<and>
      map ((!) out) [below f ids b..<below f ids b + in_group f (us @ [x]) b] = filter (\<lambda>i. f i = b) (us @ [x])"
    if b: "b < 256" for b
  proof (cases "b = c")
    case True
    have "map ((!) out) [below f ids c..<k] = map ((!) out1) [below f ids c..<k]" by (simp add: op)
    also have "\<dots> = filter (\<lambda>i. f i = c) us" using ih c by (simp add: k_def)
    finally have "map ((!) out) [below f ids c..<k] = filter (\<lambda>i. f i = c) us" .
    moreover have "[below f ids c..<below f ids c + (in_group f us c + 1)] = [below f ids c..<k] @ [k]" by (simp add: k_def)
    moreover have "out ! k = x" "pos ! c = k + 1" using ih k c by (simp_all add: op)
    ultimately show ?thesis using True by (simp only: g) (simp add: k_def c_def)
  next
    case False
    have "k \<notin> set [below f ids b..<below f ids b + in_group f us b]"
    proof (cases "b < c")
      case True
      then show ?thesis using below_mono [of "Suc b" c f ids] in_le [of b] by (simp add: below_Suc k_def)
    next
      case ge: False
      then show ?thesis using below_mono [of "Suc c" b f ids] in_lt False by (simp add: below_Suc k_def)
    qed
    then have "map ((!) out) [below f ids b..<below f ids b + in_group f us b] =
        map ((!) out1) [below f ids b..<below f ids b + in_group f us b]" by (auto simp: op)
    then show ?thesis using ih b False c by (auto simp: g op c_def)
  qed
  then show ?case using ih by (simp add: op)
qed

lemma bucket_specials_group:
  assumes "(out, off) = bucket_specials toks ids" "b < 256"
  shows "map ((!) out) [off ! b..<off ! (b + 1)] = filter (\<lambda>i. first_byte toks i = b) ids"
proof -
  have off: "length off = 257" "\<forall>b<257. off ! b = below (first_byte toks) ids b"
    using group_offsets_nth [of "group_counts toks ids" "first_byte toks" ids] group_counts_nth [of toks ids] assms(1)
    by (auto simp: bucket_specials_def Let_def)
  have "take 256 off = map (below (first_byte toks) ids) [0..<256]"
    by (rule nth_equalityI) (use off in auto)
  then obtain pos where "(out, pos) = foldl (group_place toks) (replicate (length ids) 0, map (below (first_byte toks) ids) [0..<256]) ids"
    using assms(1) by (auto simp: bucket_specials_def Let_def) (metis prod.collapse)
  then have "map ((!) out) [below (first_byte toks) ids b..<below (first_byte toks) ids b + in_group (first_byte toks) ids b] =
      filter (\<lambda>i. first_byte toks i = b) ids" using group_place_inv [of ids ids "[]" out pos toks] assms(2) by simp
  then show ?thesis using off(2) assms(2) by (simp add: below_Suc)
qed

text \<open>The special token at a place is the longest that stands there; of equal ones, the first.\<close>

definition stands_at :: "string \<Rightarrow> nat \<Rightarrow> string \<Rightarrow> bool" where
  "stands_at s i tok \<longleftrightarrow> length tok \<le> length s - i \<and> take (length tok) (drop i s) = tok"

lemma stands_at_hd: "stands_at s i tok \<Longrightarrow> i < length s \<Longrightarrow> tok \<noteq> [] \<Longrightarrow> tok ! 0 = s ! i"
  unfolding stands_at_def by (metis add.right_neutral length_greater_0_conv nth_drop nth_take order_less_imp_le)

lemma find_sorted:
  "sorted_wrt R xs \<Longrightarrow> find P xs = Some x \<longleftrightarrow> x \<in> set xs \<and> P x \<and> (\<forall>y \<in> set xs. P y \<longrightarrow> y = x \<or> R x y)"
  if "\<And>x y. R x y \<Longrightarrow> \<not> R y x"
proof (induction xs)
  case (Cons a xs)
  then show ?case using that by (cases "P a") auto
qed simp

lemma find_map: "find P (map f xs) = map_option f (find (P \<circ> f) xs)"
  by (induction xs) auto

lemma find_filter: "(\<And>x. x \<in> set xs \<Longrightarrow> P x \<Longrightarrow> Q x) \<Longrightarrow> find P (filter Q xs) = find P xs"
  by (induction xs) auto

definition special_here :: "tokenizer \<Rightarrow> string \<Rightarrow> nat \<Rightarrow> nat \<Rightarrow> bool" where
  "special_here t s i k \<longleftrightarrow> k < length (tk_tokens t) \<and> special t k \<and> stands_at s i (tk_tokens t ! k)"

lemma special_at_find:
  assumes "tokenizer_init g = Some t" "i < length s"
  shows "special_at t s i = find (\<lambda>k. stands_at s i (tk_tokens t ! k))
    (sort_specials (tk_tokens t) (filter (special t) [0..<length (tk_tokens t)]))"
proof -
  define ids where "ids = sort_specials (tk_tokens t) (filter (special t) [0..<length (tk_tokens t)])"
  have "sorted_wrt (<) (filter (special t) [0..<length (tk_tokens t)])"
    by (simp add: sorted_wrt_filter)
  then have ids: "set ids = {k. k < length (tk_tokens t) \<and> special t k}"
    using sort_specials_spec unfolding ids_def by auto
  have b: "byte (s ! i) < 256" by simp
  have "special_at t s i = map_option ((!) (tk_special_ids t))
      (find ((\<lambda>k. stands_at s i (tk_tokens t ! k)) \<circ> (!) (tk_special_ids t)) [tk_sb_off t ! byte (s ! i)..<tk_sb_off t ! (byte (s ! i) + 1)])"
    by (simp add: special_at_def stands_at_def Let_def comp_def)
  also have "\<dots> = find (\<lambda>k. stands_at s i (tk_tokens t ! k)) (filter (\<lambda>k. first_byte (tk_tokens t) k = byte (s ! i)) ids)"
    unfolding find_map [symmetric] bucket_specials_group [OF init_facts(5) [OF assms(1)] b] ids_def ..
  also have "\<dots> = find (\<lambda>k. stands_at s i (tk_tokens t ! k)) ids"
    by (rule find_filter) (use ids stands_at_hd assms(2) in \<open>auto simp: first_byte_def special_def\<close>)
  finally show ?thesis by (simp add: ids_def)
qed

lemma special_at_longest:
  assumes "tokenizer_init g = Some t" "i < length s"
  shows "special_at t s i = Some k \<longleftrightarrow>
    special_here t s i k \<and> (\<forall>k'. special_here t s i k' \<longrightarrow> k' = k \<or> longer_first (tk_tokens t) k k')"
proof -
  have ids: "sorted_wrt (<) (filter (special t) [0..<length (tk_tokens t)])" by (simp add: sorted_wrt_filter)
  show ?thesis unfolding special_at_find [OF assms]
    by (subst find_sorted [where R = "longer_first (tk_tokens t)"]) (use sort_specials_spec [OF ids] in \<open>auto simp: special_here_def\<close>)
qed

lemma special_at_none:
  assumes "tokenizer_init g = Some t" "i < length s"
  shows "special_at t s i = None \<longleftrightarrow> (\<forall>k. \<not> special_here t s i k)"
proof -
  have ids: "sorted_wrt (<) (filter (special t) [0..<length (tk_tokens t)])" by (simp add: sorted_wrt_filter)
  show ?thesis unfolding special_at_find [OF assms] find_None_iff
    using sort_specials_spec [OF ids, of "tk_tokens t"] by (auto simp: special_here_def)
qed

end
