(* ===== verification/Tok_Encode_Laws.thy ===== *)
theory Tok_Encode_Laws
  imports Tokenizer_Laws
begin

text \<open>
  Encoding in \<open>src/tokenizer.c\<close>: it always returns, what it writes is in range and fits, and which of the two merge
  loops runs does not show.
\<close>

subsection \<open>Bounds\<close>

definition out_ok :: "tokenizer \<Rightarrow> nat \<Rightarrow> int list \<Rightarrow> bool" where
  "out_ok t cap out \<longleftrightarrow> length out \<le> cap \<and> (\<forall>i \<in> set out. 0 \<le> i \<and> i < int (length (tk_tokens t)))"

definition ids_ok :: "tokenizer \<Rightarrow> bool" where
  "ids_ok t \<longleftrightarrow> (\<forall>s. hmap_get (tk_vocab t) s < int (length (tk_tokens t))) \<and> tk_unk_id t < int (length (tk_tokens t))"

lemma init_ids_ok: "tokenizer_init g = Some t \<Longrightarrow> ids_ok t"
proof -
  assume t: "tokenizer_init g = Some t"
  have "hmap_get (tk_vocab t) s < int (length (tk_tokens t))" for s by (rule vocab_cases [OF t, of s]) auto
  then show ?thesis using init_facts(4) [OF t] by (auto simp: ids_ok_def special_id_ok_def)
qed

lemma emit_id_ok: "out_ok t cap out \<Longrightarrow> 0 \<le> i \<Longrightarrow> i < int (length (tk_tokens t)) \<Longrightarrow> out_ok t cap (emit_id cap out i)"
  by (auto simp: out_ok_def emit_id_def)

lemma emit_vocab_ok: "out_ok t cap out \<Longrightarrow> ids_ok t \<Longrightarrow> 0 \<le> hmap_get (tk_vocab t) s \<Longrightarrow>
    out_ok t cap (emit_id cap out (hmap_get (tk_vocab t) s))"
  by (auto intro!: emit_id_ok simp: ids_ok_def)

lemma emit_byte_ok: "out_ok t cap out \<Longrightarrow> ids_ok t \<Longrightarrow> out_ok t cap (emit_byte t cap out c)"
  by (auto simp: emit_byte_def Let_def ids_ok_def intro!: emit_id_ok)

lemma emit_bytes_ok: "out_ok t cap out \<Longrightarrow> ids_ok t \<Longrightarrow> out_ok t cap (emit_bytes t cap out s)"
  unfolding emit_bytes_def by (induction s arbitrary: out) (simp_all add: emit_byte_ok)

lemma spm_emit_ok: "out_ok t cap out \<Longrightarrow> ids_ok t \<Longrightarrow> out_ok t cap (spm_emit t w cap s i out)"
  by (simp add: spm_emit_def Let_def emit_vocab_ok emit_bytes_ok)

lemma char_fallback_ok: "out_ok t cap out \<Longrightarrow> ids_ok t \<Longrightarrow> out_ok t cap (char_fallback t w cap start len j out)"
proof (induction t w cap start len j out rule: char_fallback.induct)
  case (1 t w cap start len j out)
  then show ?case by (subst char_fallback.simps) (simp add: Let_def emit_vocab_ok emit_bytes_ok)
qed

lemma bpe_emit_ok: "out_ok t cap out \<Longrightarrow> ids_ok t \<Longrightarrow> out_ok t cap (bpe_emit t w cap s i out)"
  by (simp add: bpe_emit_def Let_def emit_vocab_ok char_fallback_ok)

lemma over_syms_inv: "P b \<Longrightarrow> (\<And>i b. P b \<Longrightarrow> P (f i b)) \<Longrightarrow> P (over_syms n s f i b)"
  by (induction n s f i b rule: over_syms.induct) simp_all

definition returns_ok :: "tokenizer \<Rightarrow> nat \<Rightarrow> int list option \<Rightarrow> bool" where
  "returns_ok t cap r \<longleftrightarrow> (\<exists>out. r = Some out \<and> out_ok t cap out)"

lemma bpe_merge_returns: "n = 0 \<or> bpe_merge force t w (init_syms w n) \<noteq> None"
proof (cases "n = 0")
  case False
  then have n: "0 < n" by simp
  then show ?thesis
  using bpe_queue.run_queue_merges [OF init_syms_live [OF n, of w], of t w]
    bpe_rescan_merges [OF init_syms_live [OF n, of w], of "length (init_syms w n)" t w]
    by (auto simp: bpe_merge_def)
qed simp

lemma bpe_word_ok: "out_ok t cap out \<Longrightarrow> ids_ok t \<Longrightarrow> returns_ok t cap (bpe_word force t w n cap out)"
  using bpe_merge_returns [of n force t w]
  by (auto simp: bpe_word_def returns_ok_def intro!: over_syms_inv [where P = "out_ok t cap"] bpe_emit_ok split: option.splits)

lemma spm_encode_ok: "out_ok t cap out \<Longrightarrow> ids_ok t \<Longrightarrow> returns_ok t cap (spm_encode force t w cap out)"
proof -
  assume o: "out_ok t cap out" "ids_ok t"
  have "w = [] \<or> spm_merge force t w (init_syms w (length w)) \<noteq> None"
  proof (cases "tk_scores t = None")
    case True
    then show ?thesis by (simp add: spm_merge_def)
  next
    case False
    then show ?thesis using spm_merge_merges [of "length w" t force w] by (metis length_greater_0_conv option.discI)
  qed
  then show ?thesis using o
    by (auto simp: spm_encode_def returns_ok_def intro!: over_syms_inv [where P = "out_ok t cap"] spm_emit_ok split: option.splits)
qed

lemma pretokens_ok: "out_ok t cap out \<Longrightarrow> ids_ok t \<Longrightarrow> returns_ok t cap (pretokens force t stale s cp off cap i out)"
proof (induction force t stale s cp off cap i out rule: pretokens.induct)
  case (1 force t stale s cp off cap i out)
  show ?case
  proof (cases "i < length cp")
    case True
    let ?e = "split_next (tk_pre t) cp i"
    let ?w = "concat (map (\<lambda>c. u8_encode (tk_b2u t ! byte c)) (take (off ! ?e - off ! i) (drop (off ! i) s)))"
    obtain out' where o: "bpe_word force t (?w @ stale) (length ?w) cap out = Some out'" "out_ok t cap out'"
      using bpe_word_ok [OF 1(2,3), of force "?w @ stale" "length ?w"] by (auto simp: returns_ok_def)
    show ?thesis using 1(1) [OF True refl refl o(1) o(2) 1(3)] True o(1) by (subst pretokens.simps) (simp add: Let_def)
  next
    case False
    then show ?thesis using 1(2) by (subst pretokens.simps) (simp add: returns_ok_def)
  qed
qed

lemma newline_runs_ok: "out_ok t cap out \<Longrightarrow> ids_ok t \<Longrightarrow> returns_ok t cap (newline_runs force t buf m cap i out)"
proof (induction force t buf m cap i out rule: newline_runs.induct)
  case (1 force t buf m cap i out)
  show ?case
  proof (cases "i < m")
    case True
    let ?j = "i + 1 + length (takeWhile (\<lambda>c. (c = CHR 0x0A) = (buf ! i = CHR 0x0A)) (drop (i + 1) (take m buf)))"
    obtain out' where o: "bpe_word force t (drop i buf) (?j - i) cap out = Some out'" "out_ok t cap out'"
      using bpe_word_ok [OF 1(2,3), of force "drop i buf" "?j - i"] by (auto simp: returns_ok_def)
    show ?thesis using 1(1) [OF True refl o(1) o(2) 1(3)] True o(1) by (subst newline_runs.simps) (simp add: Let_def)
  next
    case False
    then show ?thesis using 1(2) by (subst newline_runs.simps) (simp add: returns_ok_def)
  qed
qed

lemma encode_segment_ok: "out_ok t cap out \<Longrightarrow> ids_ok t \<Longrightarrow> returns_ok t cap (encode_segment force t stale s cap out first)"
  by (auto simp: encode_segment_def spm_encode_text_def bpe_spm_encode_text_def bpe_encode_text_def Let_def returns_ok_def [of _ _ "Some _"]
      intro: spm_encode_ok newline_runs_ok pretokens_ok split: tok_model.splits)

lemma encode_loop_ok:
  assumes t: "tokenizer_init g = Some t"
  shows "out_ok t cap out \<Longrightarrow> length s < f + i \<Longrightarrow> 0 < f \<Longrightarrow>
    returns_ok t cap (encode_loop f force t stale s cap parse_special i seg first out)"
proof (induction f arbitrary: i seg first out)
  case (Suc f)
  note ids = init_ids_ok [OF t]
  show ?case
  proof (cases "i < length s")
    case False
    then show ?thesis using encode_segment_ok [OF Suc.prems(1) ids] Suc.prems(1) by (auto simp: returns_ok_def [of _ _ "Some _"])
  next
    case True
    then have f: "0 < f" using Suc.prems(2) by simp
    show ?thesis
    proof (cases "if parse_special then special_at t s i else None")
      case None
      then show ?thesis using Suc.IH [OF Suc.prems(1) _ f] Suc.prems(2) True by simp
    next
      case (Some k)
      then have k: "special_here t s i k" using special_at_longest [OF t True, of k] by (auto split: if_splits)
      then have len: "0 < length (tk_tokens t ! k)" "k < length (tk_tokens t)" by (auto simp: special_here_def special_def)
      obtain out' where o: "(if i > seg then encode_segment force t stale (take (i - seg) (drop seg s)) cap out first else Some out) = Some out'"
        "out_ok t cap out'"
        using encode_segment_ok [OF Suc.prems(1) ids, of force stale "take (i - seg) (drop seg s)" first] Suc.prems(1)
        by (cases "i > seg") (auto simp: returns_ok_def)
      have "out_ok t cap (emit_id cap out' (int k))" using emit_id_ok [OF o(2)] len(2) by simp
      then show ?thesis
        using Suc.IH [of "emit_id cap out' (int k)" "i + length (tk_tokens t ! k)" "i + length (tk_tokens t ! k)" False]
          f len(1) Suc.prems(2) True Some o(1) by (simp add: Let_def)
    qed
  qed
qed simp

lemma tok_encode_ok:
  assumes t: "tokenizer_init g = Some t"
  shows "returns_ok t cap (tok_encode force t stale s cap add_bos parse_special)"
proof -
  have "out_ok t cap []" by (simp add: out_ok_def)
  moreover have "out_ok t cap (emit_id cap [] (tk_bos_id t))" if "tk_bos_id t \<ge> 0"
    using emit_id_ok [OF \<open>out_ok t cap []\<close>] init_facts(3) [OF t] that by (auto simp: special_id_ok_def)
  ultimately show ?thesis unfolding tok_encode_def by (intro encode_loop_ok [OF t]) auto
qed

subsection \<open>Both merge loops give the same\<close>

definition bpe_emit_span :: "tokenizer \<Rightarrow> string \<Rightarrow> nat \<Rightarrow> span \<Rightarrow> int list \<Rightarrow> int list" where
  "bpe_emit_span t w cap a out =
     (let x = hmap_get (tk_vocab t) (span_text w a)
      in if x < 0 then char_fallback t w cap (fst a) (snd a) 0 out else emit_id cap out x)"

definition spm_emit_span :: "tokenizer \<Rightarrow> string \<Rightarrow> nat \<Rightarrow> span \<Rightarrow> int list \<Rightarrow> int list" where
  "spm_emit_span t w cap a out =
     (let x = hmap_get (tk_vocab t) (span_text w a) in if x \<ge> 0 then emit_id cap out x else emit_bytes t cap out (span_text w a))"

lemma emit_spans:
  "bpe_emit t w cap s i out = bpe_emit_span t w cap (span_of (s ! i)) out"
  "spm_emit t w cap s i out = spm_emit_span t w cap (span_of (s ! i)) out"
  by (simp_all add: bpe_emit_def bpe_emit_span_def spm_emit_def spm_emit_span_def span_text_def Tokenizer.slice_def span_of_def Let_def)

lemma over_syms_spans:
  assumes "live_syms s xs" "\<And>i out. f i out = g (span_of (s ! i)) out"
  shows "over_syms (length s) s f 0 out = foldl (\<lambda>out a. g a out) out (spans s xs)"
proof -
  have "chain s (-1) xs (-1)" "first_of xs (-1) = 0" using assms(1) by (auto simp: live_syms_def)
  then show ?thesis using over_syms_chain [of s "-1" xs "length s" f out] live_length [OF assms(1)] assms(2)
    by (simp add: foldl_map)
qed

lemma bpe_word_merges:
  assumes "exact_ranks t"
  obtains v where "merges (bpe_key t w) (map span_of (init_syms w n)) v"
    "bpe_word force t w n cap out = Some (foldl (\<lambda>out a. bpe_emit_span t w cap a out) out v)"
proof (cases "n = 0")
  case True
  have "init_syms w 0 = []" by (simp add: init_syms_def cut_syms.simps)
  then show ?thesis using that [of "[]"] True by (simp add: bpe_word_def merges_done)
next
  case False
  then obtain s xs where s: "bpe_merge force t w (init_syms w n) = Some s" "live_syms s xs"
    "merges (bpe_key t w) (map span_of (init_syms w n)) (spans s xs)" using bpe_merge_merges [OF assms, of n force w] by blast
  show ?thesis by (rule that [OF s(3)]) (use s False over_syms_spans [OF s(2), of "bpe_emit t w cap s" "bpe_emit_span t w cap", OF emit_spans(1)] in \<open>simp add: bpe_word_def\<close>)
qed

lemma spm_encode_merges:
  assumes "w \<noteq> []" "tk_scores t \<noteq> None"
  obtains v where "merges (spm_key t w) (map span_of (init_syms w (length w))) v"
    "spm_encode force t w cap out = Some (foldl (\<lambda>out a. spm_emit_span t w cap a out) out v)"
proof -
  obtain s xs where s: "spm_merge force t w (init_syms w (length w)) = Some s" "live_syms s xs"
    "merges (spm_key t w) (map span_of (init_syms w (length w))) (spans s xs)"
    using spm_merge_merges [of "length w" t force w] assms by blast
  show ?thesis by (rule that [OF s(3)]) (use s assms over_syms_spans [OF s(2), of "spm_emit t w cap s" "spm_emit_span t w cap", OF emit_spans(2)] in \<open>simp add: spm_encode_def\<close>)
qed

lemma bpe_word_force: "exact_ranks t \<Longrightarrow> bpe_word force t w n cap out = bpe_word force' t w n cap out"
  by (metis bpe_word_merges merges_unique)

lemma spm_encode_force: "spm_encode force t w cap out = spm_encode force' t w cap out"
proof (cases "w \<noteq> [] \<and> tk_scores t \<noteq> None")
  case True
  then show ?thesis by (metis spm_encode_merges merges_unique)
qed (auto simp: spm_encode_def spm_merge_def)

lemma pretokens_force:
  "exact_ranks t \<Longrightarrow> pretokens force t stale s cp off cap i out = pretokens force' t stale s cp off cap i out"
proof (induction force t stale s cp off cap i out rule: pretokens.induct)
  case (1 force t stale s cp off cap i out)
  then show ?case by (subst (1 2) pretokens.simps) (auto simp: Let_def bpe_word_force [of t force _ _ _ _ force'] split: option.splits)
qed

lemma newline_runs_force:
  "exact_ranks t \<Longrightarrow> newline_runs force t buf m cap i out = newline_runs force' t buf m cap i out"
proof (induction force t buf m cap i out rule: newline_runs.induct)
  case (1 force t buf m cap i out)
  then show ?case by (subst (1 2) newline_runs.simps) (auto simp: Let_def bpe_word_force [of t force _ _ _ _ force'] split: option.splits)
qed

lemma encode_segment_force:
  assumes "exact_ranks t"
  shows "encode_segment force t stale s cap out first = encode_segment force' t stale s cap out first"
  using pretokens_force [OF assms, of force _ _ _ _ _ _ _ force'] newline_runs_force [OF assms, of force _ _ _ _ _ force']
    spm_encode_force [of force t _ _ _ force']
  by (simp add: encode_segment_def spm_encode_text_def bpe_spm_encode_text_def bpe_encode_text_def Let_def split: tok_model.splits)

lemma encode_loop_force:
  assumes "exact_ranks t"
  shows "encode_loop f force t stale s cap ps i seg first out = encode_loop f force' t stale s cap ps i seg first out"
proof (induction f arbitrary: ps i seg first out)
  case (Suc f)
  show ?case by (simp add: Suc.IH Let_def encode_segment_force [OF assms, of force _ _ _ _ _ force'] split: option.splits)
qed simp

definition few_merges :: "gguf_kv list \<Rightarrow> bool" where
  "few_merges g = (case str_array (gguf_get g ''tokenizer.ggml.merges'') of None \<Rightarrow> True | Some ms \<Rightarrow> length ms \<le> 2 ^ 24)"

lemma init_exact_ranks:
  assumes t: "tokenizer_init g = Some t" and few: "few_merges g"
  shows "exact_ranks t"
  using init_facts(6) [OF t]
proof (elim disjE exE conjE)
  assume "tk_merges t = []"
  then show ?thesis by (simp add: hmap_get_def)
next
  fix ms assume ms: "str_array (gguf_get g ''tokenizer.ggml.merges'') = Some ms"
    "hmap_fill (hmap_init (length ms)) 0 ms = Some (tk_merges t)"
  then have len: "length ms \<le> 2 ^ 24" using few by (simp add: few_merges_def)
  then have "length ms < 2 ^ 62" by simp
  then obtain m where "hmap_fill (hmap_init (length ms)) 0 ms = Some m" "\<And>s. hmap_get m s = hmap.first_index 0 ms s"
    using hmap_fill_get by blast
  then have get: "hmap_get (tk_merges t) k = hmap.first_index 0 ms k" for k using ms(2) by simp
  show ?thesis
  proof
    fix k show "hmap_get (tk_merges t) k \<le> 2 ^ 24" using first_index_cases [of 0 ms k] len by (auto simp: get)
  qed
qed

subsection \<open>A small model\<close>

definition demo_kv :: "string \<Rightarrow> 32 word \<Rightarrow> string \<Rightarrow> string list \<Rightarrow> gguf_kv" where
  "demo_kv key ty s ss = kv_zero\<lparr>kv_key := key, kv_type := ty, kv_str := s, kv_arr_type := GGUF_T_STR,
     kv_arr_n := word_of_nat (length ss), kv_arr_str := ss\<rparr>"

text \<open>Tokens, merges and token types; a type is one byte of four.\<close>

definition demo_gguf :: "string \<Rightarrow> string list \<Rightarrow> string list \<Rightarrow> char list \<Rightarrow> gguf_kv list" where
  "demo_gguf model toks ms tys =
     [demo_kv ''tokenizer.ggml.model'' GGUF_T_STR model [], demo_kv ''tokenizer.ggml.tokens'' GGUF_T_ARR [] toks,
      demo_kv ''tokenizer.ggml.merges'' GGUF_T_ARR [] ms,
      kv_zero\<lparr>kv_key := ''tokenizer.ggml.token_type'', kv_type := GGUF_T_ARR, kv_arr_type := GGUF_T_I32,
        kv_arr_n := word_of_nat (length tys), kv_arr_raw := Some (concat (map (\<lambda>c. [c, CHR 0x00, CHR 0x00, CHR 0x00]) tys))\<rparr>]"

lemma demo_str_array:
  "str_array (gguf_get (demo_gguf model toks ms tys) ''tokenizer.ggml.tokens'') = Some toks"
  "str_array (gguf_get (demo_gguf model toks ms tys) ''tokenizer.ggml.merges'') = Some ms"
  by (simp_all add: demo_gguf_def demo_kv_def gguf_get_def str_array_def kv_zero_def)

lemma demo_init:
  assumes "model_of_name (cstr model) = Some m" "length toks = 3" "length ms < 2 ^ 62"
  obtains t where "tokenizer_init (demo_gguf model toks ms tys) = Some t" "tk_model t = m" "tk_tokens t = toks"
    "tk_ttype t = map_option (map sint) (word_array (gguf_get (demo_gguf model toks ms tys) ''tokenizer.ggml.token_type'') GGUF_T_I32 3)"
proof -
  have "length toks < 2 ^ 62" using assms(2) by simp
  then obtain v where v: "hmap_fill (hmap_init 3) 0 toks = Some v" using hmap_fill_get [of toks] assms(2) by metis
  obtain r where r: "hmap_fill (hmap_init (length ms)) 0 ms = Some r" using hmap_fill_get [OF assms(3)] by metis
  note get = demo_str_array [of model toks ms tys]
  have s: "gguf_get_str (demo_gguf model toks ms tys) ''tokenizer.ggml.model'' None = Some (cstr model)"
    by (simp add: demo_gguf_def demo_kv_def gguf_get_def gguf_get_str_def kv_zero_def)
  have u: "gguf_get_u32 (demo_gguf model toks ms tys) ''tokenizer.ggml.bos_token_id'' 1 = 1"
    "gguf_get_u32 (demo_gguf model toks ms tys) ''tokenizer.ggml.eos_token_id'' 2 = 2"
    "gguf_get_u32 (demo_gguf model toks ms tys) ''tokenizer.ggml.unknown_token_id'' (-1) = -1"
    by (simp_all add: demo_gguf_def demo_kv_def gguf_get_def gguf_get_u32_def kv_zero_def)
  have "tokenizer_init (demo_gguf model toks ms tys) \<noteq> None"
    by (cases m) (use assms in \<open>simp_all add: tokenizer_init_def Let_def s u get v r text_or_def special_id_ok_def split: prod.splits\<close>)
  then obtain t where t: "tokenizer_init (demo_gguf model toks ms tys) = Some t" by blast
  have "tk_model t = m \<and> tk_tokens t = toks \<and>
      tk_ttype t = map_option (map sint) (word_array (gguf_get (demo_gguf model toks ms tys) ''tokenizer.ggml.token_type'') GGUF_T_I32 3)"
    using t assms by (cases m) (auto simp: tokenizer_init_def Let_def s u get v r text_or_def special_id_ok_def split: prod.splits)
  then show ?thesis using that [OF t] by blast
qed

abbreviation ordinary :: string where
  "ordinary \<equiv> [CHR 0x01, CHR 0x01, CHR 0x01]"

subsection \<open>Properties\<close>

text \<open>C4: the pieces of a word are those of the greedy merging that repeats, while some adjacent pair is in the table
  of merges, with the leftmost of the pairs of least rank; there is only one, it covers the word, and its pieces are
  written in order. It holds for both loops, in a model of at most 2^24 merges.\<close>

theorem bpe_word_greedy:
  assumes "tokenizer_init g = Some t" "few_merges g"
  shows "\<exists>v. merges (bpe_key t w) (map span_of (init_syms w n)) v \<and>
    (\<forall>v'. merges (bpe_key t w) (map span_of (init_syms w n)) v' \<longrightarrow> v' = v) \<and> contiguous 0 v n \<and>
    bpe_word force t w n cap out = Some (foldl (\<lambda>out a. bpe_emit_span t w cap a out) out v)"
proof -
  obtain v where v: "merges (bpe_key t w) (map span_of (init_syms w n)) v"
    "bpe_word force t w n cap out = Some (foldl (\<lambda>out a. bpe_emit_span t w cap a out) out v)"
    by (rule bpe_word_merges [OF init_exact_ranks [OF assms]])
  have "contiguous 0 v n" by (rule merges_contiguous [OF v(1) init_syms_contiguous])
  then show ?thesis using v merges_unique by blast
qed

lemma bpe_word_greedy_witness:
  "\<exists>t v. tokenizer_init (demo_gguf ''gpt2'' [''a'', ''b'', ''ab''] [''a b''] ordinary) = Some t \<and>
    merges (bpe_key t ''ab'') (map span_of (init_syms ''ab'' 2)) v \<and> contiguous 0 v 2 \<and>
    bpe_word 1 t ''ab'' 2 4 [] = Some (foldl (\<lambda>out a. bpe_emit_span t ''ab'' 4 a out) [] v)"
proof -
  have m: "model_of_name (cstr ''gpt2'') = Some TOK_BPE" by code_simp
  obtain t where t: "tokenizer_init (demo_gguf ''gpt2'' [''a'', ''b'', ''ab''] [''a b''] ordinary) = Some t"
    by (rule demo_init [OF m, of "[''a'', ''b'', ''ab'']" "[''a b'']"]) simp_all
  have "few_merges (demo_gguf ''gpt2'' [''a'', ''b'', ''ab''] [''a b''] ordinary)"
    by (simp add: few_merges_def demo_str_array)
  from bpe_word_greedy [OF t this, of "''ab''" 2 1 4 "[]"] show ?thesis using t by blast
qed

text \<open>C13: the special token at a place is the longest special token that stands there, the first of equal ones;
  there is none exactly when no special token stands there. The buckets by first byte and the sort by length do not
  change the answer.\<close>

theorem special_token_longest:
  assumes "tokenizer_init g = Some t" "i < length s"
  shows "case special_at t s i of
      None \<Rightarrow> \<forall>k. \<not> special_here t s i k
    | Some k \<Rightarrow> special_here t s i k \<and> (\<forall>k'. special_here t s i k' \<longrightarrow> k' = k \<or> longer_first (tk_tokens t) k k')"
proof (cases "special_at t s i")
  case None
  then show ?thesis using special_at_none [OF assms] by simp
next
  case (Some k)
  then show ?thesis using special_at_longest [OF assms, of k] by simp
qed

lemma special_token_longest_witness:
  "\<exists>t. tokenizer_init (demo_gguf ''llama'' [''<'', ''<s>'', ''x''] [] [CHR 0x03, CHR 0x03, CHR 0x01]) = Some t \<and>
    special_at t ''a<s>'' 1 = Some 1"
proof -
  let ?g = "demo_gguf ''llama'' [''<'', ''<s>'', ''x''] [] [CHR 0x03, CHR 0x03, CHR 0x01]"
  have m: "model_of_name (cstr ''llama'') = Some TOK_SPM" by code_simp
  obtain t where t: "tokenizer_init ?g = Some t" "tk_tokens t = [''<'', ''<s>'', ''x'']"
    "tk_ttype t = map_option (map sint) (word_array (gguf_get ?g ''tokenizer.ggml.token_type'') GGUF_T_I32 3)"
    by (rule demo_init [OF m, of "[''<'', ''<s>'', ''x'']" "[]" "[CHR 0x03, CHR 0x03, CHR 0x01]"]) simp_all
  have "map_option (map sint) (word_array (gguf_get ?g ''tokenizer.ggml.token_type'') GGUF_T_I32 3) = Some [3, 3, 1]"
    by code_simp
  then have ty: "tk_ttype t = Some [3, 3, 1]" using t(3) by simp
  have here: "special_here t ''a<s>'' 1 0" "special_here t ''a<s>'' 1 1"
    by (simp_all add: special_here_def special_def tok_type_def type_in_def ty t(2) TT_CONTROL_def stands_at_def)
  have only: "special_here t ''a<s>'' 1 k \<Longrightarrow> k = 0 \<or> k = 1" for k
    by (auto simp: special_here_def special_def tok_type_def type_in_def ty t(2) TT_CONTROL_def TT_USER_DEFINED_def
        less_Suc_eq numeral_3_eq_3)
  have "special_at t ''a<s>'' 1 = Some 1"
  proof (cases "special_at t ''a<s>'' 1")
    case None
    then show ?thesis using special_token_longest [OF t(1), of 1 "''a<s>''"] here by simp
  next
    case (Some k)
    then have k: "special_here t ''a<s>'' 1 k" "1 = k \<or> longer_first (tk_tokens t) k 1"
      using special_token_longest [OF t(1), of 1 "''a<s>''"] here by auto
    show ?thesis using only [OF k(1)] k(2) Some by (auto simp: t(2))
  qed
  then show ?thesis using t(1) by blast
qed

text \<open>C14: encoding always returns, and the queue of merge candidates changes no result: whatever the threshold for
  using it, a text becomes the same tokens, in every model of at most 2^24 merges.\<close>

theorem merge_loops_agree:
  assumes "tokenizer_init g = Some t" "few_merges g"
  shows "\<exists>out. tok_encode force t stale s cap add_bos parse_special = Some out \<and>
    tok_encode force' t stale s cap add_bos parse_special = Some out"
proof -
  have "tok_encode force t stale s cap add_bos parse_special = tok_encode force' t stale s cap add_bos parse_special"
    unfolding tok_encode_def by (rule encode_loop_force [OF init_exact_ranks [OF assms]])
  then show ?thesis using tok_encode_ok [OF assms(1), of cap force' stale s add_bos parse_special] by (auto simp: returns_ok_def)
qed

lemma merge_loops_agree_witness:
  "\<exists>t out. tokenizer_init (demo_gguf ''gpt2'' [''a'', ''b'', ''ab''] [''a b''] ordinary) = Some t \<and>
    tok_encode 0 t [] ''abba'' 8 True True = Some out \<and> tok_encode 1 t [] ''abba'' 8 True True = Some out"
proof -
  have m: "model_of_name (cstr ''gpt2'') = Some TOK_BPE" by code_simp
  obtain t where t: "tokenizer_init (demo_gguf ''gpt2'' [''a'', ''b'', ''ab''] [''a b''] ordinary) = Some t"
    by (rule demo_init [OF m, of "[''a'', ''b'', ''ab'']" "[''a b'']"]) simp_all
  have "few_merges (demo_gguf ''gpt2'' [''a'', ''b'', ''ab''] [''a b''] ordinary)"
    by (simp add: few_merges_def demo_str_array)
  from merge_loops_agree [OF t this, of 0 "[]" "''abba''" 8 True True 1] show ?thesis using t by blast
qed

text \<open>C34: whatever the text, encoding writes no more ids than there is room for, and every id is that of a token.\<close>

theorem tok_encode_in_range:
  assumes "tokenizer_init g = Some t"
  shows "\<exists>out. tok_encode force t stale s cap add_bos parse_special = Some out \<and> length out \<le> cap \<and>
    (\<forall>i \<in> set out. 0 \<le> i \<and> i < int (length (tk_tokens t)))"
  using tok_encode_ok [OF assms, of cap force stale s add_bos parse_special] unfolding returns_ok_def out_ok_def by blast

lemma tok_encode_in_range_witness:
  "\<exists>t out. tokenizer_init (demo_gguf ''llama'' [''a'', ''b'', ''ab''] [] ordinary) = Some t \<and>
    tok_encode (-1) t [] ''abba'' 2 True False = Some out \<and> length out \<le> 2"
proof -
  have m: "model_of_name (cstr ''llama'') = Some TOK_SPM" by code_simp
  obtain t where t: "tokenizer_init (demo_gguf ''llama'' [''a'', ''b'', ''ab''] [] ordinary) = Some t"
    by (rule demo_init [OF m, of "[''a'', ''b'', ''ab'']" "[]"]) simp_all
  from tok_encode_in_range [OF t, of "-1" "[]" "''abba''" 2 True False] show ?thesis using t by blast
qed

end
