(* ===== verification/Tok_Round_Trip.thy ===== *)
theory Tok_Round_Trip
  imports Tok_Encode_Laws Json_Laws Fp16_Laws "HOL-Library.Sublist"
begin

text \<open>
  The byte-level tokenizer of \<open>src/tokenizer.c\<close> ids_read back what it wrote: the alphabet is one code point per byte, the
  pieces of a text spell its bytes in that alphabet, and \<open>tok_decode\<close> spells them back.
\<close>

subsection \<open>UTF-8\<close>

lemma and_0F: "(x :: nat) AND 0x0F = x mod 16" and and_1F: "x AND 0x1F = x mod 32" and and_07: "x AND 0x07 = x mod 8"
  using and_mask [of 16 4 x] and_mask [of 32 5 x] and_mask [of 8 3 x] by simp_all

lemma lead_low: "x < 128 \<Longrightarrow> u8_len (char_of (x :: nat)) = 1"
  by (simp add: u8_len_def)

lemma payload:
  "x < 32 \<Longrightarrow> (0xC0 + x) mod 32 = (x :: nat)" "x < 16 \<Longrightarrow> (0xE0 + x) mod 16 = (x :: nat)"
  "x < 8 \<Longrightarrow> (0xF0 + x) mod 8 = (x :: nat)" "(0x80 + x mod 64) mod 64 = (x :: nat) mod 64"
  using mod_mult_self4 [of 32 6 x] mod_mult_self4 [of 16 14 x] mod_mult_self4 [of 8 30 x] mod_mult_self4 [of 64 2 "x mod 64"]
  by simp_all

lemma split_12: "cp mod 4096 = cp div 64 mod 64 * 64 + (cp :: nat) mod 64"
  and split_18: "cp mod 262144 = cp div 4096 mod 64 * 4096 + (cp div 64 mod 64 * 64 + cp mod 64)"
  using mod_mult2_eq [of cp 64 64] mod_mult2_eq [of cp 4096 64] by (simp_all add: mult.commute)

text \<open>The bytes of a code point, by division.\<close>

lemma u8_encode_div:
  assumes "cp < 2 ^ 21"
  shows "u8_encode cp =
    (if cp < 0x80 then [char_of cp]
     else if cp < 0x800 then [char_of (0xC0 + cp div 64), char_of (0x80 + cp mod 64)]
     else if cp < 0x10000 then
       [char_of (0xE0 + cp div 4096), char_of (0x80 + cp div 64 mod 64), char_of (0x80 + cp mod 64)]
     else [char_of (0xF0 + cp div 262144), char_of (0x80 + cp div 4096 mod 64),
           char_of (0x80 + cp div 64 mod 64), char_of (0x80 + cp mod 64)])"
proof -
  have m: "drop_bit 6 cp = cp div 64" "drop_bit 12 cp = cp div 4096" "drop_bit 18 cp = cp div 262144"
    by (simp_all add: drop_bit_eq_div)
  have "cp div 262144 < 8" using assms by simp
  moreover have "cp div 64 < 32" if "cp < 0x800" using that by simp
  moreover have "cp div 4096 < 16" if "cp < 0x10000" using that by simp
  ultimately show ?thesis by (simp add: u8_encode_def m and_3F or_C0 or_E0 or_F0 or_80)
qed

lemma or_shift: "b < 2 ^ n \<Longrightarrow> push_bit n a OR b = a * 2 ^ n + (b :: nat)"
  by (simp add: push_bit_eq_mult nat_or_disjoint)

theorem u8_encode_decode:
  assumes "cp < 2 ^ 21"
  shows "u8_encode cp \<noteq> [] \<and> u8_len (hd (u8_encode cp)) = length (u8_encode cp) \<and>
    u8_decode (u8_encode cp @ r) (length (u8_encode cp)) = cp"
proof -
  consider "cp < 0x80" | "0x80 \<le> cp" "cp < 0x800" | "0x800 \<le> cp" "cp < 0x10000" | "0x10000 \<le> cp" by linarith
  then show ?thesis
  proof cases
    case 1
    then show ?thesis using assms by (simp add: u8_encode_div lead_low u8_decode_def)
  next
    case 2
    then have "cp div 64 < 32" by simp
    moreover have "push_bit 6 (cp div 64) OR cp mod 64 = cp" using or_shift [of "cp mod 64" 6 "cp div 64"] by simp
    ultimately show ?thesis using 2 assms lead_C0 [of "cp div 64"]
      by (simp add: u8_encode_div u8_len_def u8_decode_def and_3F and_1F payload)
  next
    case 3
    then have a: "cp div 4096 < 16" by simp
    have "cp div 64 mod 64 * 64 + cp mod 64 < 2 ^ 12"
      using mod_less_divisor [of 64 "cp div 64"] mod_less_divisor [of 64 cp] by simp
    then have "push_bit 12 (cp div 4096) OR (push_bit 6 (cp div 64 mod 64) OR cp mod 64) =
        cp div 4096 * 4096 + (cp div 64 mod 64 * 64 + cp mod 64)"
      using or_shift [of "cp mod 64" 6] by (simp add: or_shift)
    also have "\<dots> = cp" using div_mult_mod_eq [of cp 4096] by (simp only: split_12)
    finally show ?thesis using 3 assms lead_E0 [OF a] a
      by (simp add: u8_encode_div u8_len_def u8_decode_def and_3F and_0F payload or.assoc)
  next
    case 4
    then have a: "cp div 262144 < 8" using assms by simp
    have l1: "cp div 64 mod 64 * 64 + cp mod 64 < 2 ^ 12"
      using mod_less_divisor [of 64 "cp div 64"] mod_less_divisor [of 64 cp] by simp
    then have l2: "cp div 4096 mod 64 * 4096 + (cp div 64 mod 64 * 64 + cp mod 64) < 2 ^ 18"
      using mod_less_divisor [of 64 "cp div 4096"] by simp
    have "push_bit 18 (cp div 262144) OR (push_bit 12 (cp div 4096 mod 64) OR (push_bit 6 (cp div 64 mod 64) OR cp mod 64)) =
        cp div 262144 * 262144 + (cp div 4096 mod 64 * 4096 + (cp div 64 mod 64 * 64 + cp mod 64))"
      using or_shift [of "cp mod 64" 6] or_shift [OF l1] or_shift [OF l2] by simp
    also have "\<dots> = cp" using div_mult_mod_eq [of cp 262144] by (simp only: split_18)
    finally show ?thesis using 4 assms lead_F0 [OF a] a
      by (simp add: u8_encode_div u8_len_def u8_decode_def and_3F and_07 payload or.assoc)
  qed
qed

subsection \<open>The alphabet\<close>

definition remapped :: "nat \<Rightarrow> nat" where
  "remapped b = length (filter (\<lambda>x. \<not> keeps_byte x) [0..<b])"

definition code_of :: "nat \<Rightarrow> nat" where
  "code_of b = (if keeps_byte b then b else 256 + remapped b)"

lemma remapped_Suc: "remapped (Suc b) = remapped b + (if keeps_byte b then 0 else 1)"
  by (simp add: remapped_def)

lemma remapped_mono: "a \<le> b \<Longrightarrow> remapped a \<le> remapped b"
  by (induction b rule: dec_induct) (auto simp: remapped_Suc)

lemma remapped_less: "a < b \<Longrightarrow> \<not> keeps_byte a \<Longrightarrow> remapped a < remapped b"
  using remapped_mono [of "Suc a" b] by (simp add: remapped_Suc)

lemma code_of_less: "b < 256 \<Longrightarrow> code_of b < 512"
  using length_filter_le [of "\<lambda>x. \<not> keeps_byte x" "[0..<b]"] by (simp add: code_of_def remapped_def)

lemma code_of_inj: "a < 256 \<Longrightarrow> b < 256 \<Longrightarrow> code_of a = code_of b \<Longrightarrow> a = b"
  using remapped_less [of a b] remapped_less [of b a]
  by (cases a b rule: linorder_cases) (auto simp: code_of_def split: if_splits)

lemma alphabet_steps:
  "n \<le> 256 \<Longrightarrow> \<exists>u2b. foldl alphabet_step ([], replicate 512 (-1), 0) [0..<n] = (map code_of [0..<n], u2b, remapped n) \<and>
    length u2b = 512 \<and> (\<forall>b<n. u2b ! code_of b = int b)"
proof (induction n)
  case 0
  then show ?case by (simp add: remapped_def)
next
  case (Suc n)
  then obtain u2b where u: "foldl alphabet_step ([], replicate 512 (-1), 0) [0..<n] = (map code_of [0..<n], u2b, remapped n)"
    "length u2b = 512" "\<forall>b<n. u2b ! code_of b = int b" by auto
  have "u2b[code_of n := int n] ! code_of b = int b" if "b < Suc n" for b
  proof (cases "b = n")
    case False
    then have "code_of n \<noteq> code_of b" using code_of_inj [of b n] that Suc.prems by auto
    then show ?thesis using u(3) that False by simp
  qed (use u(2) Suc.prems code_of_less in simp)
  then show ?case using u(1,2)
    by (intro exI [of _ "u2b[code_of n := int n]"]) (simp add: alphabet_step_def Let_def code_of_def remapped_Suc)
qed

lemma alphabet_spec: "b < 256 \<Longrightarrow> fst alphabet ! b = code_of b \<and> snd alphabet ! code_of b = int b"
  using alphabet_steps [of 256] by (auto simp: alphabet_def)

text \<open>A byte in the alphabet, and a text.\<close>

definition byte_text :: "char \<Rightarrow> string" where
  "byte_text c = u8_encode (code_of (byte c))"

definition spell :: "string \<Rightarrow> string" where
  "spell s = concat (map byte_text s)"

lemma spell_simps [simp]: "spell [] = []" "spell (c # s) = byte_text c @ spell s" "spell (s @ s') = spell s @ spell s'"
  by (simp_all add: spell_def)

lemma byte_text:
  "byte_text c \<noteq> []" "u8_len (hd (byte_text c)) = length (byte_text c)"
  "u8_decode (byte_text c @ r) (length (byte_text c)) = code_of (byte c)"
proof -
  have "code_of (byte c) < 2 ^ 21" using code_of_less [of "byte c"] by simp
  from u8_encode_decode [OF this] show "byte_text c \<noteq> []" "u8_len (hd (byte_text c)) = length (byte_text c)"
    "u8_decode (byte_text c @ r) (length (byte_text c)) = code_of (byte c)" by (simp_all add: byte_text_def)
qed

lemma byte_text_first: "u8_len ((byte_text c @ r) ! 0) = length (byte_text c)"
  using byte_text(1,2) [of c] by (simp add: nth_append hd_conv_nth)

lemma byte_text_ne [simp]: "byte_text c \<noteq> []"
  by (rule byte_text(1))

lemma byte_text_pos: "0 < length (byte_text c)"
  by simp

subsection \<open>Decoding\<close>

definition byte_level :: "tokenizer \<Rightarrow> bool" where
  "byte_level t \<longleftrightarrow> tk_b2u t = fst alphabet \<and> tk_u2b t = snd alphabet"

lemma byte_level_text: "byte_level t \<Longrightarrow> u8_encode (tk_b2u t ! byte c) = byte_text c"
  by (simp add: byte_level_def byte_text_def alphabet_spec)

lemma unmap_bytes_spell:
  "byte_level t \<Longrightarrow> length out + length b \<le> cap \<Longrightarrow> unmap_bytes t cap (spell b) out = out @ b"
proof (induction b arbitrary: out)
  case Nil
  then show ?case by (simp add: unmap_bytes.simps)
next
  case (Cons c b)
  have len: "char_len (spell (c # b)) (length (spell (c # b))) 0 = length (byte_text c)"
    by (simp add: char_len_def byte_text_first)
  have dec: "u8_decode (spell (c # b)) (length (byte_text c)) = code_of (byte c)" by (simp add: byte_text(3))
  have u: "code_of (byte c) < 512" "tk_u2b t ! code_of (byte c) = int (byte c)"
    using Cons.prems(1) alphabet_spec [of "byte c"] code_of_less [of "byte c"] by (simp_all add: byte_level_def)
  have "unmap_bytes t cap (spell (c # b)) out = unmap_bytes t cap (spell b) (out @ [c])"
    by (subst unmap_bytes.simps) (use Cons.prems len dec u byte_text(1) [of c] in \<open>simp add: Let_def\<close>)
  then show ?case using Cons.IH [of "out @ [c]"] Cons.prems by simp
qed

text \<open>The ids whose pieces spell the text, one after the other.\<close>

fun ids_read :: "tokenizer \<Rightarrow> int list \<Rightarrow> string \<Rightarrow> bool" where
  "ids_read t [] s \<longleftrightarrow> s = []"
| "ids_read t (i # ids) s \<longleftrightarrow>
     (\<exists>b s'. s = b @ s' \<and> b \<noteq> [] \<and> 0 \<le> i \<and> i < int (length (tk_tokens t)) \<and> tk_tokens t ! nat i = spell b \<and> ids_read t ids s')"

lemma ids_read_append: "ids_read t ids s \<Longrightarrow> ids_read t ids' s' \<Longrightarrow> ids_read t (ids @ ids') (s @ s')"
proof (induction ids arbitrary: s)
  case (Cons i ids)
  then obtain b r where b: "s = b @ r" "b \<noteq> []" "0 \<le> i" "i < int (length (tk_tokens t))" "tk_tokens t ! nat i = spell b" "ids_read t ids r"
    by auto
  then show ?case using Cons.IH [OF b(6) Cons.prems(2)]
    by (simp only: append_Cons ids_read.simps) (rule exI [of _ b], rule exI [of _ "r @ s'"], simp)
qed simp

lemma ids_read_length: "ids_read t ids s \<Longrightarrow> length ids \<le> length s"
proof (induction ids arbitrary: s)
  case (Cons i ids)
  then obtain b r where "s = b @ r" "b \<noteq> []" "ids_read t ids r" by auto
  then show ?case using Cons.IH [of r] by (cases b) auto
qed simp

definition printable :: "tokenizer \<Rightarrow> string \<Rightarrow> bool" where
  "printable t s \<longleftrightarrow>
     (\<forall>i<length (tk_tokens t). tok_type t i = TT_CONTROL \<or> tok_type t i = TT_UNUSED \<longrightarrow> \<not> sublist (tk_tokens t ! i) (spell s))"

lemma printable_parts: "printable t (s @ s') \<Longrightarrow> printable t s \<and> printable t s'"
  unfolding printable_def spell_simps by (simp add: sublist_append)

lemma ids_read_decode:
  "ids_read t ids s \<Longrightarrow> byte_level t \<Longrightarrow> tk_model t = TOK_BPE \<Longrightarrow> printable t s \<Longrightarrow> length s \<le> cap \<Longrightarrow>
    concat (map (\<lambda>i. tok_decode t i cap) ids) = s"
proof (induction ids arbitrary: s)
  case (Cons i ids)
  then obtain b r where b: "s = b @ r" "b \<noteq> []" "0 \<le> i" "i < int (length (tk_tokens t))" "tk_tokens t ! nat i = spell b" "ids_read t ids r"
    by auto
  have p: "printable t b" "printable t r" using printable_parts [of t b r] Cons.prems(4) b(1) by auto
  have n: "nat i < length (tk_tokens t)" using b(3,4) by simp
  have "tok_type t (nat i) \<noteq> TT_CONTROL" "tok_type t (nat i) \<noteq> TT_UNUSED"
    using n p(1) [unfolded printable_def, rule_format, of "nat i"] b(3,4,5) by auto
  then have "tok_decode t i cap = b"
    using b Cons.prems unmap_bytes_spell [OF Cons.prems(2), of "[]" b cap] by (simp add: tok_decode_def Let_def)
  then show ?case using Cons.IH [OF b(6)] Cons.prems p(2) b(1) by simp
qed simp

subsection \<open>The pieces of a word\<close>

fun span_list :: "nat \<Rightarrow> string list \<Rightarrow> span list" where
  "span_list i [] = []"
| "span_list i (b # bs) = (i, length (spell b)) # span_list (i + length (spell b)) bs"

lemma span_list_fuse:
  "span_list i bs = us @ a # b # vs \<Longrightarrow> [] \<notin> set bs \<Longrightarrow>
    \<exists>bs'. span_list i bs' = us @ fuse a b # vs \<and> concat bs' = concat bs \<and> [] \<notin> set bs'"
proof (induction us arbitrary: i bs)
  case Nil
  then obtain x y zs where "bs = x # y # zs" by (cases bs rule: remdups_adj.cases) auto
  then show ?case using Nil by (intro exI [of _ "(x @ y) # zs"]) (auto simp: fuse_def add.assoc)
next
  case (Cons u us)
  then obtain x zs where x: "bs = x # zs" "u = (i, length (spell x))" "span_list (i + length (spell x)) zs = us @ a # b # vs"
    by (cases bs) auto
  obtain bs' where "span_list (i + length (spell x)) bs' = us @ fuse a b # vs" "concat bs' = concat zs"
    "[] \<notin> set bs'" using Cons.IH [OF x(3)] Cons.prems(2) x(1) by auto
  then show ?case using x Cons.prems(2) by (intro exI [of _ "x # bs'"]) simp
qed

lemma merges_span_list: "merges key v w \<Longrightarrow> v = span_list i bs \<Longrightarrow> [] \<notin> set bs \<Longrightarrow>
    \<exists>bs'. w = span_list i bs' \<and> concat bs' = concat bs \<and> [] \<notin> set bs'"
proof (induction arbitrary: bs rule: merges.induct)
  case (merges_step us a b vs w)
  obtain bs' where bs': "span_list i bs' = us @ fuse a b # vs" "concat bs' = concat bs" "[] \<notin> set bs'"
    using span_list_fuse [of i bs us a b vs] merges_step.prems by auto
  then show ?case using merges_step.IH [of bs'] by auto
qed blast

lemma cut_syms_spell:
  "map span_of (cut_syms (pre @ spell s @ post) (length pre + length (spell s)) (length pre) k) =
    span_list (length pre) (map (\<lambda>c. [c]) s)"
proof (induction s arbitrary: pre k)
  case Nil
  then show ?case by (simp add: cut_syms.simps)
next
  case (Cons c s)
  let ?w = "pre @ spell (c # s) @ post"
  have l: "char_len ?w (length pre + length (spell (c # s))) (length pre) = length (byte_text c)"
    using byte_text_first [of c "spell s @ post"] by (simp add: char_len_def nth_append Let_def)
  have "map span_of (cut_syms ?w (length pre + length (spell (c # s))) (length pre + length (byte_text c)) (k + 1)) =
      span_list (length pre + length (byte_text c)) (map (\<lambda>c. [c]) s)"
    using Cons.IH [of "pre @ byte_text c" "k + 1"] by (simp add: add.assoc)
  then show ?case by (subst cut_syms.simps) (use l byte_text_pos [of c] in simp)
qed

lemma spell_pos: "s \<noteq> [] \<Longrightarrow> 0 < length (spell s)"
  by (cases s) simp_all

text \<open>Every byte of the text is a piece.\<close>

definition has_bytes :: "tokenizer \<Rightarrow> string \<Rightarrow> bool" where
  "has_bytes t s \<longleftrightarrow> (\<forall>c \<in> set s. byte_text c \<in> set (tk_tokens t))"

lemma emit_reads:
  assumes t: "tokenizer_init g = Some t" and x: "0 \<le> hmap_get (tk_vocab t) (spell b)" and b: "b \<noteq> []"
    and cap: "length out < cap"
  shows "\<exists>ids. emit_id cap out (hmap_get (tk_vocab t) (spell b)) = out @ ids \<and> ids_read t ids b"
proof -
  obtain j where "hmap_get (tk_vocab t) (spell b) = int j" "j < length (tk_tokens t)" "tk_tokens t ! j = spell b"
    using x by (rule_tac vocab_cases [OF t, of "spell b"]) auto
  then show ?thesis using b cap by (intro exI [of _ "[int j]"]) (auto simp: emit_id_def)
qed

lemma char_fallback_reads:
  assumes t: "tokenizer_init g = Some t"
  shows "has_bytes t s \<Longrightarrow> length out + length s \<le> cap \<Longrightarrow> start + j = length pre \<Longrightarrow> len = j + length (spell s) \<Longrightarrow>
    \<exists>ids. char_fallback t (pre @ spell s @ post) cap start len j out = out @ ids \<and> ids_read t ids s"
proof (induction s arbitrary: pre j out)
  case Nil
  then show ?case by (simp add: char_fallback.simps)
next
  case (Cons c s)
  let ?w = "pre @ spell (c # s) @ post"
  have w: "?w ! (start + j) = (byte_text c @ spell s @ post) ! 0" "drop (start + j) ?w = byte_text c @ spell s @ post"
    using Cons.prems(3) by (simp_all add: nth_append)
  have l: "u8_len (?w ! (start + j)) = length (byte_text c)" unfolding w(1) by (rule byte_text_first)
  have "byte_text c \<in> set (tk_tokens t)" using Cons.prems(1) by (simp add: has_bytes_def)
  then have x: "0 \<le> hmap_get (tk_vocab t) (spell [c])" by (rule_tac vocab_cases [OF t, of "spell [c]"]) auto
  have cap: "length out < cap" using Cons.prems(2) by simp
  obtain ids where ids: "emit_id cap out (hmap_get (tk_vocab t) (spell [c])) = out @ ids" "ids_read t ids [c]"
    using emit_reads [OF t x _ cap] by blast
  have "length ids \<le> 1" using ids_read_length [OF ids(2)] by simp
  then obtain ids' where ids': "char_fallback t ((pre @ byte_text c) @ spell s @ post) cap start len (j + length (byte_text c)) (out @ ids) =
      (out @ ids) @ ids'" "ids_read t ids' s"
    using Cons.IH [of "out @ ids" "j + length (byte_text c)" "pre @ byte_text c"] Cons.prems by (auto simp: has_bytes_def add.assoc)
  have "char_fallback t ?w cap start len j out =
      char_fallback t ?w cap start len (j + length (byte_text c)) (out @ ids)"
    by (subst char_fallback.simps) (use Cons.prems(4) l w(2) x ids(1) byte_text_pos [of c] in \<open>simp add: Let_def\<close>)
  then show ?case using ids' ids_read_append [OF ids(2) ids'(2)] by (intro exI [of _ "ids @ ids'"]) simp
qed

lemma emit_spans_read:
  assumes t: "tokenizer_init g = Some t"
  shows "has_bytes t (concat bs) \<Longrightarrow> length out + length (concat bs) \<le> cap \<Longrightarrow> [] \<notin> set bs \<Longrightarrow>
    \<exists>ids. foldl (\<lambda>out a. bpe_emit_span t (pre @ spell (concat bs) @ post) cap a out) out (span_list (length pre) bs) = out @ ids \<and>
      ids_read t ids (concat bs)"
proof (induction bs arbitrary: pre out)
  case (Cons b bs)
  let ?w = "pre @ spell (concat (b # bs)) @ post"
  let ?a = "(length pre, length (spell b))"
  have st: "span_text ?w ?a = spell b" by (simp add: span_text_def)
  have b: "b \<noteq> []" using Cons.prems(3) by auto
  have "\<exists>ids. bpe_emit_span t ?w cap ?a out = out @ ids \<and> ids_read t ids b"
  proof (cases "hmap_get (tk_vocab t) (spell b) < 0")
    case True
    then show ?thesis
      using char_fallback_reads [OF t, of b out cap "length pre" 0 pre "length (spell b)" "spell (concat bs) @ post"] Cons.prems st
      by (simp add: bpe_emit_span_def Let_def has_bytes_def)
  next
    case False
    have "length out < cap" using Cons.prems(2) b by (cases b) auto
    then show ?thesis using emit_reads [OF t _ b] False st by (simp add: bpe_emit_span_def Let_def)
  qed
  then obtain ids where ids: "bpe_emit_span t ?w cap ?a out = out @ ids" "ids_read t ids b" by blast
  obtain ids' where ids': "foldl (\<lambda>out a. bpe_emit_span t ((pre @ spell b) @ spell (concat bs) @ post) cap a out) (out @ ids)
      (span_list (length (pre @ spell b)) bs) = (out @ ids) @ ids'" "ids_read t ids' (concat bs)"
    using Cons.IH [of "out @ ids" "pre @ spell b"] Cons.prems ids_read_length [OF ids(2)] by (auto simp: has_bytes_def)
  then show ?case using ids ids_read_append [OF ids(2) ids'(2)] by (intro exI [of _ "ids @ ids'"]) simp
qed simp

subsection \<open>The text\<close>

text \<open>Whichever loop merges, and however ranks compare as floats: the pieces are those of some merging.\<close>

lemma bpe_word_some_merges:
  assumes "0 < n"
  obtains key v where "merges key (map span_of (init_syms w n)) v"
    "bpe_word force t w n cap out = Some (foldl (\<lambda>out a. bpe_emit_span t w cap a out) out v)"
proof -
  note live = init_syms_live [OF assms, of w]
  obtain key s xs where s: "bpe_merge force t w (init_syms w n) = Some s" "live_syms s xs"
    "merges key (map span_of (init_syms w n)) (spans s xs)"
    using bpe_queue.run_queue_merges [OF live, of t w] bpe_rescan_merges [OF live, of "length (init_syms w n)" t w]
    by (cases "use_merge_queue force (length (init_syms w n))") (auto simp: bpe_merge_def map_spans_upt)
  show ?thesis
    by (rule that [OF s(3)])
      (use s assms over_syms_spans [OF s(2), of "bpe_emit t w cap s" "bpe_emit_span t w cap", OF emit_spans(1)] in \<open>simp add: bpe_word_def\<close>)
qed

lemma bpe_word_reads:
  assumes t: "tokenizer_init g = Some t" and "has_bytes t s" "length out + length s \<le> cap"
  shows "\<exists>ids. bpe_word force t (spell s @ post) (length (spell s)) cap out = Some (out @ ids) \<and> ids_read t ids s"
proof (cases "s = []")
  case True
  then show ?thesis by (simp add: bpe_word_def)
next
  case False
  obtain key v where v: "merges key (map span_of (init_syms (spell s @ post) (length (spell s)))) v"
    "bpe_word force t (spell s @ post) (length (spell s)) cap out =
      Some (foldl (\<lambda>out a. bpe_emit_span t (spell s @ post) cap a out) out v)"
    by (rule bpe_word_some_merges [OF spell_pos [OF False]])
  have "map span_of (init_syms (spell s @ post) (length (spell s))) = span_list 0 (map (\<lambda>c. [c]) s)"
    using cut_syms_spell [of "[]" s post 0] by (simp add: init_syms_spans)
  moreover have "concat (map (\<lambda>c. [c]) s) = s" "[] \<notin> set (map (\<lambda>c. [c]) s)" by (induction s) auto
  ultimately obtain bs where "v = span_list 0 bs" "concat bs = s" "[] \<notin> set bs"
    using merges_span_list [OF v(1), of 0 "map (\<lambda>c. [c]) s"] by auto
  then show ?thesis using emit_spans_read [OF t, of bs out cap "[]" post] assms(2,3) v(2) by simp
qed

abbreviation offsets :: "string \<Rightarrow> nat \<Rightarrow> nat list" where
  "offsets s i \<equiv> map fst (code_points s i) @ [length s]"

lemma offsets_step: "i < length s \<Longrightarrow> offsets s i = i # offsets s (i + char_len s (length s) i)"
  by (subst code_points.simps) simp

lemma offsets_sorted: "i \<le> length s \<Longrightarrow> sorted (offsets s i) \<and> hd (offsets s i) = i"
proof (induction s i rule: code_points.induct)
  case (1 s i)
  show ?case
  proof (cases "i < length s")
    case True
    let ?j = "i + char_len s (length s) i"
    have "sorted (offsets s ?j)" "hd (offsets s ?j) = ?j" using 1(1) [OF True] char_len_end [OF True] by auto
    moreover from this have "\<forall>x \<in> set (offsets s ?j). ?j \<le> x" by (cases "offsets s ?j") auto
    ultimately show ?thesis by (simp only: offsets_step [OF True]) auto
  next
    case False
    then show ?thesis using 1(2) by (subst (1 2) code_points.simps) simp
  qed
qed

lemma has_bytes_append: "has_bytes t (s @ s') \<longleftrightarrow> has_bytes t s \<and> has_bytes t s'"
  by (auto simp: has_bytes_def)

lemma pretokens_reads:
  assumes t: "tokenizer_init g = Some t" and bl: "byte_level t"
    and off: "sorted off" "length off = Suc (length cp)" "last off = length s" and hb: "has_bytes t s"
  shows "i \<le> length cp \<Longrightarrow> length out + length (drop (off ! i) s) \<le> cap \<Longrightarrow>
    \<exists>ids. pretokens force t stale s cp off cap i out = Some (out @ ids) \<and> ids_read t ids (drop (off ! i) s)"
proof (induction "length cp - i" arbitrary: i out rule: less_induct)
  case less
  show ?case
  proof (cases "i < length cp")
    case False
    have "off ! length cp = length s" using off(2,3) by (simp add: last_conv_nth flip: length_greater_0_conv)
    then show ?thesis using False less.prems(1) by (subst pretokens.simps) simp
  next
    case True
    define e where "e = split_next (tk_pre t) cp i"
    have e: "i < e" "e \<le> length cp" using split_next_range [OF True, of "tk_pre t"] by (auto simp: e_def)
    define p where "p = take (off ! e - off ! i) (drop (off ! i) s)"
    have le: "off ! i \<le> off ! e" using sorted_nth_mono [OF off(1)] e off(2) by simp
    have split: "drop (off ! i) s = p @ drop (off ! e) s"
      unfolding p_def using le by (metis append_take_drop_id drop_drop le_add_diff_inverse2)
    have "has_bytes t (take (off ! i) s @ p @ drop (off ! e) s)" using hb split by (metis append_take_drop_id)
    then have hp: "has_bytes t p" by (simp add: has_bytes_append)
    have w: "concat (map (\<lambda>c. u8_encode (tk_b2u t ! byte c)) p) = spell p"
      by (simp add: spell_def byte_level_text [OF bl])
    have cap: "length out + length p + length (drop (off ! e) s) \<le> cap" using less.prems(2) unfolding split by simp
    obtain ids where ids: "bpe_word force t (spell p @ stale) (length (spell p)) cap out = Some (out @ ids)" "ids_read t ids p"
      using bpe_word_reads [OF t hp] cap by (metis add_leD1)
    have "length cp - e < length cp - i" using e by simp
    moreover have "length (out @ ids) + length (drop (off ! e) s) \<le> cap" using ids_read_length [OF ids(2)] cap by simp
    ultimately obtain ids' where ids': "pretokens force t stale s cp off cap e (out @ ids) = Some ((out @ ids) @ ids')"
      "ids_read t ids' (drop (off ! e) s)"
      using less.hyps [OF _ e(2), of "out @ ids"] by blast
    have "pretokens force t stale s cp off cap i out = pretokens force t stale s cp off cap e (out @ ids)"
      by (subst pretokens.simps)
        (simp add: True Let_def e_def [symmetric] p_def [symmetric] w ids(1))
    then show ?thesis using ids' ids_read_append [OF ids(2) ids'(2)] split by simp
  qed
qed

lemma tok_encode_raw_reads:
  assumes t: "tokenizer_init g = Some t" and model: "tk_model t = TOK_BPE" and hb: "has_bytes t s" and cap: "length s \<le> cap"
  shows "\<exists>ids. tok_encode_raw force t stale s cap = Some ids \<and> ids_read t ids s"
proof (cases "s = []")
  case True
  then show ?thesis by (simp add: tok_encode_raw_def)
next
  case False
  have bl: "byte_level t" using init_facts(6) [OF t] model by (auto simp: byte_level_def)
  have o: "sorted (offsets s 0)" "offsets s 0 ! 0 = 0" using offsets_sorted [of 0 s] by (auto simp: hd_conv_nth)
  have "length (map snd (code_points s 0)) = length (code_points s 0)" by simp
  then have "\<exists>ids. pretokens force t stale s (map snd (code_points s 0)) (offsets s 0) cap 0 [] = Some ([] @ ids) \<and>
      ids_read t ids (drop (offsets s 0 ! 0) s)"
    by (intro pretokens_reads [OF t bl o(1) _ _ hb]) (use cap in simp_all)
  then show ?thesis using False o(2) by (simp add: tok_encode_raw_def encode_segment_def model bpe_encode_text_def Let_def)
qed

text \<open>C19: with a byte-level vocabulary that has the bytes of a text, \<open>tok_encode_raw\<close> gives tokens that \<open>tok_decode\<close>
  turns back into exactly that text, whatever bytes it has and however it was split and merged. No control token may
  occur in the text, and the capacities are at least its length.\<close>

theorem tok_round_trip:
  assumes "tokenizer_init g = Some t" "tk_model t = TOK_BPE" "has_bytes t s" "printable t s"
    and "length s \<le> cap" "length s \<le> dcap"
  shows "\<exists>ids. tok_encode_raw force t stale s cap = Some ids \<and> concat (map (\<lambda>i. tok_decode t i dcap) ids) = s"
proof -
  have bl: "byte_level t" using init_facts(6) [OF assms(1)] assms(2) by (auto simp: byte_level_def)
  obtain ids where "tok_encode_raw force t stale s cap = Some ids" "ids_read t ids s"
    using tok_encode_raw_reads [OF assms(1,2,3,5)] by blast
  then show ?thesis using ids_read_decode [OF _ bl assms(2,4,6)] by blast
qed

lemma tok_round_trip_witness:
  "\<exists>t ids. tokenizer_init (demo_gguf ''gpt2'' [''a'', u8_encode 266, ''<s>''] [] [CHR 0x01, CHR 0x01, CHR 0x03]) = Some t \<and>
    tok_encode_raw (-1) t [] [CHR ''a'', CHR 0x0A, CHR ''a''] 3 = Some ids \<and>
    concat (map (\<lambda>i. tok_decode t i 3) ids) = [CHR ''a'', CHR 0x0A, CHR ''a'']"
proof -
  let ?toks = "[''a'', u8_encode 266, ''<s>'']" and ?s = "[CHR ''a'', CHR 0x0A, CHR ''a'']"
  let ?g = "demo_gguf ''gpt2'' ?toks [] [CHR 0x01, CHR 0x01, CHR 0x03]"
  have m: "model_of_name (cstr ''gpt2'') = Some TOK_BPE" by code_simp
  obtain t where t: "tokenizer_init ?g = Some t" "tk_model t = TOK_BPE" "tk_tokens t = ?toks"
    "tk_ttype t = map_option (map sint) (word_array (gguf_get ?g ''tokenizer.ggml.token_type'') GGUF_T_I32 3)"
    by (rule demo_init [OF m, of ?toks "[]" "[CHR 0x01, CHR 0x01, CHR 0x03]"]) simp_all
  have "map_option (map sint) (word_array (gguf_get ?g ''tokenizer.ggml.token_type'') GGUF_T_I32 3) = Some [1, 1, 3]"
    by code_simp
  then have ty: "tk_ttype t = Some [1, 1, 3]" using t(4) by simp
  have b: "byte_text CHR ''a'' = ''a''" "byte_text CHR 0x0A = u8_encode 266" by code_simp+
  have "has_bytes t ?s" by (simp add: has_bytes_def b t(3))
  moreover have "\<not> sublist ''<s>'' (spell ?s)" by code_simp
  then have "printable t ?s"
    by (auto simp: printable_def t(3) tok_type_def type_in_def ty TT_CONTROL_def TT_UNUSED_def less_Suc_eq numeral_3_eq_3)
  ultimately show ?thesis using tok_round_trip [OF t(1,2), of ?s 3 3 "-1" "[]"] t(1) by auto
qed

end
