(* ===== verification/Sampler.thy ===== *)
theory Sampler
  imports Fp16 Json
begin

text \<open>
  The sampler of \<open>src/sample.c\<close>: the repeat penalty, the selection of the best candidates, top-p, min-p and the draw,
  and the presets of model families. The build has \<open>-ffast-math\<close>, under which values are finite and the compiler may
  round and reorder: a float is the rational it denotes, comparison is exact, and what the arithmetic and the mathematics
  library give is the parameter \<open>farith\<close>. The filter of constrained sampling is a predicate on token ids. Memory is
  assumed to be there, so that \<open>-2\<close> is never returned.
\<close>

subsection \<open>Floating-point arithmetic\<close>

text \<open>Single precision, then double precision, the conversion to single, \<open>expf\<close> and \<open>logf\<close>.\<close>

record farith =
  fa_add :: "rat \<Rightarrow> rat \<Rightarrow> rat"
  fa_sub :: "rat \<Rightarrow> rat \<Rightarrow> rat"
  fa_mul :: "rat \<Rightarrow> rat \<Rightarrow> rat"
  fa_div :: "rat \<Rightarrow> rat \<Rightarrow> rat"
  fa_dadd :: "rat \<Rightarrow> rat \<Rightarrow> rat"
  fa_dmul :: "rat \<Rightarrow> rat \<Rightarrow> rat"
  fa_float :: "rat \<Rightarrow> rat"
  fa_exp :: "rat \<Rightarrow> rat"
  fa_log :: "rat \<Rightarrow> rat"

text \<open>A constant of hundredths with the suffix \<open>f\<close>.\<close>

definition hundredths :: "nat \<Rightarrow> rat" where
  "hundredths n = round_to 23 (-149) (of_nat n / 100)"

subsection \<open>The random numbers\<close>

definition rng_next :: "64 word \<Rightarrow> 64 word" where
  "rng_next x = (let x = x XOR push_bit 13 x; x = x XOR drop_bit 7 x in x XOR push_bit 17 x)"

text \<open>\<open>(rng_next(s) >> 40) / 16777216.0f\<close>: 24 bits over a power of two, which no arithmetic has to round.\<close>

definition rng_f32 :: "64 word \<Rightarrow> rat \<times> 64 word" where
  "rng_f32 x = (let y = rng_next x in (of_nat (unat (drop_bit 40 y)) / 16777216, y))"

subsection \<open>The sampler\<close>

record sampler =
  sp_temp :: rat
  sp_top_p :: rat
  sp_min_p :: rat
  sp_repeat_penalty :: rat
  sp_top_k :: int
  sp_rng :: "64 word"
  sp_recent :: "int list"
  sp_n_recent :: nat
  sp_recent_head :: nat
  sp_no_penalty :: "int list"

definition sampler_reset :: "sampler \<Rightarrow> sampler" where
  "sampler_reset s = s\<lparr>sp_n_recent := 0, sp_recent_head := 0\<rparr>"

definition sampler_accept :: "sampler \<Rightarrow> int \<Rightarrow> sampler" where
  "sampler_accept s tok =
     s\<lparr>sp_recent := (sp_recent s)[sp_recent_head s := tok], sp_recent_head := (sp_recent_head s + 1) mod 256,
       sp_n_recent := (if sp_n_recent s < 256 then sp_n_recent s + 1 else sp_n_recent s)\<rparr>"

subsection \<open>Candidates\<close>

record smp_cand =
  sc_p :: rat
  sc_id :: int

definition cand_cmp :: "smp_cand \<Rightarrow> smp_cand \<Rightarrow> int" where
  "cand_cmp x y =
     (if sc_p x \<noteq> sc_p y then (if sc_p x < sc_p y then 1 else -1)
      else sc_id x - sc_id y)"

text \<open>\<open>qsort\<close> with \<open>cand_cmp\<close>. The order is total and the ids differ, so that the result does not depend on the
  method; this is insertion.\<close>

fun insert_cand :: "smp_cand \<Rightarrow> smp_cand list \<Rightarrow> smp_cand list" where
  "insert_cand x [] = [x]"
| "insert_cand x (y # ys) = (if cand_cmp x y \<le> 0 then x # y # ys else y # insert_cand x ys)"

definition sort_cands :: "smp_cand list \<Rightarrow> smp_cand list" where
  "sort_cands xs = foldr insert_cand xs []"

subsection \<open>Selection\<close>

definition swap_at :: "'a list \<Rightarrow> nat \<Rightarrow> nat \<Rightarrow> 'a list" where
  "swap_at c i j = c[i := c ! j, j := c ! i]"

text \<open>The median of three, parked at \<open>lo\<close>.\<close>

definition park_median :: "smp_cand list \<Rightarrow> nat \<Rightarrow> nat \<Rightarrow> smp_cand list" where
  "park_median c lo hi =
     (let mid = lo + (hi - lo) div 2;
          c = (if cand_cmp (c ! mid) (c ! lo) < 0 then swap_at c lo mid else c);
          c = (if cand_cmp (c ! hi) (c ! lo) < 0 then swap_at c lo hi else c);
          c = (if cand_cmp (c ! mid) (c ! hi) < 0 then swap_at c mid hi else c)
      in c)"

text \<open>The two inner loops.\<close>

fun scan_down :: "smp_cand list \<Rightarrow> smp_cand \<Rightarrow> nat \<Rightarrow> nat \<Rightarrow> nat" where
  "scan_down c pivot i 0 = 0"
| "scan_down c pivot i (Suc j) = (if i < Suc j \<and> cand_cmp (c ! Suc j) pivot \<ge> 0 then scan_down c pivot i j else Suc j)"

function scan_up :: "smp_cand list \<Rightarrow> smp_cand \<Rightarrow> nat \<Rightarrow> nat \<Rightarrow> nat" where
  "scan_up c pivot i j = (if i < j \<and> cand_cmp (c ! i) pivot \<le> 0 then scan_up c pivot (i + 1) j else i)"
  by pat_completeness auto
termination
  by (relation "measure (\<lambda>(c, pivot, i, j). j - i)") auto

declare scan_up.simps [simp del]

lemma scan_down_bounds: "i \<le> j \<Longrightarrow> i \<le> scan_down c pivot i j \<and> scan_down c pivot i j \<le> j"
  by (induction c pivot i j rule: scan_down.induct) auto

lemma scan_up_bounds: "i \<le> j \<Longrightarrow> i \<le> scan_up c pivot i j \<and> scan_up c pivot i j \<le> j"
proof (induction c pivot i j rule: scan_up.induct)
  case (1 c pivot i j)
  then show ?case by (subst (1 2) scan_up.simps) auto
qed

text \<open>One turn of the partition moves the two ends together, or does not move a hole at all: with the pivot's place the
  hole at \<open>lo\<close> the first turn moves \<open>j\<close>, and every turn after it ends with \<open>c[i]\<close> above the pivot.\<close>

fun part_loop :: "nat \<Rightarrow> smp_cand list \<Rightarrow> smp_cand \<Rightarrow> nat \<Rightarrow> nat \<Rightarrow> (smp_cand list \<times> nat) option" where
  "part_loop 0 c pivot i j = None"
| "part_loop (Suc f) c pivot i j =
     (if i < j then
        (let j = scan_down c pivot i j; c = c[i := c ! j]; i = scan_up c pivot i j; c = c[j := c ! i]
         in part_loop f c pivot i j)
      else Some (c[i := pivot], i))"

definition partition_at :: "smp_cand list \<Rightarrow> nat \<Rightarrow> nat \<Rightarrow> (smp_cand list \<times> nat) option" where
  "partition_at c lo hi =
     (let c = park_median c lo hi in part_loop (hi - lo + 2) c (c ! lo) lo hi)"

text \<open>The loop of \<open>select_topk\<close>. \<open>hi\<close> is \<open>-1\<close> only when \<open>lo\<close> is 0, and then both this and the truncated subtraction
  end it.\<close>

fun select_loop :: "nat \<Rightarrow> smp_cand list \<Rightarrow> nat \<Rightarrow> nat \<Rightarrow> nat \<Rightarrow> smp_cand list option" where
  "select_loop 0 c k lo hi = None"
| "select_loop (Suc f) c k lo hi =
     (if lo < hi then
        (case partition_at c lo hi of
           None \<Rightarrow> None
         | Some (c, i) \<Rightarrow> if i \<ge> k then select_loop f c k lo (i - 1) else select_loop f c k (i + 1) hi)
      else Some c)"

definition select_topk :: "smp_cand list \<Rightarrow> nat \<Rightarrow> smp_cand list option" where
  "select_topk c k = select_loop (length c + 1) c k 0 (length c - 1)"

subsection \<open>The draw\<close>

text \<open>Up to and including the first element at which the running sum reaches \<open>top_p\<close>.\<close>

fun top_p_cut :: "farith \<Rightarrow> rat \<Rightarrow> rat \<Rightarrow> rat list \<Rightarrow> nat" where
  "top_p_cut fa p cum [] = 0"
| "top_p_cut fa p cum (x # xs) = (if fa_add fa cum x \<ge> p then 1 else Suc (top_p_cut fa p (fa_add fa cum x) xs))"

definition renormalise :: "farith \<Rightarrow> rat list \<Rightarrow> rat list" where
  "renormalise fa ps = map (\<lambda>p. fa_div fa p (foldl (fa_add fa) 0 ps)) ps"

definition filter_top_p :: "farith \<Rightarrow> sampler \<Rightarrow> rat list \<Rightarrow> rat list" where
  "filter_top_p fa s ps = (if sp_top_p s < 1 then renormalise fa (take (top_p_cut fa (sp_top_p s) 0 ps) ps) else ps)"

definition filter_min_p :: "farith \<Rightarrow> sampler \<Rightarrow> rat list \<Rightarrow> rat list" where
  "filter_min_p fa s ps =
     (if sp_min_p s > 0 then
        (let floor_p = fa_mul fa (sp_min_p s) (ps ! 0);
             cut = 1 + length (takeWhile (\<lambda>p. \<not> p < floor_p) (tl ps))
         in if cut < length ps then renormalise fa (take cut ps) else ps)
      else ps)"

text \<open>The walk to the draw \<open>r\<close>: the index where it ends.\<close>

fun roulette :: "farith \<Rightarrow> rat \<Rightarrow> rat \<Rightarrow> rat list \<Rightarrow> nat option" where
  "roulette fa r cum [] = None"
| "roulette fa r cum (p # ps) =
     (if r < fa_add fa cum p then Some 0 else map_option Suc (roulette fa r (fa_add fa cum p) ps))"

text \<open>\<open>pick_scaled\<close>: the pick and whether the walk fell off; \<open>None\<close> if there is no candidate, where the code reads
  outside of the array.\<close>

definition pick_scaled :: "farith \<Rightarrow> sampler \<Rightarrow> smp_cand list \<Rightarrow> rat \<Rightarrow> rat \<Rightarrow> (sampler \<times> int \<times> bool) option" where
  "pick_scaled fa s c norm_sum r_pre =
     (if c = [] then None
      else
        (let ps = map (\<lambda>x. fa_exp fa (fa_sub fa (sc_p x) (sc_p (c ! 0)))) c;
             sum = (if norm_sum > 0 then norm_sum else foldl (fa_add fa) 0 ps);
             ps = filter_min_p fa s (filter_top_p fa s (map (\<lambda>p. fa_div fa p sum) ps));
             (r, rng) = (if r_pre \<ge> 0 then (r_pre, sp_rng s) else rng_f32 (sp_rng s))
         in case roulette fa r 0 ps of
              None \<Rightarrow> Some (s\<lparr>sp_rng := rng\<rparr>, sc_id (c ! (length ps - 1)), True)
            | Some i \<Rightarrow> Some (s\<lparr>sp_rng := rng\<rparr>, sc_id (c ! i), False)))"

subsection \<open>Picking a token\<close>

definition penalise :: "farith \<Rightarrow> sampler \<Rightarrow> rat list \<Rightarrow> int \<Rightarrow> rat list" where
  "penalise fa s logits tok =
     (if tok < 0 \<or> tok \<ge> int (length logits) \<or> tok \<in> set (sp_no_penalty s) then logits
      else
        (let x = logits ! nat tok
         in logits[nat tok := (if x > 0 then fa_div fa x (sp_repeat_penalty s) else fa_mul fa x (sp_repeat_penalty s))]))"

definition repeat_penalties :: "farith \<Rightarrow> sampler \<Rightarrow> rat list \<Rightarrow> rat list" where
  "repeat_penalties fa s logits =
     (if sp_temp s > 0 \<and> sp_repeat_penalty s \<noteq> 1 then foldl (penalise fa s) logits (take (sp_n_recent s) (sp_recent s))
      else logits)"

definition argmax :: "rat list \<Rightarrow> nat" where
  "argmax logits = foldl (\<lambda>best i. if logits ! i > logits ! best then i else best) 0 [1..<length logits]"

definition scaled :: "farith \<Rightarrow> rat \<Rightarrow> rat list \<Rightarrow> smp_cand list" where
  "scaled fa temp logits = map (\<lambda>i. \<lparr>sc_p = fa_div fa (logits ! i) temp, sc_id = int i\<rparr>) [0..<length logits]"

definition HEAD_CAP :: nat where "HEAD_CAP = 4096"

text \<open>The loop that gathers the head: the candidates not below the threshold and their mass; \<open>None\<close> if there are too many.\<close>

fun gather_head :: "farith \<Rightarrow> rat \<Rightarrow> rat \<Rightarrow> smp_cand list \<Rightarrow> smp_cand list \<Rightarrow> rat \<Rightarrow> (smp_cand list \<times> rat) option" where
  "gather_head fa mx t_log [] h mass = Some (h, mass)"
| "gather_head fa mx t_log (x # xs) h mass =
     (if fa_sub fa (sc_p x) mx \<ge> t_log then
        (if length h = HEAD_CAP then None
         else gather_head fa mx t_log xs (h @ [x]) (fa_dadd fa mass (fa_exp fa (fa_sub fa (sc_p x) mx))))
      else gather_head fa mx t_log xs h mass)"

definition head_enough :: "farith \<Rightarrow> sampler \<Rightarrow> rat \<Rightarrow> rat \<Rightarrow> rat \<Rightarrow> rat \<Rightarrow> bool" where
  "head_enough fa s t_log mass tot r_pre =
     (if sp_top_p s < 1 then mass \<ge> fa_dmul fa (sp_top_p s) tot
      else if sp_min_p s > 0 then t_log \<le> fa_log fa (sp_min_p s)
      else mass > fa_dmul fa r_pre tot)"

text \<open>The turns that loosen the threshold. \<open>Some None\<close>: on to the full sort, with the sampler as it is left.\<close>

fun loosen_loop :: "nat \<Rightarrow> farith \<Rightarrow> sampler \<Rightarrow> smp_cand list \<Rightarrow> rat \<Rightarrow> rat \<Rightarrow> rat \<Rightarrow> nat \<Rightarrow> rat \<Rightarrow>
    (sampler \<times> int option) option" where
  "loosen_loop 0 fa s c mx tot t_log want_k r_pre = Some (s, None)"
| "loosen_loop (Suc n) fa s c mx tot t_log want_k r_pre =
     (case gather_head fa mx t_log c [] 0 of
        None \<Rightarrow> Some (s, None)
      | Some (h, mass) \<Rightarrow>
          if \<not> head_enough fa s t_log mass tot r_pre then loosen_loop n fa s c mx tot (fa_mul fa t_log 4) want_k r_pre
          else
            (case pick_scaled fa s (take (min (length h) want_k) (sort_cands h))
                    (if want_k < length c then 0 else fa_float fa tot) r_pre of
               None \<Rightarrow> None
             | Some (s, pick, fell_off) \<Rightarrow> Some (s, if fell_off then None else Some pick)))"

definition head_path :: "farith \<Rightarrow> sampler \<Rightarrow> smp_cand list \<Rightarrow> nat \<Rightarrow> rat \<Rightarrow> (sampler \<times> int option) option" where
  "head_path fa s c want_k r_pre =
     (let mx = foldl (\<lambda>m x. if sc_p x > m then sc_p x else m) (sc_p (c ! 0)) (tl c);
          tot = foldl (\<lambda>t x. fa_dadd fa t (fa_exp fa (fa_sub fa (sc_p x) mx))) 0 c
      in loosen_loop 6 fa s c mx tot (fa_log fa (1 / 1024)) want_k r_pre)"

text \<open>The full sort.\<close>

definition sort_path :: "farith \<Rightarrow> sampler \<Rightarrow> smp_cand list \<Rightarrow> nat \<Rightarrow> rat \<Rightarrow> (int \<Rightarrow> bool) option \<Rightarrow> (sampler \<times> int) option" where
  "sort_path fa s c want_k r_pre ok =
     (let c = sort_cands c
      in if sp_temp s \<le> 0 then
           Some (s, case find (\<lambda>x. (case ok of None \<Rightarrow> True | Some f \<Rightarrow> f (sc_id x))) c of None \<Rightarrow> -1 | Some x \<Rightarrow> sc_id x)
         else
           (let c = (case ok of None \<Rightarrow> take want_k c | Some f \<Rightarrow> take want_k (filter (\<lambda>x. f (sc_id x)) c))
            in if c = [] \<and> ok \<noteq> None then Some (s, -1)
               else map_option (\<lambda>(s, pick, _). (s, pick)) (pick_scaled fa s c 0 r_pre)))"

text \<open>\<open>sample_pick\<close>: the sampler, the logits as they are left, and the token.\<close>

definition sample_pick :: "farith \<Rightarrow> sampler \<Rightarrow> rat list \<Rightarrow> (int \<Rightarrow> bool) option \<Rightarrow> (sampler \<times> rat list \<times> int) option" where
  "sample_pick fa s logits ok =
     (let n_vocab = length logits; logits = repeat_penalties fa s logits; best = argmax logits
      in if sp_temp s \<le> 0 \<and> (case ok of None \<Rightarrow> True | Some f \<Rightarrow> f (int best)) then Some (s, logits, int best)
         else
           (let temp = (if sp_temp s > 0 then sp_temp s else 1);
                want_k = (if sp_top_k s > 0 \<and> sp_top_k s < int n_vocab then nat (sp_top_k s) else n_vocab);
                no_filter = (want_k \<ge> n_vocab \<and> sp_top_p s \<ge> 1 \<and> sp_min_p s \<le> 0);
                (r_pre, s) = (if no_filter \<and> ok = None \<and> sp_temp s > 0 \<and> n_vocab \<ge> 4096
                              then (let (r, g) = rng_f32 (sp_rng s) in (r, s\<lparr>sp_rng := g\<rparr>)) else (-1, s));
                c = scaled fa temp logits
            in if ok = None \<and> sp_temp s > 0 \<and> want_k < n_vocab then
                 (case select_topk c want_k of
                    None \<Rightarrow> None
                  | Some c \<Rightarrow> map_option (\<lambda>(s, pick, _). (s, logits, pick))
                                (pick_scaled fa s (sort_cands (take want_k c)) 0 r_pre))
               else if ok = None \<and> sp_temp s > 0 \<and> n_vocab \<ge> 4096 then
                 (case head_path fa s c want_k r_pre of
                    None \<Rightarrow> None
                  | Some (s, Some pick) \<Rightarrow> Some (s, logits, pick)
                  | Some (s, None) \<Rightarrow> map_option (\<lambda>(s, pick). (s, logits, pick)) (sort_path fa s c want_k r_pre ok))
               else map_option (\<lambda>(s, pick). (s, logits, pick)) (sort_path fa s c want_k r_pre ok)))"

subsection \<open>Presets\<close>

record sampler_preset =
  pr_name :: string
  pr_source :: string
  pr_temp :: rat
  pr_top_p :: rat
  pr_min_p :: rat
  pr_repeat_penalty :: rat
  pr_top_k :: int

text \<open>The floats of a row are constants of hundredths.\<close>

definition preset :: "string \<Rightarrow> string \<Rightarrow> nat \<Rightarrow> nat \<Rightarrow> nat \<Rightarrow> nat \<Rightarrow> int \<Rightarrow> sampler_preset" where
  "preset name source temp top_p min_p repeat_penalty top_k =
     \<lparr>pr_name = name, pr_source = source, pr_temp = hundredths temp, pr_top_p = hundredths top_p,
      pr_min_p = hundredths min_p, pr_repeat_penalty = hundredths repeat_penalty, pr_top_k = top_k\<rparr>"

definition PRESETS :: "sampler_preset list" where
  "PRESETS =
     [preset ''generic'' ''runner defaults (no vendor recommendation for this model)'' 80 95 5 110 40,
      preset ''qwen3'' ''Qwen3 model card best practices (thinking mode)'' 60 95 0 100 20,
      preset ''gpt-oss'' ''OpenAI gpt-oss model card (temperature 1.0, top_p 1.0)'' 100 100 0 100 0,
      preset ''qwen2.5'' ''Qwen2.5-Instruct generation_config.json'' 70 80 0 105 20,
      preset ''llama3'' ''Llama-3.x-Instruct generation_config.json (Meta)'' 60 90 0 110 0,
      preset ''mistral'' ''Mistral AI API defaults (no params in v0.3 generation_config)'' 70 100 0 110 0,
      preset ''gemma3'' ''Gemma 3 inference settings published by the Gemma team'' 100 95 0 110 64,
      preset ''phi3'' ''Phi-3.5-mini-instruct model card sample inference args'' 0 100 0 103 0,
      preset ''smollm2'' ''SmolLM2-Instruct model card suggestion'' 20 90 0 110 0,
      preset ''mistral-nemo'' ''Mistral-Nemo-Instruct-2407 model card (temperature 0.3)'' 30 100 0 110 0,
      preset ''lucie'' ''Lucie-7B-Instruct generation_config.json (OpenLLM-France)'' 60 90 0 110 0,
      preset ''salamandra'' ''salamandra-7b-instruct generation_config.json (BSC-LT)'' 60 100 0 120 0,
      preset ''teuken'' ''Teuken-7B-instruct model card usage example (OpenGPT-X)'' 70 95 0 110 0,
      preset ''gridcore'' ''Gridcore Syntetik contract compiler (deterministic)'' 0 100 0 100 0]"

definition sampler_preset_at :: "int \<Rightarrow> sampler_preset option" where
  "sampler_preset_at i = (if i \<ge> 0 \<and> i < int (length PRESETS) then Some (PRESETS ! nat i) else None)"

definition by_name :: "string \<Rightarrow> sampler_preset" where
  "by_name name = (case find (\<lambda>p. pr_name p = name) PRESETS of None \<Rightarrow> PRESETS ! 0 | Some p \<Rightarrow> p)"

text \<open>\<open>strstr(hay, needle) != NULL\<close>.\<close>

definition has_text :: "string \<Rightarrow> string \<Rightarrow> bool" where
  "has_text hay needle \<longleftrightarrow> list_ex (\<lambda>i. take (length needle) (drop i hay) = needle) [0..<length hay + 1]"

text \<open>\<open>strrchr\<close>: the last place of a character, or -1; and \<open>snprintf\<close> into \<open>n\<close> bytes.\<close>

definition last_place :: "char \<Rightarrow> string \<Rightarrow> int" where
  "last_place c s = int (length s) - 1 - int (length (takeWhile (\<lambda>x. x \<noteq> c) (rev s)))"

definition fitted :: "nat \<Rightarrow> string \<Rightarrow> string" where
  "fitted n s = take (n - 1) s"

definition sampler_ident :: "string option \<Rightarrow> string option \<Rightarrow> nat \<Rightarrow> string" where
  "sampler_ident name path n =
     (let base = (case path of
            None \<Rightarrow> []
          | Some p \<Rightarrow>
              (let slash = last_place CHR ''/'' p; bslash = last_place CHR 0x5C p
               in if bslash > slash then drop (nat (bslash + 1)) p
                  else if slash \<ge> 0 then drop (nat (slash + 1)) p else p))
      in fitted n ((case name of None \<Rightarrow> [] | Some s \<Rightarrow> s) @ '' '' @ base))"

definition to_lower :: "char \<Rightarrow> char" where
  "to_lower c = (if 65 \<le> byte c \<and> byte c \<le> 90 then char_of (byte c + 32) else c)"

text \<open>The constants of \<open>template.h\<close> that matter here, by their place in the enumeration.\<close>

definition TMPL_MISTRAL :: int where "TMPL_MISTRAL = 6"
definition TMPL_MISTRAL_V1 :: int where "TMPL_MISTRAL_V1 = 15"
definition TMPL_MISTRAL_NEMO :: int where "TMPL_MISTRAL_NEMO = 16"

definition sampler_preset_for :: "string option \<Rightarrow> string option \<Rightarrow> int \<Rightarrow> sampler_preset" where
  "sampler_preset_for arch name tmpl =
     (let lname = map to_lower (take 127 (case name of None \<Rightarrow> [] | Some s \<Rightarrow> s));
          arch = (case arch of None \<Rightarrow> [] | Some s \<Rightarrow> s)
      in if has_text lname ''gridcore-'' \<or> has_text lname ''syntetik'' then by_name ''gridcore''
         else if arch = ''gpt-oss'' then by_name ''gpt-oss''
         else if arch = ''qwen3'' then by_name ''qwen3''
         else if arch = ''qwen2'' then by_name ''qwen2.5''
         else if arch = ''phi3'' then by_name ''phi3''
         else if arch = ''gemma3'' \<or> arch = ''gemma4'' then by_name ''gemma3''
         else if tmpl = TMPL_MISTRAL_NEMO then by_name ''mistral-nemo''
         else if tmpl = TMPL_MISTRAL \<or> tmpl = TMPL_MISTRAL_V1 then by_name ''mistral''
         else if has_text lname ''mistral'' \<and> has_text lname ''nemo'' then by_name ''mistral-nemo''
         else if has_text lname ''lucie'' then by_name ''lucie''
         else if has_text lname ''salamandra'' then by_name ''salamandra''
         else if has_text lname ''teuken'' then by_name ''teuken''
         else if has_text lname ''mistral'' then by_name ''mistral''
         else if has_text lname ''smollm'' then by_name ''smollm2''
         else if has_text lname ''qwen3'' then by_name ''qwen3''
         else if has_text lname ''qwen2'' then by_name ''qwen2.5''
         else if has_text lname ''gemma-3'' \<or> has_text lname ''gemma 3'' then by_name ''gemma3''
         else if has_text lname ''phi-3'' \<or> has_text lname ''phi 3'' then by_name ''phi3''
         else if has_text lname ''llama 3'' \<or> has_text lname ''llama-3'' \<or> has_text lname ''llama3'' then by_name ''llama3''
         else PRESETS ! 0)"

text \<open>What the caller has set; a field that is not set is \<open>None\<close>.\<close>

record sampler_override =
  ov_temp :: "rat option"
  ov_top_p :: "rat option"
  ov_min_p :: "rat option"
  ov_top_k :: "int option"
  ov_repeat_penalty :: "rat option"

definition set_or :: "'a \<Rightarrow> 'a option \<Rightarrow> 'a" where
  "set_or d x = (case x of None \<Rightarrow> d | Some v \<Rightarrow> v)"

definition sampler_resolve :: "sampler \<Rightarrow> string option \<Rightarrow> string option \<Rightarrow> int \<Rightarrow> sampler_override option \<Rightarrow>
    sampler \<times> sampler_preset" where
  "sampler_resolve s arch name tmpl ov =
     (let p = sampler_preset_for arch name tmpl;
          s = s\<lparr>sp_temp := pr_temp p, sp_top_p := pr_top_p p, sp_min_p := pr_min_p p,
                sp_repeat_penalty := pr_repeat_penalty p, sp_top_k := pr_top_k p\<rparr>
      in (case ov of
            None \<Rightarrow> s
          | Some v \<Rightarrow>
              s\<lparr>sp_temp := set_or (sp_temp s) (ov_temp v), sp_top_p := set_or (sp_top_p s) (ov_top_p v),
                sp_min_p := set_or (sp_min_p s) (ov_min_p v), sp_top_k := set_or (sp_top_k s) (ov_top_k v),
                sp_repeat_penalty := set_or (sp_repeat_penalty s) (ov_repeat_penalty v)\<rparr>, p))"

text \<open>\<open>%.2f\<close> and \<open>%d\<close>.\<close>

definition two_places :: "rat \<Rightarrow> string" where
  "two_places x =
     (let n = nat (round_even (\<bar>x\<bar> * 100))
      in (if x < 0 then ''-'' else []) @ nat_str (n div 100) @ ''.'' @ nat_str (n div 10 mod 10) @ nat_str (n mod 10))"

definition decimal_int :: "int \<Rightarrow> string" where
  "decimal_int i = (if i < 0 then ''-'' else []) @ nat_str (nat \<bar>i\<bar>)"

definition sampler_describe :: "sampler \<Rightarrow> sampler_preset option \<Rightarrow> nat \<Rightarrow> string" where
  "sampler_describe s p cap =
     (let name = (case p of None \<Rightarrow> ''custom'' | Some p \<Rightarrow> pr_name p)
      in fitted cap
           (if sp_temp s \<le> 0
            then name @ '' (temp '' @ two_places (sp_temp s) @ '' '' @ [CHR 0xE2, CHR 0x80, CHR 0x94] @
              '' greedy argmax; top_p/top_k/min_p/repeat_penalty inactive)''
            else name @ '' (temp '' @ two_places (sp_temp s) @ '', top_p '' @ two_places (sp_top_p s) @
              '', top_k '' @ decimal_int (sp_top_k s) @ '', min_p '' @ two_places (sp_min_p s) @
              '', repeat_penalty '' @ two_places (sp_repeat_penalty s) @ '')''))"

end
