(* ===== verification/Sampler_Laws.thy ===== *)
theory Sampler_Laws
  imports Sampler "HOL-Library.Multiset" "HOL-Library.Product_Lexorder"
begin

text \<open>
  The sampler of \<open>src/sample.c\<close>: selection instead of sorting is exact, a pick is a valid token whatever the arithmetic
  gives, greedy picks are the best valid token, and the window of the repeat penalty holds the last tokens.
\<close>

subsection \<open>The order of candidates\<close>

definition ck :: "smp_cand \<Rightarrow> rat \<times> int" where
  "ck x = (- sc_p x, sc_id x)"

lemma cand_cmp_le: "cand_cmp x y \<le> 0 \<longleftrightarrow> ck x \<le> ck y"
  by (auto simp: cand_cmp_def ck_def less_eq_prod_def)

lemma cand_cmp_less: "cand_cmp x y < 0 \<longleftrightarrow> ck x < ck y"
  by (auto simp: cand_cmp_def ck_def less_prod_def)

lemma cand_cmp_ge: "cand_cmp x y \<ge> 0 \<longleftrightarrow> ck y \<le> ck x"
  using cand_cmp_less [of x y] by auto

lemma insert_cand_insort: "insert_cand x ys = insort_key ck x ys"
  by (induction ys) (auto simp: cand_cmp_le)

lemma sort_cands_sort: "sort_cands xs = sort_key ck xs"
  by (induction xs) (simp_all add: sort_cands_def insert_cand_insort)

lemma set_sort_cands [simp]: "set (sort_cands xs) = set xs" and length_sort_cands [simp]: "length (sort_cands xs) = length xs"
  by (simp_all add: sort_cands_sort)

subsection \<open>Selection\<close>

lemma scan_down_spec:
  "i \<le> j \<Longrightarrow> (\<forall>b. scan_down c p i j < b \<and> b \<le> j \<longrightarrow> ck p \<le> ck (c ! b)) \<and>
    (scan_down c p i j = i \<or> ck (c ! scan_down c p i j) < ck p)"
proof (induction c p i j rule: scan_down.induct)
  case (2 c p i j)
  show ?case
  proof (cases "i < Suc j \<and> cand_cmp (c ! Suc j) p \<ge> 0")
    case True
    then show ?thesis using 2 by (auto simp: cand_cmp_ge le_Suc_eq)
  next
    case False
    then show ?thesis using 2(2) by (auto simp: cand_cmp_ge cand_cmp_less not_le)
  qed
qed auto

lemma scan_up_spec:
  "i \<le> j \<Longrightarrow> (\<forall>a. i \<le> a \<and> a < scan_up c p i j \<longrightarrow> ck (c ! a) \<le> ck p) \<and>
    (scan_up c p i j = j \<or> ck p < ck (c ! scan_up c p i j))"
proof (induction c p i j rule: scan_up.induct)
  case (1 c p i j)
  show ?case
  proof (cases "i < j \<and> cand_cmp (c ! i) p \<le> 0")
    case True
    then have s: "scan_up c p i j = scan_up c p (i + 1) j" by (subst scan_up.simps) simp
    have ih: "(\<forall>a. i + 1 \<le> a \<and> a < scan_up c p (i + 1) j \<longrightarrow> ck (c ! a) \<le> ck p) \<and>
        (scan_up c p (i + 1) j = j \<or> ck p < ck (c ! scan_up c p (i + 1) j))" using 1(1) [OF True] True by simp
    have "ck (c ! a) \<le> ck p" if "i \<le> a" "a < scan_up c p (i + 1) j" for a
      using ih that True by (cases "a = i") (auto simp: cand_cmp_le)
    then show ?thesis using ih by (simp add: s)
  next
    case False
    then have "scan_up c p i j = i" by (subst scan_up.simps) auto
    then show ?thesis using False 1(2) by (auto simp: cand_cmp_le not_le)
  qed
qed

lemma scan_up_moves: "i < j \<Longrightarrow> ck (c ! i) \<le> ck p \<Longrightarrow> i < scan_up c p i j"
  using scan_up_bounds [of "i + 1" j c p] by (subst scan_up.simps) (simp add: cand_cmp_le)

lemma mset_hole: "i < length c \<Longrightarrow> j < length c \<Longrightarrow> mset (c[i := c ! j, j := p]) = mset (c[i := p])"
proof (cases "i = j")
  case False
  assume ij: "i < length c" "j < length c"
  have "mset ((c[i := p])[j := c[i := p] ! i, i := c[i := p] ! j]) = mset (c[i := p])"
    by (rule mset_swap) (use ij in simp_all)
  moreover have "(c[i := p])[j := c[i := p] ! i, i := c[i := p] ! j] = c[i := c ! j, j := p]"
    by (rule nth_equalityI) (use ij False in \<open>auto simp: nth_list_update\<close>)
  ultimately show ?thesis by simp
qed simp

text \<open>A turn of the partition moves the hole from \<open>i\<close> to \<open>i'\<close>.\<close>

lemma part_loop_spec:
  "i \<le> j \<Longrightarrow> j < length c \<Longrightarrow> j - i < f \<Longrightarrow>
    \<exists>c' m. part_loop f c p i j = Some (c', m) \<and> i \<le> m \<and> m \<le> j \<and> mset c' = mset (c[i := p]) \<and> c' ! m = p \<and>
      (\<forall>a<length c. a < i \<or> j < a \<longrightarrow> c' ! a = c ! a) \<and>
      (\<forall>a. i \<le> a \<and> a < m \<longrightarrow> ck (c' ! a) \<le> ck p) \<and> (\<forall>b. m < b \<and> b \<le> j \<longrightarrow> ck p \<le> ck (c' ! b))"
proof (induction f arbitrary: c i j)
  case (Suc f)
  show ?case
  proof (cases "i < j")
    case False
    then show ?thesis using Suc.prems by auto
  next
    case True
    define j' where "j' = scan_down c p i j"
    define c1 where "c1 = c[i := c ! j']"
    define i' where "i' = scan_up c1 p i j'"
    define c2 where "c2 = c1[j' := c1 ! i']"
    have j': "i \<le> j'" "j' \<le> j" using scan_down_bounds [of i j c p] True by (auto simp: j'_def)
    have i': "i \<le> i'" "i' \<le> j'" using scan_up_bounds [OF j'(1), of c1 p] by (auto simp: i'_def)
    have dn: "ck p \<le> ck (c ! b)" if "j' < b" "b \<le> j" for b
      using scan_down_spec [of i j c p] True that by (simp add: j'_def)
    have dn_end: "j' = i \<or> ck (c ! j') < ck p" using scan_down_spec [of i j c p] True by (simp add: j'_def)
    have up: "ck (c1 ! a) \<le> ck p" if "i \<le> a" "a < i'" for a using scan_up_spec [OF j'(1), of c1 p] that by (simp add: i'_def)
    have up_end: "i' = j' \<or> ck p < ck (c1 ! i')" using scan_up_spec [OF j'(1), of c1 p] by (simp add: i'_def)
    have "j' - i' < j - i"
    proof (cases "j' = i")
      case False
      then have "c1 ! i = c ! j'" "ck (c ! j') < ck p" using dn_end Suc.prems(2) True by (auto simp: c1_def)
      then have "i < i'" using scan_up_moves [of i j' c1 p] False j'(1) by (simp add: i'_def)
      then show ?thesis using j' True by linarith
    qed (use i' True in simp)
    then have fuel: "j' - i' < f" using Suc.prems(3) by linarith
    have len: "length c1 = length c" "length c2 = length c" by (simp_all add: c1_def c2_def)
    have jl: "j' < length c2" using j'(2) Suc.prems(2) by (simp add: len)
    obtain c' m where r: "part_loop f c2 p i' j' = Some (c', m)" "i' \<le> m" "m \<le> j'" "mset c' = mset (c2[i' := p])" "c' ! m = p"
      "\<forall>a<length c2. a < i' \<or> j' < a \<longrightarrow> c' ! a = c2 ! a"
      "\<forall>a. i' \<le> a \<and> a < m \<longrightarrow> ck (c' ! a) \<le> ck p" "\<forall>b. m < b \<and> b \<le> j' \<longrightarrow> ck p \<le> ck (c' ! b)"
      using Suc.IH [OF i'(2) jl fuel] by blast
    have loop: "part_loop (Suc f) c p i j = Some (c', m)"
      using True r(1) by (simp add: Let_def j'_def [symmetric] c1_def [symmetric] i'_def [symmetric] c2_def [symmetric])
    have "mset (c2[i' := p]) = mset (c1[j' := p])"
      unfolding c2_def using mset_hole [of j' c1 i' p] i' j' Suc.prems(2) by (simp add: len)
    also have "\<dots> = mset (c[i := p])"
      unfolding c1_def using mset_hole [of i c j' p] True j' Suc.prems(2) by simp
    finally have ms: "mset c' = mset (c[i := p])" using r(4) by simp
    have out: "c' ! a = c ! a" if "a < length c" "a < i \<or> j < a" for a
    proof -
      have "a < i' \<or> j' < a" "a \<noteq> i" "a \<noteq> j'" using that(2) i' j' by auto
      moreover from this have "c2 ! a = c ! a" by (simp add: c2_def c1_def)
      ultimately show ?thesis using r(6) that(1) len(2) by auto
    qed
    have left: "ck (c' ! a) \<le> ck p" if "i \<le> a" "a < m" for a
    proof (cases "a < i'")
      case True
      then have "c' ! a = c1 ! a" using r(6) i'(2) jl len by (simp add: c2_def)
      then show ?thesis using up that(1) True by simp
    qed (use r(7) that(2) in simp)
    have right: "ck p \<le> ck (c' ! b)" if b: "m < b" "b \<le> j" for b
    proof (cases "b \<le> j'")
      case False
      then have "c2 ! b = c ! b" using i' j' by (simp add: c2_def c1_def)
      then have "c' ! b = c ! b" using r(6) b(2) Suc.prems(2) False len(2) by auto
      then show ?thesis using dn False b(2) by simp
    qed (use r(8) b(1) in simp)
    show ?thesis using loop ms out left right r(2,3,5) i' j' by (intro exI [of _ c'] exI [of _ m]) auto
  qed
qed simp

lemma mset_swap_at: "i < length c \<Longrightarrow> j < length c \<Longrightarrow> mset (swap_at c i j) = mset c"
  using mset_swap [of j c i] by (simp add: swap_at_def list_update_swap)

lemma length_swap_at [simp]: "length (swap_at c i j) = length c"
  by (simp add: swap_at_def)

lemma swap_at_other: "a \<noteq> i \<Longrightarrow> a \<noteq> j \<Longrightarrow> swap_at c i j ! a = c ! a"
  by (simp add: swap_at_def)

lemma park_median_spec:
  assumes "lo < hi" "hi < length c"
  shows "mset (park_median c lo hi) = mset c \<and> length (park_median c lo hi) = length c \<and>
    (\<forall>a. a < lo \<or> hi < a \<longrightarrow> park_median c lo hi ! a = c ! a)"
proof -
  define mid where "mid = lo + (hi - lo) div 2"
  define c1 where "c1 = (if cand_cmp (c ! mid) (c ! lo) < 0 then swap_at c lo mid else c)"
  define c2 where "c2 = (if cand_cmp (c1 ! hi) (c1 ! lo) < 0 then swap_at c1 lo hi else c1)"
  have mid: "lo \<le> mid" "mid < hi" using assms(1) by (auto simp: mid_def)
  have pm: "park_median c lo hi = (if cand_cmp (c2 ! mid) (c2 ! hi) < 0 then swap_at c2 mid hi else c2)"
    by (simp only: park_median_def Let_def mid_def c1_def c2_def)
  have 1: "mset c1 = mset c" "length c1 = length c" "\<And>a. a < lo \<or> hi < a \<Longrightarrow> c1 ! a = c ! a"
    using mid assms by (auto simp: c1_def mset_swap_at swap_at_other)
  have 2: "mset c2 = mset c" "length c2 = length c" "\<And>a. a < lo \<or> hi < a \<Longrightarrow> c2 ! a = c ! a"
    using assms 1 by (auto simp: c2_def mset_swap_at swap_at_other)
  show ?thesis using mid assms 2 by (auto simp: pm mset_swap_at swap_at_other)
qed

lemma partition_spec:
  assumes "lo < hi" "hi < length c"
  obtains c' m where "partition_at c lo hi = Some (c', m)" "lo \<le> m" "m \<le> hi" "mset c' = mset c" "length c' = length c"
    "\<And>a. a < lo \<or> hi < a \<Longrightarrow> a < length c \<Longrightarrow> c' ! a = c ! a"
    "\<And>a. lo \<le> a \<Longrightarrow> a < m \<Longrightarrow> ck (c' ! a) \<le> ck (c' ! m)" "\<And>b. m < b \<Longrightarrow> b \<le> hi \<Longrightarrow> ck (c' ! m) \<le> ck (c' ! b)"
proof -
  define d where "d = park_median c lo hi"
  have d: "mset d = mset c" "length d = length c" "\<forall>a. a < lo \<or> hi < a \<longrightarrow> d ! a = c ! a"
    using park_median_spec [OF assms] by (simp_all add: d_def)
  have hl: "hi < length d" using assms(2) d(2) by simp
  have fuel: "hi - lo < hi - lo + 2" by simp
  obtain c' m where r: "part_loop (hi - lo + 2) d (d ! lo) lo hi = Some (c', m)" "lo \<le> m" "m \<le> hi"
    "mset c' = mset (d[lo := d ! lo])" "c' ! m = d ! lo" "\<forall>a<length d. a < lo \<or> hi < a \<longrightarrow> c' ! a = d ! a"
    "\<forall>a. lo \<le> a \<and> a < m \<longrightarrow> ck (c' ! a) \<le> ck (d ! lo)" "\<forall>b. m < b \<and> b \<le> hi \<longrightarrow> ck (d ! lo) \<le> ck (c' ! b)"
    using part_loop_spec [OF less_imp_le [OF assms(1)] hl fuel, of "d ! lo"] by blast
  have ms: "mset c' = mset c" using r(4) d(1) by simp
  show ?thesis
  proof (rule that [of c' m])
    show "partition_at c lo hi = Some (c', m)" using r(1) by (simp add: partition_at_def d_def Let_def)
    show "length c' = length c" using mset_eq_length [OF ms] .
  qed (use r d ms in auto)
qed

text \<open>Every element before place \<open>m\<close> precedes every element from there on.\<close>

definition sep :: "nat \<Rightarrow> smp_cand list \<Rightarrow> bool" where
  "sep m c \<longleftrightarrow> (\<forall>a b. a < m \<longrightarrow> m \<le> b \<longrightarrow> b < length c \<longrightarrow> ck (c ! a) \<le> ck (c ! b))"

lemma sep_set: "sep m c \<longleftrightarrow> (\<forall>x \<in> set (take m c). \<forall>y \<in> set (drop m c). ck x \<le> ck y)"
proof -
  have "(\<exists>a. a < m \<and> a < length c \<and> x = c ! a) \<longleftrightarrow> x \<in> set (take m c)" for x
    by (auto simp: in_set_conv_nth)
  moreover have "(\<exists>b. m \<le> b \<and> b < length c \<and> y = c ! b) \<longleftrightarrow> y \<in> set (drop m c)" for y
  proof
    assume "\<exists>b. m \<le> b \<and> b < length c \<and> y = c ! b"
    then obtain b where "m \<le> b" "b < length c" "y = c ! b" by blast
    then show "y \<in> set (drop m c)" by (auto simp: in_set_conv_nth intro!: exI [of _ "b - m"])
  next
    assume "y \<in> set (drop m c)"
    then obtain i where "i < length c - m" "y = c ! (m + i)" by (auto simp: in_set_conv_nth)
    then show "\<exists>b. m \<le> b \<and> b < length c \<and> y = c ! b" by (intro exI [of _ "m + i"]) simp
  qed
  moreover have "sep m c \<longleftrightarrow> (\<forall>x y. (\<exists>a. a < m \<and> a < length c \<and> x = c ! a) \<longrightarrow>
      (\<exists>b. m \<le> b \<and> b < length c \<and> y = c ! b) \<longrightarrow> ck x \<le> ck y)"
    unfolding sep_def by (blast dest: order.strict_trans [OF order.strict_trans2])
  ultimately show ?thesis by (simp add: Ball_def)
qed

lemma mset_take_drop: "mset (take m c) + mset (drop m c) = mset c"
  by (metis append_take_drop_id mset_append)

text \<open>Permuting a section keeps the separations outside of it.\<close>

lemma sep_section:
  assumes "mset c' = mset c" "\<And>a. a < lo \<or> hi < a \<Longrightarrow> a < length c \<Longrightarrow> c' ! a = c ! a" "sep m c" "m \<le> lo \<or> hi < m"
  shows "sep m c'"
proof -
  have len: "length c' = length c" using mset_eq_length [OF assms(1)] .
  have "mset (take m c') = mset (take m c) \<and> mset (drop m c') = mset (drop m c)"
  proof (cases "m \<le> lo")
    case True
    then have "take m c' = take m c" using assms(2) len by (intro nth_equalityI) auto
    then show ?thesis using mset_take_drop [of m c'] mset_take_drop [of m c] assms(1) by (metis add_left_cancel)
  next
    case False
    then have "drop m c' = drop m c" using assms(2,4) len by (intro nth_equalityI) auto
    then show ?thesis using mset_take_drop [of m c'] mset_take_drop [of m c] assms(1) by (metis add_right_cancel)
  qed
  then have "set (take m c') = set (take m c) \<and> set (drop m c') = set (drop m c)" using mset_eq_setD by metis
  then show ?thesis using assms(3) by (simp add: sep_set)
qed

text \<open>A pivot separates where everything outside of its section is separated already.\<close>

lemma sep_pivot:
  assumes "sep lo c" "sep (Suc hi) c" "lo \<le> m" "m \<le> hi" "hi < length c"
    "\<And>a. lo \<le> a \<Longrightarrow> a < m \<Longrightarrow> ck (c ! a) \<le> ck (c ! m)" "\<And>b. m < b \<Longrightarrow> b \<le> hi \<Longrightarrow> ck (c ! m) \<le> ck (c ! b)"
  shows "sep m c" "sep (Suc m) c"
proof -
  have left: "ck (c ! a) \<le> ck (c ! m)" if "a \<le> m" for a
  proof (cases "a < lo")
    case True
    then show ?thesis using assms(1) assms(3,4,5) by (simp add: sep_def)
  qed (use assms(6) that in \<open>cases "a = m"; simp\<close>)
  have right: "ck (c ! m) \<le> ck (c ! b)" if "m \<le> b" "b < length c" for b
  proof (cases "hi < b")
    case True
    then show ?thesis using assms(2,4) that by (simp add: sep_def)
  qed (use assms(7) that in \<open>cases "b = m"; simp\<close>)
  have both: "ck (c ! a) \<le> ck (c ! b)" if "a \<le> m" "m \<le> b" "b < length c" for a b
    using left [OF that(1)] right [OF that(2,3)] by (rule order_trans)
  show "sep m c" "sep (Suc m) c" unfolding sep_def using both by simp_all
qed

lemma select_loop_spec:
  "sep lo c \<Longrightarrow> sep (Suc hi) c \<Longrightarrow> lo \<le> k \<Longrightarrow> k \<le> Suc hi \<Longrightarrow> 0 < k \<Longrightarrow> hi < length c \<Longrightarrow> Suc hi - lo < f \<Longrightarrow>
    \<exists>c'. select_loop f c k lo hi = Some c' \<and> mset c' = mset c \<and> sep k c'"
proof (induction f arbitrary: c lo hi)
  case (Suc f)
  show ?case
  proof (cases "lo < hi")
    case False
    then have "k = lo \<or> k = Suc hi" using Suc.prems(3,4) by linarith
    then show ?thesis using False Suc.prems(1,2) by auto
  next
    case True
    obtain d m where d: "partition_at c lo hi = Some (d, m)" "lo \<le> m" "m \<le> hi" "mset d = mset c" "length d = length c"
      "\<And>a. a < lo \<or> hi < a \<Longrightarrow> a < length c \<Longrightarrow> d ! a = c ! a"
      "\<And>a. lo \<le> a \<Longrightarrow> a < m \<Longrightarrow> ck (d ! a) \<le> ck (d ! m)" "\<And>b. m < b \<Longrightarrow> b \<le> hi \<Longrightarrow> ck (d ! m) \<le> ck (d ! b)"
      by (rule partition_spec [OF True Suc.prems(6)]) (rule that; assumption)
    have s1: "sep lo d" by (rule sep_section [OF d(4) _ Suc.prems(1), of lo hi]) (simp_all add: d(6))
    have s2: "sep (Suc hi) d" by (rule sep_section [OF d(4) _ Suc.prems(2), of lo hi]) (simp_all add: d(6))
    note s = s1 s2
    have hd: "hi < length d" using d(5) Suc.prems(6) by simp
    note piv = sep_pivot [OF s d(2,3) hd d(7,8)]
    show ?thesis
    proof (cases "m \<ge> k")
      case True
      then have "m > 0" using Suc.prems(5) by simp
      have "\<exists>c'. select_loop f d k lo (m - 1) = Some c' \<and> mset c' = mset d \<and> sep k c'"
        by (rule Suc.IH) (use s piv True \<open>m > 0\<close> hd d(2,3) Suc.prems(3,5,7) in auto)
      then show ?thesis using d(1,4) True \<open>lo < hi\<close> by simp
    next
      case False
      have "\<exists>c'. select_loop f d k (m + 1) hi = Some c' \<and> mset c' = mset d \<and> sep k c'"
        by (rule Suc.IH) (use s piv False hd d(2,3) Suc.prems(4,5,7) in auto)
      then show ?thesis using d(1,4) False \<open>lo < hi\<close> by simp
    qed
  qed
qed simp

lemma select_topk_sep:
  "0 < k \<Longrightarrow> k \<le> length c \<Longrightarrow> \<exists>c'. select_topk c k = Some c' \<and> mset c' = mset c \<and> sep k c'"
  unfolding select_topk_def by (rule select_loop_spec) (auto simp: sep_def)

lemma inj_ck: "inj_on ck A"
  by (rule inj_onI) (simp add: ck_def smp_cand.equality)

lemma sort_cands_eq: "mset c = mset d \<Longrightarrow> sorted (map ck d) \<Longrightarrow> sort_cands c = d"
  unfolding sort_cands_sort by (rule sort_key_inj_key_eq [OF _ inj_ck])

lemma sorted_sort_cands [simp]: "sorted (map ck (sort_cands c))"
  by (simp add: sort_cands_sort)

lemma mset_sort_cands [simp]: "mset (sort_cands c) = mset c"
  by (simp add: sort_cands_sort)

lemma sort_cands_mset: "mset c = mset d \<Longrightarrow> sort_cands c = sort_cands d"
  by (rule sort_cands_eq) simp_all

text \<open>Sorting the parts of a separated array sorts the whole.\<close>

lemma sort_sep: "sep k c \<Longrightarrow> sort_cands c = sort_cands (take k c) @ sort_cands (drop k c)"
  by (rule sort_cands_eq) (auto simp: sep_set sorted_append mset_take_drop)

lemma select_topk_sorted:
  assumes "0 < k" "k \<le> length c"
  obtains c' where "select_topk c k = Some c'" "sort_cands (take k c') = take k (sort_cands c)"
proof -
  obtain c' where c': "select_topk c k = Some c'" "mset c' = mset c" "sep k c'" using select_topk_sep [OF assms] by blast
  have "length c' = length c" using mset_eq_length [OF c'(2)] .
  moreover have "sort_cands c = sort_cands (take k c') @ sort_cands (drop k c')"
    using sort_sep [OF c'(3)] sort_cands_mset [OF c'(2)] by simp
  ultimately have "sort_cands (take k c') = take k (sort_cands c)" using assms(2) by simp
  then show ?thesis using c'(1) that by blast
qed

lemma length_scaled [simp]: "length (scaled fa temp logits) = length logits"
  by (simp add: scaled_def)

lemma length_repeat_penalties [simp]: "length (repeat_penalties fa s logits) = length logits"
proof -
  have "length (foldl (penalise fa s) l ts) = length l" for l ts
    by (induction ts arbitrary: l) (simp_all add: penalise_def Let_def)
  then show ?thesis by (simp add: repeat_penalties_def)
qed

text \<open>
  C9. Selection is exact: with top-k on, the quickselect path of \<open>sample_pick\<close> gives the token, the logits and the state
  of the random numbers that the full sort of the vocabulary gives, which a filter that accepts every token takes. This
  holds for every arithmetic, since the candidates kept are the same in the same order.
\<close>

theorem topk_is_full_sort:
  assumes "sp_temp s > 0" "0 < sp_top_k s" "sp_top_k s < int (length logits)"
  shows "sample_pick fa s logits None = sample_pick fa s logits (Some (\<lambda>_. True))"
proof -
  define k where "k = nat (sp_top_k s)"
  define l where "l = repeat_penalties fa s logits"
  have k: "0 < k" "k < length logits" using assms by (auto simp: k_def)
  obtain c' where c': "select_topk (scaled fa (sp_temp s) l) k = Some c'"
    "sort_cands (take k c') = take k (sort_cands (scaled fa (sp_temp s) l))"
    by (rule select_topk_sorted [of k "scaled fa (sp_temp s) l"]) (use k in \<open>simp_all add: l_def\<close>)
  have "take k (sort_cands (scaled fa (sp_temp s) l)) \<noteq> []" using k by (auto simp: l_def simp flip: length_0_conv)
  then show ?thesis
    using assms k c' by (simp add: sample_pick_def sort_path_def Let_def option.map_comp o_def case_prod_unfold
      flip: k_def l_def)
qed

subsection \<open>Validity\<close>

lemma top_p_cut_pos: "ps \<noteq> [] \<Longrightarrow> 0 < top_p_cut fa p cum ps"
  by (cases ps) auto

lemma top_p_cut_le: "top_p_cut fa p cum ps \<le> length ps"
  by (induction ps arbitrary: cum) auto

lemma filter_top_p_length: "length (filter_top_p fa s ps) \<le> length ps \<and> (ps \<noteq> [] \<longrightarrow> filter_top_p fa s ps \<noteq> [])"
  using top_p_cut_le [of fa "sp_top_p s" 0 ps] top_p_cut_pos [of ps fa "sp_top_p s" 0]
  by (auto simp: filter_top_p_def renormalise_def)

lemma filter_min_p_length: "length (filter_min_p fa s ps) \<le> length ps \<and> (ps \<noteq> [] \<longrightarrow> filter_min_p fa s ps \<noteq> [])"
  by (auto simp: filter_min_p_def renormalise_def Let_def)

lemma roulette_bound: "roulette fa r cum ps = Some i \<Longrightarrow> i < length ps"
  by (induction ps arbitrary: cum i) (auto split: if_splits)

text \<open>Whatever the arithmetic gives, the pick is the id of a candidate.\<close>

lemma pick_scaled_valid:
  assumes "c \<noteq> []"
  obtains s' pick fell_off where "pick_scaled fa s c norm_sum r_pre = Some (s', pick, fell_off)" "pick \<in> sc_id ` set c"
proof -
  define qs where "qs = filter_min_p fa s (filter_top_p fa s (map (\<lambda>p. fa_div fa p
    (if norm_sum > 0 then norm_sum else foldl (fa_add fa) 0 (map (\<lambda>x. fa_exp fa (fa_sub fa (sc_p x) (sc_p (c ! 0)))) c)))
    (map (\<lambda>x. fa_exp fa (fa_sub fa (sc_p x) (sc_p (c ! 0)))) c)))"
  have qs: "length qs \<le> length c" "qs \<noteq> []"
    unfolding qs_def using filter_top_p_length filter_min_p_length assms by (metis le_trans length_map, metis map_is_Nil_conv)
  have last: "sc_id (c ! (length qs - 1)) \<in> sc_id ` set c" using qs assms by (cases "length qs") auto
  obtain r rng where r: "(if r_pre \<ge> 0 then (r_pre, sp_rng s) else rng_f32 (sp_rng s)) = (r, rng)" by fastforce
  have eq: "pick_scaled fa s c norm_sum r_pre =
      (case roulette fa r 0 qs of
         None \<Rightarrow> Some (s\<lparr>sp_rng := rng\<rparr>, sc_id (c ! (length qs - 1)), True)
       | Some i \<Rightarrow> Some (s\<lparr>sp_rng := rng\<rparr>, sc_id (c ! i), False))"
    using assms by (simp only: pick_scaled_def Let_def r prod.case if_False qs_def)
  show ?thesis
  proof (cases "roulette fa r 0 qs")
    case None
    then show ?thesis using eq last that by simp
  next
    case (Some i)
    then have "i < length c" using roulette_bound [OF Some] qs(1) by simp
    then show ?thesis using eq Some that [of _ _ False] by simp
  qed
qed

text \<open>What the validity of a pick needs of the arithmetic: \<open>logf(1/1024)\<close> is not positive, and four times such a number
  is not; the difference of a number with itself is 0.\<close>

definition fa_ok :: "farith \<Rightarrow> bool" where
  "fa_ok fa \<longleftrightarrow> fa_log fa (1 / 1024) \<le> 0 \<and> (\<forall>x. fa_sub fa x x = 0) \<and> (\<forall>x\<le>0. fa_mul fa x 4 \<le> 0)"

lemma gather_head_set:
  "gather_head fa mx t c h mass = Some (h', mass') \<Longrightarrow> set h' = set h \<union> {x \<in> set c. fa_sub fa (sc_p x) mx \<ge> t}"
  by (induction c arbitrary: h mass) (auto split: if_splits)

lemma loosen_loop_valid:
  assumes "fa_ok fa" "x \<in> set c" "sc_p x = mx" "0 < want_k"
  shows "t \<le> 0 \<Longrightarrow> \<exists>s' p. loosen_loop n fa s c mx tot t want_k r_pre = Some (s', p) \<and> (\<forall>i. p = Some i \<longrightarrow> i \<in> sc_id ` set c)"
proof (induction n arbitrary: t)
  case (Suc n)
  show ?case
  proof (cases "gather_head fa mx t c [] 0")
    case (Some hm)
    obtain h mass where hm: "hm = (h, mass)" by fastforce
    have h: "set h = {x \<in> set c. fa_sub fa (sc_p x) mx \<ge> t}" using gather_head_set [of fa mx t c "[]" 0 h mass] Some hm by simp
    then have "x \<in> set h" using assms Suc.prems by (simp add: fa_ok_def)
    then have ne: "take (min (length h) want_k) (sort_cands h) \<noteq> []" using assms(4) set_sort_cands [of h] by (cases "sort_cands h") auto
    show ?thesis
    proof (cases "head_enough fa s t mass tot r_pre")
      case True
      obtain s' pick fell where p: "pick_scaled fa s (take (min (length h) want_k) (sort_cands h))
          (if want_k < length c then 0 else fa_float fa tot) r_pre = Some (s', pick, fell)"
        "pick \<in> sc_id ` set (take (min (length h) want_k) (sort_cands h))"
        by (rule pick_scaled_valid [OF ne])
      have "pick \<in> sc_id ` set c" using p(2) set_take_subset [of _ "sort_cands h"] h by fastforce
      then show ?thesis using Some hm True p(1) by simp
    next
      case False
      have "fa_mul fa t 4 \<le> 0" using assms(1) Suc.prems by (simp add: fa_ok_def)
      then show ?thesis using Suc.IH Some hm False by simp
    qed
  qed simp
qed simp

text \<open>The filter: without one every token is accepted.\<close>

definition accepts :: "(int \<Rightarrow> bool) option \<Rightarrow> int \<Rightarrow> bool" where
  "accepts ok t \<longleftrightarrow> (case ok of None \<Rightarrow> True | Some f \<Rightarrow> f t)"

text \<open>The answers allowed over \<open>n\<close> tokens.\<close>

definition good_pick :: "(int \<Rightarrow> bool) option \<Rightarrow> nat \<Rightarrow> int \<Rightarrow> bool" where
  "good_pick ok n t \<longleftrightarrow>
     (if \<exists>i<n. accepts ok (int i) then 0 \<le> t \<and> t < int n \<and> accepts ok t else t = -1)"

lemma ids_scaled: "sc_id ` set (scaled fa temp logits) = int ` {..<length logits}"
  by (auto simp: scaled_def image_image lessThan_atLeast0)

lemma head_path_valid:
  assumes "fa_ok fa" "c \<noteq> []" "0 < want_k"
  shows "\<exists>s' p. head_path fa s c want_k r_pre = Some (s', p) \<and> (\<forall>i. p = Some i \<longrightarrow> i \<in> sc_id ` set c)"
proof -
  have "foldl (\<lambda>m x. if sc_p x > m then sc_p x else m) m0 xs \<in> insert m0 (sc_p ` set xs)" for m0 xs
  proof (induction xs arbitrary: m0)
    case (Cons a xs)
    then show ?case using Cons.IH [of "sc_p a"] Cons.IH [of m0] by auto
  qed simp
  from this [of "sc_p (c ! 0)" "tl c"] have "foldl (\<lambda>m x. if sc_p x > m then sc_p x else m) (sc_p (c ! 0)) (tl c) \<in> sc_p ` set c"
    using assms(2) by (cases c) auto
  then obtain x where x: "x \<in> set c" "sc_p x = foldl (\<lambda>m x. if sc_p x > m then sc_p x else m) (sc_p (c ! 0)) (tl c)" by auto
  have "fa_log fa (1 / 1024) \<le> 0" using assms(1) by (simp add: fa_ok_def)
  from loosen_loop_valid [OF assms(1) x assms(3) this] show ?thesis by (simp only: head_path_def Let_def)
qed

lemma sort_path_valid:
  assumes "sc_id ` set c = int ` {..<n}" "0 < n" "0 < want_k"
  shows "\<exists>s' p. sort_path fa s c want_k r_pre ok = Some (s', p) \<and> good_pick ok n p"
proof (cases "sp_temp s \<le> 0")
  case True
  show ?thesis
  proof (cases "find (\<lambda>x. accepts ok (sc_id x)) (sort_cands c)")
    case None
    then have "\<forall>x \<in> set c. \<not> accepts ok (sc_id x)" by (auto simp: find_None_iff)
    then have "\<not> (\<exists>i<n. accepts ok (int i))" using assms(1) by (metis (no_types, lifting) image_iff imageI lessThan_iff)
    then show ?thesis using True None by (simp add: sort_path_def good_pick_def accepts_def)
  next
    case (Some x)
    then have x: "x \<in> set c" "accepts ok (sc_id x)" using nth_mem [of _ "sort_cands c"] by (auto simp: find_Some_iff)
    then have "sc_id x \<in> int ` {..<n}" using assms(1) by blast
    then have "good_pick ok n (sc_id x)" using x(2) by (auto simp: good_pick_def)
    then show ?thesis using True Some by (simp add: sort_path_def accepts_def)
  qed
next
  case False
  define d where "d = take want_k (filter (\<lambda>x. accepts ok (sc_id x)) (sort_cands c))"
  have sp: "sort_path fa s c want_k r_pre ok =
      (if d = [] \<and> ok \<noteq> None then Some (s, -1) else map_option (\<lambda>(s, pick, _). (s, pick)) (pick_scaled fa s d 0 r_pre))"
    using False by (cases ok) (simp_all add: sort_path_def d_def accepts_def Let_def)
  show ?thesis
  proof (cases "d = []")
    case True
    then have none: "\<forall>x \<in> set c. \<not> accepts ok (sc_id x)" using assms(3) by (auto simp: d_def filter_empty_conv)
    then have "\<not> (\<exists>i<n. accepts ok (int i))" using assms(1) by (metis (no_types, lifting) image_iff imageI lessThan_iff)
    moreover from this have "ok \<noteq> None" using assms(2) by (cases ok) (auto simp: accepts_def)
    ultimately show ?thesis using True by (simp add: sp good_pick_def)
  next
    case False
    obtain s' pick fell where p: "pick_scaled fa s d 0 r_pre = Some (s', pick, fell)" "pick \<in> sc_id ` set d"
      by (rule pick_scaled_valid [OF False])
    then obtain x where x: "x \<in> set d" "pick = sc_id x" by blast
    then have "x \<in> set c" "accepts ok (sc_id x)" by (auto simp: d_def dest: in_set_takeD)
    then have "good_pick ok n pick" using assms(1) x(2) by (force simp: good_pick_def)
    then show ?thesis using False p(1) by (simp add: sp)
  qed
qed

lemma argmax_spec:
  assumes "l \<noteq> []"
  shows "argmax l < length l \<and> (\<forall>i<length l. l ! i \<le> l ! argmax l) \<and> (\<forall>i<argmax l. l ! i < l ! argmax l)"
proof -
  have "let b = foldl (\<lambda>best i. if l ! i > l ! best then i else best) 0 [1..<n] in
      b < n \<and> (\<forall>i<n. l ! i \<le> l ! b) \<and> (\<forall>i<b. l ! i < l ! b)" if "0 < n" for n
    using that
  proof (induction n rule: nat_induct_non_zero)
    case (Suc n)
    then show ?case by (auto simp: Let_def less_Suc_eq)
  qed simp
  from this [of "length l"] show ?thesis using assms by (simp add: argmax_def Let_def)
qed

lemma argmax_bound: "l \<noteq> [] \<Longrightarrow> argmax l < length l"
  by (simp add: argmax_spec)

text \<open>The paths of \<open>sample_pick\<close>, after the penalties and the draw that may come first.\<close>

definition pick_paths where
  "pick_paths fa s ok l k c s1 r_pre =
      (if sp_temp s \<le> 0 \<and> accepts ok (int (argmax l)) then Some (s, l, int (argmax l))
       else if ok = None \<and> sp_temp s > 0 \<and> k < length l then
         (case select_topk c k of
            None \<Rightarrow> None
          | Some c \<Rightarrow> map_option (\<lambda>(s, pick, _). (s, l, pick)) (pick_scaled fa s1 (sort_cands (take k c)) 0 r_pre))
       else if ok = None \<and> sp_temp s > 0 \<and> length l \<ge> 4096 then
         (case head_path fa s1 c k r_pre of
            None \<Rightarrow> None
          | Some (s, Some pick) \<Rightarrow> Some (s, l, pick)
          | Some (s, None) \<Rightarrow> map_option (\<lambda>(s, pick). (s, l, pick)) (sort_path fa s c k r_pre ok))
       else map_option (\<lambda>(s, pick). (s, l, pick)) (sort_path fa s1 c k r_pre ok))"

definition kept :: "sampler \<Rightarrow> nat \<Rightarrow> nat" where
  "kept s n = (if sp_top_k s > 0 \<and> sp_top_k s < int n then nat (sp_top_k s) else n)"

lemma kept_bounds: "0 < n \<Longrightarrow> 0 < kept s n" "kept s n \<le> n"
  by (auto simp: kept_def)

lemma sample_pick_eq:
  fixes fa s logits
  defines "l \<equiv> repeat_penalties fa s logits"
  defines "c \<equiv> scaled fa (if sp_temp s > 0 then sp_temp s else 1) l"
  obtains s1 r_pre where "sample_pick fa s logits ok = pick_paths fa s ok l (kept s (length logits)) c s1 r_pre"
    "sp_temp s \<le> 0 \<or> ok \<noteq> None \<Longrightarrow> s1 = s"
proof -
  define k where "k = kept s (length logits)"
  obtain r_pre s1 where rs: "(if (k \<ge> length logits \<and> sp_top_p s \<ge> 1 \<and> sp_min_p s \<le> 0) \<and> ok = None \<and> sp_temp s > 0 \<and>
      length logits \<ge> 4096 then (case rng_f32 (sp_rng s) of (r, g) \<Rightarrow> (r, s\<lparr>sp_rng := g\<rparr>)) else (-1, s)) = (r_pre, s1)"
    by fastforce
  then have s1: "sp_temp s1 = sp_temp s" "sp_temp s \<le> 0 \<or> ok \<noteq> None \<Longrightarrow> s1 = s" by (auto split: if_splits prod.splits)
  have "sample_pick fa s logits ok = pick_paths fa s ok l k c s1 r_pre"
    unfolding sample_pick_def Let_def l_def [symmetric] kept_def [symmetric] k_def [symmetric] c_def [symmetric]
      rs prod.case s1(1) pick_paths_def accepts_def by (simp only: l_def length_repeat_penalties)
  then show ?thesis using that s1(2) by (simp only: k_def)
qed

lemma pick_paths_valid:
  assumes "fa_ok fa" "length l = n" "0 < n" "0 < k" "k \<le> n" "length c = n" "sc_id ` set c = int ` {..<n}"
  shows "\<exists>s' l' t. pick_paths fa s ok l k c s1 r_pre = Some (s', l', t) \<and> length l' = n \<and> good_pick ok n t"
proof -
  have ids: "good_pick ok n p" if "ok = None" "p \<in> sc_id ` set c" for p
    using that assms(3,7) by (auto simp: good_pick_def accepts_def)
  have sort: "\<exists>s2 l' p. map_option (\<lambda>(s, pick). (s, l, pick)) (sort_path fa s' c k r_pre ok) = Some (s2, l', p) \<and>
      length l' = n \<and> good_pick ok n p" for s'
    using sort_path_valid [OF assms(7,3,4), of fa s' r_pre ok] assms(2) by auto
  consider (greedy) "sp_temp s \<le> 0 \<and> accepts ok (int (argmax l))"
    | (topk) "ok = None" "sp_temp s > 0" "k < n"
    | (head) "ok = None" "sp_temp s > 0" "\<not> k < n" "n \<ge> 4096"
    | (full) "\<not> (sp_temp s \<le> 0 \<and> accepts ok (int (argmax l)))" "\<not> (ok = None \<and> sp_temp s > 0 \<and> k < n)"
        "\<not> (ok = None \<and> sp_temp s > 0 \<and> n \<ge> 4096)"
    by blast
  then show ?thesis
  proof cases
    case greedy
    have "argmax l < n" using argmax_bound [of l] assms(2,3) by fastforce
    then show ?thesis using greedy assms(2) by (auto simp: pick_paths_def good_pick_def)
  next
    case topk
    obtain c' where c': "select_topk c k = Some c'" "sort_cands (take k c') = take k (sort_cands c)"
      by (rule select_topk_sorted [OF assms(4), of c]) (use assms in \<open>simp, blast\<close>)
    have ne: "take k (sort_cands c) \<noteq> []" using assms by (auto simp flip: length_0_conv)
    obtain s' pick fell where p: "pick_scaled fa s1 (take k (sort_cands c)) 0 r_pre = Some (s', pick, fell)"
      "pick \<in> sc_id ` set (take k (sort_cands c))"
      by (rule pick_scaled_valid [OF ne])
    have "pick \<in> sc_id ` set c" using p(2) set_take_subset [of k "sort_cands c"] by auto
    then show ?thesis using ids topk c' p(1) assms(2) by (simp add: pick_paths_def)
  next
    case head
    have cne: "c \<noteq> []" using assms by auto
    obtain s' p where p: "head_path fa s1 c k r_pre = Some (s', p)" "\<forall>i. p = Some i \<longrightarrow> i \<in> sc_id ` set c"
      using head_path_valid [OF assms(1) cne assms(4)] by blast
    show ?thesis
    proof (cases p)
      case None
      then show ?thesis using head p(1) sort [of s'] assms(2) by (simp add: pick_paths_def)
    next
      case (Some i)
      then show ?thesis using head p ids assms(2) by (simp add: pick_paths_def)
    qed
  next
    case full
    then show ?thesis using sort [of s1] by (simp only: pick_paths_def assms(2) if_False)
  qed
qed

text \<open>
  C10. \<open>sample_pick\<close> returns on every path, whatever the arithmetic rounds to, and with a valid answer: a token of the
  vocabulary that the filter accepts, or -1 exactly when it accepts none. No candidate list of \<open>pick_scaled\<close> is empty.
\<close>

theorem sample_pick_valid:
  assumes "fa_ok fa" "logits \<noteq> []"
  shows "\<exists>s' l' t. sample_pick fa s logits ok = Some (s', l', t) \<and> length l' = length logits \<and> good_pick ok (length logits) t"
proof (rule sample_pick_eq [of fa s logits ok])
  fix s1 r_pre
  assume "sample_pick fa s logits ok = pick_paths fa s ok (repeat_penalties fa s logits) (kept s (length logits))
    (scaled fa (if sp_temp s > 0 then sp_temp s else 1) (repeat_penalties fa s logits)) s1 r_pre"
  then show ?thesis using assms by (simp add: pick_paths_valid ids_scaled kept_bounds)
qed

definition plain_fa :: farith where
  "plain_fa = \<lparr>fa_add = (+), fa_sub = (-), fa_mul = (*), fa_div = (/), fa_dadd = (+), fa_dmul = (*), fa_float = id,
     fa_exp = (\<lambda>x. if x < 0 then 1 / 2 else 1), fa_log = (\<lambda>x. -1)\<rparr>"

definition plain_sampler :: sampler where
  "plain_sampler = \<lparr>sp_temp = 1, sp_top_p = 1, sp_min_p = 0, sp_repeat_penalty = 2, sp_top_k = 1, sp_rng = 1,
     sp_recent = replicate 256 0, sp_n_recent = 0, sp_recent_head = 0, sp_no_penalty = []\<rparr>"

lemma sample_pick_valid_witness:
  "\<exists>s' l' t. sample_pick plain_fa plain_sampler [0, 3, 1] (Some (\<lambda>t. t > 1)) = Some (s', l', t) \<and> length l' = 3 \<and> t = 2"
proof -
  have "fa_ok plain_fa" by (simp add: fa_ok_def plain_fa_def)
  then obtain s' l' t where p: "sample_pick plain_fa plain_sampler [0, 3, 1] (Some (\<lambda>t. t > 1)) = Some (s', l', t)"
    "length l' = length [0, 3, 1 :: rat]" "good_pick (Some (\<lambda>t. t > 1)) (length [0, 3, 1 :: rat]) t"
    using sample_pick_valid [of plain_fa "[0, 3, 1]" plain_sampler "Some (\<lambda>t. t > 1)"] by blast
  have "\<exists>i<length [0, 3, 1 :: rat]. accepts (Some (\<lambda>t. t > 1)) (int i)" by (rule exI [of _ 2]) (simp add: accepts_def)
  then have "t = 2" using p(3) by (simp only: good_pick_def if_True) (simp add: accepts_def)
  then show ?thesis using p(1,2) by simp
qed

lemma topk_is_full_sort_witness:
  "sample_pick plain_fa plain_sampler [0, 3, 1] None = sample_pick plain_fa plain_sampler [0, 3, 1] (Some (\<lambda>_. True))"
  by (rule topk_is_full_sort) (simp_all add: plain_sampler_def)

subsection \<open>Greedy picks\<close>

lemma find_sorted_first:
  "find P xs = Some x \<Longrightarrow> sorted (map ck xs) \<Longrightarrow> y \<in> set xs \<Longrightarrow> P y \<Longrightarrow> P x \<and> ck x \<le> ck y"
  by (induction xs) (auto split: if_splits)

text \<open>
  C20. At temperature 0 the logits and the sampler are left alone, repeat penalty included, and the token is the best
  accepted one: no accepted token has a greater logit, nor an equal one and a smaller id.
\<close>

theorem greedy_best:
  assumes "sp_temp s \<le> 0" "\<And>x. fa_div fa x 1 = x" "i < length logits" "accepts ok (int i)"
  shows "\<exists>t<length logits. sample_pick fa s logits ok = Some (s, logits, int t) \<and> accepts ok (int t) \<and>
    (logits ! i < logits ! t \<or> logits ! i = logits ! t \<and> t \<le> i)"
proof -
  have pen: "repeat_penalties fa s logits = logits" using assms(1) by (simp add: repeat_penalties_def)
  define c where "c = scaled fa 1 logits"
  have c: "x \<in> set c \<longleftrightarrow> (\<exists>j<length logits. x = \<lparr>sc_p = logits ! j, sc_id = int j\<rparr>)" for x
    using assms(2) by (auto simp: c_def scaled_def)
  obtain s1 r_pre where eq: "sample_pick fa s logits ok = pick_paths fa s ok logits (kept s (length logits)) c s1 r_pre" "s1 = s"
    using sample_pick_eq [of fa s logits ok] assms(1) pen c_def by auto
  show ?thesis
  proof (cases "accepts ok (int (argmax logits))")
    case True
    have ne: "logits \<noteq> []" using assms(3) by auto
    note a = argmax_spec [OF ne]
    have "logits ! i < logits ! argmax logits \<or> logits ! i = logits ! argmax logits \<and> argmax logits \<le> i"
      using a assms(3) by (metis less_le linorder_not_le)
    then show ?thesis using True a assms(1) eq by (auto simp: pick_paths_def)
  next
    case False
    have "\<lparr>sc_p = logits ! i, sc_id = int i\<rparr> \<in> set (sort_cands c)" using c assms(3) by auto
    then obtain x where x: "find (\<lambda>x. accepts ok (sc_id x)) (sort_cands c) = Some x"
      using assms(4) by (metis (no_types, lifting) find_None_iff option.exhaust smp_cand.select_convs(2))
    have "accepts ok (sc_id x) \<and> ck x \<le> ck \<lparr>sc_p = logits ! i, sc_id = int i\<rparr>"
      by (rule find_sorted_first [OF x]) (use c assms(3,4) in auto)
    moreover have "x \<in> set c" using x by (metis find_Some_iff nth_mem set_sort_cands)
    then obtain t where t: "t < length logits" "x = \<lparr>sc_p = logits ! t, sc_id = int t\<rparr>" using c by blast
    moreover have "sample_pick fa s logits ok = Some (s, logits, sc_id x)"
      using False assms(1) eq x by (simp add: pick_paths_def sort_path_def accepts_def)
    ultimately show ?thesis by (intro exI [of _ t]) (auto simp: ck_def less_eq_prod_def)
  qed
qed

lemma greedy_best_witness:
  "\<exists>t<3. sample_pick plain_fa (plain_sampler\<lparr>sp_temp := 0\<rparr>) [3, 7, 7] (Some (\<lambda>t. t \<noteq> 1)) =
      Some (plain_sampler\<lparr>sp_temp := 0\<rparr>, [3, 7, 7], int t) \<and> t \<noteq> 1 \<and> (7 < [3, 7, 7 :: rat] ! t \<or> t \<le> 2)"
  using greedy_best [of "plain_sampler\<lparr>sp_temp := 0\<rparr>" plain_fa 2 "[3, 7, 7]" "Some (\<lambda>t. t \<noteq> 1)"]
  by (force simp: plain_fa_def accepts_def)

subsection \<open>The window of the repeat penalty\<close>

abbreviation accepted :: "sampler \<Rightarrow> int list \<Rightarrow> sampler" where
  "accepted s ts \<equiv> foldl sampler_accept (sampler_reset s) ts"

lemma accepted_fields [simp]:
  "sp_temp (accepted s ts) = sp_temp s" "sp_repeat_penalty (accepted s ts) = sp_repeat_penalty s"
  "sp_no_penalty (accepted s ts) = sp_no_penalty s" "length (sp_recent (accepted s ts)) = length (sp_recent s)"
  "sp_n_recent (accepted s ts) = min 256 (length ts)" "sp_recent_head (accepted s ts) = length ts mod 256"
  by (induction ts rule: rev_induct) (simp_all add: sampler_accept_def sampler_reset_def mod_Suc)

lemma accept_recent [simp]: "sp_recent (sampler_accept s t) = (sp_recent s)[sp_recent_head s := t]"
  by (simp add: sampler_accept_def)

lemma rotate_mset: "mset (rotate n xs) = mset xs"
  using mset_take_drop [of "n mod length xs" xs] by (simp add: rotate_drop_take add.commute)

lemma accepted_ring:
  assumes "length (sp_recent s) = 256"
  shows "j < length ts \<Longrightarrow> length ts \<le> j + 256 \<Longrightarrow> sp_recent (accepted s ts) ! (j mod 256) = ts ! j"
proof (induction ts rule: rev_induct)
  case (snoc t ts)
  show ?case
  proof (cases "j = length ts")
    case True
    then show ?thesis using assms by simp
  next
    case False
    then have j: "j < length ts" "length ts \<le> j + 256" "length ts < j + 256" using snoc.prems by auto
    have "length ts mod 256 \<noteq> j mod 256"
    proof
      assume "length ts mod 256 = j mod 256"
      then have "256 dvd length ts - j" using j(1) by (simp add: mod_eq_dvd_iff_nat)
      then show False using j by (auto dest!: dvd_imp_le)
    qed
    then show ?thesis using snoc.IH j by (simp add: nth_append)
  qed
qed simp

lemma accepted_window:
  assumes "length (sp_recent s) = 256"
  shows "mset (take (sp_n_recent (accepted s ts)) (sp_recent (accepted s ts))) = mset (drop (length ts - 256) ts)"
proof (cases "length ts \<le> 256")
  case True
  have "take (length ts) (sp_recent (accepted s ts)) ! j = ts ! j" if "j < length ts" for j
    using accepted_ring [OF assms, of j ts] that True by (cases "j < 256") auto
  then have "take (length ts) (sp_recent (accepted s ts)) = ts"
    using True assms by (intro nth_equalityI) (auto simp del: nth_take)
  then show ?thesis using True by (simp add: min_def)
next
  case False
  have "rotate (length ts) (sp_recent (accepted s ts)) = drop (length ts - 256) ts"
  proof (rule nth_equalityI)
    fix k
    assume "k < length (rotate (length ts) (sp_recent (accepted s ts)))"
    then have k: "k < 256" using assms by simp
    define j where "j = length ts - 256 + k"
    have "(length ts + k) mod 256 = (j + 256) mod 256" using False by (simp add: j_def)
    then have "(length ts + k) mod 256 = j mod 256" by simp
    then have "rotate (length ts) (sp_recent (accepted s ts)) ! k = sp_recent (accepted s ts) ! (j mod 256)"
      using assms k by (simp add: nth_rotate)
    also have "\<dots> = ts ! j" by (rule accepted_ring [OF assms]) (use False k in \<open>auto simp: j_def\<close>)
    finally show "rotate (length ts) (sp_recent (accepted s ts)) ! k = drop (length ts - 256) ts ! k" by (simp add: j_def)
  qed (use False assms in simp)
  then have "mset (sp_recent (accepted s ts)) = mset (drop (length ts - 256) ts)" by (metis rotate_mset)
  then show ?thesis using False assms by simp
qed

text \<open>One application of the penalty to a logit.\<close>

definition penalty :: "farith \<Rightarrow> rat \<Rightarrow> rat \<Rightarrow> rat" where
  "penalty fa p x = (if x > 0 then fa_div fa x p else fa_mul fa x p)"

lemma penalise_nth:
  "i < length l \<Longrightarrow> penalise fa s l t ! i =
     (if t = int i \<and> t \<notin> set (sp_no_penalty s) then penalty fa (sp_repeat_penalty s) (l ! i) else l ! i)"
  by (auto simp: penalise_def penalty_def Let_def nth_list_update)

lemma length_penalise [simp]: "length (penalise fa s l t) = length l"
  by (simp add: penalise_def Let_def)

lemma penalties_nth:
  "i < length l \<Longrightarrow> foldl (penalise fa s) l ts ! i =
     (penalty fa (sp_repeat_penalty s) ^^ (if int i \<in> set (sp_no_penalty s) then 0 else count_list ts (int i))) (l ! i)"
proof (induction ts arbitrary: l)
  case (Cons t ts)
  then show ?case using Cons.IH [of "penalise fa s l t"] by (auto simp: penalise_nth funpow_swap1)
qed simp

text \<open>
  C3. The repeat penalty reads exactly the last 256 accepted tokens: after any sequence of them, each logit has been
  penalised once for every time its token is among the last 256, and not at all if it is exempt.
\<close>

theorem penalty_counts_window:
  assumes "length (sp_recent s) = 256" "sp_temp s > 0" "sp_repeat_penalty s \<noteq> 1" "i < length logits"
  shows "repeat_penalties fa (foldl sampler_accept (sampler_reset s) ts) logits ! i =
    (penalty fa (sp_repeat_penalty s) ^^
      (if int i \<in> set (sp_no_penalty s) then 0 else count_list (drop (length ts - 256) ts) (int i))) (logits ! i)"
proof -
  have "count_list (take (min 256 (length ts)) (sp_recent (accepted s ts))) = count_list (drop (length ts - 256) ts)"
    using accepted_window [OF assms(1), of ts] by (metis accepted_fields(5) count_mset ext)
  then show ?thesis using assms(2-4) by (simp add: repeat_penalties_def penalties_nth)
qed

lemma penalty_counts_window_witness:
  "repeat_penalties plain_fa (foldl sampler_accept (sampler_reset plain_sampler) [1, 0, 1]) [3, 8] ! 1 = 2"
  using penalty_counts_window [of plain_sampler 1 "[3, 8]" plain_fa "[1, 0, 1]"]
  by (simp add: plain_sampler_def penalty_def plain_fa_def numeral_2_eq_2)

end
