(* ===== verification/Spec2Isabelle.thy ===== *)
theory Spec2Isabelle
  imports Scheduler_Laws Quantize_Reopen Vramreg_Laws Envelope_Laws Conn_Queue Residency_Laws Tok_Round_Trip Sampler_Laws
begin

text \<open>
  A model of the core logic of the runner, an inference server for language models written in C
  (\<open>src/src\<close>), with the properties that make it correct.

  The program. \<open>main.c\<close> opens a model in the GGUF container format (\<open>gguf.c\<close>), builds a tokenizer, a
  sampler and a generation engine over it, and serves HTTP requests (\<open>http.c\<close>, \<open>server.c\<close>,
  \<open>completion.c\<close>, \<open>api_*.c\<close>). Slots of the server generate concurrently; \<open>scheduler.c\<close> gathers their
  next tokens into batches that one thread decodes. Requests and responses are JSON (\<open>json.c\<close>);
  output can be constrained to be JSON, for which \<open>jsonmode.c\<close> validates and completes prefixes.

  Theories, each over those before it:
  \<^item> \<open>Prelude\<close>: bytes, byte classes, generic lemmas, the collections of simplification rules.
  \<^item> \<open>Jsonmode\<close>: \<open>jsonmode.c\<close>, the incremental validator as a function of state and byte, its snapshots and the
    forced completion. Properties: a completed prefix is a whole document (C1), the output buffer
    is never overrun, no reachable state is a dead end (C5); trials on partial copies are exact.
  \<^item> \<open>Json\<close>, \<open>Json_Laws\<close>: \<open>json.c\<close>, the parser, the escaper, the growing string buffer and the
    serialiser. Properties: what is parsed is well formed (C6), round trips (C7, C8), bounds and failure of the
    buffers (C12), agreement of the two unescapers, the hash set of keys is a set (C11); the
    sort is stable and the fuel of the loops suffices. A C \<open>double\<close> is the rational it denotes;
    recursion is bounded by the parser's own nesting limit, and the loops over members by the length of the rest
    of the text, of which each turn takes at least one byte.
  \<^item> \<open>Http\<close>, \<open>Http_Laws\<close>: \<open>http.c\<close>, request line, framing, loopback check, responses (C15 to C18).
  \<^item> \<open>Fp16\<close>, \<open>Fp16_Laws\<close>: \<open>fp16.h\<close> and the half-precision rows of \<open>quantize.c\<close>: decoding is
    exact (C21), encoding rounds to nearest even (C22).
  \<^item> \<open>Gguf\<close>, \<open>Gguf_Laws\<close>: \<open>gguf.c\<close>, cursor, metadata, tensor directory, split models and the typed getters:
    an opened model is safe to read (C23), the header-only reader agrees with the full one (C24), the
    getters are exact and stay in bounds (C25, C26). The memory mapping is the parameter \<open>fs\<close>.
  \<^item> \<open>Turnstile\<close>, \<open>Scheduler\<close>, \<open>Scheduler_Laws\<close>: \<open>scheduler.c\<close> as a step relation of the decode thread and
    the slot threads. The device turn is the locale \<open>fifo_turn\<close>, interpreted on the two wrapping
    counters. No request gets another's logits (C27), the turn is exclusive and first come, first
    served (C28, C29), and a waiting request is always served (C30). \<open>model_batch_decode\<close> is a parameter.

  \<^item> \<open>Compat\<close>: the strict number parsing of \<open>compat.c\<close> and the environment overrides over it.
  \<^item> \<open>Vramreg\<close>, \<open>Vramreg_Laws\<close>: \<open>vramreg.c\<close>, the ledger in which processes claim the memory of a GPU. The
    locked read-modify-write of the file is a parameter, as are the clock and what the system says of processes
    (\<open>world\<close>); the polls of a waiting claim are a list of worlds. Properties: what is written is
    read back (C31), an admitted claim fits the free memory (C32), commit and release edit the lease's own entry
    (C33); the refusal stays in its buffer.
  \<^item> \<open>Gguf_Write\<close>, \<open>Quantize\<close>, \<open>Gguf_Codec\<close>, \<open>Quantize_Rows\<close>, \<open>Quantize_Laws\<close>, \<open>Quantize_Reopen\<close>: \<open>quantize.c\<close>, the
    writer of GGUF files: choice of types, pruning plan, header, table, data, and the temporary file that
    replaces the destination. The row kernels are parameters (\<open>kq\<close>, \<open>kd\<close>); the record \<open>env\<close> holds what the
    file system and the writes answer; the temporary file is assumed not to be one of the model's own. Properties:
    the destination is replaced whole or not at all (C35), reading stays in bounds (C36), and the written file
    opens as the same model in the chosen types (C37), where \<open>Gguf_Codec\<close> relates the writer to the reader.
  \<^item> \<open>Sha256\<close>, \<open>Sha256_Laws\<close>: the hash of \<open>envelope.c\<close>. The streamed hash is SHA-256 as FIPS 180-4 states it on the
    whole message (C38), whose constants are checked against the square and cube roots of the primes. The zero
    padding is given 64 turns; it needs at most 63.
  \<^item> \<open>Envelope\<close>, \<open>Envelope_Laws\<close>: the measured-envelope manifest of \<open>envelope.c\<close> and the gate over it, which reads the
    sidecar with the modelled JSON parser: what is refused, and what is said (C39). \<open>cvt\<close> stands for a
    conversion to \<open>int\<close> that C leaves undefined.
  \<^item> \<open>Conn_Queue\<close>: the ring of waiting connections of \<open>registry.c\<close>, an instance of the locale \<open>fifo\<close>: connections come
    out in order, each once, and those left at shutdown are all told.
  \<^item> \<open>Residency\<close>, \<open>Residency_Laws\<close>: the resident model of \<open>registry.c\<close> and the life of a request in \<open>handle_conn\<close>
    (\<open>server.c\<close>), as a step relation of the worker, the accept loop and the reaper with the mutex they share. A
    request is served from the model it asked for, whatever the others do, and no wish to unload outlives
    it (C40). Loading is a parameter: any outcome, of a model with the entry's path.
  \<^item> The tokenizer (\<open>tokenizer.c\<close>). \<open>Tok_Hash\<close>: the open-addressing string table, an instance of the locale
    \<open>str_map\<close>. \<open>Tok_Split\<close>, \<open>Tok_Split_Laws\<close>: the scanners that cut a text into pre-tokens; they end where the
    backtracking match of the reference regular expression does (C2). \<open>Tok_Queue\<close>: the binary heap of merge
    candidates, an instance of \<open>min_queue\<close>. \<open>Tokenizer\<close>: the tables built from a model's metadata, both merge
    loops, encoding and decoding. \<open>Tok_Merge_Laws\<close>: the greedy merging \<open>merges\<close> as a specification and the locales
    \<open>pair_scan\<close> and \<open>pair_queue\<close>, interpreted on the scans and the pushes of both tokenizers, over the linked symbols.
    \<open>Tokenizer_Laws\<close>, \<open>Tok_Encode_Laws\<close>, \<open>Tok_Round_Trip\<close>: a word is merged greedily by rank (C4), the special token
    found is the longest (C13), the two merge loops give the same tokens (C14), the ids are in range and fit (C34), and
    byte-level tokens decode to the text (C19). A rescan gets as many turns as there are symbols, each of which but
    the last removes one; the queue gets three per symbol, since a merge pushes at most two candidates and removes a
    symbol. Ranks up to 2^24 are exact as floats; \<open>few_merges\<close> says so where it matters.

  \<^item> \<open>Sampler\<close>, \<open>Sampler_Laws\<close>: \<open>sample.c\<close>, the penalty window, selection, filters and draw, and the presets of model
    families. A float is the rational it denotes and the arithmetic is a parameter (\<open>farith\<close>), of which the properties
    need little or nothing; the partition has two turns more than it has places. Properties: the window (C3),
    selection equals sorting (C9), a pick is valid on every path (C10), greedy picks are the best (C20).

  Not modelled: floating-point kernels (\<open>model.c\<close>, most of \<open>quants.c\<close>, the CUDA and Metal backends),
  sockets, processes and the user interface, which are calls of the operating system; the template engine, the
  schema engine and the completion handlers, which are languages or protocols of
  their own. Memory allocation is assumed to succeed except where
  the code's reaction to its failure is part of the model (the string buffer).
\<close>

end
